(* ===== verification/Xv6_Prelude.thy ===== *)
theory Xv6_Prelude
  imports Main "HOL-Library.Word"
begin

text \<open>
  The prelude of the development: the integer types of kernel/types.h, the result
  type of kernel operations with its sequencing combinator, the little-endian
  layout of words in byte-addressed memory, and the generic facts on words, lists
  and functions that the component theories share.

  Two collections carry the component proofs: \<open>kres_iff\<close> turns an equation
  "this sequence of calls returned normally" into what each call returned, and
  \<open>addr_simps\<close> normalises address arithmetic.
\<close>

unbundle bit_operations_syntax

type_synonym u8 = "8 word"
type_synonym u16 = "16 word"
type_synonym u32 = "32 word"
type_synonym u64 = "64 word"
type_synonym addr = "64 word"
type_synonym memory = "64 word \<Rightarrow> 8 word"

named_theorems kres_iff
named_theorems addr_simps

section \<open>Results of kernel operations\<close>

text \<open>
  A sleep channel is the address of a variable in the source; each such address
  is one constructor here (the argument is the array index or the object's
  address). \<open>slid\<close> names a sleep lock by the buffer or inode it belongs to.
\<close>

datatype slid = SlBuf nat | SlInode nat

datatype chan =
    ChNone
  | ChProc nat
  | ChSleepLock slid
  | ChTicks
  | ChLog
  | ChPipeRead addr
  | ChPipeWrite addr
  | ChConsR
  | ChUartTx
  | ChDiskFree
  | ChBuf nat

text \<open>
  An operation either returns normally (\<open>Inr\<close>), stops the machine with
  \<open>panic(msg)\<close>, or goes to sleep on a channel at a point where the source calls
  \<open>sleep(chan, lk)\<close>. \<open>NoFuel\<close> marks a recursion that the model cut off,
  \<open>Undef\<close> an access outside an array, where C leaves the behaviour undefined.
\<close>

datatype kerr = Panic string | Sleep chan | NoFuel | Undef

type_synonym 'a kres = "kerr + 'a"

definition bnd :: "'e + 'a \<Rightarrow> ('a \<Rightarrow> 'e + 'b) \<Rightarrow> 'e + 'b" where
  "bnd m f = (case m of Inl e \<Rightarrow> Inl e | Inr x \<Rightarrow> f x)"

lemma bnd_Inl [simp]: "bnd (Inl e) f = Inl e"
  by (simp add: bnd_def)

lemma bnd_Inr [simp]: "bnd (Inr x) f = f x"
  by (simp add: bnd_def)

lemma bnd_cong [fundef_cong]:
  "m = m' \<Longrightarrow> (\<And>x. m' = Inr x \<Longrightarrow> f x = g x) \<Longrightarrow> bnd m f = bnd m' g"
  by (auto simp: bnd_def split: sum.splits)

lemma bnd_eq_Inr [kres_iff]: "bnd m f = Inr y \<longleftrightarrow> (\<exists>x. m = Inr x \<and> f x = Inr y)"
  by (auto simp: bnd_def split: sum.splits)

lemma bnd_eq_Inl: "bnd m f = Inl e \<longleftrightarrow> m = Inl e \<or> (\<exists>x. m = Inr x \<and> f x = Inl e)"
  by (auto simp: bnd_def split: sum.splits)

lemma bnd_assoc: "bnd (bnd m f) g = bnd m (\<lambda>x. bnd (f x) g)"
  by (cases m) auto

lemma if_Inr_eq [kres_iff]:
  "(if c then Inl e else m) = Inr y \<longleftrightarrow> \<not> c \<and> m = Inr y"
  "(if c then m else Inl e) = Inr y \<longleftrightarrow> c \<and> m = Inr y"
  by auto

section \<open>Generic facts on words\<close>

lemma unat_u64: "unat (a::u64) < 2 ^ 64"
  using unsigned_less [of a, where 'a = nat] by simp


lemma bit_u64: "bit (a::u64) n \<Longrightarrow> n < 64"
  using bit_imp_le_length [of a n] by simp

lemma word_diff_less_iff:
  fixes x a n :: u64
  assumes "unat a + unat n \<le> 2 ^ 64"
  shows "x - a < n \<longleftrightarrow> unat a \<le> unat x \<and> unat x < unat a + unat n"
proof (cases "a \<le> x")
  case True
  then have "unat (x - a) = unat x - unat a" by (simp add: unat_sub)
  with True show ?thesis
    by (auto simp: word_less_nat_alt word_le_nat_alt)
next
  case False
  then have lt: "unat x < unat a" by (simp add: word_le_nat_alt)
  have "unat (x - a) = 2 ^ 64 + unat x - unat a"
    using lt by (simp add: unat_sub_if_size size_word.rep_eq)
  moreover have "unat n \<le> 2 ^ 64 - unat a" using assms by linarith
  moreover have "unat a < 2 ^ 64" using unsigned_less [of a] by simp
  ultimately show ?thesis using lt by (simp add: word_less_nat_alt)
qed

section \<open>Words in byte-addressed memory\<close>

text \<open>
  RISC-V is little-endian: byte \<open>i\<close> of a word is bits \<open>8 i\<close> to \<open>8 i + 7\<close>.
  \<open>le_bytes\<close> and \<open>le_word\<close> are the two directions; \<open>ld64\<close> and \<open>st64\<close> are a
  doubleword load and store, which on 8-aligned addresses behave like a map.
\<close>

definition le_bytes :: "'a::len word \<Rightarrow> nat \<Rightarrow> u8" where
  "le_bytes v i = ucast (drop_bit (8 * i) v)"

definition le_word :: "(nat \<Rightarrow> u8) \<Rightarrow> 'a::len word" where
  "le_word f = word_rcat (rev (map f [0..<LENGTH('a) div 8]))"

lemma bit_le_bytes: "bit (le_bytes v i) n \<longleftrightarrow> n < 8 \<and> bit v (8 * i + n)"
  by (auto simp: le_bytes_def bit_simps)

lemma bit_le_word:
  fixes f :: "nat \<Rightarrow> u8"
  assumes "8 dvd LENGTH('a::len)"
  shows "bit (le_word f :: 'a word) n \<longleftrightarrow> n < LENGTH('a) \<and> bit (f (n div 8)) (n mod 8)"
proof -
  have "n < LENGTH('a) \<Longrightarrow> n div 8 < LENGTH('a) div 8"
    using assms by (auto elim!: dvdE simp: less_mult_imp_div_less mult.commute)
  then show ?thesis
    unfolding le_word_def word_rcat_def
    by (auto simp: bit_simps bit_horner_sum_uint_exp_iff [where 'a = 8, simplified])
qed

lemma le_word_bytes:
  fixes v :: "'a::len word"
  assumes "8 dvd LENGTH('a)"
  shows "le_word (le_bytes v) = v"
  by (rule bit_word_eqI) (simp add: bit_le_word [OF assms] bit_le_bytes)

lemma le_word_cong:
  "(\<And>i. i < LENGTH('a) div 8 \<Longrightarrow> f i = g i) \<Longrightarrow> (le_word f :: 'a::len word) = le_word g"
  unfolding le_word_def by (rule arg_cong [where f = "\<lambda>xs. word_rcat (rev xs)"]) simp

lemma le_word_zero [simp]: "(le_word (\<lambda>_. 0) :: 'a::len word) = 0"
proof -
  have "horner_sum uint (2 ^ 8) (map (\<lambda>_. 0::u8) xs) = 0" for xs :: "nat list"
    by (induction xs) auto
  then show ?thesis unfolding le_word_def word_rcat_def by (simp add: rev_map)
qed

definition ld64 :: "memory \<Rightarrow> addr \<Rightarrow> u64" where
  "ld64 m a = le_word (\<lambda>i. m (a + of_nat i))"

definition st64 :: "memory \<Rightarrow> addr \<Rightarrow> u64 \<Rightarrow> memory" where
  "st64 m a v = (\<lambda>x. if x - a < 8 then le_bytes v (unat (x - a)) else m x)"

definition al8 :: "addr \<Rightarrow> bool" where
  "al8 a \<longleftrightarrow> 8 dvd unat a"

lemma ld64_cong: "(\<And>i. i < 8 \<Longrightarrow> m (a + of_nat i) = m' (a + of_nat i)) \<Longrightarrow> ld64 m a = ld64 m' a"
  unfolding ld64_def by (rule le_word_cong) simp

lemma small_of_nat_u64: "i < 8 \<Longrightarrow> (of_nat i :: u64) < 8 \<and> unat (of_nat i :: u64) = i"
  by (auto simp: word_less_nat_alt unat_of_nat)

lemma ld64_st64_same [simp]: "ld64 (st64 m a v) a = v"
proof -
  have "ld64 (st64 m a v) a = le_word (le_bytes v)"
    unfolding ld64_def st64_def
    by (rule le_word_cong) (auto dest: small_of_nat_u64)
  then show ?thesis by (simp add: le_word_bytes)
qed

lemma al8_diff_dvd: "al8 a \<Longrightarrow> al8 b \<Longrightarrow> 8 dvd unat (b - a)"
proof -
  assume a: "al8 a" "al8 b"
  have p: "(8::nat) dvd 2 ^ 64" by (simp add: dvd_eq_mod_eq_0)
  show ?thesis
  proof (cases "unat a \<le> unat b")
    case True
    with a show ?thesis by (simp add: al8_def unat_sub_if_size size_word.rep_eq)
  next
    case False
    have "unat (b - a) = 2 ^ 64 + unat b - unat a"
      using False by (simp add: unat_sub_if_size size_word.rep_eq)
    moreover have "8 dvd (2 ^ 64 + unat b - unat a)"
      using a p unfolding al8_def by (intro dvd_diff_nat dvd_add) auto
    ultimately show ?thesis by simp
  qed
qed

lemma al8_disjoint:
  assumes "al8 a" "al8 b" "a \<noteq> b" "i < 8"
  shows "\<not> (b + of_nat i) - a < 8"
proof -
  let ?d = "b - a"
  have "?d \<noteq> 0" using assms(3) by auto
  then have nz: "unat ?d \<noteq> 0" by (simp add: unat_eq_zero)
  from al8_diff_dvd [OF assms(1,2)] obtain k where k: "unat ?d = 8 * k" by (auto elim: dvdE)
  have lt: "unat ?d < 2 ^ 64" using unsigned_less [of ?d] by simp
  have "k < 2 ^ 61" using k lt by simp
  then have "8 * k + i < 2 ^ 64" using assms(4) by simp
  then have "unat (?d + of_nat i) = 8 * k + i"
    using k assms(4) by (simp add: unat_word_ariths unat_of_nat)
  moreover have "k \<noteq> 0" using nz k by auto
  ultimately have "8 \<le> unat (?d + of_nat i)" by simp
  moreover have "(b + of_nat i) - a = ?d + of_nat i" by simp
  ultimately have "8 \<le> unat ((b + of_nat i) - a)" by metis
  then show ?thesis by (simp add: word_less_nat_alt)
qed

lemma ld64_st64_other:
  assumes "al8 a" "al8 b" "a \<noteq> b"
  shows "ld64 (st64 m a v) b = ld64 m b"
  by (rule ld64_cong) (use al8_disjoint [OF assms] in \<open>auto simp: st64_def\<close>)

lemma ld64_st64: "al8 a \<Longrightarrow> al8 b \<Longrightarrow> ld64 (st64 m a v) b = (if a = b then v else ld64 m b)"
  by (auto simp: ld64_st64_other)


end
