(* ===== verification/Riscv.thy ===== *)
theory Riscv
  imports Xv6_Prelude
begin

text \<open>
  The machine-level macros of kernel/riscv.h and kernel/memlayout.h: the control
  and status registers of one hart as a record with the read and write functions
  of the source, page rounding, page-table entries, the three 9-bit indices of an
  Sv39 virtual address, and the fixed addresses of the memory layout. The lemmas
  say how rounding, entry packing and index extraction act on 64-bit words; every
  theory about memory uses them.
\<close>

section \<open>Control and status registers (riscv.h)\<close>

record hart =
  csr_mhartid :: u64
  csr_mstatus :: u64
  csr_mepc :: u64
  csr_sstatus :: u64
  csr_sip :: u64
  csr_sie :: u64
  csr_mie :: u64
  csr_sepc :: u64
  csr_medeleg :: u64
  csr_mideleg :: u64
  csr_stvec :: u64
  csr_mtvec :: u64
  csr_satp :: u64
  csr_mscratch :: u64
  csr_scause :: u64
  csr_stval :: u64
  reg_tp :: u64

definition r_mhartid :: "hart \<Rightarrow> u64" where "r_mhartid h = csr_mhartid h"
definition r_mstatus :: "hart \<Rightarrow> u64" where "r_mstatus h = csr_mstatus h"
definition w_mstatus :: "u64 \<Rightarrow> hart \<Rightarrow> hart" where "w_mstatus x h = h\<lparr>csr_mstatus := x\<rparr>"
definition w_mepc :: "u64 \<Rightarrow> hart \<Rightarrow> hart" where "w_mepc x h = h\<lparr>csr_mepc := x\<rparr>"
definition r_sstatus :: "hart \<Rightarrow> u64" where "r_sstatus h = csr_sstatus h"
definition w_sstatus :: "u64 \<Rightarrow> hart \<Rightarrow> hart" where "w_sstatus x h = h\<lparr>csr_sstatus := x\<rparr>"
definition r_sip :: "hart \<Rightarrow> u64" where "r_sip h = csr_sip h"
definition w_sip :: "u64 \<Rightarrow> hart \<Rightarrow> hart" where "w_sip x h = h\<lparr>csr_sip := x\<rparr>"
definition r_sie :: "hart \<Rightarrow> u64" where "r_sie h = csr_sie h"
definition w_sie :: "u64 \<Rightarrow> hart \<Rightarrow> hart" where "w_sie x h = h\<lparr>csr_sie := x\<rparr>"
definition r_mie :: "hart \<Rightarrow> u64" where "r_mie h = csr_mie h"
definition w_mie :: "u64 \<Rightarrow> hart \<Rightarrow> hart" where "w_mie x h = h\<lparr>csr_mie := x\<rparr>"
definition w_sepc :: "u64 \<Rightarrow> hart \<Rightarrow> hart" where "w_sepc x h = h\<lparr>csr_sepc := x\<rparr>"
definition r_sepc :: "hart \<Rightarrow> u64" where "r_sepc h = csr_sepc h"
definition w_medeleg :: "u64 \<Rightarrow> hart \<Rightarrow> hart" where "w_medeleg x h = h\<lparr>csr_medeleg := x\<rparr>"
definition w_mideleg :: "u64 \<Rightarrow> hart \<Rightarrow> hart" where "w_mideleg x h = h\<lparr>csr_mideleg := x\<rparr>"
definition w_stvec :: "u64 \<Rightarrow> hart \<Rightarrow> hart" where "w_stvec x h = h\<lparr>csr_stvec := x\<rparr>"
definition w_mtvec :: "u64 \<Rightarrow> hart \<Rightarrow> hart" where "w_mtvec x h = h\<lparr>csr_mtvec := x\<rparr>"
definition w_satp :: "u64 \<Rightarrow> hart \<Rightarrow> hart" where "w_satp x h = h\<lparr>csr_satp := x\<rparr>"
definition r_satp :: "hart \<Rightarrow> u64" where "r_satp h = csr_satp h"
definition w_mscratch :: "u64 \<Rightarrow> hart \<Rightarrow> hart" where "w_mscratch x h = h\<lparr>csr_mscratch := x\<rparr>"
definition r_scause :: "hart \<Rightarrow> u64" where "r_scause h = csr_scause h"
definition r_stval :: "hart \<Rightarrow> u64" where "r_stval h = csr_stval h"
definition r_tp :: "hart \<Rightarrow> u64" where "r_tp h = reg_tp h"
definition w_tp :: "u64 \<Rightarrow> hart \<Rightarrow> hart" where "w_tp x h = h\<lparr>reg_tp := x\<rparr>"

abbreviation (input) SSTATUS_SPP :: u64 where "SSTATUS_SPP \<equiv> 0x100"
abbreviation (input) SSTATUS_SPIE :: u64 where "SSTATUS_SPIE \<equiv> 0x20"
abbreviation (input) SSTATUS_SIE :: u64 where "SSTATUS_SIE \<equiv> 2"

definition intr_on :: "hart \<Rightarrow> hart" where
  "intr_on h = w_sstatus (r_sstatus h OR SSTATUS_SIE) h"

definition intr_off :: "hart \<Rightarrow> hart" where
  "intr_off h = w_sstatus (r_sstatus h AND NOT SSTATUS_SIE) h"

definition intr_get :: "hart \<Rightarrow> bool" where
  "intr_get h \<longleftrightarrow> r_sstatus h AND SSTATUS_SIE \<noteq> 0"

section \<open>Pages, page-table entries and virtual addresses (riscv.h)\<close>

abbreviation (input) PGSIZE :: u64 where "PGSIZE \<equiv> 4096"

definition PGROUNDUP :: "u64 \<Rightarrow> u64" where
  "PGROUNDUP sz = (sz + PGSIZE - 1) AND NOT (PGSIZE - 1)"

definition PGROUNDDOWN :: "u64 \<Rightarrow> u64" where
  "PGROUNDDOWN a = a AND NOT (PGSIZE - 1)"

abbreviation (input) PTE_V :: u64 where "PTE_V \<equiv> 1"
abbreviation (input) PTE_R :: u64 where "PTE_R \<equiv> 2"
abbreviation (input) PTE_W :: u64 where "PTE_W \<equiv> 4"
abbreviation (input) PTE_X :: u64 where "PTE_X \<equiv> 8"
abbreviation (input) PTE_U :: u64 where "PTE_U \<equiv> 16"
abbreviation (input) PTE_COW :: u64 where "PTE_COW \<equiv> 256"

definition PA2PTE :: "addr \<Rightarrow> u64" where
  "PA2PTE pa = push_bit 10 (drop_bit 12 pa)"

definition PTE2PA :: "u64 \<Rightarrow> addr" where
  "PTE2PA pte = push_bit 12 (drop_bit 10 pte)"

definition PTE_FLAGS :: "u64 \<Rightarrow> u64" where
  "PTE_FLAGS pte = pte AND 0x3FF"

definition PX :: "nat \<Rightarrow> u64 \<Rightarrow> u64" where
  "PX level va = drop_bit (12 + 9 * level) va AND 0x1FF"

abbreviation (input) MAXVA :: u64 where "MAXVA \<equiv> 0x4000000000"

definition MAKE_SATP :: "addr \<Rightarrow> u64" where
  "MAKE_SATP pagetable = 0x8000000000000000 OR drop_bit 12 pagetable"

section \<open>Memory layout (memlayout.h)\<close>

abbreviation (input) UART0 :: u64 where "UART0 \<equiv> 0x10000000"
abbreviation (input) VIRTIO0 :: u64 where "VIRTIO0 \<equiv> 0x10001000"
abbreviation (input) CLINT :: u64 where "CLINT \<equiv> 0x2000000"
abbreviation (input) PLIC :: u64 where "PLIC \<equiv> 0x0c000000"
abbreviation (input) KERNBASE :: u64 where "KERNBASE \<equiv> 0x80000000"
abbreviation (input) PHYSTOP :: u64 where "PHYSTOP \<equiv> 0x88000000"
abbreviation (input) TRAMPOLINE :: u64 where "TRAMPOLINE \<equiv> 0x3FFFFFF000"
abbreviation (input) TRAPFRAME :: u64 where "TRAPFRAME \<equiv> 0x3FFFFFE000"

definition KSTACK :: "nat \<Rightarrow> u64" where
  "KSTACK p = TRAMPOLINE - of_nat (p + 1) * 2 * PGSIZE"

section \<open>Interrupt flag\<close>

lemma intr_get_on [simp]: "intr_get (intr_on h)"
proof -
  have "bit ((r_sstatus h OR SSTATUS_SIE) AND SSTATUS_SIE) 1"
    by (simp add: bit_simps)
  then show ?thesis
    unfolding intr_get_def intr_on_def w_sstatus_def r_sstatus_def by (auto simp del: and.right_idem)
qed

lemma intr_get_off [simp]: "\<not> intr_get (intr_off h)"
proof -
  have "((x::u64) AND NOT y) AND y = 0" for x y
    by (rule bit_word_eqI) (auto simp: bit_and_iff bit_not_iff)
  from this [of "csr_sstatus h" SSTATUS_SIE] show ?thesis
    unfolding intr_get_def intr_off_def w_sstatus_def r_sstatus_def by simp
qed

section \<open>Page arithmetic\<close>

definition pgal :: "addr \<Rightarrow> bool" where
  "pgal a \<longleftrightarrow> 4096 dvd unat a"

lemma bit_mask_numerals:
  "bit (0xFFF :: int) n \<longleftrightarrow> n < 12"
  "bit (0x3FF :: int) n \<longleftrightarrow> n < 10"
  "bit (0x1FF :: int) n \<longleftrightarrow> n < 9"
proof -
  have eqs: "(0xFFF :: int) = mask 12" "(0x3FF :: int) = mask 10" "(0x1FF :: int) = mask 9"
    by (simp_all add: mask_eq_exp_minus_1)
  show "bit (0xFFF :: int) n \<longleftrightarrow> n < 12"
    "bit (0x3FF :: int) n \<longleftrightarrow> n < 10"
    "bit (0x1FF :: int) n \<longleftrightarrow> n < 9"
    unfolding eqs bit_mask_iff by auto
qed

lemma PGROUNDDOWN_shift: "PGROUNDDOWN a = push_bit 12 (drop_bit 12 a)"
proof -
  have "a AND NOT 0xFFF = push_bit 12 (drop_bit 12 a)"
    by (rule bit_word_eqI) (auto simp: bit_simps bit_mask_numerals)
  then show ?thesis by (simp add: PGROUNDDOWN_def)
qed

lemma unat_PGROUNDDOWN: "unat (PGROUNDDOWN a) = unat a div 4096 * 4096"
proof -
  have "unat a div 4096 * 4096 < 2 ^ 64"
    using unat_u64 [of a] div_times_less_eq_dividend [of "unat a" 4096] by simp
  then show ?thesis
    by (simp add: PGROUNDDOWN_shift push_bit_eq_mult unat_word_ariths unat_drop_bit_eq drop_bit_eq_div mult.commute)
qed

lemma pgal_PGROUNDDOWN [simp]: "pgal (PGROUNDDOWN a)"
  by (simp add: pgal_def unat_PGROUNDDOWN)

lemma PGROUNDDOWN_id: "pgal a \<Longrightarrow> PGROUNDDOWN a = a"
  by (rule word_unat_eq_iff [THEN iffD2]) (auto simp: pgal_def unat_PGROUNDDOWN)

lemma PGROUNDDOWN_eq_self: "PGROUNDDOWN a = a \<longleftrightarrow> pgal a"
  using PGROUNDDOWN_id pgal_PGROUNDDOWN by metis

lemma PGROUNDDOWN_idem [simp]: "PGROUNDDOWN (PGROUNDDOWN a) = PGROUNDDOWN a"
  by (simp add: PGROUNDDOWN_id)

lemma PGROUNDDOWN_le: "PGROUNDDOWN a \<le> a"
  by (simp add: word_le_nat_alt unat_PGROUNDDOWN)

lemma pgal_bound: "pgal p \<Longrightarrow> unat p + 4096 \<le> 2 ^ 64"
proof -
  assume "pgal p"
  then obtain k where k: "unat p = 4096 * k" by (auto simp: pgal_def elim: dvdE)
  have "unat p < 2 ^ 64" using unsigned_less [of p] by simp
  then have "k < 2 ^ 52" using k by simp
  then show ?thesis using k by simp
qed

lemma page_off_iff: "pgal p \<Longrightarrow> x - p < 4096 \<longleftrightarrow> PGROUNDDOWN x = p"
proof -
  assume p: "pgal p"
  then obtain k where k: "unat p = 4096 * k" by (auto simp: pgal_def elim: dvdE)
  have "x - p < 4096 \<longleftrightarrow> unat p \<le> unat x \<and> unat x < unat p + 4096"
    using word_diff_less_iff [of p 4096 x] pgal_bound [OF p] by simp
  also have "\<dots> \<longleftrightarrow> unat x div 4096 = k"
    unfolding k by (auto simp: div_nat_eqI)
  also have "\<dots> \<longleftrightarrow> PGROUNDDOWN x = p"
    by (simp add: word_unat_eq_iff unat_PGROUNDDOWN k mult.commute)
  finally show ?thesis .
qed

lemma PGROUNDDOWN_add: "pgal p \<Longrightarrow> off < 4096 \<Longrightarrow> PGROUNDDOWN (p + off) = p"
  using page_off_iff [of p "p + off"] by simp

lemma off_less_PGSIZE: "a - PGROUNDDOWN a < 4096"
  by (simp add: page_off_iff)

lemma unat_page_add: "pgal p \<Longrightarrow> off < 4096 \<Longrightarrow> unat (p + off) = unat p + unat off"
proof -
  assume "pgal p" "off < 4096"
  then have "unat p + unat off < 2 ^ 64" using pgal_bound [of p] by (simp add: word_less_nat_alt)
  then show ?thesis by (simp add: unat_word_ariths)
qed

lemma pgal_add_PGSIZE: "pgal a \<Longrightarrow> pgal (a + 4096)"
proof -
  assume a: "pgal a"
  have "(4096::nat) dvd 2 ^ 64" by (simp add: dvd_eq_mod_eq_0)
  with a show ?thesis by (simp add: pgal_def unat_word_ariths dvd_mod)
qed

lemma pgal_zero [simp]: "pgal 0"
  by (simp add: pgal_def)

lemma al8_page_add: "pgal p \<Longrightarrow> off < 4096 \<Longrightarrow> al8 (p + off) \<longleftrightarrow> 8 dvd unat off"
proof -
  assume "pgal p" "off < 4096"
  moreover from this have "8 dvd unat p" by (auto simp: pgal_def elim: dvd_trans [rotated])
  ultimately show ?thesis by (simp add: al8_def unat_page_add dvd_add_right_iff)
qed

lemma al8_bytes_same_page:
  assumes "al8 a" "i < 8"
  shows "PGROUNDDOWN (a + of_nat i) = PGROUNDDOWN a"
proof -
  obtain k where k: "unat a = 8 * k" using assms(1) by (auto simp: al8_def elim: dvdE)
  have "unat a < 2 ^ 64" using unsigned_less [of a] by simp
  then have "k < 2 ^ 61" using k by simp
  then have s: "unat (a + of_nat i) = 8 * k + i"
    using k assms(2) by (simp add: unat_word_ariths unat_of_nat)
  have "(8 * k + i) div 4096 = 8 * k div 4096"
    using assms(2) by (simp add: div_mult2_eq [of _ 8 512, simplified])
  then show ?thesis by (simp add: word_unat_eq_iff unat_PGROUNDDOWN s k)
qed

lemma unat_PGROUNDUP:
  assumes "unat a + 4095 < 2 ^ 64"
  shows "unat (PGROUNDUP a) = (unat a + 4095) div 4096 * 4096"
proof -
  have "PGROUNDUP a = PGROUNDDOWN (a + 4095)"
    by (simp add: PGROUNDUP_def PGROUNDDOWN_def add_diff_eq [symmetric])
  moreover have "unat (a + 4095) = unat a + 4095"
    using assms by (simp add: unat_word_ariths)
  ultimately show ?thesis by (simp add: unat_PGROUNDDOWN)
qed

lemma PGROUNDUP_DOWN: "PGROUNDUP a = PGROUNDDOWN (a + 4095)"
  by (simp add: PGROUNDUP_def PGROUNDDOWN_def add_diff_eq [symmetric])

lemma pgal_PGROUNDUP [simp]: "pgal (PGROUNDUP a)"
  by (simp add: PGROUNDUP_DOWN)

lemma PGROUNDUP_id: "pgal a \<Longrightarrow> PGROUNDUP a = a"
  by (simp add: PGROUNDUP_DOWN PGROUNDDOWN_add)

lemma PX_less: "PX l va < 512"
proof -
  have "drop_bit (12 + 9 * l) va AND 0x1FF \<le> 0x1FF" by (rule word_and_le1)
  then show ?thesis unfolding PX_def by (simp add: word_le_nat_alt word_less_nat_alt)
qed

lemma pgal_bits: "pgal a \<longleftrightarrow> (\<forall>n<12. \<not> bit a n)"
proof -
  have "pgal a \<longleftrightarrow> take_bit 12 (unat a) = 0"
    by (simp add: pgal_def take_bit_eq_mod dvd_eq_mod_eq_0)
  also have "\<dots> \<longleftrightarrow> (\<forall>n<12. \<not> bit a n)"
    by (auto simp: bit_eq_iff bit_simps)
  finally show ?thesis .
qed

lemma less_exp_bits: "unat (a::u64) < 2 ^ k \<longleftrightarrow> (\<forall>n\<ge>k. \<not> bit a n)"
proof -
  have "unat a < 2 ^ k \<longleftrightarrow> take_bit k a = a"
    by (simp add: word_unat_eq_iff unsigned_take_bit_eq take_bit_nat_eq_self_iff)
  also have "\<dots> \<longleftrightarrow> (\<forall>n. bit a n \<longrightarrow> n < k)"
    by (auto simp: bit_eq_iff [of "take_bit k a" a] bit_take_bit_iff dest: bit_u64)
  also have "\<dots> \<longleftrightarrow> (\<forall>n\<ge>k. \<not> bit a n)"
    using not_le by blast
  finally show ?thesis .
qed

lemma PTE2PA_PA2PTE:
  assumes "pgal pa" "unat pa < 2 ^ 56" "unat f < 2 ^ 10"
  shows "PTE2PA (PA2PTE pa OR f) = pa"
proof (rule bit_word_eqI)
  fix n
  show "bit (PTE2PA (PA2PTE pa OR f)) n = bit pa n"
    using assms unfolding pgal_bits less_exp_bits PTE2PA_def PA2PTE_def
    by (cases "n < 12") (auto simp: bit_simps not_less le_diff_conv dest: bit_imp_le_length)
qed

lemma PTE_FLAGS_PA2PTE:
  assumes "unat f < 2 ^ 10"
  shows "PTE_FLAGS (PA2PTE pa OR f) = f"
  using assms unfolding less_exp_bits PTE_FLAGS_def PA2PTE_def
  by (intro bit_word_eqI) (auto simp: bit_simps bit_mask_numerals not_le)

lemma PTE_split:
  assumes "unat pte < 2 ^ 54"
  shows "PA2PTE (PTE2PA pte) OR PTE_FLAGS pte = pte"
  using assms unfolding less_exp_bits PTE_FLAGS_def PA2PTE_def PTE2PA_def
proof (intro bit_word_eqI)
  fix n
  assume "\<forall>n\<ge>54. \<not> bit pte n"
  then have "bit pte n \<Longrightarrow> n < 54" using not_le by blast
  then show "bit (push_bit 10 (drop_bit 12 (push_bit 12 (drop_bit 10 pte))) OR (pte AND 0x3FF)) n = bit pte n"
    by (auto simp: bit_simps bit_mask_numerals)
qed

lemma PX_page_eq:
  assumes "unat va < 2 ^ 38" "unat vb < 2 ^ 38"
    and "PX 2 va = PX 2 vb" "PX 1 va = PX 1 vb" "PX 0 va = PX 0 vb"
  shows "PGROUNDDOWN va = PGROUNDDOWN vb"
proof -
  have b: "bit va (12 + 9 * l + k) = bit vb (12 + 9 * l + k)" if "k < 9" "PX l va = PX l vb" for l k
  proof -
    have "bit (PX l va) k = bit (PX l vb) k" using that by simp
    then show ?thesis using that(1) by (simp add: PX_def bit_simps bit_mask_numerals)
  qed
  have "bit va n = bit vb n" if "12 \<le> n" for n
  proof -
    consider "n < 21" | "21 \<le> n" "n < 30" | "30 \<le> n" "n < 39" | "39 \<le> n" by linarith
    then show ?thesis
    proof cases
      case 1 then show ?thesis using b [of "n - 12" 0] assms(5) that by simp
    next
      case 2 then show ?thesis using b [of "n - 21" 1] assms(4) by simp
    next
      case 3 then show ?thesis using b [of "n - 30" 2] assms(3) by simp
    next
      case 4 then show ?thesis using assms(1,2) unfolding less_exp_bits by simp
    qed
  qed
  then show ?thesis unfolding PGROUNDDOWN_shift
    by (intro bit_word_eqI) (auto simp: bit_simps)
qed

lemma PX_PGROUNDDOWN [simp]: "PX l (PGROUNDDOWN va) = PX l va"
  unfolding PX_def PGROUNDDOWN_shift
  by (intro bit_word_eqI) (auto simp: bit_simps add.assoc dest: bit_imp_le_length)

end
