(* ===== verification/KString.thy ===== *)
theory KString
  imports Riscv
begin

text \<open>
  kernel/string.c. \<open>memset\<close>, \<open>memmove\<close> and \<open>memcpy\<close> act on the byte-addressed
  memory, loop by loop as in the source. The functions that only read
  (\<open>memcmp\<close>, \<open>strncmp\<close>, \<open>strlen\<close>) take the bytes behind a pointer as a stream
  \<open>nat \<Rightarrow> u8\<close>, and the string copies return the bytes they store, first byte first.
  The lemmas give each loop its closed form; the other theories use only those.
\<close>

section \<open>memset, memmove, memcpy\<close>

function memset_loop :: "addr \<Rightarrow> u8 \<Rightarrow> nat \<Rightarrow> nat \<Rightarrow> memory \<Rightarrow> memory" where
  "memset_loop cdst c i n m =
     (if i < n then memset_loop cdst c (Suc i) n (m(cdst + of_nat i := c)) else m)"
  by pat_completeness auto
termination
  by (relation "measure (\<lambda>(cdst, c, i, n, m). n - i)") auto

declare memset_loop.simps [simp del]

definition memset :: "addr \<Rightarrow> u32 \<Rightarrow> u32 \<Rightarrow> memory \<Rightarrow> memory" where
  "memset dst c n m = memset_loop dst (ucast c) 0 (unat n) m"

fun memmove_up :: "addr \<Rightarrow> addr \<Rightarrow> nat \<Rightarrow> memory \<Rightarrow> memory" where
  "memmove_up d s 0 m = m"
| "memmove_up d s (Suc n) m = memmove_up (d + 1) (s + 1) n (m(d := m s))"

fun memmove_down :: "addr \<Rightarrow> addr \<Rightarrow> nat \<Rightarrow> memory \<Rightarrow> memory" where
  "memmove_down d s 0 m = m"
| "memmove_down d s (Suc n) m = memmove_down (d - 1) (s - 1) n (m(d - 1 := m (s - 1)))"

definition memmove :: "addr \<Rightarrow> addr \<Rightarrow> u32 \<Rightarrow> memory \<Rightarrow> memory" where
  "memmove dst src n m =
     (if src < dst \<and> src + ucast n > dst
      then memmove_down (dst + ucast n) (src + ucast n) (unat n) m
      else memmove_up dst src (unat n) m)"

definition memcpy :: "addr \<Rightarrow> addr \<Rightarrow> u32 \<Rightarrow> memory \<Rightarrow> memory" where
  "memcpy dst src n m = memmove dst src n m"

section \<open>Reading strings\<close>

fun memcmp :: "(nat \<Rightarrow> u8) \<Rightarrow> (nat \<Rightarrow> u8) \<Rightarrow> nat \<Rightarrow> int" where
  "memcmp s1 s2 0 = 0"
| "memcmp s1 s2 (Suc n) =
     (if s1 0 \<noteq> s2 0 then uint (s1 0) - uint (s2 0)
      else memcmp (\<lambda>i. s1 (Suc i)) (\<lambda>i. s2 (Suc i)) n)"

fun strncmp :: "(nat \<Rightarrow> u8) \<Rightarrow> (nat \<Rightarrow> u8) \<Rightarrow> nat \<Rightarrow> int" where
  "strncmp p q 0 = 0"
| "strncmp p q (Suc n) =
     (if p 0 \<noteq> 0 \<and> p 0 = q 0 then strncmp (\<lambda>i. p (Suc i)) (\<lambda>i. q (Suc i)) n
      else uint (p 0) - uint (q 0))"

partial_function (option) strlen_from :: "(nat \<Rightarrow> u8) \<Rightarrow> nat \<Rightarrow> nat option" where
  "strlen_from s n = (if s n \<noteq> 0 then strlen_from s (Suc n) else Some n)"

definition strlen :: "(nat \<Rightarrow> u8) \<Rightarrow> nat option" where
  "strlen s = strlen_from s 0"

section \<open>Copying strings\<close>

text \<open>\<open>strncpy\<close> stores exactly \<open>n\<close> bytes: the source up to and including its NUL, then zeros.\<close>

fun strncpy :: "(nat \<Rightarrow> u8) \<Rightarrow> nat \<Rightarrow> u8 list" where
  "strncpy t 0 = []"
| "strncpy t (Suc n) =
     (if t 0 \<noteq> 0 then t 0 # strncpy (\<lambda>i. t (Suc i)) n else 0 # replicate n 0)"

text \<open>
  \<open>safestrcpy\<close> stores at most \<open>n\<close> bytes, the last of them NUL; it stores nothing
  when \<open>n \<le> 0\<close>. \<open>safestrcpy_loop\<close> is the while loop with \<open>--n\<close> already done.
\<close>

fun safestrcpy_loop :: "(nat \<Rightarrow> u8) \<Rightarrow> nat \<Rightarrow> u8 list" where
  "safestrcpy_loop t 0 = [0]"
| "safestrcpy_loop t (Suc n) =
     (if t 0 \<noteq> 0 then t 0 # safestrcpy_loop (\<lambda>i. t (Suc i)) n else [0, 0])"

definition safestrcpy :: "(nat \<Rightarrow> u8) \<Rightarrow> int \<Rightarrow> u8 list" where
  "safestrcpy t n = (if n \<le> 0 then [] else safestrcpy_loop t (nat n - 1))"

text \<open>The C string a buffer of \<open>n\<close> bytes holds: its bytes before the first NUL.\<close>

definition cstr :: "(nat \<Rightarrow> u8) \<Rightarrow> nat \<Rightarrow> u8 list" where
  "cstr p n = takeWhile (\<lambda>b. b \<noteq> 0) (map p [0..<n])"

lemma cstr_0 [simp]: "cstr p 0 = []"
  by (simp add: cstr_def)

lemma cstr_Suc: "cstr p (Suc n) = (if p 0 = 0 then [] else p 0 # cstr (\<lambda>i. p (Suc i)) n)"
proof -
  have "[0..<Suc n] = 0 # map Suc [0..<n]" by (simp add: upt_conv_Cons map_Suc_upt del: upt_Suc)
  then show ?thesis by (simp add: cstr_def comp_def del: upt_Suc)
qed

section \<open>Closed forms of the memory loops\<close>

lemma memset_loop_eq:
  "i \<le> n \<Longrightarrow> n \<le> 2 ^ 32 \<Longrightarrow>
   memset_loop d c i n m =
     (\<lambda>x. if i \<le> unat (x - d) \<and> unat (x - d) < n then c else m x)"
proof (induction d c i n m rule: memset_loop.induct)
  case (1 d c i n m)
  show ?case
  proof (cases "i < n")
    case True
    have u: "unat (of_nat i :: u64) = i" using True 1(3) by (simp add: unat_of_nat)
    have "x - d = of_nat i \<longleftrightarrow> unat (x - d) = i" for x
      using u by (simp add: word_unat_eq_iff)
    then have eq: "x = d + of_nat i \<longleftrightarrow> unat (x - d) = i" for x
      by (metis add_diff_cancel_left' diff_add_cancel add.commute)
    have IH: "memset_loop d c (Suc i) n (m(d + of_nat i := c)) =
        (\<lambda>x. if Suc i \<le> unat (x - d) \<and> unat (x - d) < n then c else (m(d + of_nat i := c)) x)"
      using True 1(2,3) by (intro 1(1)) auto
    have "memset_loop d c i n m = memset_loop d c (Suc i) n (m(d + of_nat i := c))"
      using True by (subst memset_loop.simps) simp
    then show ?thesis
      unfolding IH using True by (auto simp: fun_eq_iff eq)
  next
    case False
    then show ?thesis using 1(2) by (subst memset_loop.simps) (auto simp: fun_eq_iff)
  qed
qed

lemma memset_eq: "memset d c n m = (\<lambda>x. if x - d < ucast n then ucast c else m x)"
proof -
  have "unat n < 2 ^ 32" using unsigned_less [of n, where 'a = nat] by simp
  moreover from this have "unat (ucast n :: u64) = unat n"
    by (simp add: unsigned_ucast_eq take_bit_nat_eq_self)
  ultimately show ?thesis
    by (simp add: memset_def memset_loop_eq word_less_nat_alt)
qed

lemma unat_Suc_off: "x \<noteq> d \<Longrightarrow> unat (x - d) = Suc (unat (x - (d + 1)))" for x d :: u64
proof -
  assume "x \<noteq> d"
  then have "x - d \<noteq> 0" by simp
  then have "unat (x - d) \<noteq> 0" by (simp add: unat_eq_0)
  moreover have "unat (x - d - 1) = unat (x - d) - 1"
    using \<open>x - d \<noteq> 0\<close> by (rule unat_minus_one)
  moreover have "x - (d + 1) = x - d - 1" by simp
  ultimately show ?thesis by (metis Suc_diff_1 gr0I)
qed

lemma memmove_up_eq:
  assumes "n \<le> 2 ^ 32" "\<not> (0 < unat (d - s) \<and> unat (d - s) < n)"
  shows "memmove_up d s n m = (\<lambda>x. if unat (x - d) < n then m (s + (x - d)) else m x)"
  using assms
proof (induction n arbitrary: d s m)
  case 0
  then show ?case by simp
next
  case (Suc n)
  have dd: "(d + 1) - (s + 1) = d - s" by simp
  have IH: "memmove_up (d + 1) (s + 1) n (m(d := m s)) =
     (\<lambda>x. if unat (x - (d + 1)) < n then (m(d := m s)) ((s + 1) + (x - (d + 1))) else (m(d := m s)) x)"
    using Suc.prems by (intro Suc.IH) (auto simp: dd)
  show ?case
  proof (rule ext)
    fix x
    show "memmove_up d s (Suc n) m x = (if unat (x - d) < Suc n then m (s + (x - d)) else m x)"
    proof (cases "x = d")
      case True
      have "x - (d + 1) = - 1" using True by simp
      then have "unat (x - (d + 1)) = 2 ^ 64 - 1" by (simp add: unsigned_minus_1_eq_mask mask_eq_exp_minus_1)
      then have "\<not> unat (x - (d + 1)) < n" using Suc.prems(1) by simp
      with True show ?thesis by (simp add: IH)
    next
      case False
      note u = unat_Suc_off [OF False]
      have "s + (x - d) \<noteq> d" if "unat (x - (d + 1)) < n"
      proof
        assume "s + (x - d) = d"
        then have "d - s = x - d" by (metis add_diff_cancel_left')
        then have "unat (d - s) = Suc (unat (x - (d + 1)))" using u by (simp only:)
        then show False using Suc.prems(2) that by linarith
      qed
      then show ?thesis using False u by (simp add: IH)
    qed
  qed
qed

lemma memmove_down_eq:
  assumes "n \<le> 2 ^ 32" "\<not> (0 < unat (s - d) \<and> unat (s - d) < n)"
  shows "memmove_down (d + of_nat n) (s + of_nat n) n m =
           (\<lambda>x. if unat (x - d) < n then m (s + (x - d)) else m x)"
  using assms
proof (induction n arbitrary: m)
  case 0
  then show ?case by simp
next
  case (Suc n)
  let ?m = "m(d + of_nat n := m (s + of_nat n))"
  have IH: "memmove_down (d + of_nat n) (s + of_nat n) n ?m =
      (\<lambda>x. if unat (x - d) < n then ?m (s + (x - d)) else ?m x)"
    using Suc.prems by (intro Suc.IH) auto
  have step: "memmove_down (d + of_nat (Suc n)) (s + of_nat (Suc n)) (Suc n) m =
      memmove_down (d + of_nat n) (s + of_nat n) n ?m"
    by (simp add: algebra_simps)
  have n64: "unat (of_nat n :: u64) = n" using Suc.prems(1) by (simp add: unat_of_nat)
  show ?case
  proof (rule ext)
    fix x
    have eqn: "x = d + of_nat n \<longleftrightarrow> unat (x - d) = n"
      using n64 by (metis add_diff_cancel_left' diff_add_cancel add.commute word_unat_eq_iff)
    have "s + (x - d) \<noteq> d + of_nat n" if lt: "unat (x - d) < n"
    proof
      assume "s + (x - d) = d + of_nat n"
      then have "s - d = of_nat n - (x - d)" by (simp add: algebra_simps)
      moreover have "unat (of_nat n - (x - d)) = n - unat (x - d)"
        using lt n64 by (simp add: unat_sub word_le_nat_alt)
      ultimately have "unat (s - d) = n - unat (x - d)" by metis
      then show False using Suc.prems(2) lt by simp
    qed
    then show "memmove_down (d + of_nat (Suc n)) (s + of_nat (Suc n)) (Suc n) m x =
        (if unat (x - d) < Suc n then m (s + (x - d)) else m x)"
      unfolding step IH using eqn by (auto simp: less_Suc_eq)
  qed
qed

lemma memmove_eq:
  assumes "unat src + unat n < 2 ^ 64" "unat dst + unat n < 2 ^ 64"
  shows "memmove dst src n m = (\<lambda>x. if x - dst < ucast n then m (src + (x - dst)) else m x)"
proof -
  have n32: "unat n < 2 ^ 32" using unsigned_less [of n, where 'a = nat] by simp
  then have un: "unat (ucast n :: u64) = unat n"
    by (simp add: unsigned_ucast_eq take_bit_nat_eq_self)
  then have cn: "(ucast n :: u64) = of_nat (unat n)" by (simp add: word_unat_eq_iff unat_of_nat n32 [THEN less_trans])
  have sn: "unat (src + ucast n) = unat src + unat n" using assms(1) un by (simp add: unat_word_ariths)
  show ?thesis
  proof (cases "src < dst \<and> src + ucast n > dst")
    case True
    then have lt: "unat src < unat dst" by (simp add: word_less_nat_alt)
    then have "unat (src - dst) = 2 ^ 64 + unat src - unat dst"
      by (simp add: unat_sub_if_size size_word.rep_eq)
    then have "\<not> (0 < unat (src - dst) \<and> unat (src - dst) < unat n)"
      using assms(2) lt by linarith
    then have "memmove_down (dst + of_nat (unat n)) (src + of_nat (unat n)) (unat n) m =
        (\<lambda>x. if unat (x - dst) < unat n then m (src + (x - dst)) else m x)"
      using n32 by (intro memmove_down_eq) auto
    then show ?thesis
      unfolding memmove_def using True un by (simp only: if_True cn word_less_nat_alt simp_thms)
  next
    case False
    have "\<not> (0 < unat (dst - src) \<and> unat (dst - src) < unat n)"
    proof (cases "src < dst")
      case True
      then have "unat (dst - src) = unat dst - unat src"
        by (simp add: unat_sub word_le_nat_alt word_less_nat_alt)
      then show ?thesis using True False sn by (simp add: word_less_nat_alt)
    next
      case nlt: False
      then consider "src = dst" | "unat dst < unat src"
        by (metis linorder_neqE_nat word_less_nat_alt word_unat_eq_iff)
      then show ?thesis
      proof cases
        case 1 then show ?thesis by simp
      next
        case 2
        then have "unat (dst - src) = 2 ^ 64 + unat dst - unat src"
          by (simp add: unat_sub_if_size size_word.rep_eq)
        then show ?thesis using assms(1) by linarith
      qed
    qed
    then have "memmove_up dst src (unat n) m =
        (\<lambda>x. if unat (x - dst) < unat n then m (src + (x - dst)) else m x)"
      using n32 by (intro memmove_up_eq) auto
    then show ?thesis
      unfolding memmove_def using False un by (simp only: if_False word_less_nat_alt)
  qed
qed

section \<open>Strings\<close>

lemma memcmp_0_iff: "memcmp s1 s2 n = 0 \<longleftrightarrow> (\<forall>i<n. s1 i = s2 i)"
proof (induction s1 s2 n rule: memcmp.induct)
  case (2 s1 s2 n)
  then show ?case by (auto simp: less_Suc_eq_0_disj word_uint_eq_iff)
qed simp

lemma strncmp_0_iff: "strncmp p q n = 0 \<longleftrightarrow> cstr p n = cstr q n"
proof (induction p q n rule: strncmp.induct)
  case (2 p q n)
  then show ?case by (auto simp: cstr_Suc word_uint_eq_iff)
qed simp

lemma strlen_from_eq:
  assumes "s k = 0" "i \<le> k" "\<And>j. i \<le> j \<Longrightarrow> j < k \<Longrightarrow> s j \<noteq> 0"
  shows "strlen_from s i = Some k"
  using assms
proof (induction "k - i" arbitrary: i)
  case 0
  then show ?case by (simp add: strlen_from.simps)
next
  case (Suc x)
  then have "s i \<noteq> 0" by simp
  then show ?case using Suc by (subst strlen_from.simps) simp
qed

lemma strlen_eq: "s k = 0 \<Longrightarrow> (\<And>j. j < k \<Longrightarrow> s j \<noteq> 0) \<Longrightarrow> strlen s = Some k"
  by (simp add: strlen_def strlen_from_eq)

lemma length_strncpy [simp]: "length (strncpy t n) = n"
  by (induction t n rule: strncpy.induct) auto

lemma cstr_list_nth: "cstr (\<lambda>i. xs ! i) (length xs) = takeWhile (\<lambda>b. b \<noteq> 0) xs"
  by (simp add: cstr_def map_nth)

lemma takeWhile_strncpy: "takeWhile (\<lambda>b. b \<noteq> 0) (strncpy t n) = cstr t n"
  by (induction t n rule: strncpy.induct) (auto simp: cstr_Suc)

lemma cstr_strncpy: "cstr (\<lambda>i. strncpy t n ! i) n = cstr t n"
  using cstr_list_nth [of "strncpy t n"] by (simp add: takeWhile_strncpy)

lemma safestrcpy_loop_props:
  "length (safestrcpy_loop t k) \<le> Suc k \<and> last (safestrcpy_loop t k) = 0 \<and> safestrcpy_loop t k \<noteq> [] \<and>
   takeWhile (\<lambda>b. b \<noteq> 0) (safestrcpy_loop t k) = cstr t k"
  by (induction t k rule: safestrcpy_loop.induct) (auto simp: cstr_Suc)

lemma safestrcpy_cstr:
  assumes "0 < n"
  shows "length (safestrcpy t n) \<le> nat n" "safestrcpy t n \<noteq> []" "last (safestrcpy t n) = 0"
    "takeWhile (\<lambda>b. b \<noteq> 0) (safestrcpy t n) = cstr t (nat n - 1)"
  using safestrcpy_loop_props [of t "nat n - 1"] assms by (auto simp: safestrcpy_def)

end
