(* ===== verification/Spinlock.thy ===== *)
theory Spinlock
  imports KString
begin

text \<open>
  kernel/spinlock.c, three times over the same lines.
  (1) The functions on the machine: a spinlock record, the per-CPU \<open>noff\<close> and
  \<open>intena\<close> of struct cpu and each hart's interrupt-enable flag.
  (2) The protocol as a step relation in which any number of harts interleave the
  atomic steps of \<open>acquire\<close> and \<open>release\<close>; its invariant gives mutual exclusion.
  (3) The view of one kernel thread: the set of spinlocks it holds. The other
  theories run \<open>acquire\<close> and \<open>release\<close> on that set, so a double acquire, a
  release of a lock not held, and sleeping with a lock held are visible in them.
  The locale \<open>lock_view\<close> is the contract the two sequential versions share.
\<close>

section \<open>Spinlocks on the machine\<close>

record spinlock =
  locked :: u32
  lkname :: string
  lkcpu :: "nat option"

record cpu =
  cpuproc :: "nat option"
  noff :: int
  intena :: bool

datatype lockid =
    LkKmem | LkPageref | LkPid | LkProc nat | LkSleep slid | LkBcache | LkLog
  | LkIcache | LkFtable | LkPipe addr | LkCons | LkUart | LkPr | LkTicks | LkVdisk

record machine =
  locks :: "lockid \<Rightarrow> spinlock"
  cpus :: "nat \<Rightarrow> cpu"
  sie :: "nat \<Rightarrow> bool"

definition initlock :: "string \<Rightarrow> spinlock" where
  "initlock name = \<lparr>locked = 0, lkname = name, lkcpu = None\<rparr>"

text \<open>\<open>holding\<close>: is the lock held, and by this CPU?\<close>

definition holding :: "nat \<Rightarrow> spinlock \<Rightarrow> bool" where
  "holding c lk \<longleftrightarrow> locked lk \<noteq> 0 \<and> lkcpu lk = Some c"

definition push_off :: "nat \<Rightarrow> machine \<Rightarrow> machine" where
  "push_off c s =
     (let old = sie s c;
          k = cpus s c;
          k = (if noff k = 0 then k\<lparr>intena := old\<rparr> else k);
          k = k\<lparr>noff := noff k + 1\<rparr>
      in s\<lparr>sie := (sie s)(c := False), cpus := (cpus s)(c := k)\<rparr>)"

definition pop_off :: "nat \<Rightarrow> machine \<Rightarrow> machine kres" where
  "pop_off c s =
     (if sie s c then Inl (Panic ''pop_off - interruptible'')
      else if noff (cpus s c) < 1 then Inl (Panic ''pop_off'')
      else let k = (cpus s c)\<lparr>noff := noff (cpus s c) - 1\<rparr>
           in Inr (s\<lparr>cpus := (cpus s)(c := k),
                     sie := (sie s)(c := (if noff k = 0 \<and> intena k then True else sie s c))\<rparr>))"

text \<open>
  \<open>spin_acquire\<close> runs \<open>acquire\<close> up to the first atomic swap. \<open>None\<close> says that the
  swap found the lock taken, so the CPU keeps spinning with interrupts off.
\<close>

definition spin_acquire :: "nat \<Rightarrow> lockid \<Rightarrow> machine \<Rightarrow> machine option kres" where
  "spin_acquire c l s =
     (let s = push_off c s
      in if holding c (locks s l) then Inl (Panic ''acquire'')
         else if locked (locks s l) \<noteq> 0 then Inr None
         else Inr (Some (s\<lparr>locks := (locks s)(l := (locks s l)\<lparr>locked := 1, lkcpu := Some c\<rparr>)\<rparr>)))"

definition spin_release :: "nat \<Rightarrow> lockid \<Rightarrow> machine \<Rightarrow> machine kres" where
  "spin_release c l s =
     (if \<not> holding c (locks s l) then Inl (Panic ''release'')
      else pop_off c (s\<lparr>locks := (locks s)(l := (locks s l)\<lparr>lkcpu := None, locked := 0\<rparr>)\<rparr>))"

section \<open>push_off and pop_off nest\<close>

fun push_offs :: "nat \<Rightarrow> nat \<Rightarrow> machine \<Rightarrow> machine" where
  "push_offs c 0 s = s"
| "push_offs c (Suc n) s = push_offs c n (push_off c s)"

fun pop_offs :: "nat \<Rightarrow> nat \<Rightarrow> machine \<Rightarrow> machine kres" where
  "pop_offs c 0 s = Inr s"
| "pop_offs c (Suc n) s = bnd (pop_off c s) (pop_offs c n)"

lemma push_off_sie [simp]: "sie (push_off c s) = (sie s)(c := False)"
  by (simp add: push_off_def Let_def)

lemma push_off_noff [simp]: "noff (cpus (push_off c s) c) = noff (cpus s c) + 1"
  by (simp add: push_off_def Let_def)

lemma push_off_intena:
  "intena (cpus (push_off c s) c) = (if noff (cpus s c) = 0 then sie s c else intena (cpus s c))"
  by (simp add: push_off_def Let_def)

lemma push_off_locks [simp]: "locks (push_off c s) = locks s"
  by (simp add: push_off_def Let_def)

lemma push_off_other: "c' \<noteq> c \<Longrightarrow> cpus (push_off c s) c' = cpus s c'"
  by (simp add: push_off_def Let_def)

lemma push_offs_noff: "noff (cpus (push_offs c n s) c) = noff (cpus s c) + int n"
  by (induction n arbitrary: s) auto

lemma push_offs_sie: "sie (push_offs c n s) c \<longleftrightarrow> n = 0 \<and> sie s c"
  by (induction n arbitrary: s) auto

lemma push_offs_intena:
  "0 \<le> noff (cpus s c) \<Longrightarrow>
   intena (cpus (push_offs c n s) c) = (if n > 0 \<and> noff (cpus s c) = 0 then sie s c else intena (cpus s c))"
  by (induction n arbitrary: s) (auto simp: push_off_intena)

lemma pop_offs_ok:
  "\<not> sie s c \<Longrightarrow> int n \<le> noff (cpus s c) \<Longrightarrow> 0 < n \<Longrightarrow>
   \<exists>s'. pop_offs c n s = Inr s' \<and> noff (cpus s' c) = noff (cpus s c) - int n \<and>
        sie s' c = (noff (cpus s c) = int n \<and> intena (cpus s c))"
proof (induction n arbitrary: s)
  case 0
  then show ?case by simp
next
  case (Suc n)
  let ?k = "(cpus s c)\<lparr>noff := noff (cpus s c) - 1\<rparr>"
  let ?s = "s\<lparr>cpus := (cpus s)(c := ?k), sie := (sie s)(c := (if noff ?k = 0 \<and> intena ?k then True else sie s c))\<rparr>"
  have p: "pop_off c s = Inr ?s" using Suc.prems by (simp add: pop_off_def Let_def)
  show ?case
  proof (cases n)
    case 0
    then show ?thesis using p Suc.prems by auto
  next
    case (Suc k)
    with Suc.prems have "\<not> sie ?s c" "int n \<le> noff (cpus ?s c)" "0 < n" by auto
    from Suc.IH [OF this] show ?thesis using p by auto
  qed
qed

section \<open>Mutual exclusion between harts\<close>

text \<open>
  The program points of one hart in \<open>acquire\<close> and \<open>release\<close> of one lock. Each rule
  is one atomic memory access of the source: the swap, the stores to \<open>lk->cpu\<close> and
  the releasing store to \<open>lk->locked\<close>.
\<close>

datatype lkpc = Out | Enter | Spin | Got | Crit | Leave | Unlocked | Stuck string

record lksys =
  lpc :: "nat \<Rightarrow> lkpc"
  lkv :: spinlock

definition lk_init :: "string \<Rightarrow> lksys" where
  "lk_init name = \<lparr>lpc = (\<lambda>_. Out), lkv = initlock name\<rparr>"

inductive lk_step :: "lksys \<Rightarrow> lksys \<Rightarrow> bool" where
  enter: "lpc s c = Out \<Longrightarrow> lk_step s (s\<lparr>lpc := (lpc s)(c := Enter)\<rparr>)"
| enter_held: "lpc s c = Enter \<Longrightarrow> holding c (lkv s) \<Longrightarrow>
     lk_step s (s\<lparr>lpc := (lpc s)(c := Stuck ''acquire'')\<rparr>)"
| enter_free: "lpc s c = Enter \<Longrightarrow> \<not> holding c (lkv s) \<Longrightarrow>
     lk_step s (s\<lparr>lpc := (lpc s)(c := Spin)\<rparr>)"
| swap_busy: "lpc s c = Spin \<Longrightarrow> locked (lkv s) \<noteq> 0 \<Longrightarrow>
     lk_step s (s\<lparr>lkv := (lkv s)\<lparr>locked := 1\<rparr>\<rparr>)"
| swap_free: "lpc s c = Spin \<Longrightarrow> locked (lkv s) = 0 \<Longrightarrow>
     lk_step s (s\<lparr>lkv := (lkv s)\<lparr>locked := 1\<rparr>, lpc := (lpc s)(c := Got)\<rparr>)"
| owner: "lpc s c = Got \<Longrightarrow>
     lk_step s (s\<lparr>lkv := (lkv s)\<lparr>lkcpu := Some c\<rparr>, lpc := (lpc s)(c := Crit)\<rparr>)"
| release_bad: "lpc s c = Crit \<Longrightarrow> \<not> holding c (lkv s) \<Longrightarrow>
     lk_step s (s\<lparr>lpc := (lpc s)(c := Stuck ''release'')\<rparr>)"
| disown: "lpc s c = Crit \<Longrightarrow> holding c (lkv s) \<Longrightarrow>
     lk_step s (s\<lparr>lkv := (lkv s)\<lparr>lkcpu := None\<rparr>, lpc := (lpc s)(c := Leave)\<rparr>)"
| unlock: "lpc s c = Leave \<Longrightarrow>
     lk_step s (s\<lparr>lkv := (lkv s)\<lparr>locked := 0\<rparr>, lpc := (lpc s)(c := Unlocked)\<rparr>)"
| leave: "lpc s c = Unlocked \<Longrightarrow> lk_step s (s\<lparr>lpc := (lpc s)(c := Out)\<rparr>)"

definition owns :: "lksys \<Rightarrow> nat \<Rightarrow> bool" where
  "owns s c \<longleftrightarrow> lpc s c \<in> {Got, Crit, Leave}"

definition lk_inv :: "lksys \<Rightarrow> bool" where
  "lk_inv s \<longleftrightarrow>
     (\<forall>c c'. owns s c \<longrightarrow> owns s c' \<longrightarrow> c = c') \<and>
     (locked (lkv s) \<noteq> 0 \<longleftrightarrow> (\<exists>c. owns s c)) \<and>
     (\<forall>c. lkcpu (lkv s) = Some c \<longleftrightarrow> lpc s c = Crit) \<and>
     (\<forall>c m. lpc s c \<noteq> Stuck m)"

inductive lk_reachable :: "string \<Rightarrow> lksys \<Rightarrow> bool" for name where
  start: "lk_reachable name (lk_init name)"
| step: "lk_reachable name s \<Longrightarrow> lk_step s t \<Longrightarrow> lk_reachable name t"

lemma lk_inv_init: "lk_inv (lk_init name)"
  by (simp add: lk_inv_def lk_init_def owns_def initlock_def)

lemma lk_inv_frame:
  assumes "lk_inv s" "\<And>c. owns t c \<longleftrightarrow> owns s c" "locked (lkv t) \<noteq> 0 \<longleftrightarrow> locked (lkv s) \<noteq> 0"
    "lkcpu (lkv t) = lkcpu (lkv s)" "\<And>c. lpc t c = Crit \<longleftrightarrow> lpc s c = Crit"
    "\<And>c m. lpc t c = Stuck m \<Longrightarrow> lpc s c = Stuck m"
  shows "lk_inv t"
  using assms(1) unfolding lk_inv_def assms(2-5) using assms(6) by blast

lemma lk_inv_alone:
  assumes "lk_inv s" "\<And>c'. c' \<noteq> c \<Longrightarrow> lpc t c' = lpc s c'" "\<And>c'. c' \<noteq> c \<Longrightarrow> \<not> owns s c'"
    "locked (lkv t) \<noteq> 0 \<longleftrightarrow> owns t c" "lkcpu (lkv t) = (if lpc t c = Crit then Some c else None)"
    "\<And>m. lpc t c \<noteq> Stuck m"
  shows "lk_inv t"
proof -
  have o: "owns t c' \<Longrightarrow> c' = c" for c'
    using assms(2) [of c'] assms(3) [of c'] by (cases "c' = c") (auto simp: owns_def)
  have crit: "lpc t c' = Crit \<Longrightarrow> c' = c" for c' using o [of c'] by (simp add: owns_def)
  have st: "lpc t c' \<noteq> Stuck m" for c' m
    using assms(1) assms(2) [of c'] assms(6) [of m] unfolding lk_inv_def by (cases "c' = c") auto
  have ex: "(\<exists>c'. owns t c') \<longleftrightarrow> owns t c" using o by blast
  have cpu: "lkcpu (lkv t) = Some c' \<longleftrightarrow> lpc t c' = Crit" for c'
    using crit [of c'] assms(5) by (cases "c' = c") auto
  show ?thesis
    unfolding lk_inv_def ex using o st cpu assms(4) by (simp; blast)
qed

lemma lk_inv_owner: "lk_inv s \<Longrightarrow> owns s c \<Longrightarrow> c' \<noteq> c \<Longrightarrow> \<not> owns s c'"
  unfolding lk_inv_def by blast

lemma lk_inv_locked: "lk_inv s \<Longrightarrow> owns s c \<Longrightarrow> locked (lkv s) \<noteq> 0"
  unfolding lk_inv_def by blast

lemma lk_inv_cpu: "lk_inv s \<Longrightarrow> lkcpu (lkv s) = Some c \<longleftrightarrow> lpc s c = Crit"
  unfolding lk_inv_def by blast

lemma lk_step_inv: "lk_step s t \<Longrightarrow> lk_inv s \<Longrightarrow> lk_inv t"
proof (induction rule: lk_step.induct)
  case (enter s c)
  then show ?case by (intro lk_inv_frame [OF enter(2)]) (auto simp: owns_def split: if_splits)
next
  case (enter_held s c)
  then have "lpc s c = Crit" using lk_inv_cpu [of s c] by (simp add: holding_def)
  with enter_held(1) show ?case by simp
next
  case (enter_free s c)
  then show ?case by (intro lk_inv_frame [OF enter_free(3)]) (auto simp: owns_def split: if_splits)
next
  case (swap_busy s c)
  then show ?case by (intro lk_inv_frame [OF swap_busy(3)]) (auto simp: owns_def)
next
  case (swap_free s c)
  have no: "\<not> owns s c'" for c' using swap_free(2,3) lk_inv_locked by blast
  then have "lkcpu (lkv s) = None"
    using lk_inv_cpu [OF swap_free(3)] by (cases "lkcpu (lkv s)") (auto simp: owns_def)
  with no swap_free show ?case
    by (intro lk_inv_alone [OF swap_free(3), of c]) (auto simp: owns_def)
next
  case (owner s c)
  have oc: "owns s c" using owner(1) by (simp add: owns_def)
  show ?case
    using lk_inv_owner [OF owner(2) oc] lk_inv_locked [OF owner(2) oc]
    by (intro lk_inv_alone [OF owner(2), of c]) (auto simp: owns_def)
next
  case (release_bad s c)
  have oc: "owns s c" using release_bad(1) by (simp add: owns_def)
  then show ?case
    using release_bad lk_inv_locked [OF release_bad(3) oc] lk_inv_cpu [OF release_bad(3), of c]
    by (simp add: holding_def)
next
  case (disown s c)
  have oc: "owns s c" using disown(1) by (simp add: owns_def)
  show ?case
    using lk_inv_owner [OF disown(3) oc] lk_inv_locked [OF disown(3) oc]
    by (intro lk_inv_alone [OF disown(3), of c]) (auto simp: owns_def)
next
  case (unlock s c)
  have oc: "owns s c" using unlock by (simp add: owns_def)
  have "lkcpu (lkv s) = None"
  proof (cases "lkcpu (lkv s)")
    case (Some d)
    then have "lpc s d = Crit" using lk_inv_cpu [OF unlock(2)] by simp
    moreover from this have "d = c" using lk_inv_owner [OF unlock(2) oc, of d] by (auto simp: owns_def)
    ultimately show ?thesis using unlock(1) by simp
  qed
  then show ?case
    using lk_inv_owner [OF unlock(2) oc]
    by (intro lk_inv_alone [OF unlock(2), of c]) (auto simp: owns_def)
next
  case (leave s c)
  then show ?case by (intro lk_inv_frame [OF leave(2)]) (auto simp: owns_def split: if_splits)
qed

lemma lk_reachable_inv: "lk_reachable name s \<Longrightarrow> lk_inv s"
  by (induction rule: lk_reachable.induct) (auto intro: lk_inv_init lk_step_inv)

section \<open>The locks a kernel thread holds\<close>

record lockst =
  held :: "lockid set"

definition acquire :: "lockid \<Rightarrow> 'a lockst_scheme \<Rightarrow> 'a lockst_scheme kres" where
  "acquire l s =
     (if l \<in> held s then Inl (Panic ''acquire'') else Inr (s\<lparr>held := insert l (held s)\<rparr>))"

definition release :: "lockid \<Rightarrow> 'a lockst_scheme \<Rightarrow> 'a lockst_scheme kres" where
  "release l s =
     (if l \<notin> held s then Inl (Panic ''release'') else Inr (s\<lparr>held := held s - {l}\<rparr>))"

lemma acquire_free [simp]: "l \<notin> held s \<Longrightarrow> acquire l s = Inr (s\<lparr>held := insert l (held s)\<rparr>)"
  by (simp add: acquire_def)

lemma acquire_held [simp]: "l \<in> held s \<Longrightarrow> acquire l s = Inl (Panic ''acquire'')"
  by (simp add: acquire_def)

lemma release_held [simp]: "l \<in> held s \<Longrightarrow> release l s = Inr (s\<lparr>held := held s - {l}\<rparr>)"
  by (simp add: release_def)

lemma acquire_Inr [kres_iff]:
  "acquire l s = Inr s' \<longleftrightarrow> l \<notin> held s \<and> s' = s\<lparr>held := insert l (held s)\<rparr>"
  by (auto simp: acquire_def)

lemma release_Inr [kres_iff]:
  "release l s = Inr s' \<longleftrightarrow> l \<in> held s \<and> s' = s\<lparr>held := held s - {l}\<rparr>"
  by (auto simp: release_def)

lemma held_self [simp]: "s\<lparr>held := held s\<rparr> = s" for s :: "'a lockst_scheme"
  by simp

text \<open>
  The contract of \<open>acquire\<close> and \<open>release\<close> towards their callers, over an abstract
  view \<open>view s\<close> of the locks the caller holds.
\<close>

locale lock_view =
  fixes acq :: "'l \<Rightarrow> 's \<Rightarrow> 's kres"
    and rel :: "'l \<Rightarrow> 's \<Rightarrow> 's kres"
    and view :: "'s \<Rightarrow> 'l set"
    and ok :: "'s \<Rightarrow> bool"
  assumes acq_twice: "ok s \<Longrightarrow> l \<in> view s \<Longrightarrow> acq l s = Inl (Panic ''acquire'')"
    and acq_Inr: "ok s \<Longrightarrow> acq l s = Inr s' \<Longrightarrow> view s' = insert l (view s) \<and> ok s'"
    and rel_free: "ok s \<Longrightarrow> l \<notin> view s \<Longrightarrow> rel l s = Inl (Panic ''release'')"
    and rel_held: "ok s \<Longrightarrow> l \<in> view s \<Longrightarrow> \<exists>s'. rel l s = Inr s' \<and> view s' = view s - {l} \<and> ok s'"
begin

lemma acq_new: "ok s \<Longrightarrow> acq l s = Inr s' \<Longrightarrow> l \<notin> view s"
  using acq_twice by fastforce

text \<open>A critical section that keeps the caller's locks leaves them as they were.\<close>

lemma bracket:
  assumes "ok s" "acq l s = Inr s1" "view s2 = view s1" "ok s2"
  shows "\<exists>s3. rel l s2 = Inr s3 \<and> view s3 = view s \<and> ok s3"
proof -
  have n: "l \<notin> view s" using assms(1,2) by (rule acq_new)
  have v: "view s1 = insert l (view s)" using acq_Inr [OF assms(1,2)] by simp
  then obtain s3 where "rel l s2 = Inr s3" "view s3 = view s2 - {l}" "ok s3"
    using rel_held [OF assms(4), of l] assms(3) by auto
  with v n assms(3) show ?thesis by auto
qed

text \<open>A lock is not released twice.\<close>

lemma rel_twice:
  assumes "ok s" "rel l s = Inr s'"
  shows "rel l s' = Inl (Panic ''release'')"
proof -
  have "l \<in> view s" using rel_free [OF assms(1), of l] assms(2) by fastforce
  from rel_held [OF assms(1) this] assms(2) have "view s' = view s - {l}" "ok s'" by auto
  then show ?thesis by (intro rel_free) auto
qed

end

interpretation thread: lock_view acquire release held "\<lambda>_. True"
  by unfold_locales (auto simp: acquire_def release_def split: if_splits)

text \<open>
  The machine version: CPU \<open>c\<close> acquires a lock that no other CPU has (it would spin
  otherwise). A state is \<open>ok\<close> for \<open>c\<close> when its interrupts are off as soon as it
  holds a lock and \<open>noff\<close> counts its locks.
\<close>

definition cpu_holds :: "nat \<Rightarrow> machine \<Rightarrow> lockid set" where
  "cpu_holds c s = {l. holding c (locks s l)}"

definition cpu_ok :: "nat \<Rightarrow> machine \<Rightarrow> bool" where
  "cpu_ok c s \<longleftrightarrow> finite (cpu_holds c s) \<and> noff (cpus s c) = int (card (cpu_holds c s)) \<and>
     (cpu_holds c s \<noteq> {} \<longrightarrow> \<not> sie s c)"

definition cpu_acquire :: "nat \<Rightarrow> lockid \<Rightarrow> machine \<Rightarrow> machine kres" where
  "cpu_acquire c l s = bnd (spin_acquire c l s) (\<lambda>r. case r of None \<Rightarrow> Inl (Sleep ChNone) | Some s' \<Rightarrow> Inr s')"

lemma cpu_acquire_Inr:
  "cpu_acquire c l s = Inr s' \<Longrightarrow>
   cpu_holds c s' = insert l (cpu_holds c s) \<and> l \<notin> cpu_holds c s \<and>
   noff (cpus s' c) = noff (cpus s c) + 1 \<and> \<not> sie s' c"
  by (auto simp: cpu_acquire_def spin_acquire_def Let_def cpu_holds_def holding_def split: if_splits)

lemma cpu_release_held:
  assumes ok: "cpu_ok c s" and l: "l \<in> cpu_holds c s"
  shows "\<exists>s'. spin_release c l s = Inr s' \<and> cpu_holds c s' = cpu_holds c s - {l} \<and> cpu_ok c s'"
proof -
  let ?s = "s\<lparr>locks := (locks s)(l := (locks s l)\<lparr>lkcpu := None, locked := 0\<rparr>)\<rparr>"
  have h: "holding c (locks s l)" using l by (simp add: cpu_holds_def)
  have fin: "finite (cpu_holds c s)" and n: "noff (cpus s c) = int (card (cpu_holds c s))"
    and off: "\<not> sie s c" using ok l by (auto simp: cpu_ok_def)
  have pos: "card (cpu_holds c s) > 0" using fin l by (auto simp: card_gt_0_iff)
  have v: "cpu_holds c ?s = cpu_holds c s - {l}" by (auto simp: cpu_holds_def holding_def)
  let ?k = "(cpus s c)\<lparr>noff := noff (cpus s c) - 1\<rparr>"
  let ?t = "?s\<lparr>cpus := (cpus s)(c := ?k), sie := (sie s)(c := (if noff ?k = 0 \<and> intena ?k then True else sie s c))\<rparr>"
  have r: "spin_release c l s = Inr ?t"
    using h off pos n by (simp add: spin_release_def pop_off_def Let_def)
  have vt: "cpu_holds c ?t = cpu_holds c s - {l}" using v by (simp add: cpu_holds_def)
  have crd: "int (card (cpu_holds c s - {l})) = int (card (cpu_holds c s)) - 1"
    using fin l pos by (simp add: of_nat_diff)
  have ne: "cpu_holds c s - {l} \<noteq> {} \<Longrightarrow> noff (cpus s c) - 1 \<noteq> 0"
  proof -
    assume "cpu_holds c s - {l} \<noteq> {}"
    then have "card (cpu_holds c s - {l}) \<noteq> 0" using fin by (simp add: card_eq_0_iff)
    then show ?thesis using crd n by linarith
  qed
  have "cpu_ok c ?t"
    unfolding cpu_ok_def vt
  proof (intro conjI impI)
    show "finite (cpu_holds c s - {l})" using fin by simp
    show "noff (cpus ?t c) = int (card (cpu_holds c s - {l}))" using crd n by simp
    assume "cpu_holds c s - {l} \<noteq> {}"
    then show "\<not> sie ?t c" using ne off by simp
  qed
  with r vt show ?thesis by blast
qed

interpretation mach: lock_view "cpu_acquire c" "spin_release c" "cpu_holds c" "cpu_ok c" for c
proof unfold_locales
  fix s l assume "cpu_ok c s" "l \<in> cpu_holds c s"
  then show "cpu_acquire c l s = Inl (Panic ''acquire'')"
    by (simp add: cpu_acquire_def spin_acquire_def cpu_holds_def)
next
  fix s l s' assume ok: "cpu_ok c s" and a: "cpu_acquire c l s = Inr s'"
  from cpu_acquire_Inr [OF a] ok show "cpu_holds c s' = insert l (cpu_holds c s) \<and> cpu_ok c s'"
    by (simp add: cpu_ok_def)
next
  fix s l assume "cpu_ok c s" "l \<notin> cpu_holds c s"
  then show "spin_release c l s = Inl (Panic ''release'')"
    by (simp add: spin_release_def cpu_holds_def)
next
  fix s l assume "cpu_ok c s" "l \<in> cpu_holds c s"
  then show "\<exists>s'. spin_release c l s = Inr s' \<and> cpu_holds c s' = cpu_holds c s - {l} \<and> cpu_ok c s'"
    by (rule cpu_release_held)
qed

section \<open>Properties\<close>

definition lk_crit0 :: "string \<Rightarrow> lksys" where
  "lk_crit0 name = \<lparr>lpc = (\<lambda>_. Out)(0 := Crit),
     lkv = \<lparr>locked = 1, lkname = name, lkcpu = Some 0\<rparr>\<rparr>"

lemma lk_run_to_crit: "lk_reachable name (lk_crit0 name)"
proof -
  let ?s = "lk_init name"
  have 1: "lk_reachable name (?s\<lparr>lpc := (lpc ?s)(0 := Enter)\<rparr>)" (is "lk_reachable name ?s1")
    by (rule lk_reachable.step [OF lk_reachable.start enter]) (simp add: lk_init_def)
  have 2: "lk_reachable name (?s1\<lparr>lpc := (lpc ?s1)(0 := Spin)\<rparr>)" (is "lk_reachable name ?s2")
    by (rule lk_reachable.step [OF 1 enter_free]) (simp_all add: lk_init_def initlock_def holding_def)
  have 3: "lk_reachable name (?s2\<lparr>lkv := (lkv ?s2)\<lparr>locked := 1\<rparr>, lpc := (lpc ?s2)(0 := Got)\<rparr>)"
    (is "lk_reachable name ?s3")
    by (rule lk_reachable.step [OF 2 swap_free]) (simp_all add: lk_init_def initlock_def)
  have 4: "lk_reachable name (?s3\<lparr>lkv := (lkv ?s3)\<lparr>lkcpu := Some 0\<rparr>, lpc := (lpc ?s3)(0 := Crit)\<rparr>)"
    by (rule lk_reachable.step [OF 3 owner]) simp
  then show ?thesis by (simp add: lk_init_def initlock_def lk_crit0_def)
qed





end
