(* ===== verification/Proc_Table.thy ===== *)
theory Proc_Table
  imports Spinlock
begin

text \<open>
  The process table of kernel/proc.h and the operations of kernel/proc.c that only
  touch it: pid allocation, \<open>sleep\<close>, \<open>wakeup\<close>, \<open>wakeup1\<close>, \<open>sched\<close>, \<open>yield\<close>,
  \<open>kill\<close> and \<open>reparent\<close>. Every lower layer calls \<open>wakeup\<close>, so the table is the first
  extension of the kernel state. \<open>procs\<close> is the array proc[NPROC], a process is its
  index, and \<open>cur\<close> is the process whose kernel thread runs (\<open>myproc()\<close>).

  \<open>sched\<close> gives the CPU away. \<open>sleep_begin\<close> is \<open>sleep\<close> up to that point and \<open>sleep_end\<close>
  the rest; \<open>sleep\<close> is the outcome a caller sees that is not resumed: it blocks on the
  channel, unless the checks of \<open>sched\<close> panic.
\<close>

section \<open>State\<close>

datatype procstate = UNUSED | SLEEPING | RUNNABLE | RUNNING | ZOMBIE

record kcontext =
  ctx_ra :: u64
  ctx_sp :: u64
  ctx_s :: "nat \<Rightarrow> u64"

record proc =
  p_state :: procstate
  p_parent :: "nat option"
  p_chan :: chan
  p_killed :: bool
  p_xstate :: u32
  p_pid :: u32
  p_kstack :: u64
  p_sz :: u64
  p_pagetable :: addr
  p_trapframe :: addr
  p_context :: kcontext
  p_ofile :: "nat \<Rightarrow> nat option"
  p_cwd :: "nat option"
  p_name :: "u8 list"

text \<open>An entry of the table as the loader leaves it, all bytes zero.\<close>

definition proc0 :: proc where
  "proc0 = \<lparr>p_state = UNUSED, p_parent = None, p_chan = ChNone, p_killed = False, p_xstate = 0, p_pid = 0,
     p_kstack = 0, p_sz = 0, p_pagetable = 0, p_trapframe = 0,
     p_context = \<lparr>ctx_ra = 0, ctx_sp = 0, ctx_s = (\<lambda>_. 0)\<rparr>,
     p_ofile = (\<lambda>_. None), p_cwd = None, p_name = replicate 16 0\<rparr>"

record procst = lockst +
  procs :: "nat \<Rightarrow> proc"
  cur :: nat
  initproc :: nat
  nextpid :: u32
  ticks :: u32

abbreviation (input) NPROC :: nat where "NPROC \<equiv> 64"

definition upd_proc :: "nat \<Rightarrow> (proc \<Rightarrow> proc) \<Rightarrow> 'a procst_scheme \<Rightarrow> 'a procst_scheme" where
  "upd_proc i f s = s\<lparr>procs := (procs s)(i := f (procs s i))\<rparr>"

definition no_proc_lock :: "'a lockst_scheme \<Rightarrow> bool" where
  "no_proc_lock s \<longleftrightarrow> (\<forall>i<NPROC. LkProc i \<notin> held s)"

section \<open>Operations\<close>

definition allocpid :: "'a procst_scheme \<Rightarrow> (u32 \<times> 'a procst_scheme) kres" where
  "allocpid s =
     bnd (acquire LkPid s) (\<lambda>s.
       let pid = nextpid s;
           s = s\<lparr>nextpid := nextpid s + 1\<rparr>
       in bnd (release LkPid s) (\<lambda>s. Inr (pid, s)))"

text \<open>
  The four checks of \<open>sched\<close>. \<open>noff\<close> counts the locks the thread holds; the last check
  (interrupts are off) follows from holding \<open>p->lock\<close>.
\<close>

definition sched :: "'a procst_scheme \<Rightarrow> 'a procst_scheme kres" where
  "sched s =
     (if LkProc (cur s) \<notin> held s then Inl (Panic ''sched p->lock'')
      else if card (held s) \<noteq> 1 then Inl (Panic ''sched locks'')
      else if p_state (procs s (cur s)) = RUNNING then Inl (Panic ''sched running'')
      else Inr s)"

text \<open>What the scheduler does to a process it picks, before it switches to it.\<close>

definition sched_back :: "'a procst_scheme \<Rightarrow> 'a procst_scheme" where
  "sched_back s = upd_proc (cur s) (p_state_update (\<lambda>_. RUNNING)) s"

definition yield :: "'a procst_scheme \<Rightarrow> 'a procst_scheme kres" where
  "yield s =
     bnd (acquire (LkProc (cur s)) s) (\<lambda>s.
     bnd (sched (upd_proc (cur s) (p_state_update (\<lambda>_. RUNNABLE)) s)) (\<lambda>s.
     release (LkProc (cur s)) (sched_back s)))"

definition sleep_begin :: "chan \<Rightarrow> lockid \<Rightarrow> 'a procst_scheme \<Rightarrow> 'a procst_scheme kres" where
  "sleep_begin ch lk s =
     bnd (if lk \<noteq> LkProc (cur s) then bnd (acquire (LkProc (cur s)) s) (release lk) else Inr s) (\<lambda>s.
     sched (upd_proc (cur s) (\<lambda>p. p\<lparr>p_chan := ch, p_state := SLEEPING\<rparr>) s))"

definition sleep_end :: "lockid \<Rightarrow> 'a procst_scheme \<Rightarrow> 'a procst_scheme kres" where
  "sleep_end lk s =
     (let s = upd_proc (cur s) (p_chan_update (\<lambda>_. ChNone)) s
      in if lk \<noteq> LkProc (cur s) then bnd (release (LkProc (cur s)) s) (acquire lk) else Inr s)"

definition sleep :: "chan \<Rightarrow> lockid \<Rightarrow> 'a procst_scheme \<Rightarrow> 'b kres" where
  "sleep ch lk s = bnd (sleep_begin ch lk s) (\<lambda>_. Inl (Sleep ch))"

fun wakeup_loop :: "chan \<Rightarrow> nat list \<Rightarrow> 'a procst_scheme \<Rightarrow> 'a procst_scheme kres" where
  "wakeup_loop ch [] s = Inr s"
| "wakeup_loop ch (i # is) s =
     bnd (acquire (LkProc i) s) (\<lambda>s.
     let s = (if p_state (procs s i) = SLEEPING \<and> p_chan (procs s i) = ch
              then upd_proc i (p_state_update (\<lambda>_. RUNNABLE)) s else s)
     in bnd (release (LkProc i) s) (wakeup_loop ch is))"

definition wakeup :: "chan \<Rightarrow> 'a procst_scheme \<Rightarrow> 'a procst_scheme kres" where
  "wakeup ch s = wakeup_loop ch [0..<NPROC] s"

definition wakeup1 :: "nat \<Rightarrow> 'a procst_scheme \<Rightarrow> 'a procst_scheme kres" where
  "wakeup1 i s =
     (if LkProc i \<notin> held s then Inl (Panic ''wakeup1'')
      else if p_chan (procs s i) = ChProc i \<and> p_state (procs s i) = SLEEPING
           then Inr (upd_proc i (p_state_update (\<lambda>_. RUNNABLE)) s)
           else Inr s)"

fun kill_loop :: "u32 \<Rightarrow> nat list \<Rightarrow> 'a procst_scheme \<Rightarrow> (int \<times> 'a procst_scheme) kres" where
  "kill_loop pid [] s = Inr (- 1, s)"
| "kill_loop pid (i # is) s =
     bnd (acquire (LkProc i) s) (\<lambda>s.
     if p_pid (procs s i) = pid
     then let s = upd_proc i (p_killed_update (\<lambda>_. True)) s;
              s = (if p_state (procs s i) = SLEEPING then upd_proc i (p_state_update (\<lambda>_. RUNNABLE)) s else s)
          in bnd (release (LkProc i) s) (\<lambda>s. Inr (0, s))
     else bnd (release (LkProc i) s) (kill_loop pid is))"

definition kill :: "u32 \<Rightarrow> 'a procst_scheme \<Rightarrow> (int \<times> 'a procst_scheme) kres" where
  "kill pid s = kill_loop pid [0..<NPROC] s"

fun reparent_loop :: "nat \<Rightarrow> nat list \<Rightarrow> 'a procst_scheme \<Rightarrow> 'a procst_scheme kres" where
  "reparent_loop p [] s = Inr s"
| "reparent_loop p (i # is) s =
     (if p_parent (procs s i) = Some p
      then bnd (acquire (LkProc i) s) (\<lambda>s.
           let s = upd_proc i (p_parent_update (\<lambda>_. Some (initproc s))) s
           in bnd (release (LkProc i) s) (reparent_loop p is))
      else reparent_loop p is s)"

definition reparent :: "nat \<Rightarrow> 'a procst_scheme \<Rightarrow> 'a procst_scheme kres" where
  "reparent p s = reparent_loop p [0..<NPROC] s"

section \<open>Closed forms\<close>

lemma upd_proc_sel [simp]:
  "held (upd_proc i f s) = held s" "procs (upd_proc i f s) = (procs s)(i := f (procs s i))"
  "cur (upd_proc i f s) = cur s" "initproc (upd_proc i f s) = initproc s"
  "nextpid (upd_proc i f s) = nextpid s"
  by (simp_all add: upd_proc_def)

lemma allocpid_eq:
  "LkPid \<notin> held s \<Longrightarrow> allocpid s = Inr (nextpid s, s\<lparr>nextpid := nextpid s + 1\<rparr>)"
  by (simp add: allocpid_def Let_def)

lemma sched_Inr [kres_iff]:
  "sched s = Inr s' \<longleftrightarrow> s' = s \<and> held s = {LkProc (cur s)} \<and> p_state (procs s (cur s)) \<noteq> RUNNING"
  by (auto simp: sched_def card_1_singleton_iff split: if_splits)

definition woken :: "chan \<Rightarrow> proc \<Rightarrow> proc" where
  "woken ch p = (if p_state p = SLEEPING \<and> p_chan p = ch then p\<lparr>p_state := RUNNABLE\<rparr> else p)"

definition wake_all :: "chan \<Rightarrow> (nat \<Rightarrow> proc) \<Rightarrow> nat \<Rightarrow> proc" where
  "wake_all ch ps = (\<lambda>i. if i < NPROC then woken ch (ps i) else ps i)"

lemma wakeup_loop_eq:
  "(\<And>i. i \<in> set is \<Longrightarrow> LkProc i \<notin> held s) \<Longrightarrow> distinct is \<Longrightarrow>
   wakeup_loop ch is s = Inr (s\<lparr>procs := (\<lambda>i. if i \<in> set is then woken ch (procs s i) else procs s i)\<rparr>)"
proof (induction "is" arbitrary: s)
  case (Cons i "is")
  let ?t = "s\<lparr>procs := (procs s)(i := woken ch (procs s i))\<rparr>"
  have "wakeup_loop ch (i # is) s = wakeup_loop ch is ?t"
    using Cons.prems(1) [of i] by (auto simp add: Let_def upd_proc_def woken_def fun_upd_idem)
  also have "\<dots> = Inr (?t\<lparr>procs := (\<lambda>j. if j \<in> set is then woken ch (procs ?t j) else procs ?t j)\<rparr>)"
    using Cons.prems by (intro Cons.IH) auto
  also have "(\<lambda>j. if j \<in> set is then woken ch (procs ?t j) else procs ?t j) =
      (\<lambda>j. if j \<in> set (i # is) then woken ch (procs s j) else procs s j)"
    using Cons.prems(2) by auto
  finally show ?case by simp
qed simp

lemma wakeup_eq:
  "no_proc_lock s \<Longrightarrow>
   wakeup ch s = Inr (s\<lparr>procs := wake_all ch (procs s)\<rparr>)"
  unfolding wakeup_def by (subst wakeup_loop_eq) (auto simp: no_proc_lock_def wake_all_def)

lemma wake_all_keeps [simp]:
  "p_pid (wake_all ch ps i) = p_pid (ps i)" "p_sz (wake_all ch ps i) = p_sz (ps i)"
  "p_pagetable (wake_all ch ps i) = p_pagetable (ps i)" "p_trapframe (wake_all ch ps i) = p_trapframe (ps i)"
  "p_ofile (wake_all ch ps i) = p_ofile (ps i)" "p_cwd (wake_all ch ps i) = p_cwd (ps i)"
  "p_parent (wake_all ch ps i) = p_parent (ps i)" "p_killed (wake_all ch ps i) = p_killed (ps i)"
  "p_chan (wake_all ch ps i) = p_chan (ps i)"
  by (simp_all add: wake_all_def woken_def)

lemma wake_all_state:
  "p_state (wake_all ch ps i) =
     (if i < NPROC \<and> p_state (ps i) = SLEEPING \<and> p_chan (ps i) = ch then RUNNABLE else p_state (ps i))"
  by (simp add: wake_all_def woken_def)

lemma wakeup_loop_panic:
  "i \<in> set is \<Longrightarrow> LkProc i \<in> held s \<Longrightarrow> wakeup_loop ch is s = Inl (Panic ''acquire'')"
proof (induction "is" arbitrary: s)
  case (Cons j "is")
  show ?case
  proof (cases "LkProc j \<in> held s")
    case False
    with Cons show ?thesis by (auto simp: Let_def)
  qed simp
qed simp

lemma wakeup_panic: "i < NPROC \<Longrightarrow> LkProc i \<in> held s \<Longrightarrow> wakeup ch s = Inl (Panic ''acquire'')"
  unfolding wakeup_def by (rule wakeup_loop_panic) auto

lemma wakeup_Inr [kres_iff]:
  "wakeup ch s = Inr s' \<longleftrightarrow> no_proc_lock s \<and>
     s' = s\<lparr>procs := wake_all ch (procs s)\<rparr>"
proof (cases "no_proc_lock s")
  case True
  then show ?thesis by (auto simp: wakeup_eq)
next
  case False
  then obtain i where "i < NPROC" "LkProc i \<in> held s" by (auto simp: no_proc_lock_def)
  with False show ?thesis by (simp add: wakeup_panic)
qed

definition slain :: "proc \<Rightarrow> proc" where
  "slain p = p\<lparr>p_killed := True, p_state := (if p_state p = SLEEPING then RUNNABLE else p_state p)\<rparr>"

lemma kill_loop_eq:
  "(\<And>i. i \<in> set is \<Longrightarrow> LkProc i \<notin> held s) \<Longrightarrow>
   kill_loop pid is s =
     (case find (\<lambda>i. p_pid (procs s i) = pid) is of
        None \<Rightarrow> Inr (- 1, s)
      | Some i \<Rightarrow> Inr (0, s\<lparr>procs := (procs s)(i := slain (procs s i))\<rparr>))"
proof (induction "is" arbitrary: s)
  case (Cons i "is")
  have "LkProc i \<notin> held s" using Cons.prems by simp
  then show ?case
    using Cons by (auto simp: Let_def upd_proc_def slain_def)
qed simp

lemma kill_eq:
  "no_proc_lock s \<Longrightarrow>
   kill pid s =
     (case find (\<lambda>i. p_pid (procs s i) = pid) [0..<NPROC] of
        None \<Rightarrow> Inr (- 1, s)
      | Some i \<Rightarrow> Inr (0, s\<lparr>procs := (procs s)(i := slain (procs s i))\<rparr>))"
  unfolding kill_def by (rule kill_loop_eq) (auto simp: no_proc_lock_def)

definition adopted :: "nat \<Rightarrow> nat \<Rightarrow> proc \<Rightarrow> proc" where
  "adopted p ip q = (if p_parent q = Some p then q\<lparr>p_parent := Some ip\<rparr> else q)"

lemma reparent_loop_eq:
  "(\<And>i. i \<in> set is \<Longrightarrow> p_parent (procs s i) = Some p \<Longrightarrow> LkProc i \<notin> held s) \<Longrightarrow> distinct is \<Longrightarrow>
   reparent_loop p is s =
     Inr (s\<lparr>procs := (\<lambda>i. if i \<in> set is then adopted p (initproc s) (procs s i) else procs s i)\<rparr>)"
proof (induction "is" arbitrary: s)
  case (Cons i "is")
  let ?t = "s\<lparr>procs := (procs s)(i := adopted p (initproc s) (procs s i))\<rparr>"
  have "reparent_loop p (i # is) s = reparent_loop p is ?t"
    using Cons.prems(1) [of i] by (auto simp add: Let_def upd_proc_def adopted_def fun_upd_idem)
  also have "\<dots> = Inr (?t\<lparr>procs := (\<lambda>j. if j \<in> set is then adopted p (initproc ?t) (procs ?t j) else procs ?t j)\<rparr>)"
    using Cons.prems by (intro Cons.IH) (auto split: if_splits)
  also have "(\<lambda>j. if j \<in> set is then adopted p (initproc ?t) (procs ?t j) else procs ?t j) =
      (\<lambda>j. if j \<in> set (i # is) then adopted p (initproc s) (procs s j) else procs s j)"
    using Cons.prems(2) by auto
  finally show ?case by simp
qed simp

section \<open>Sleeping\<close>

lemma sleep_begin_eq:
  assumes "held s = {lk}" "lk \<noteq> LkProc (cur s)"
  shows "sleep_begin ch lk s =
    Inr (upd_proc (cur s) (\<lambda>p. p\<lparr>p_chan := ch, p_state := SLEEPING\<rparr>) (s\<lparr>held := {LkProc (cur s)}\<rparr>))"
proof -
  have "insert (LkProc (cur s)) {lk} - {lk} = {LkProc (cur s)}" using assms(2) by auto
  then show ?thesis using assms by (simp add: sleep_begin_def sched_def)
qed

lemma sleep_eq: "held s = {lk} \<Longrightarrow> lk \<noteq> LkProc (cur s) \<Longrightarrow> sleep ch lk s = Inl (Sleep ch)"
  by (simp add: sleep_def sleep_begin_eq)

lemma sleep_not_Inr [simp]: "sleep ch lk s \<noteq> Inr x"
  by (simp add: sleep_def bnd_eq_Inr)

text \<open>A thread that sleeps with a second lock held stops the machine.\<close>

lemma sleep_second_lock:
  assumes "lk \<noteq> LkProc (cur s)" "lk \<in> held s" "l \<in> held s" "l \<noteq> lk" "l \<noteq> LkProc (cur s)"
    "LkProc (cur s) \<notin> held s"
  shows "sleep ch lk s = Inl (Panic ''sched locks'')"
proof -
  let ?H = "insert (LkProc (cur s)) (held s) - {lk}"
  have "l \<in> ?H" "LkProc (cur s) \<in> ?H" using assms by auto
  then have "card ?H \<noteq> 1" using assms(5) by (metis card_1_singletonE singletonD)
  moreover have "sleep_begin ch lk s = sched (upd_proc (cur s) (\<lambda>p. p\<lparr>p_chan := ch, p_state := SLEEPING\<rparr>) (s\<lparr>held := ?H\<rparr>))"
    using assms(1,2,6) by (simp add: sleep_begin_def)
  ultimately show ?thesis using \<open>LkProc (cur s) \<in> ?H\<close> by (simp only: sleep_def sched_def) simp
qed

end
