(* ===== verification/Sleep_Wakeup.thy ===== *)
theory Sleep_Wakeup
  imports Proc_Table
begin

text \<open>
  \<open>sleep\<close>, \<open>wakeup\<close>, \<open>kill\<close> and \<open>scheduler\<close> of kernel/proc.c as an interleaving. One process
  waits for a condition protected by a lock \<open>lk\<close> in the idiom of the source,
  \<open>acquire(lk); while(!cond) sleep(chan, lk); ... release(lk)\<close>; any number of other threads
  run \<open>acquire(lk); cond = 1; wakeup(chan); release(lk)\<close>. Each rule is one statement of the
  source; taking a lock needs it free. The claim is the one the comment in \<open>sleep\<close>
  makes: no wakeup is missed.
\<close>

datatype agent = Sleeper | Waker nat

text \<open>
  Program points of the sleeper: outside, at the test, at the two lock operations at the
  top of \<open>sleep\<close>, at the stores, at \<open>sched\<close>, switched out, and the way back.
\<close>

datatype spc = SOut | STest | SAcqP | SRelLk | SSet | SSched | SAsleep | STidy | SRelP | SAcqLk

datatype wpc = WOut | WSet | WAcqP | WCheck | WRelP | WRelLk

record slsys =
  lk_own :: "agent option"
  pl_own :: "agent option"
  cond :: bool
  sp_state :: procstate
  sp_chan :: chan
  s_pc :: spc
  w_pc :: "nat \<Rightarrow> wpc"

definition sl_init :: slsys where
  "sl_init = \<lparr>lk_own = None, pl_own = None, cond = False, sp_state = RUNNING, sp_chan = ChNone,
     s_pc = SOut, w_pc = (\<lambda>_. WOut)\<rparr>"

inductive sl_step :: "chan \<Rightarrow> slsys \<Rightarrow> slsys \<Rightarrow> bool" for ch where
  s_enter: "s_pc s = SOut \<Longrightarrow> lk_own s = None \<Longrightarrow>
     sl_step ch s (s\<lparr>lk_own := Some Sleeper, s_pc := STest\<rparr>)"
| s_done: "s_pc s = STest \<Longrightarrow> cond s \<Longrightarrow>
     sl_step ch s (s\<lparr>cond := b, lk_own := None, s_pc := SOut\<rparr>)"
| s_wait: "s_pc s = STest \<Longrightarrow> \<not> cond s \<Longrightarrow> sl_step ch s (s\<lparr>s_pc := SAcqP\<rparr>)"
| s_acqp: "s_pc s = SAcqP \<Longrightarrow> pl_own s = None \<Longrightarrow>
     sl_step ch s (s\<lparr>pl_own := Some Sleeper, s_pc := SRelLk\<rparr>)"
| s_rellk: "s_pc s = SRelLk \<Longrightarrow> sl_step ch s (s\<lparr>lk_own := None, s_pc := SSet\<rparr>)"
| s_set: "s_pc s = SSet \<Longrightarrow>
     sl_step ch s (s\<lparr>sp_chan := ch, sp_state := SLEEPING, s_pc := SSched\<rparr>)"
| s_sched: "s_pc s = SSched \<Longrightarrow> sl_step ch s (s\<lparr>pl_own := None, s_pc := SAsleep\<rparr>)"
| s_run: "s_pc s = SAsleep \<Longrightarrow> pl_own s = None \<Longrightarrow> sp_state s = RUNNABLE \<Longrightarrow>
     sl_step ch s (s\<lparr>pl_own := Some Sleeper, sp_state := RUNNING, s_pc := STidy\<rparr>)"
| s_tidy: "s_pc s = STidy \<Longrightarrow> sl_step ch s (s\<lparr>sp_chan := ChNone, s_pc := SRelP\<rparr>)"
| s_relp: "s_pc s = SRelP \<Longrightarrow> sl_step ch s (s\<lparr>pl_own := None, s_pc := SAcqLk\<rparr>)"
| s_acqlk: "s_pc s = SAcqLk \<Longrightarrow> lk_own s = None \<Longrightarrow>
     sl_step ch s (s\<lparr>lk_own := Some Sleeper, s_pc := STest\<rparr>)"
| w_enter: "w_pc s n = WOut \<Longrightarrow> lk_own s = None \<Longrightarrow>
     sl_step ch s (s\<lparr>lk_own := Some (Waker n), w_pc := (w_pc s)(n := WSet)\<rparr>)"
| w_set: "w_pc s n = WSet \<Longrightarrow> sl_step ch s (s\<lparr>cond := True, w_pc := (w_pc s)(n := WAcqP)\<rparr>)"
| w_acqp: "w_pc s n = WAcqP \<Longrightarrow> pl_own s = None \<Longrightarrow>
     sl_step ch s (s\<lparr>pl_own := Some (Waker n), w_pc := (w_pc s)(n := WCheck)\<rparr>)"
| w_check: "w_pc s n = WCheck \<Longrightarrow>
     sl_step ch s (s\<lparr>sp_state := (if sp_state s = SLEEPING \<and> sp_chan s = ch then RUNNABLE else sp_state s),
                  w_pc := (w_pc s)(n := WRelP)\<rparr>)"
| w_relp: "w_pc s n = WRelP \<Longrightarrow> sl_step ch s (s\<lparr>pl_own := None, w_pc := (w_pc s)(n := WRelLk)\<rparr>)"
| w_rellk: "w_pc s n = WRelLk \<Longrightarrow> sl_step ch s (s\<lparr>lk_own := None, w_pc := (w_pc s)(n := WOut)\<rparr>)"
| k_kill: "pl_own s = None \<Longrightarrow> sp_state s = SLEEPING \<Longrightarrow> sl_step ch s (s\<lparr>sp_state := RUNNABLE\<rparr>)"

inductive sl_reachable :: "chan \<Rightarrow> slsys \<Rightarrow> bool" for ch where
  start: "sl_reachable ch sl_init"
| step: "sl_reachable ch s \<Longrightarrow> sl_step ch s t \<Longrightarrow> sl_reachable ch t"

section \<open>The invariant\<close>

fun s_has_lk :: "spc \<Rightarrow> bool" where
  "s_has_lk STest = True" | "s_has_lk SAcqP = True" | "s_has_lk SRelLk = True" | "s_has_lk _ = False"

fun s_has_pl :: "spc \<Rightarrow> bool" where
  "s_has_pl SRelLk = True" | "s_has_pl SSet = True" | "s_has_pl SSched = True"
| "s_has_pl STidy = True" | "s_has_pl SRelP = True" | "s_has_pl _ = False"

fun w_has_lk :: "wpc \<Rightarrow> bool" where
  "w_has_lk WOut = False" | "w_has_lk _ = True"

fun w_has_pl :: "wpc \<Rightarrow> bool" where
  "w_has_pl WCheck = True" | "w_has_pl WRelP = True" | "w_has_pl _ = False"

definition own_inv :: "slsys \<Rightarrow> bool" where
  "own_inv s \<longleftrightarrow>
     (s_has_lk (s_pc s) \<longleftrightarrow> lk_own s = Some Sleeper) \<and>
     (s_has_pl (s_pc s) \<longleftrightarrow> pl_own s = Some Sleeper) \<and>
     (\<forall>n. w_has_lk (w_pc s n) \<longleftrightarrow> lk_own s = Some (Waker n)) \<and>
     (\<forall>n. w_has_pl (w_pc s n) \<longleftrightarrow> pl_own s = Some (Waker n))"

text \<open>
  The condition is false from the failed test until \<open>sleep\<close> has released \<open>lk\<close>. While the
  process is between that release and its wakeup, a true condition means that a waker is still
  on its way to look at the process.
\<close>

definition wake_inv :: "chan \<Rightarrow> slsys \<Rightarrow> bool" where
  "wake_inv ch s \<longleftrightarrow>
     (s_pc s \<in> {SAcqP, SRelLk} \<longrightarrow> \<not> cond s) \<and>
     (s_pc s \<in> {SSet, SSched} \<longrightarrow> cond s \<longrightarrow> (\<exists>n. w_pc s n = WAcqP)) \<and>
     (s_pc s = SAsleep \<longrightarrow> sp_state s = SLEEPING \<longrightarrow> sp_chan s = ch \<and>
        (cond s \<longrightarrow> (\<exists>n. w_pc s n = WAcqP) \<or> (\<exists>n. w_pc s n = WCheck))) \<and>
     (s_pc s = SAsleep \<longrightarrow> sp_state s \<in> {SLEEPING, RUNNABLE}) \<and>
     (s_pc s = SSched \<longrightarrow> sp_state s = SLEEPING \<and> sp_chan s = ch) \<and>
     (sp_state s = SLEEPING \<longrightarrow> s_pc s \<in> {SSched, SAsleep})"

lemma own_inv_init: "own_inv sl_init"
  by (simp add: own_inv_def sl_init_def)

lemma wake_inv_init: "wake_inv ch sl_init"
  by (simp add: wake_inv_def sl_init_def)

lemma own_invD:
  assumes "own_inv s"
  shows "s_has_lk (s_pc s) = (lk_own s = Some Sleeper)" "s_has_pl (s_pc s) = (pl_own s = Some Sleeper)"
    "w_has_lk (w_pc s n) = (lk_own s = Some (Waker n))" "w_has_pl (w_pc s n) = (pl_own s = Some (Waker n))"
  using assms by (auto simp: own_inv_def)

lemma own_invI:
  assumes "s_has_lk (s_pc s) = (lk_own s = Some Sleeper)" "s_has_pl (s_pc s) = (pl_own s = Some Sleeper)"
    "\<And>n. w_has_lk (w_pc s n) = (lk_own s = Some (Waker n))" "\<And>n. w_has_pl (w_pc s n) = (pl_own s = Some (Waker n))"
  shows "own_inv s"
  using assms by (simp add: own_inv_def)

lemma own_inv_step:
  assumes "sl_step ch s t" "own_inv s"
  shows "own_inv t"
  using assms(1) own_invD [OF assms(2)]
  by (cases; intro own_invI)
    (simp_all, (metis w_has_lk.simps w_has_pl.simps option.inject agent.inject agent.distinct)+)

lemma own_inv_w:
  assumes "own_inv s"
  shows "w_pc s n \<noteq> WOut \<Longrightarrow> lk_own s = Some (Waker n) \<and> \<not> s_has_lk (s_pc s) \<and> (\<forall>m. m \<noteq> n \<longrightarrow> w_pc s m = WOut)"
    "w_pc s n \<in> {WCheck, WRelP} \<Longrightarrow> \<not> s_has_pl (s_pc s)"
proof -
  have "w_pc s m = WOut \<longleftrightarrow> \<not> w_has_lk (w_pc s m)" for m by (cases "w_pc s m") auto
  then show "w_pc s n \<noteq> WOut \<Longrightarrow> lk_own s = Some (Waker n) \<and> \<not> s_has_lk (s_pc s) \<and> (\<forall>m. m \<noteq> n \<longrightarrow> w_pc s m = WOut)"
    using own_invD [OF assms] by simp
  have "w_pc s n \<in> {WCheck, WRelP} \<longleftrightarrow> w_has_pl (w_pc s n)" by (cases "w_pc s n") auto
  then show "w_pc s n \<in> {WCheck, WRelP} \<Longrightarrow> \<not> s_has_pl (s_pc s)"
    using own_invD [OF assms] by simp
qed

lemma ex_only:
  assumes "\<forall>m. m \<noteq> n \<longrightarrow> f m = WOut" "x \<noteq> WOut"
  shows "(\<exists>m. f m = x) \<longleftrightarrow> f n = x" "(\<exists>m. (f(n := y)) m = x) \<longleftrightarrow> y = x"
  using assms by (metis, auto)

lemma wake_inv_w:
  assumes "own_inv s" "wake_inv ch s" "w_pc s n \<noteq> WOut" "s_pc t = s_pc s" "sp_chan t = sp_chan s"
    "w_pc t = (w_pc s)(n := y)"
    "sp_state t = (if w_pc s n = WCheck \<and> sp_state s = SLEEPING \<and> sp_chan s = ch then RUNNABLE else sp_state s)"
    "cond t \<Longrightarrow> cond s \<or> y = WAcqP" "w_pc s n = WAcqP \<Longrightarrow> y = WCheck \<and> pl_own s = None"
  shows "wake_inv ch t"
proof -
  note o = own_inv_w [OF assms(1), of n]
  have only: "\<forall>m. m \<noteq> n \<longrightarrow> w_pc s m = WOut" and nl: "\<not> s_has_lk (s_pc s)" using o assms(3) by auto
  have np: "w_pc s n = WAcqP \<or> w_pc s n = WCheck \<Longrightarrow> \<not> s_has_pl (s_pc s)"
    using o(2) own_invD(2) [OF assms(1)] assms(9) by auto
  show ?thesis
    using assms(2-9) nl np
    by (cases "s_pc s") (auto simp: wake_inv_def ex_only [OF only] split: if_splits)
qed

lemma wake_inv_step:
  assumes "sl_step ch s t" "own_inv s" "wake_inv ch s"
  shows "wake_inv ch t"
  using assms(1)
proof cases
  case (w_enter n)
  have f: "(\<exists>m. w_pc t m = x) \<longleftrightarrow> (\<exists>m. w_pc s m = x)" if "x \<noteq> WOut" "x \<noteq> WSet" for x
    using w_enter that by (metis fun_upd_other fun_upd_same select_convs(7) surjective update_convs(7))
  have "s_pc t = s_pc s" "cond t = cond s" "sp_state t = sp_state s" "sp_chan t = sp_chan s"
    using w_enter by simp_all
  then show ?thesis using assms(3) f [of WAcqP] f [of WCheck] unfolding wake_inv_def by simp
next
  case (w_set n)
  then show ?thesis by (intro wake_inv_w [OF assms(2,3), where n = n and y = WAcqP]) simp_all
next
  case (w_acqp n)
  then show ?thesis by (intro wake_inv_w [OF assms(2,3), where n = n and y = WCheck]) simp_all
next
  case (w_check n)
  then show ?thesis by (intro wake_inv_w [OF assms(2,3), where n = n and y = WRelP]) simp_all
next
  case (w_relp n)
  then show ?thesis by (intro wake_inv_w [OF assms(2,3), where n = n and y = WRelLk]) simp_all
next
  case (w_rellk n)
  then show ?thesis by (intro wake_inv_w [OF assms(2,3), where n = n and y = WOut]) simp_all
next
  case k_kill
  have "s_pc s \<noteq> SSched" using own_invD(2) [OF assms(2)] k_kill by auto
  then show ?thesis using k_kill assms(3) by (auto simp: wake_inv_def)
next
  case s_sched
  then show ?thesis using assms(3) by (simp add: wake_inv_def)
qed (insert assms(3), simp_all add: wake_inv_def)

lemma sl_reachable_inv: "sl_reachable ch s \<Longrightarrow> own_inv s \<and> wake_inv ch s"
  by (induction rule: sl_reachable.induct)
    (auto intro: own_inv_init wake_inv_init own_inv_step wake_inv_step)

section \<open>Properties\<close>

definition sl_example :: slsys where
  "sl_example = \<lparr>lk_own = None, pl_own = None, cond = False, sp_state = SLEEPING, sp_chan = ChTicks,
     s_pc = SAsleep, w_pc = (\<lambda>_. WOut)\<rparr>"

lemma sl_example_reachable: "sl_reachable ChTicks sl_example"
proof -
  note st = sl_reachable.step
  let ?a = "sl_init\<lparr>lk_own := Some Sleeper, s_pc := STest\<rparr>"
  let ?b = "?a\<lparr>s_pc := SAcqP\<rparr>"
  let ?c = "?b\<lparr>pl_own := Some Sleeper, s_pc := SRelLk\<rparr>"
  let ?d = "?c\<lparr>lk_own := None, s_pc := SSet\<rparr>"
  let ?e = "?d\<lparr>sp_chan := ChTicks, sp_state := SLEEPING, s_pc := SSched\<rparr>"
  have 1: "sl_reachable ChTicks ?a" by (rule st [OF sl_reachable.start s_enter]) (simp_all add: sl_init_def)
  have 2: "sl_reachable ChTicks ?b" by (rule st [OF 1 s_wait]) (simp_all add: sl_init_def)
  have 3: "sl_reachable ChTicks ?c" by (rule st [OF 2 s_acqp]) (simp_all add: sl_init_def)
  have 4: "sl_reachable ChTicks ?d" by (rule st [OF 3 s_rellk]) simp
  have 5: "sl_reachable ChTicks ?e" by (rule st [OF 4 s_set]) simp
  have "sl_reachable ChTicks (?e\<lparr>pl_own := None, s_pc := SAsleep\<rparr>)" by (rule st [OF 5 s_sched]) simp
  then show ?thesis by (simp add: sl_init_def sl_example_def)
qed

text \<open>C11. No lost wakeup. In every interleaving of a process that sleeps on a channel under a lock
  with any number of wakers that set the condition under that lock, and with \<open>kill\<close>: when
  the process is asleep and the lock is free, the condition is false. A waker that has made it
  true is still inside its critical section, on its way to the process.\<close>

theorem no_lost_wakeup:
  assumes "sl_reachable ch s" "s_pc s = SAsleep" "sp_state s = SLEEPING"
  shows "sp_chan s = ch \<and> (lk_own s = None \<longrightarrow> \<not> cond s) \<and>
    (cond s \<longrightarrow> (\<exists>n. lk_own s = Some (Waker n) \<and> w_pc s n \<in> {WAcqP, WCheck}))"
proof -
  have o: "own_inv s" and w: "wake_inv ch s" using sl_reachable_inv [OF assms(1)] by auto
  have own: "lk_own s = Some (Waker n)" if "w_pc s n \<noteq> WOut" for n using own_inv_w(1) [OF o that] by simp
  have ch: "sp_chan s = ch" using w assms(2,3) by (simp add: wake_inv_def)
  have c: "\<exists>n. lk_own s = Some (Waker n) \<and> w_pc s n \<in> {WAcqP, WCheck}" if cs: "cond s"
  proof -
    obtain n where n: "w_pc s n = WAcqP \<or> w_pc s n = WCheck"
      using w cs assms(2,3) by (auto simp: wake_inv_def)
    then have "w_pc s n \<noteq> WOut" by auto
    with own n show ?thesis by blast
  qed
  show ?thesis using ch c by fastforce
qed

theorem no_lost_wakeup_witness:
  "sl_reachable ChTicks sl_example \<and> s_pc sl_example = SAsleep \<and> \<not> cond sl_example"
  using no_lost_wakeup [OF sl_example_reachable] sl_example_reachable
  by (simp add: sl_example_def)

end
