(* ===== verification/Sleeplock.thy ===== *)
theory Sleeplock
  imports Proc_Table
begin

text \<open>
  kernel/sleeplock.c: long-term locks held by a process. The flag and the owner's pid of
  each sleep lock are guarded by an inner spinlock. \<open>acquiresleep\<close> on a taken lock is one
  round of its loop: the thread blocks on the lock's channel and starts over when it is woken.
\<close>

record sleeplock =
  sl_locked :: bool
  sl_name :: string
  sl_pid :: u32

record slst = procst +
  slocks :: "slid \<Rightarrow> sleeplock"

definition initsleeplock :: "slid \<Rightarrow> string \<Rightarrow> 'a slst_scheme \<Rightarrow> 'a slst_scheme" where
  "initsleeplock l name s = s\<lparr>slocks := (slocks s)(l := \<lparr>sl_locked = False, sl_name = name, sl_pid = 0\<rparr>)\<rparr>"

definition acquiresleep :: "slid \<Rightarrow> 'a slst_scheme \<Rightarrow> 'a slst_scheme kres" where
  "acquiresleep l s =
     bnd (acquire (LkSleep l) s) (\<lambda>s.
     if sl_locked (slocks s l) then sleep (ChSleepLock l) (LkSleep l) s
     else let k = (slocks s l)\<lparr>sl_locked := True, sl_pid := p_pid (procs s (cur s))\<rparr>
          in release (LkSleep l) (s\<lparr>slocks := (slocks s)(l := k)\<rparr>))"

definition releasesleep :: "slid \<Rightarrow> 'a slst_scheme \<Rightarrow> 'a slst_scheme kres" where
  "releasesleep l s =
     bnd (acquire (LkSleep l) s) (\<lambda>s.
     let s = s\<lparr>slocks := (slocks s)(l := (slocks s l)\<lparr>sl_locked := False, sl_pid := 0\<rparr>)\<rparr>
     in bnd (wakeup (ChSleepLock l) s) (release (LkSleep l)))"

definition holdingsleep :: "slid \<Rightarrow> 'a slst_scheme \<Rightarrow> (bool \<times> 'a slst_scheme) kres" where
  "holdingsleep l s =
     bnd (acquire (LkSleep l) s) (\<lambda>s.
     let r = (sl_locked (slocks s l) \<and> sl_pid (slocks s l) = p_pid (procs s (cur s)))
     in bnd (release (LkSleep l) s) (\<lambda>s. Inr (r, s)))"

definition has_sleep :: "slid \<Rightarrow> 'a slst_scheme \<Rightarrow> bool" where
  "has_sleep l s \<longleftrightarrow> sl_locked (slocks s l) \<and> sl_pid (slocks s l) = p_pid (procs s (cur s))"

section \<open>Closed forms\<close>

lemma no_proc_lock_held [simp]:
  "no_proc_lock (s\<lparr>held := insert (LkSleep l) (held s)\<rparr>) = no_proc_lock s"
  "no_proc_lock (s\<lparr>held := insert (LkSleep l) (held s), slocks := f\<rparr>) = no_proc_lock s"
  for s :: "'a slst_scheme"
  by (simp_all add: no_proc_lock_def)

lemma acquiresleep_eq:
  "LkSleep l \<notin> held s \<Longrightarrow> \<not> sl_locked (slocks s l) \<Longrightarrow>
   acquiresleep l s = Inr (s\<lparr>slocks := (slocks s)(l := (slocks s l)\<lparr>sl_locked := True,
     sl_pid := p_pid (procs s (cur s))\<rparr>)\<rparr>)"
  by (simp add: acquiresleep_def Let_def)

lemma acquiresleep_Inr [kres_iff]:
  "acquiresleep l s = Inr s' \<longleftrightarrow> LkSleep l \<notin> held s \<and> \<not> sl_locked (slocks s l) \<and>
     s' = s\<lparr>slocks := (slocks s)(l := (slocks s l)\<lparr>sl_locked := True, sl_pid := p_pid (procs s (cur s))\<rparr>)\<rparr>"
proof (cases "LkSleep l \<in> held s \<or> sl_locked (slocks s l)")
  case True
  then show ?thesis by (auto simp: acquiresleep_def kres_iff)
qed (auto simp: acquiresleep_eq)

lemma acquiresleep_blocks:
  assumes "held s = {}" "sl_locked (slocks s l)"
  shows "acquiresleep l s = Inl (Sleep (ChSleepLock l))"
  using assms by (simp add: acquiresleep_def sleep_eq)

lemma releasesleep_eq:
  assumes "LkSleep l \<notin> held s" "no_proc_lock s"
  shows "releasesleep l s =
    Inr (s\<lparr>slocks := (slocks s)(l := (slocks s l)\<lparr>sl_locked := False, sl_pid := 0\<rparr>),
      procs := wake_all (ChSleepLock l) (procs s)\<rparr>)"
  using assms by (simp add: releasesleep_def wakeup_eq Let_def)

lemma releasesleep_Inr [kres_iff]:
  "releasesleep l s = Inr s' \<longleftrightarrow> LkSleep l \<notin> held s \<and> no_proc_lock s \<and>
     s' = s\<lparr>slocks := (slocks s)(l := (slocks s l)\<lparr>sl_locked := False, sl_pid := 0\<rparr>),
       procs := wake_all (ChSleepLock l) (procs s)\<rparr>"
proof (cases "LkSleep l \<in> held s \<or> \<not> no_proc_lock s")
  case True
  then show ?thesis by (auto simp: releasesleep_def kres_iff Let_def)
qed (auto simp: releasesleep_eq)

lemma holdingsleep_eq:
  "LkSleep l \<notin> held s \<Longrightarrow> holdingsleep l s = Inr (has_sleep l s, s)"
  by (simp add: holdingsleep_def has_sleep_def Let_def)

lemma holdingsleep_Inr [kres_iff]:
  "holdingsleep l s = Inr (r, s') \<longleftrightarrow> LkSleep l \<notin> held s \<and> r = has_sleep l s \<and> s' = s"
  by (cases "LkSleep l \<in> held s") (auto simp: holdingsleep_def has_sleep_def)

end
