(* ===== verification/Kalloc.thy ===== *)
theory Kalloc
  imports Sleeplock
begin

text \<open>
  kernel/kalloc.c: the physical page allocator with its reference counts. The free
  list is the list of the source: \<open>kmem.freelist\<close> is the address of the first
  free page, and the first doubleword of a free page is the address of the next.
  \<open>pageref\<close> is the array of counts, indexed by \<open>PA2PAGE_ID\<close>. \<open>kend\<close> is the
  linker symbol \<open>end\<close>, the first address after the kernel; it is part of the state
  and never changes.

  The locale \<open>page_allocator\<close> is what the callers of \<open>kalloc\<close> and \<open>kfree\<close> rely on.
\<close>

section \<open>Memory outside a set of pages\<close>

definition same_off :: "addr set \<Rightarrow> memory \<Rightarrow> memory \<Rightarrow> bool" where
  "same_off P m m' \<longleftrightarrow> (\<forall>x. PGROUNDDOWN x \<notin> P \<longrightarrow> m' x = m x)"

lemma same_off_refl [simp]: "same_off P m m"
  by (simp add: same_off_def)

lemma same_off_trans: "same_off P m m' \<Longrightarrow> same_off Q m' m'' \<Longrightarrow> P \<union> Q \<subseteq> R \<Longrightarrow> same_off R m m''"
  unfolding same_off_def by (metis Un_iff subset_iff)

lemma same_off_mono: "same_off P m m' \<Longrightarrow> P \<subseteq> Q \<Longrightarrow> same_off Q m m'"
  by (auto simp: same_off_def)

lemma same_off_ld64:
  assumes "same_off P m m'" "al8 a" "PGROUNDDOWN a \<notin> P"
  shows "ld64 m' a = ld64 m a"
  using assms by (intro ld64_cong) (simp add: same_off_def al8_bytes_same_page)

lemma pgal_al8: "pgal p \<Longrightarrow> al8 p"
  by (auto simp: pgal_def al8_def elim: dvd_trans [rotated])

lemma same_off_memset: "pgal p \<Longrightarrow> same_off {p} m (memset p c 4096 m)"
  by (simp add: same_off_def memset_eq page_off_iff)

lemma memset_page: "pgal p \<Longrightarrow> memset p c 4096 m x = (if PGROUNDDOWN x = p then ucast c else m x)"
  by (simp add: memset_eq page_off_iff)

lemma same_off_st64:
  assumes "al8 a"
  shows "same_off {PGROUNDDOWN a} m (st64 m a v)"
  unfolding same_off_def
proof (intro allI impI)
  fix x assume x: "PGROUNDDOWN x \<notin> {PGROUNDDOWN a}"
  have "\<not> x - a < 8"
  proof
    assume "x - a < 8"
    then have "unat (x - a) < 8" by (simp add: word_less_nat_alt)
    moreover have "x = a + of_nat (unat (x - a))" by simp
    ultimately show False using al8_bytes_same_page [OF assms] x by (metis insertI1)
  qed
  then show "st64 m a v x = m x" by (simp add: st64_def)
qed

lemma memmove_page:
  assumes "pgal p" "pgal q" "p < PHYSTOP" "q < PHYSTOP"
  shows "memmove p q 4096 m x = (if PGROUNDDOWN x = p then m (q + (x - p)) else m x)"
proof -
  have "unat p < 0x88000000" "unat q < 0x88000000" using assms(3,4) by (simp_all add: word_less_nat_alt)
  then show ?thesis using assms(1) by (subst memmove_eq) (simp_all add: page_off_iff)
qed

section \<open>State and operations\<close>

record kmst = slst +
  mem :: memory
  freelist :: addr
  pageref :: "u64 \<Rightarrow> int"
  kend :: addr

definition PA2PAGE_ID :: "addr \<Rightarrow> u64" where
  "PA2PAGE_ID pa = (pa - KERNBASE) div PGSIZE"

definition PAGE2REF :: "addr \<Rightarrow> 'a kmst_scheme \<Rightarrow> int" where
  "PAGE2REF pa s = pageref s (PA2PAGE_ID pa)"

definition set_ref :: "addr \<Rightarrow> int \<Rightarrow> 'a kmst_scheme \<Rightarrow> 'a kmst_scheme" where
  "set_ref pa n s = s\<lparr>pageref := (pageref s)(PA2PAGE_ID pa := n)\<rparr>"

definition pageRef :: "addr \<Rightarrow> 'a kmst_scheme \<Rightarrow> 'a kmst_scheme kres" where
  "pageRef pa s =
     bnd (acquire LkPageref s) (\<lambda>s.
     release LkPageref (set_ref pa (PAGE2REF pa s + 1) s))"

definition kfree :: "addr \<Rightarrow> 'a kmst_scheme \<Rightarrow> 'a kmst_scheme kres" where
  "kfree pa s =
     (if pa mod PGSIZE \<noteq> 0 \<or> pa < kend s \<or> pa \<ge> PHYSTOP then Inl (Panic ''kfree'')
      else bnd (acquire LkPageref s) (\<lambda>s.
           let s = set_ref pa (PAGE2REF pa s - 1) s
           in bnd (if PAGE2REF pa s \<le> 0
                   then let s = s\<lparr>mem := memset pa 1 4096 (mem s)\<rparr>
                        in bnd (acquire LkKmem s) (\<lambda>s.
                           release LkKmem (s\<lparr>mem := st64 (mem s) pa (freelist s), freelist := pa\<rparr>))
                   else Inr s) (\<lambda>s.
              release LkPageref s)))"

definition kalloc :: "'a kmst_scheme \<Rightarrow> (addr \<times> 'a kmst_scheme) kres" where
  "kalloc s =
     bnd (acquire LkKmem s) (\<lambda>s.
     let r = freelist s;
         s = (if r \<noteq> 0 then s\<lparr>freelist := ld64 (mem s) r\<rparr> else s)
     in bnd (release LkKmem s) (\<lambda>s.
        Inr (r, if r \<noteq> 0 then set_ref r 1 (s\<lparr>mem := memset r 5 4096 (mem s)\<rparr>) else s)))"

definition cow_kalloc :: "addr \<Rightarrow> 'a kmst_scheme \<Rightarrow> (addr \<times> 'a kmst_scheme) kres" where
  "cow_kalloc pa s =
     bnd (acquire LkPageref s) (\<lambda>s.
     if PAGE2REF pa s \<le> 1 then bnd (release LkPageref s) (\<lambda>s. Inr (pa, s))
     else bnd (kalloc s) (\<lambda>(new_pa, s).
          if new_pa = 0 then bnd (release LkPageref s) (\<lambda>s. Inr (0, s))
          else let s = s\<lparr>mem := memmove new_pa pa 4096 (mem s)\<rparr>;
                   s = set_ref pa (PAGE2REF pa s - 1) s
               in bnd (release LkPageref s) (\<lambda>s. Inr (new_pa, s))))"

lemma kfree_bound: "kfree pa s = Inr s' \<Longrightarrow> pa < PHYSTOP"
  by (auto simp: kfree_def split: if_splits)

function freerange_loop :: "addr \<Rightarrow> addr \<Rightarrow> 'a kmst_scheme \<Rightarrow> 'a kmst_scheme kres" where
  "freerange_loop p pa_end s =
     (if p + PGSIZE \<le> pa_end then bnd (kfree p s) (freerange_loop (p + PGSIZE) pa_end) else Inr s)"
  by pat_completeness auto

termination
proof (relation "measure (\<lambda>(p, _). 2 ^ 64 - unat p)")
  fix p pa_end :: addr and s s' :: "'a kmst_scheme"
  assume "kfree p s = Inr s'"
  then have "unat p < 0x88000000" using kfree_bound by (fastforce simp: word_less_nat_alt)
  then show "((p + PGSIZE, pa_end, s'), p, pa_end, s) \<in> measure (\<lambda>(p, _). 2 ^ 64 - unat p)"
    by (simp add: unat_word_ariths)
qed simp

definition freerange :: "addr \<Rightarrow> addr \<Rightarrow> 'a kmst_scheme \<Rightarrow> 'a kmst_scheme kres" where
  "freerange pa_start pa_end s = freerange_loop (PGROUNDUP pa_start) pa_end s"

definition kinit :: "'a kmst_scheme \<Rightarrow> 'a kmst_scheme kres" where
  "kinit s = freerange (kend s) PHYSTOP s"

section \<open>Reference counts\<close>

lemma PA2PAGE_ID_inj:
  assumes "pgal p" "pgal q"
  shows "PA2PAGE_ID p = PA2PAGE_ID q \<longleftrightarrow> p = q"
proof
  have "pgal (r - KERNBASE)" if "pgal r" for r
    using that unfolding pgal_def by (auto simp: unat_sub_if_size size_word.rep_eq intro!: dvd_diff_nat dvd_add)
  then have d: "4096 dvd unat (p - KERNBASE)" "4096 dvd unat (q - KERNBASE)"
    using assms by (simp_all add: pgal_def)
  assume "PA2PAGE_ID p = PA2PAGE_ID q"
  then have "unat (p - KERNBASE) div 4096 = unat (q - KERNBASE) div 4096"
    by (simp add: PA2PAGE_ID_def word_unat_eq_iff unat_div)
  with d have "unat (p - KERNBASE) = unat (q - KERNBASE)" by (metis dvd_div_mult_self)
  then show "p = q" by (simp add: word_unat_eq_iff [symmetric])
qed simp

lemma set_ref_sel [simp]:
  "held (set_ref p n s) = held s" "mem (set_ref p n s) = mem s" "freelist (set_ref p n s) = freelist s"
  "kend (set_ref p n s) = kend s" "procs (set_ref p n s) = procs s" "cur (set_ref p n s) = cur s"
  "slocks (set_ref p n s) = slocks s"
  by (simp_all add: set_ref_def)

lemma PAGE2REF_upd [simp]:
  "PAGE2REF p (s\<lparr>held := H\<rparr>) = PAGE2REF p s" "PAGE2REF p (s\<lparr>mem := m\<rparr>) = PAGE2REF p s"
  "PAGE2REF p (s\<lparr>freelist := f\<rparr>) = PAGE2REF p s" "PAGE2REF p (s\<lparr>procs := ps\<rparr>) = PAGE2REF p s"
  "PAGE2REF p (s\<lparr>slocks := sl\<rparr>) = PAGE2REF p s"
  by (simp_all add: PAGE2REF_def)

lemma PAGE2REF_set_same [simp]: "PAGE2REF p (set_ref p n s) = n"
  by (simp add: PAGE2REF_def set_ref_def)

lemma PAGE2REF_set:
  "pgal p \<Longrightarrow> pgal q \<Longrightarrow> PAGE2REF q (set_ref p n s) = (if q = p then n else PAGE2REF q s)"
  using PA2PAGE_ID_inj [of q p] by (simp add: PAGE2REF_def set_ref_def)

section \<open>Closed forms\<close>

definition vpage :: "addr \<Rightarrow> addr \<Rightarrow> bool" where
  "vpage e p \<longleftrightarrow> pgal p \<and> e \<le> p \<and> p < PHYSTOP"

lemma vpage_pgal: "vpage e p \<Longrightarrow> pgal p"
  by (simp add: vpage_def)

lemma mod_PGSIZE_pgal: "pa mod PGSIZE = 0 \<longleftrightarrow> pgal pa"
  by (simp add: pgal_def word_unat_eq_iff unat_mod dvd_eq_mod_eq_0)

definition unlocked :: "'a lockst_scheme \<Rightarrow> bool" where
  "unlocked s \<longleftrightarrow> LkKmem \<notin> held s \<and> LkPageref \<notin> held s"

lemma unlockedD [simp]: "unlocked s \<Longrightarrow> LkKmem \<notin> held s" "unlocked s \<Longrightarrow> LkPageref \<notin> held s"
  by (simp_all add: unlocked_def)

lemma unlocked_held: "held s' = held s \<Longrightarrow> unlocked s' \<longleftrightarrow> unlocked s"
  by (simp only: unlocked_def)

lemma pageRef_eq: "unlocked s \<Longrightarrow> pageRef pa s = Inr (set_ref pa (PAGE2REF pa s + 1) s)"
  by (simp add: pageRef_def set_ref_def)

lemma kfree_guard: "(pa mod PGSIZE \<noteq> 0 \<or> pa < e \<or> pa \<ge> PHYSTOP) \<longleftrightarrow> \<not> vpage e pa"
  by (simp add: vpage_def mod_PGSIZE_pgal not_less not_le)

lemma kfree_invalid: "\<not> vpage (kend s) pa \<Longrightarrow> kfree pa s = Inl (Panic ''kfree'')"
  by (simp only: kfree_def kfree_guard) simp

lemma kfree_dec:
  assumes "unlocked s" "vpage (kend s) pa" "PAGE2REF pa s > 1"
  shows "kfree pa s = Inr (set_ref pa (PAGE2REF pa s - 1) s)"
  unfolding kfree_def kfree_guard using assms by (simp add: Let_def) (simp add: set_ref_def)

lemma kfree_push:
  assumes "unlocked s" "vpage (kend s) pa" "PAGE2REF pa s \<le> 1"
  shows "kfree pa s = Inr (set_ref pa (PAGE2REF pa s - 1)
    (s\<lparr>mem := st64 (memset pa 1 4096 (mem s)) pa (freelist s), freelist := pa\<rparr>))"
  unfolding kfree_def kfree_guard using assms by (simp add: Let_def insert_Diff_if) (simp add: set_ref_def)

lemma kalloc_eq:
  assumes "LkKmem \<notin> held s"
  shows "kalloc s = Inr (freelist s, if freelist s = 0 then s
    else set_ref (freelist s) 1 (s\<lparr>freelist := ld64 (mem s) (freelist s), mem := memset (freelist s) 5 4096 (mem s)\<rparr>))"
  using assms by (simp add: kalloc_def Let_def)

section \<open>The free list\<close>

fun chain :: "memory \<Rightarrow> addr \<Rightarrow> addr list \<Rightarrow> bool" where
  "chain m r [] \<longleftrightarrow> r = 0"
| "chain m r (p # ps) \<longleftrightarrow> r = p \<and> p \<noteq> 0 \<and> chain m (ld64 m p) ps"

lemma chain_cong: "(\<And>p. p \<in> set ps \<Longrightarrow> ld64 m' p = ld64 m p) \<Longrightarrow> chain m' r ps = chain m r ps"
  by (induction ps arbitrary: r) auto

lemma chain_same_off:
  assumes "same_off P m m'" "\<And>p. p \<in> set ps \<Longrightarrow> pgal p \<and> p \<notin> P"
  shows "chain m' r ps = chain m r ps"
  using assms by (intro chain_cong same_off_ld64 [OF assms(1)]) (auto simp: pgal_al8 PGROUNDDOWN_id)

lemma chain_unique: "chain m r ps \<Longrightarrow> chain m r qs \<Longrightarrow> ps = qs"
proof (induction ps arbitrary: r qs)
  case Nil
  then show ?case by (cases qs) auto
next
  case (Cons p ps)
  then show ?case by (cases qs) auto
qed

text \<open>
  The invariant of the allocator: the list is well linked, has no duplicates, holds valid
  pages, and a page is on it exactly when its reference count is not positive.
\<close>

definition free_page :: "'a kmst_scheme \<Rightarrow> addr \<Rightarrow> bool" where
  "free_page s p \<longleftrightarrow> vpage (kend s) p \<and> PAGE2REF p s \<le> 0"

definition kmem_inv :: "'a kmst_scheme \<Rightarrow> addr list \<Rightarrow> bool" where
  "kmem_inv s ps \<longleftrightarrow> KERNBASE \<le> kend s \<and> chain (mem s) (freelist s) ps \<and> distinct ps \<and>
     set ps = {p. free_page s p}"


lemma kmem_invD:
  assumes "kmem_inv s ps"
  shows "chain (mem s) (freelist s) ps" "distinct ps" "p \<in> set ps \<longleftrightarrow> free_page s p"
    "p \<in> set ps \<Longrightarrow> pgal p" "p \<in> set ps \<Longrightarrow> vpage (kend s) p" "p \<in> set ps \<Longrightarrow> p \<noteq> 0" "KERNBASE \<le> kend s"
proof -
  show "chain (mem s) (freelist s) ps" "distinct ps" "p \<in> set ps \<longleftrightarrow> free_page s p" "KERNBASE \<le> kend s"
    using assms by (auto simp: kmem_inv_def)
  assume "p \<in> set ps"
  then have v: "vpage (kend s) p" using assms by (simp add: kmem_inv_def free_page_def)
  then show "pgal p" "vpage (kend s) p" by (simp_all add: vpage_def)
  from v assms show "p \<noteq> 0"
    by (auto simp: vpage_def kmem_inv_def word_le_nat_alt)
qed

lemma free_page_set_ref:
  "vpage (kend s) p \<Longrightarrow>
   free_page (set_ref p n s) q \<longleftrightarrow> (if q = p then n \<le> 0 else free_page s q)"
  by (auto simp: free_page_def PAGE2REF_set vpage_pgal)

lemma free_page_upd [simp]:
  "free_page (s\<lparr>held := H\<rparr>) = free_page s" "free_page (s\<lparr>mem := m\<rparr>) = free_page s"
  "free_page (s\<lparr>freelist := f\<rparr>) = free_page s" "free_page (s\<lparr>mem := m, freelist := f\<rparr>) = free_page s"
  "free_page (s\<lparr>procs := pr\<rparr>) = free_page s" "free_page (s\<lparr>slocks := sl\<rparr>) = free_page s"
  by (simp_all add: free_page_def fun_eq_iff PAGE2REF_def)

lemma kmem_inv_mem:
  assumes "kmem_inv s ps" "same_off P (mem s) m'" "\<And>p. p \<in> P \<Longrightarrow> \<not> free_page s p"
  shows "kmem_inv (s\<lparr>mem := m'\<rparr>) ps"
proof -
  have "chain m' (freelist s) ps = chain (mem s) (freelist s) ps"
    by (rule chain_same_off [OF assms(2)]) (use kmem_invD(3,4) [OF assms(1)] assms(3) in blast)
  then show ?thesis using assms(1) by (simp add: kmem_inv_def)
qed

lemma kmem_inv_set_ref:
  assumes "kmem_inv s ps" "vpage (kend s) p" "n > 0" "PAGE2REF p s > 0"
  shows "kmem_inv (set_ref p n s) ps"
proof -
  have "\<not> free_page s p" using assms(4) by (simp add: free_page_def)
  then have "free_page (set_ref p n s) = free_page s"
    using free_page_set_ref [OF assms(2), of n] assms(3) by (auto simp: fun_eq_iff)
  then show ?thesis using assms(1) by (simp add: kmem_inv_def)
qed

text \<open>The state after a page was taken from the list, and after it was put back.\<close>

definition alloced :: "addr \<Rightarrow> 'a kmst_scheme \<Rightarrow> 'a kmst_scheme" where
  "alloced p s = set_ref p 1 (s\<lparr>freelist := ld64 (mem s) p, mem := memset p 5 4096 (mem s)\<rparr>)"

definition freed :: "addr \<Rightarrow> 'a kmst_scheme \<Rightarrow> 'a kmst_scheme" where
  "freed p s = set_ref p 0 (s\<lparr>mem := st64 (memset p 1 4096 (mem s)) p (freelist s), freelist := p\<rparr>)"

lemma alloced_sel [simp]:
  "held (alloced p s) = held s" "mem (alloced p s) = memset p 5 4096 (mem s)" "kend (alloced p s) = kend s"
  "procs (alloced p s) = procs s" "cur (alloced p s) = cur s" "PAGE2REF p (alloced p s) = 1"
  by (simp_all add: alloced_def)

lemma freed_sel [simp]:
  "held (freed p s) = held s" "kend (freed p s) = kend s" "PAGE2REF p (freed p s) = 0"
  "mem (freed p s) = st64 (memset p 1 4096 (mem s)) p (freelist s)"
  "procs (freed p s) = procs s" "cur (freed p s) = cur s"
  by (simp_all add: freed_def)

lemma PAGE2REF_alloced: "pgal p \<Longrightarrow> pgal q \<Longrightarrow> PAGE2REF q (alloced p s) = (if q = p then 1 else PAGE2REF q s)"
  by (simp add: alloced_def PAGE2REF_set)

lemma PAGE2REF_freed: "pgal p \<Longrightarrow> pgal q \<Longrightarrow> PAGE2REF q (freed p s) = (if q = p then 0 else PAGE2REF q s)"
  by (simp add: freed_def PAGE2REF_set)

lemma same_off_freed:
  assumes "pgal p"
  shows "same_off {p} (mem s) (mem (freed p s))"
  using same_off_trans [OF same_off_memset [OF assms] same_off_st64 [OF pgal_al8 [OF assms]], where R = "{p}"] assms
  by (simp add: PGROUNDDOWN_id)

lemma kmem_inv_kalloc:
  assumes "kmem_inv s (p # ps)" "LkKmem \<notin> held s"
  shows "kalloc s = Inr (p, alloced p s)" "kmem_inv (alloced p s) ps"
proof -
  note i = kmem_invD [OF assms(1)]
  have p: "freelist s = p" "p \<noteq> 0" and c: "chain (mem s) (ld64 (mem s) p) ps" using i(1) by auto
  show "kalloc s = Inr (p, alloced p s)" using kalloc_eq [OF assms(2)] p by (simp add: alloced_def)
  let ?s = "s\<lparr>freelist := ld64 (mem s) p, mem := memset p 5 4096 (mem s)\<rparr>"
  have vp: "vpage (kend s) p" using i(5) [of p] by simp
  have np: "p \<notin> set ps" using i(2) by simp
  have "chain (mem ?s) (freelist ?s) ps"
    using c np chain_same_off [OF same_off_memset [of p "mem s" 5], of ps] i(4) vpage_pgal [OF vp] by auto
  moreover have "free_page (set_ref p 1 ?s) q \<longleftrightarrow> q \<in> set ps" for q
    using i(3) [of q] np vp by (auto simp: free_page_set_ref)
  ultimately show "kmem_inv (alloced p s) ps" using i(2,7) by (simp add: kmem_inv_def alloced_def)
qed

lemma kalloc_empty: "kmem_inv s [] \<Longrightarrow> LkKmem \<notin> held s \<Longrightarrow> kalloc s = Inr (0, s)"
  using kalloc_eq [of s] by (simp add: kmem_inv_def)

lemma kmem_inv_kfree:
  assumes "kmem_inv s ps" "unlocked s" "vpage (kend s) p" "PAGE2REF p s = 1"
  shows "kfree p s = Inr (freed p s)" "kmem_inv (freed p s) (p # ps)"
proof -
  note i = kmem_invD [OF assms(1)]
  show "kfree p s = Inr (freed p s)" using kfree_push [OF assms(2,3)] assms(4) by (simp add: freed_def)
  let ?m = "mem (freed p s)"
  have pg: "pgal p" "al8 p" using assms(3) by (simp_all add: vpage_pgal pgal_al8)
  have nf: "p \<notin> set ps" using i(3) assms(4) by (simp add: free_page_def)
  have p0: "p \<noteq> 0" using assms(3) i(7) by (auto simp: vpage_def word_le_nat_alt)
  have "chain ?m (freelist s) ps = chain (mem s) (freelist s) ps"
    by (rule chain_same_off [OF same_off_freed [OF pg(1)]]) (use i(4) nf in auto)
  then have "chain ?m p (p # ps)" using i(1) p0 by simp
  moreover have "free_page (freed p s) q \<longleftrightarrow> q \<in> set (p # ps)" for q
    using i(3) [of q] assms(3) by (auto simp: freed_def free_page_set_ref)
  ultimately show "kmem_inv (freed p s) (p # ps)" using i(2,7) nf by (auto simp: kmem_inv_def freed_def)
qed

lemma cow_kalloc_own:
  "unlocked s \<Longrightarrow> PAGE2REF pa s \<le> 1 \<Longrightarrow> cow_kalloc pa s = Inr (pa, s)"
  by (simp add: cow_kalloc_def)

lemma cow_kalloc_none:
  assumes "unlocked s" "PAGE2REF pa s > 1" "kmem_inv s []"
  shows "cow_kalloc pa s = Inr (0, s)"
proof -
  have "freelist s = 0" using assms(3) by (simp add: kmem_inv_def)
  then show ?thesis using assms(1,2) kalloc_eq [of "s\<lparr>held := insert LkPageref (held s)\<rparr>"]
    by (simp add: cow_kalloc_def)
qed

definition cowed :: "addr \<Rightarrow> addr \<Rightarrow> 'a kmst_scheme \<Rightarrow> 'a kmst_scheme" where
  "cowed q pa s = set_ref pa (PAGE2REF pa s - 1) ((alloced q s)\<lparr>mem := memmove q pa 4096 (mem (alloced q s))\<rparr>)"

lemma cow_kalloc_copy:
  assumes "unlocked s" "PAGE2REF pa s > 1" "kmem_inv s (q # ps)" "vpage (kend s) pa"
  shows "cow_kalloc pa s = Inr (q, cowed q pa s)" "kmem_inv (cowed q pa s) ps"
proof -
  note i = kmem_invD [OF assms(3)]
  have vq: "vpage (kend s) q" and q0: "q \<noteq> 0" and fq: "free_page s q" using i(3,5,6) [of q] by auto
  have ne: "pa \<noteq> q" using fq assms(2) by (auto simp: free_page_def)
  have pg: "pgal q" "pgal pa" using vq assms(4) by (auto simp: vpage_pgal)
  have ref: "PAGE2REF pa (alloced q s) = PAGE2REF pa s" using pg ne by (simp add: PAGE2REF_alloced)
  let ?s = "(alloced q s)\<lparr>mem := memmove q pa 4096 (mem (alloced q s))\<rparr>"
  have nf: "\<not> free_page (alloced q s) q" by (simp add: free_page_def)
  have so: "same_off {q} (mem (alloced q s)) (mem ?s)"
    using assms(4) vq unfolding same_off_def by (simp add: memmove_page vpage_def)
  have "kmem_inv ?s ps"
    using kmem_inv_mem [OF kmem_inv_kalloc(2) [OF assms(3)] so] nf assms(1) by simp
  then show "kmem_inv (cowed q pa s) ps"
    unfolding cowed_def using assms(2,4) ref by (intro kmem_inv_set_ref) simp_all
  have "kalloc (s\<lparr>held := insert LkPageref (held s)\<rparr>) = Inr (q, (alloced q s)\<lparr>held := insert LkPageref (held s)\<rparr>)"
    using i(1) q0 assms(1) by (simp add: kalloc_eq alloced_def set_ref_def)
  then show "cow_kalloc pa s = Inr (q, cowed q pa s)"
    using assms(1,2) q0 ref by (simp add: cow_kalloc_def Let_def) (simp add: set_ref_def cowed_def alloced_def)
qed

section \<open>Boot\<close>

text \<open>
  \<open>kinit\<close> hands every page from \<open>end\<close> to PHYSTOP to \<open>kfree\<close>; before, all counts are zero, so
  each call pushes its page. The loop invariant: the list holds the pages below \<open>p\<close>.
\<close>

definition boot_inv :: "addr \<Rightarrow> 'a kmst_scheme \<Rightarrow> addr list \<Rightarrow> bool" where
  "boot_inv p s ps \<longleftrightarrow> KERNBASE \<le> kend s \<and> chain (mem s) (freelist s) ps \<and> distinct ps \<and>
     set ps = {q. vpage (kend s) q \<and> q < p} \<and> (\<forall>q. vpage (kend s) q \<longrightarrow> PAGE2REF q s \<le> 0)"

lemma boot_inv_kfree:
  assumes "boot_inv p s ps" "unlocked s" "vpage (kend s) p"
  shows "\<exists>s'. kfree p s = Inr s' \<and> boot_inv (p + PGSIZE) s' (p # ps) \<and> held s' = held s \<and> kend s' = kend s"
proof -
  let ?m = "st64 (memset p 1 4096 (mem s)) p (freelist s)"
  let ?s = "set_ref p (PAGE2REF p s - 1) (s\<lparr>mem := ?m, freelist := p\<rparr>)"
  have pg: "pgal p" using assms(3) by (rule vpage_pgal)
  have k: "kfree p s = Inr ?s" using assms by (intro kfree_push) (auto simp: boot_inv_def)
  have ps: "q \<in> set ps \<longleftrightarrow> vpage (kend s) q \<and> q < p" for q using assms(1) by (simp add: boot_inv_def)
  have "pgal q \<and> q \<notin> {p}" if "q \<in> set ps" for q using ps [of q] that vpage_pgal [of "kend s" q] by auto
  from chain_same_off [OF same_off_freed [OF pg, of s] this]
  have "chain ?m (freelist s) ps = chain (mem s) (freelist s) ps" by simp
  moreover have "p \<noteq> 0" using assms(1,3) by (auto simp: boot_inv_def vpage_def word_le_nat_alt)
  ultimately have c: "chain ?m p (p # ps)" using assms(1) by (simp add: boot_inv_def)
  have step: "vpage (kend s) q \<and> q < p + PGSIZE \<longleftrightarrow> q = p \<or> vpage (kend s) q \<and> q < p" for q
  proof -
    have u: "unat (p + PGSIZE) = unat p + 4096"
      using assms(3) by (simp add: vpage_def word_less_nat_alt unat_word_ariths)
    have "unat q < unat p + 4096 \<longleftrightarrow> q = p \<or> unat q < unat p" if q: "pgal q"
    proof -
      obtain i j where "unat q = 4096 * i" "unat p = 4096 * j" using q pg by (auto simp: pgal_def elim!: dvdE)
      then have "unat q < unat p + 4096 \<longleftrightarrow> unat q = unat p \<or> unat q < unat p" by (cases i j rule: linorder_cases) auto
      then show ?thesis by (simp add: word_unat_eq_iff)
    qed
    then show ?thesis using assms(3) u vpage_pgal [of "kend s" q] by (metis word_less_nat_alt)
  qed
  have ref: "PAGE2REF q ?s \<le> 0" if q: "vpage (kend s) q" for q
  proof -
    have "PAGE2REF q s \<le> 0" "PAGE2REF p s \<le> 0" using assms(1,3) q by (simp_all add: boot_inv_def)
    then show ?thesis using pg vpage_pgal [OF q] by (simp add: PAGE2REF_set)
  qed
  have st: "set (p # ps) = {q. vpage (kend s) q \<and> q < p + PGSIZE}" using step ps by auto
  have "distinct (p # ps)" using assms(1) ps by (simp add: boot_inv_def)
  then have "boot_inv (p + PGSIZE) ?s (p # ps)"
    unfolding boot_inv_def using c assms(1) st ref by (simp add: boot_inv_def)
  with k show ?thesis by simp
qed

lemma freerange_loop_ok:
  "boot_inv p s ps \<Longrightarrow> unlocked s \<Longrightarrow> pgal p \<Longrightarrow> kend s \<le> p \<Longrightarrow> p \<le> PHYSTOP \<Longrightarrow>
   \<exists>s' ps'. freerange_loop p PHYSTOP s = Inr s' \<and> boot_inv PHYSTOP s' ps' \<and> held s' = held s \<and> kend s' = kend s"
proof (induction "unat PHYSTOP - unat p" arbitrary: p s ps rule: less_induct)
  case less
  have u: "unat (p + PGSIZE) = unat p + 4096"
    using less.prems(5) by (simp add: word_le_nat_alt unat_word_ariths)
  obtain k where k: "unat p = 4096 * k" using less.prems(3) by (auto simp: pgal_def elim!: dvdE)
  show ?case
  proof (cases "p = PHYSTOP")
    case True
    then show ?thesis using less.prems by (subst freerange_loop.simps) (auto simp: word_le_nat_alt)
  next
    case False
    then have "unat p < 0x88000000" using less.prems(5) by (simp add: word_le_nat_alt word_unat_eq_iff)
    then have "k < 557056" using k by simp
    then have le: "unat p + 4096 \<le> 0x88000000" using k by simp
    have v: "vpage (kend s) p" using less.prems(3,4) le by (simp add: vpage_def word_less_nat_alt)
    obtain s1 where s1: "kfree p s = Inr s1" "boot_inv (p + PGSIZE) s1 (p # ps)" "held s1 = held s" "kend s1 = kend s"
      using boot_inv_kfree [OF less.prems(1,2) v] by auto
    have c: "p + PGSIZE \<le> PHYSTOP" using le u by (simp add: word_le_nat_alt)
    have m: "unat PHYSTOP - unat (p + PGSIZE) < unat PHYSTOP - unat p" using u le by simp
    have e: "kend s1 \<le> p + PGSIZE" using less.prems(4) s1(4) u by (simp add: word_le_nat_alt)
    have "unlocked s1" using less.prems(2) unlocked_held [OF s1(3)] by simp
    from less.hyps [OF m s1(2) this pgal_add_PGSIZE [OF less.prems(3)] e c]
    have "\<exists>s' ps'. freerange_loop (p + PGSIZE) PHYSTOP s1 = Inr s' \<and> boot_inv PHYSTOP s' ps' \<and>
        held s' = held s1 \<and> kend s' = kend s1" .
    then show ?thesis using s1 c by (subst freerange_loop.simps) simp
  qed
qed

lemma kinit_ok:
  assumes "unlocked s" "KERNBASE \<le> kend s" "kend s \<le> PHYSTOP" "freelist s = 0"
    "\<And>p. vpage (kend s) p \<Longrightarrow> PAGE2REF p s = 0"
  shows "\<exists>s' ps. kinit s = Inr s' \<and> kmem_inv s' ps \<and> set ps = {p. vpage (kend s) p} \<and>
    held s' = held s \<and> kend s' = kend s"
proof -
  let ?p = "PGROUNDUP (kend s)"
  have e: "unat (kend s) \<le> 0x88000000" using assms(3) by (simp add: word_le_nat_alt)
  have u: "unat ?p = (unat (kend s) + 4095) div 4096 * 4096" using e by (intro unat_PGROUNDUP) simp
  have ep: "kend s \<le> ?p" and pe: "?p \<le> PHYSTOP" using u e by (auto simp: word_le_nat_alt)
  have "\<not> (vpage (kend s) q \<and> q < ?p)" for q
  proof
    assume q: "vpage (kend s) q \<and> q < ?p"
    then obtain i where "unat q = 4096 * i" by (auto simp: vpage_def pgal_def elim!: dvdE)
    then show False using q u by (auto simp: vpage_def word_less_nat_alt word_le_nat_alt)
  qed
  then have "boot_inv ?p s []" using assms(2,4,5) by (auto simp: boot_inv_def)
  from freerange_loop_ok [OF this assms(1) _ ep pe] obtain s' ps where
    k: "kinit s = Inr s'" "boot_inv PHYSTOP s' ps" "held s' = held s" "kend s' = kend s"
    by (auto simp: kinit_def freerange_def)
  have "{q. vpage (kend s') q \<and> q < PHYSTOP} = {q. free_page s' q}"
    using k(2) by (auto simp: boot_inv_def free_page_def vpage_def)
  then have "kmem_inv s' ps" using k(2) by (simp add: boot_inv_def kmem_inv_def)
  moreover have "set ps = {p. vpage (kend s) p}" using k(2,4) by (auto simp: boot_inv_def vpage_def)
  ultimately show ?thesis using k by blast
qed

section \<open>The contract of the allocator\<close>

text \<open>
  \<open>refs s p\<close> counts the owners of page \<open>p\<close>; \<open>pg s p\<close> says that \<open>p\<close> is a page the
  allocator manages.
\<close>

locale page_allocator =
  fixes alloc :: "'s \<Rightarrow> (addr \<times> 's) kres"
    and free :: "addr \<Rightarrow> 's \<Rightarrow> 's kres"
    and refs :: "'s \<Rightarrow> addr \<Rightarrow> int"
    and pg :: "'s \<Rightarrow> addr \<Rightarrow> bool"
    and ok :: "'s \<Rightarrow> bool"
  assumes alloc_none: "ok s \<Longrightarrow> (\<And>p. pg s p \<Longrightarrow> refs s p > 0) \<Longrightarrow> alloc s = Inr (0, s)"
    and alloc_some: "ok s \<Longrightarrow> pg s q \<Longrightarrow> refs s q \<le> 0 \<Longrightarrow>
      \<exists>p s'. alloc s = Inr (p, s') \<and> p \<noteq> 0 \<and> pg s p \<and> refs s p \<le> 0 \<and> refs s' p = 1 \<and>
        (\<forall>r. pg s r \<longrightarrow> r \<noteq> p \<longrightarrow> refs s' r = refs s r) \<and> pg s' = pg s \<and> ok s'"
    and free_one: "ok s \<Longrightarrow> pg s p \<Longrightarrow> refs s p \<ge> 1 \<Longrightarrow>
      \<exists>s'. free p s = Inr s' \<and> refs s' p = refs s p - 1 \<and>
        (\<forall>r. pg s r \<longrightarrow> r \<noteq> p \<longrightarrow> refs s' r = refs s r) \<and> pg s' = pg s \<and> ok s'"
    and free_bad: "\<not> pg s p \<Longrightarrow> free p s = Inl (Panic ''kfree'')"
begin

lemma alloc_total: "ok s \<Longrightarrow> \<exists>p s'. alloc s = Inr (p, s') \<and> ok s' \<and> pg s' = pg s"
  using alloc_none [of s] alloc_some [of s] by (metis linorder_not_le)

lemma alloc_spec:
  assumes "ok s" "alloc s = Inr (p, s')" "p \<noteq> 0"
  shows "pg s p" "refs s p \<le> 0" "refs s' p = 1" "pg s' = pg s" "ok s'"
    "pg s r \<Longrightarrow> r \<noteq> p \<Longrightarrow> refs s' r = refs s r"
proof -
  obtain q where "pg s q" "refs s q \<le> 0" using alloc_none [OF assms(1)] assms(2,3) by (force simp: not_less)
  from alloc_some [OF assms(1) this] assms(2)
  show "pg s p" "refs s p \<le> 0" "refs s' p = 1" "pg s' = pg s" "ok s'"
    "pg s r \<Longrightarrow> r \<noteq> p \<Longrightarrow> refs s' r = refs s r" by auto
qed

lemma alloc_0_iff: "ok s \<Longrightarrow> (\<exists>s'. alloc s = Inr (0, s')) \<longleftrightarrow> (\<forall>p. pg s p \<longrightarrow> refs s p > 0)"
  using alloc_none [of s] alloc_some [of s] by (metis Inr_inject linorder_not_le prod.inject)

lemma alloc_distinct:
  assumes "ok s" "alloc s = Inr (p, s1)" "p \<noteq> 0" "alloc s1 = Inr (q, s2)" "q \<noteq> 0"
  shows "p \<noteq> q"
  using alloc_spec [OF assms(1-3)] alloc_spec [OF _ assms(4,5)] by force

lemma alloc_free:
  assumes "ok s" "alloc s = Inr (p, s1)" "p \<noteq> 0"
  shows "\<exists>s2. free p s1 = Inr s2 \<and> ok s2 \<and> (\<forall>r. pg s r \<longrightarrow> (refs s2 r \<le> 0 \<longleftrightarrow> refs s r \<le> 0))"
proof -
  note a = alloc_spec [OF assms]
  obtain s2 where f: "free p s1 = Inr s2" "refs s2 p = 0" "ok s2"
    "\<And>r. pg s r \<Longrightarrow> r \<noteq> p \<Longrightarrow> refs s2 r = refs s1 r"
    using free_one [OF a(5), of p] a(1,3,4) by auto
  have "refs s2 r \<le> 0 \<longleftrightarrow> refs s r \<le> 0" if "pg s r" for r
    using f(2,4) a(2,6) that by (cases "r = p") auto
  with f show ?thesis by blast
qed

end

definition kmem_ok :: "'a kmst_scheme \<Rightarrow> bool" where
  "kmem_ok s \<longleftrightarrow> unlocked s \<and> (\<exists>ps. kmem_inv s ps)"

interpretation kmem: page_allocator kalloc kfree "\<lambda>s p. PAGE2REF p s" "\<lambda>s. vpage (kend s)" kmem_ok
proof unfold_locales
  fix s :: "'a kmst_scheme"
  assume "kmem_ok s" and all: "\<And>p. vpage (kend s) p \<Longrightarrow> 0 < PAGE2REF p s"
  then obtain ps where i: "unlocked s" "kmem_inv s ps" by (auto simp: kmem_ok_def)
  have "ps = []" using kmem_invD(3) [OF i(2)] all by (cases ps) (auto simp: free_page_def not_less [symmetric])
  then show "kalloc s = Inr (0, s)" using i by (auto intro: kalloc_empty)
next
  fix s :: "'a kmst_scheme" and q
  assume "kmem_ok s" and q: "vpage (kend s) q" "PAGE2REF q s \<le> 0"
  then obtain ps where i: "unlocked s" "kmem_inv s ps" by (auto simp: kmem_ok_def)
  have "q \<in> set ps" using kmem_invD(3) [OF i(2)] q by (simp add: free_page_def)
  then obtain p ps' where ps: "ps = p # ps'" by (cases ps) auto
  have p: "p \<noteq> 0" "vpage (kend s) p" "PAGE2REF p s \<le> 0"
    using kmem_invD(3,6) [OF i(2), of p] ps by (auto simp: free_page_def)
  have k: "kalloc s = Inr (p, alloced p s)" "kmem_inv (alloced p s) ps'"
    using kmem_inv_kalloc [of s p ps'] i ps by simp_all
  have "kmem_ok (alloced p s)" using k(2) i(1) unlocked_held [of "alloced p s" s] by (auto simp: kmem_ok_def)
  moreover have "\<forall>r. vpage (kend s) r \<longrightarrow> r \<noteq> p \<longrightarrow> PAGE2REF r (alloced p s) = PAGE2REF r s"
    using PAGE2REF_alloced vpage_pgal p(2) by metis
  ultimately show "\<exists>p s'. kalloc s = Inr (p, s') \<and> p \<noteq> 0 \<and> vpage (kend s) p \<and> PAGE2REF p s \<le> 0 \<and> PAGE2REF p s' = 1 \<and>
      (\<forall>r. vpage (kend s) r \<longrightarrow> r \<noteq> p \<longrightarrow> PAGE2REF r s' = PAGE2REF r s) \<and> vpage (kend s') = vpage (kend s) \<and> kmem_ok s'"
    using k p by (intro exI [of _ p] exI [of _ "alloced p s"]) simp
next
  fix s :: "'a kmst_scheme" and p
  assume "kmem_ok s" and p: "vpage (kend s) p" "1 \<le> PAGE2REF p s"
  then obtain ps where i: "unlocked s" "kmem_inv s ps" by (auto simp: kmem_ok_def)
  let ?P = "\<lambda>s'. PAGE2REF p s' = PAGE2REF p s - 1 \<and>
      (\<forall>r. vpage (kend s) r \<longrightarrow> r \<noteq> p \<longrightarrow> PAGE2REF r s' = PAGE2REF r s) \<and> vpage (kend s') = vpage (kend s) \<and> kmem_ok s'"
  show "\<exists>s'. kfree p s = Inr s' \<and> ?P s'"
  proof (cases "PAGE2REF p s = 1")
    case True
    note f = kmem_inv_kfree [OF i(2,1) p(1) True]
    have "kmem_ok (freed p s)" using f(2) i(1) unlocked_held [of "freed p s" s] by (auto simp: kmem_ok_def)
    moreover have "\<forall>r. vpage (kend s) r \<longrightarrow> r \<noteq> p \<longrightarrow> PAGE2REF r (freed p s) = PAGE2REF r s"
      using PAGE2REF_freed vpage_pgal p(1) by metis
    ultimately have "?P (freed p s)" using True by simp
    then show ?thesis using f(1) by blast
  next
    case False
    let ?s = "set_ref p (PAGE2REF p s - 1) s"
    have "kmem_ok ?s"
      using kmem_inv_set_ref [OF i(2) p(1), of "PAGE2REF p s - 1"] p(2) False i(1) unlocked_held [of ?s s]
      by (auto simp: kmem_ok_def)
    moreover have "\<forall>r. vpage (kend s) r \<longrightarrow> r \<noteq> p \<longrightarrow> PAGE2REF r ?s = PAGE2REF r s"
      using PAGE2REF_set vpage_pgal p(1) by metis
    ultimately have "?P ?s" by simp
    then show ?thesis using kfree_dec [OF i(1) p(1)] False p(2) by auto
  qed
next
  fix s :: "'a kmst_scheme" and p
  assume "\<not> vpage (kend s) p"
  then show "kfree p s = Inl (Panic ''kfree'')" by (rule kfree_invalid)
qed

section \<open>Properties\<close>

text \<open>Two pages, the first with two owners and the second free, for the witnesses.\<close>

definition km_ex :: kmst where
  "km_ex = \<lparr>held = {}, procs = (\<lambda>_. proc0), cur = 0, initproc = 0, nextpid = 1, ticks = 0,
     slocks = (\<lambda>_. \<lparr>sl_locked = False, sl_name = [], sl_pid = 0\<rparr>),
     mem = (\<lambda>_. 0), freelist = 0x87FFF000, pageref = (\<lambda>i. if i = 0x7FFE then 2 else 0), kend = 0x87FFE000\<rparr>"

lemma vpage_last2: "vpage 0x87FFE000 p \<longleftrightarrow> p = 0x87FFE000 \<or> p = 0x87FFF000"
proof -
  have "4096 dvd unat p \<Longrightarrow> 0x87FFE000 \<le> unat p \<Longrightarrow> unat p < 0x88000000 \<Longrightarrow> unat p = 0x87FFE000 \<or> unat p = 0x87FFF000"
    by (elim dvdE) (simp, linarith)
  moreover have "4096 dvd (0x87FFE000 :: nat)" "4096 dvd (0x87FFF000 :: nat)" by simp_all
  ultimately show ?thesis
    by (auto simp: vpage_def pgal_def word_less_nat_alt word_le_nat_alt word_unat_eq_iff)
qed

lemma km_ex_refs [simp]: "PAGE2REF 0x87FFE000 km_ex = 2" "PAGE2REF 0x87FFF000 km_ex = 0" "kend km_ex = 0x87FFE000"
  by (simp_all add: km_ex_def PAGE2REF_def PA2PAGE_ID_def)

lemma km_ex_inv: "kmem_inv km_ex [0x87FFF000]"
proof -
  have "ld64 (\<lambda>_. 0) a = 0" for a by (simp add: ld64_def le_word_zero)
  then have "chain (mem km_ex) (freelist km_ex) [0x87FFF000]" by (simp add: km_ex_def)
  moreover have "free_page km_ex p \<longleftrightarrow> p = 0x87FFF000" for p
    unfolding free_page_def km_ex_refs(3) vpage_last2 by auto
  ultimately show ?thesis by (simp add: kmem_inv_def)
qed

lemma km_ex_ok: "kmem_ok km_ex"
  using km_ex_inv by (auto simp: kmem_ok_def unlocked_def km_ex_def)

text \<open>C12. \<open>kalloc\<close> always returns. It returns 0, without touching the state, exactly when every
  page has an owner; otherwise it returns a page nobody owned, now owned once, and changes no
  other count and no memory outside that page. The allocator's invariant is kept.\<close>

theorem kalloc_correct:
  assumes "kmem_ok s"
  shows "\<exists>p s'. kalloc s = Inr (p, s') \<and> kmem_ok s' \<and>
    (p = 0 \<longleftrightarrow> (\<forall>q. vpage (kend s) q \<longrightarrow> PAGE2REF q s > 0)) \<and> (p = 0 \<longrightarrow> s' = s) \<and>
    (p \<noteq> 0 \<longrightarrow> vpage (kend s) p \<and> PAGE2REF p s \<le> 0 \<and> PAGE2REF p s' = 1 \<and> same_off {p} (mem s) (mem s') \<and>
       (\<forall>q. vpage (kend s) q \<longrightarrow> q \<noteq> p \<longrightarrow> PAGE2REF q s' = PAGE2REF q s))"
proof -
  obtain p s' where k: "kalloc s = Inr (p, s')" "kmem_ok s'" using kmem.alloc_total [OF assms] by auto
  have z: "p = 0 \<longleftrightarrow> (\<forall>q. vpage (kend s) q \<longrightarrow> PAGE2REF q s > 0)"
    using kmem.alloc_0_iff [OF assms] k(1) by auto
  have l: "LkKmem \<notin> held s" using assms by (auto simp: kmem_ok_def)
  have e: "p = freelist s" "p = 0 \<Longrightarrow> s' = s" "p \<noteq> 0 \<Longrightarrow> mem s' = memset p 5 4096 (mem s)"
    using k(1) kalloc_eq [OF l] by auto
  have "same_off {p} (mem s) (mem s')" if "p \<noteq> 0"
    using e(3) [OF that] kmem.alloc_spec(1) [OF assms k(1) that] by (simp add: same_off_memset vpage_pgal)
  with k z e(2) kmem.alloc_spec [OF assms k(1)] show ?thesis by blast
qed

theorem kalloc_correct_witness:
  "\<exists>p s'. kalloc km_ex = Inr (p, s') \<and> p \<noteq> 0 \<and> PAGE2REF p s' = 1"
proof -
  have "vpage (kend km_ex) 0x87FFF000" by (simp add: vpage_last2)
  then show ?thesis using kalloc_correct [OF km_ex_ok] by fastforce
qed

text \<open>C13. \<open>kfree\<close> of an owned page takes one owner away and changes nothing else, until the last one
  is gone: only then is the page overwritten and put on the free list. Of anything that is not a
  page of the allocator it panics.\<close>

theorem kfree_correct:
  assumes "kmem_ok s" "vpage (kend s) p" "PAGE2REF p s \<ge> 1"
  shows "(\<forall>x. \<not> vpage (kend s) x \<longrightarrow> kfree x s = Inl (Panic ''kfree'')) \<and>
    (\<exists>s'. kfree p s = Inr s' \<and> kmem_ok s' \<and> PAGE2REF p s' = PAGE2REF p s - 1 \<and>
      (\<forall>q. vpage (kend s) q \<longrightarrow> q \<noteq> p \<longrightarrow> PAGE2REF q s' = PAGE2REF q s) \<and>
      same_off {p} (mem s) (mem s') \<and> (PAGE2REF p s > 1 \<longrightarrow> mem s' = mem s \<and> freelist s' = freelist s) \<and>
      (PAGE2REF p s = 1 \<longrightarrow> freelist s' = p \<and> ld64 (mem s') p = freelist s))"
proof -
  obtain ps where u: "unlocked s" and i: "kmem_inv s ps" using assms(1) by (auto simp: kmem_ok_def)
  obtain s' where f: "kfree p s = Inr s'" "kmem_ok s'" "PAGE2REF p s' = PAGE2REF p s - 1"
    "\<forall>q. vpage (kend s) q \<longrightarrow> q \<noteq> p \<longrightarrow> PAGE2REF q s' = PAGE2REF q s"
    using kmem.free_one [OF assms] by auto
  have "same_off {p} (mem s) (mem s') \<and> (PAGE2REF p s > 1 \<longrightarrow> mem s' = mem s \<and> freelist s' = freelist s) \<and>
      (PAGE2REF p s = 1 \<longrightarrow> freelist s' = p \<and> ld64 (mem s') p = freelist s)"
  proof (cases "PAGE2REF p s = 1")
    case True
    then have "s' = freed p s" using kmem_inv_kfree(1) [OF i u assms(2)] f(1) by simp
    moreover have "freelist (freed p s) = p" by (simp add: freed_def)
    ultimately show ?thesis using True same_off_freed [OF vpage_pgal [OF assms(2)], of s] by simp
  next
    case False
    then show ?thesis using kfree_dec [OF u assms(2)] f(1) assms(3) by auto
  qed
  with f show ?thesis using kfree_invalid by blast
qed

theorem kfree_correct_witness:
  "\<exists>s'. kfree 0x87FFE000 km_ex = Inr s' \<and> PAGE2REF 0x87FFE000 s' = 1 \<and> mem s' = mem km_ex"
  using kfree_correct [of km_ex "0x87FFE000"] km_ex_ok by (auto simp: vpage_last2)

text \<open>\<open>cow_kalloc\<close> of an owned page: the only owner gets the page itself; one of several owners
  gets a fresh page with the same content and gives up its share of the old one, whose content
  stays; with no free page left it returns 0 and changes nothing.\<close>

theorem cow_kalloc_correct:
  assumes "kmem_ok s" "vpage (kend s) pa"
  shows "\<exists>q s'. cow_kalloc pa s = Inr (q, s') \<and> kmem_ok s' \<and>
    (PAGE2REF pa s \<le> 1 \<longrightarrow> q = pa \<and> s' = s) \<and>
    (PAGE2REF pa s > 1 \<longrightarrow> (if \<forall>p. vpage (kend s) p \<longrightarrow> PAGE2REF p s > 0 then q = 0 \<and> s' = s
       else free_page s q \<and> q \<noteq> 0 \<and> PAGE2REF q s' = 1 \<and> PAGE2REF pa s' = PAGE2REF pa s - 1 \<and>
            same_off {q} (mem s) (mem s') \<and> (\<forall>off<4096. mem s' (q + off) = mem s (pa + off))))"
proof -
  obtain ps where u: "unlocked s" and i: "kmem_inv s ps" using assms(1) by (auto simp: kmem_ok_def)
  show ?thesis
  proof (cases "PAGE2REF pa s \<le> 1")
    case True
    then show ?thesis using cow_kalloc_own [OF u True] assms(1) by auto
  next
    case False
    then have r: "PAGE2REF pa s > 1" by simp
    show ?thesis
    proof (cases ps)
      case Nil
      then have "\<forall>p. vpage (kend s) p \<longrightarrow> PAGE2REF p s > 0"
        using kmem_invD(3) [OF i] by (auto simp: free_page_def not_le)
      then show ?thesis using cow_kalloc_none [OF u r] i Nil assms(1) False by auto
    next
      case (Cons q qs)
      note c = cow_kalloc_copy [OF u r i [unfolded Cons] assms(2)]
      have q: "vpage (kend s) q" "q \<noteq> 0" "free_page s q" using kmem_invD(3,5,6) [OF i, of q] Cons by auto
      have pg: "pgal q" "pgal pa" using q(1) assms(2) by (auto simp: vpage_pgal)
      have ne: "q \<noteq> pa" using q(3) r by (auto simp: free_page_def)
      have some: "\<not> (\<forall>p. vpage (kend s) p \<longrightarrow> PAGE2REF p s > 0)" using q(1,3) by (force simp: free_page_def)
      have ok: "kmem_ok (cowed q pa s)" using c(2) u unlocked_held [of "cowed q pa s" s]
        by (auto simp: kmem_ok_def cowed_def)
      have refs: "PAGE2REF q (cowed q pa s) = 1" "PAGE2REF pa (cowed q pa s) = PAGE2REF pa s - 1"
        using pg ne by (simp_all add: cowed_def PAGE2REF_set)
      have m: "mem (cowed q pa s) x = (if PGROUNDDOWN x = q then mem s (pa + (x - q)) else mem s x)" for x
        using q(1) assms(2) pg ne PGROUNDDOWN_add [OF pg(2), of "x - q"] page_off_iff [OF pg(1), of x]
        by (simp add: cowed_def memmove_page memset_page vpage_def)
      have "same_off {q} (mem s) (mem (cowed q pa s))" by (simp add: same_off_def m)
      moreover have "\<forall>off<4096. mem (cowed q pa s) (q + off) = mem s (pa + off)"
        using pg(1) by (simp add: m PGROUNDDOWN_add)
      ultimately show ?thesis using c(1) ok refs q False some by auto
    qed
  qed
qed

theorem cow_kalloc_correct_witness:
  "\<exists>q s'. cow_kalloc 0x87FFE000 km_ex = Inr (q, s') \<and> PAGE2REF 0x87FFE000 km_ex = 2 \<and> PAGE2REF 0x87FFE000 s' = 1"
proof -
  have v: "vpage (kend km_ex) 0x87FFE000" "vpage (kend km_ex) 0x87FFF000" by (simp_all add: vpage_last2)
  then have n: "\<not> (\<forall>p. vpage (kend km_ex) p \<longrightarrow> PAGE2REF p km_ex > 0)" by (metis km_ex_refs(2) less_irrefl)
  show ?thesis using cow_kalloc_correct [OF km_ex_ok v(1)] unfolding if_not_P [OF n] by auto
qed

text \<open>Boot. Started with no locks held, an empty list and zero counts, \<open>kinit\<close> returns, and the
  free list then holds exactly the pages between \<open>end\<close> and PHYSTOP, each once.\<close>

theorem kinit_correct:
  assumes "unlocked s" "KERNBASE \<le> kend s" "kend s \<le> PHYSTOP" "freelist s = 0" "pageref s = (\<lambda>_. 0)"
  shows "\<exists>s' ps. kinit s = Inr s' \<and> kmem_inv s' ps \<and> set ps = {p. vpage (kend s) p} \<and> kmem_ok s'"
proof -
  have "PAGE2REF p s = 0" for p using assms(5) by (simp add: PAGE2REF_def)
  then obtain s' ps where k: "kinit s = Inr s'" "kmem_inv s' ps" "set ps = {p. vpage (kend s) p}" "held s' = held s"
    using kinit_ok [OF assms(1-4)] by auto
  moreover have "unlocked s'" using k(4) assms(1) unlocked_held [of s' s] by simp
  ultimately show ?thesis by (auto simp: kmem_ok_def)
qed

theorem kinit_correct_witness:
  "\<exists>s' ps. kinit (km_ex\<lparr>freelist := 0, pageref := (\<lambda>_. 0)\<rparr>) = Inr s' \<and> kmem_inv s' ps \<and>
     set ps = {0x87FFE000, 0x87FFF000}"
proof -
  let ?s = "km_ex\<lparr>freelist := 0, pageref := (\<lambda>_. 0)\<rparr>"
  have "unlocked ?s" by (simp add: unlocked_def km_ex_def)
  from kinit_correct [OF this] obtain s' ps where "kinit ?s = Inr s'" "kmem_inv s' ps" "set ps = {p. vpage 0x87FFE000 p}"
    by auto
  then show ?thesis using vpage_last2 by blast
qed

end
