(* ===== verification/Page_Table.thy ===== *)
theory Page_Table
  imports Kalloc
begin

text \<open>
  Sv39 page tables of kernel/vm.c: \<open>walk\<close>, \<open>walkaddr\<close>, \<open>mappages\<close>, \<open>uvmunmap\<close>. A table is
  the page of 512 entries in memory that the source has; \<open>node m pt path\<close> follows a path
  of indices from the root, and \<open>lookup m pt va\<close> is the leaf entry of a virtual address,
  0 where a table on the way is missing. A page table is well formed when different paths lead
  to different pages. On well-formed tables \<open>walk\<close> is that lookup, allocating tables in
  \<open>walk\<close> changes no lookup, and \<open>mappages\<close> and \<open>uvmunmap\<close> change exactly the pages
  they name.
\<close>

section \<open>Operations\<close>

definition pte_has :: "u64 \<Rightarrow> u64 \<Rightarrow> bool" where
  "pte_has e f \<longleftrightarrow> e AND f \<noteq> 0"

text \<open>The address of entry \<open>i\<close> of a table: \<open>&pagetable[i]\<close>.\<close>

definition pte_at :: "addr \<Rightarrow> u64 \<Rightarrow> addr" where
  "pte_at pt i = pt + 8 * i"

fun walk_loop :: "nat \<Rightarrow> addr \<Rightarrow> u64 \<Rightarrow> bool \<Rightarrow> 'a kmst_scheme \<Rightarrow> (addr \<times> 'a kmst_scheme) kres" where
  "walk_loop 0 pt va alloc s = Inr (pte_at pt (PX 0 va), s)"
| "walk_loop (Suc l) pt va alloc s =
     (let pte = pte_at pt (PX (Suc l) va)
      in if pte_has (ld64 (mem s) pte) PTE_V then walk_loop l (PTE2PA (ld64 (mem s) pte)) va alloc s
         else if \<not> alloc then Inr (0, s)
         else bnd (kalloc s) (\<lambda>(p, s).
              if p = 0 then Inr (0, s)
              else let s = s\<lparr>mem := memset p 0 4096 (mem s)\<rparr>;
                       s = s\<lparr>mem := st64 (mem s) pte (PA2PTE p OR PTE_V)\<rparr>
                   in walk_loop l p va alloc s))"

definition walk :: "addr \<Rightarrow> u64 \<Rightarrow> bool \<Rightarrow> 'a kmst_scheme \<Rightarrow> (addr \<times> 'a kmst_scheme) kres" where
  "walk pt va alloc s = (if va \<ge> MAXVA then Inl (Panic ''walk'') else walk_loop 2 pt va alloc s)"

definition walkaddr :: "addr \<Rightarrow> u64 \<Rightarrow> 'a kmst_scheme \<Rightarrow> (addr \<times> 'a kmst_scheme) kres" where
  "walkaddr pt va s =
     (if va \<ge> MAXVA then Inr (0, s)
      else bnd (walk pt va False s) (\<lambda>(pte, s).
           if pte = 0 then Inr (0, s)
           else if \<not> pte_has (ld64 (mem s) pte) PTE_V then Inr (0, s)
           else if \<not> pte_has (ld64 (mem s) pte) PTE_U then Inr (0, s)
           else Inr (PTE2PA (ld64 (mem s) pte), s)))"

lemma walk_bound: "walk pt va alloc s = Inr x \<Longrightarrow> va < MAXVA"
  by (auto simp: walk_def not_le split: if_splits)

lemma walk_next:
  "walk pt a alloc s = Inr x \<Longrightarrow> unat (a + PGSIZE) = unat a + 4096"
  using walk_bound [of pt a alloc s x] by (simp add: word_less_nat_alt unat_word_ariths)

function mappages_loop :: "addr \<Rightarrow> u64 \<Rightarrow> u64 \<Rightarrow> addr \<Rightarrow> u64 \<Rightarrow> 'a kmst_scheme \<Rightarrow> (int \<times> 'a kmst_scheme) kres" where
  "mappages_loop pt a lst pa perm s =
     bnd (walk pt a True s) (\<lambda>(pte, s).
     if pte = 0 then Inr (- 1, s)
     else if pte_has (ld64 (mem s) pte) PTE_V then Inl (Panic ''remap'')
     else let s = s\<lparr>mem := st64 (mem s) pte (PA2PTE pa OR perm OR PTE_V)\<rparr>
          in if a = lst then Inr (0, s)
             else mappages_loop pt (a + PGSIZE) lst (pa + PGSIZE) perm s)"
  by pat_completeness auto

termination
proof (relation "measure (\<lambda>(_, a, _). 2 ^ 64 - unat a)")
  fix pt a la pa perm :: u64 and s :: "'a kmst_scheme" and x z y xa
  assume "walk pt a True s = Inr x"
  from walk_next [OF this] walk_bound [OF this]
  have "2 ^ 64 - unat (a + PGSIZE) < 2 ^ 64 - unat a" by (simp add: word_less_nat_alt)
  then show "((pt, a + PGSIZE, la, pa + PGSIZE, perm, xa), pt, a, la, pa, perm, s) \<in> measure (\<lambda>(_, a, _). 2 ^ 64 - unat a)"
    by simp
qed simp

definition mappages :: "addr \<Rightarrow> u64 \<Rightarrow> u64 \<Rightarrow> addr \<Rightarrow> u64 \<Rightarrow> 'a kmst_scheme \<Rightarrow> (int \<times> 'a kmst_scheme) kres" where
  "mappages pt va sz pa perm s =
     mappages_loop pt (PGROUNDDOWN va) (PGROUNDDOWN (va + sz - 1)) pa perm s"

function uvmunmap_loop :: "addr \<Rightarrow> u64 \<Rightarrow> u64 \<Rightarrow> bool \<Rightarrow> 'a kmst_scheme \<Rightarrow> 'a kmst_scheme kres" where
  "uvmunmap_loop pt a e do_free s =
     (if a < e
      then bnd (walk pt a False s) (\<lambda>(pte, s).
           if pte = 0 then Inl (Panic ''uvmunmap: walk'')
           else if \<not> pte_has (ld64 (mem s) pte) PTE_V then Inl (Panic ''uvmunmap: not mapped'')
           else if PTE_FLAGS (ld64 (mem s) pte) = PTE_V then Inl (Panic ''uvmunmap: not a leaf'')
           else bnd (if do_free then kfree (PTE2PA (ld64 (mem s) pte)) s else Inr s) (\<lambda>s.
                uvmunmap_loop pt (a + PGSIZE) e do_free (s\<lparr>mem := st64 (mem s) pte 0\<rparr>)))
      else Inr s)"
  by pat_completeness auto

termination
proof (relation "measure (\<lambda>(_, a, _). 2 ^ 64 - unat a)")
  fix pt a e :: u64 and do_free and s :: "'a kmst_scheme" and x z y xa
  assume "walk pt a False s = Inr x"
  from walk_next [OF this] walk_bound [OF this]
  have "2 ^ 64 - unat (a + PGSIZE) < 2 ^ 64 - unat a" by (simp add: word_less_nat_alt)
  then show "((pt, a + PGSIZE, e, do_free, xa\<lparr>mem := st64 (mem xa) z 0\<rparr>), pt, a, e, do_free, s)
      \<in> measure (\<lambda>(_, a, _). 2 ^ 64 - unat a)"
    by simp
qed simp

definition uvmunmap :: "addr \<Rightarrow> u64 \<Rightarrow> u64 \<Rightarrow> bool \<Rightarrow> 'a kmst_scheme \<Rightarrow> 'a kmst_scheme kres" where
  "uvmunmap pt va npages do_free s =
     (if va mod PGSIZE \<noteq> 0 then Inl (Panic ''uvmunmap: not aligned'')
      else uvmunmap_loop pt va (va + npages * PGSIZE) do_free s)"

declare mappages_loop.simps [simp del] uvmunmap_loop.simps [simp del] freerange_loop.simps [simp del]

section \<open>Paths through a page table\<close>

fun node :: "memory \<Rightarrow> addr \<Rightarrow> u64 list \<Rightarrow> addr option" where
  "node m pt [] = Some pt"
| "node m pt (i # is) =
     (let e = ld64 m (pte_at pt i) in if pte_has e PTE_V then node m (PTE2PA e) is else None)"

definition paths :: "u64 list set" where
  "paths = {p. length p \<le> 2 \<and> (\<forall>i\<in>set p. i < 512)}"

definition pt_pages :: "memory \<Rightarrow> addr \<Rightarrow> addr set" where
  "pt_pages m pt = {a. \<exists>p\<in>paths. node m pt p = Some a}"

definition vpath :: "u64 \<Rightarrow> u64 list" where
  "vpath va = [PX 2 va, PX 1 va]"

definition lookup :: "memory \<Rightarrow> addr \<Rightarrow> u64 \<Rightarrow> u64" where
  "lookup m pt va =
     (case node m pt (vpath va) of None \<Rightarrow> 0 | Some t \<Rightarrow> ld64 m (pte_at t (PX 0 va)))"

definition wf_pt :: "memory \<Rightarrow> addr \<Rightarrow> bool" where
  "wf_pt m pt \<longleftrightarrow>
     (\<forall>p\<in>paths. \<forall>a. node m pt p = Some a \<longrightarrow> pgal a) \<and>
     (\<forall>p\<in>paths. \<forall>q\<in>paths. \<forall>a. node m pt p = Some a \<longrightarrow> node m pt q = Some a \<longrightarrow> p = q)"

lemma pte_at_page:
  assumes "pgal pt" "i < 512"
  shows "PGROUNDDOWN (pte_at pt i) = pt" "al8 (pte_at pt i)"
proof -
  have u: "unat (8 * i) = 8 * unat i" using assms(2) by (simp add: word_less_nat_alt unat_word_ariths)
  have "8 * i < 4096" using u assms(2) by (simp add: word_less_nat_alt)
  then show "PGROUNDDOWN (pte_at pt i) = pt" "al8 (pte_at pt i)"
    using assms(1) u by (simp_all add: pte_at_def PGROUNDDOWN_add al8_page_add)
qed

lemma pte_at_inj:
  assumes "pgal pt" "pgal pt'" "i < 512" "j < 512"
  shows "pte_at pt i = pte_at pt' j \<longleftrightarrow> pt = pt' \<and> i = j"
proof
  assume e: "pte_at pt i = pte_at pt' j"
  then have p: "pt = pt'" using pte_at_page(1) assms by metis
  with e have "8 * i = 8 * j" by (simp add: pte_at_def)
  then have "unat (8 * i) = unat (8 * j)" by simp
  then show "pt = pt' \<and> i = j"
    using p assms(3,4) by (simp add: word_less_nat_alt unat_word_ariths word_unat_eq_iff)
qed simp

lemma node_append: "node m pt (p @ q) = (case node m pt p of None \<Rightarrow> None | Some t \<Rightarrow> node m t q)"
  by (induction p arbitrary: pt) (auto simp: Let_def)

lemma paths_take: "p \<in> paths \<Longrightarrow> take k p \<in> paths"
  by (auto simp: paths_def dest: in_set_takeD)

lemma paths_PX [simp]: "vpath va \<in> paths" "[PX 2 va] \<in> paths" "[] \<in> paths" "length (vpath va) = 2"
  by (simp_all add: paths_def PX_less vpath_def)

lemma paths_append: "p @ q \<in> paths \<Longrightarrow> p \<in> paths"
  by (auto simp: paths_def)

lemma wf_ptD:
  assumes "wf_pt m pt"
  shows "p \<in> paths \<Longrightarrow> node m pt p = Some a \<Longrightarrow> pgal a"
    "p \<in> paths \<Longrightarrow> q \<in> paths \<Longrightarrow> node m pt p = Some a \<Longrightarrow> node m pt q = Some a \<Longrightarrow> p = q"
  using assms unfolding wf_pt_def by blast+

lemma pt_pagesI: "p \<in> paths \<Longrightarrow> node m pt p = Some a \<Longrightarrow> a \<in> pt_pages m pt"
  unfolding pt_pages_def by blast

lemma pt_pages_pgal: "wf_pt m pt \<Longrightarrow> a \<in> pt_pages m pt \<Longrightarrow> pgal a"
  unfolding pt_pages_def using wf_ptD(1) by blast

lemma pt_root: "pt \<in> pt_pages m pt"
  by (rule pt_pagesI [of "[]"]) simp_all

lemma node_cong:
  assumes "same_off P m m'" "\<And>i. i \<in> set p \<Longrightarrow> i < 512"
    "\<And>k a. k < length p \<Longrightarrow> node m pt (take k p) = Some a \<Longrightarrow> pgal a \<and> a \<notin> P"
  shows "node m' pt p = node m pt p"
  using assms(2,3)
proof (induction p arbitrary: pt)
  case (Cons i p)
  have pt: "pgal pt" "pt \<notin> P" using Cons.prems(2) [of 0] by auto
  have e: "ld64 m' (pte_at pt i) = ld64 m (pte_at pt i)"
    using same_off_ld64 [OF assms(1)] pte_at_page [OF pt(1)] pt(2) Cons.prems(1) by simp
  show ?case
  proof (cases "pte_has (ld64 m (pte_at pt i)) PTE_V")
    case True
    have "node m' (PTE2PA (ld64 m (pte_at pt i))) p = node m (PTE2PA (ld64 m (pte_at pt i))) p"
    proof (rule Cons.IH)
      fix k a assume "k < length p" "node m (PTE2PA (ld64 m (pte_at pt i))) (take k p) = Some a"
      then show "pgal a \<and> a \<notin> P" using Cons.prems(2) [of "Suc k" a] True by (simp add: Let_def)
    qed (use Cons.prems(1) in simp)
    then show ?thesis using e True by (simp add: Let_def)
  qed (simp add: e Let_def)
qed simp

lemma take_node:
  assumes "node m pt p = Some a"
  shows "\<exists>b. node m pt (take k p) = Some b"
  using assms node_append [of m pt "take k p" "drop k p"] by (auto split: option.splits)

section \<open>Frames\<close>

lemma node_frame:
  assumes "wf_pt m pt" "same_off P m m'" "P \<inter> pt_pages m pt = {}" "p \<in> paths"
  shows "node m' pt p = node m pt p"
proof (rule node_cong [OF assms(2)])
  fix k a assume "node m pt (take k p) = Some a"
  then show "pgal a \<and> a \<notin> P"
    using assms(1,3,4) paths_take wf_ptD(1) pt_pagesI by blast
qed (use assms(4) in \<open>auto simp: paths_def\<close>)

lemma pt_pages_frame:
  assumes "wf_pt m pt" "same_off P m m'" "P \<inter> pt_pages m pt = {}"
  shows "pt_pages m' pt = pt_pages m pt" "wf_pt m' pt"
  using node_frame [OF assms] assms(1) by (auto simp: pt_pages_def wf_pt_def)

lemma lookup_frame:
  assumes "wf_pt m pt" "same_off P m m'" "P \<inter> pt_pages m pt = {}"
  shows "lookup m' pt va = lookup m pt va"
proof (cases "node m pt (vpath va)")
  case None
  then show ?thesis using node_frame [OF assms, of "vpath va"] by (simp add: lookup_def)
next
  case (Some t)
  have t: "pgal t" "t \<notin> P" using wf_ptD(1) [OF assms(1) _ Some] pt_pagesI [OF _ Some] assms(3) by auto
  have "ld64 m' (pte_at t (PX 0 va)) = ld64 m (pte_at t (PX 0 va))"
    using same_off_ld64 [OF assms(2)] pte_at_page [OF t(1) PX_less] t(2) by simp
  then show ?thesis using node_frame [OF assms, of "vpath va"] Some by (simp add: lookup_def)
qed

text \<open>Writing a leaf entry: the tables stay as they are, and one lookup changes.\<close>

lemma leaf_write_node:
  assumes "wf_pt m pt" "node m pt r = Some t" "r \<in> paths" "length r = 2" "k < 512" "p \<in> paths"
  shows "node (st64 m (pte_at t k) v) pt p = node m pt p"
proof -
  have t: "pgal t" using wf_ptD(1) [OF assms(1,3,2)] .
  have so: "same_off {t} m (st64 m (pte_at t k) v)"
    using same_off_st64 [OF pte_at_page(2) [OF t assms(5)], of m v] pte_at_page(1) [OF t assms(5)] by simp
  show ?thesis
  proof (rule node_cong [OF so])
    fix n a assume n: "n < length p" "node m pt (take n p) = Some a"
    have tp: "take n p \<in> paths" using assms(6) by (rule paths_take)
    have "a \<noteq> t"
    proof
      assume "a = t"
      then have "take n p = r" using wf_ptD(2) [OF assms(1) tp assms(3)] n(2) assms(2) by simp
      then have "length (take n p) = 2" using assms(4) by simp
      then show False using n(1) assms(6) by (simp add: paths_def)
    qed
    then show "pgal a \<and> a \<notin> {t}" using wf_ptD(1) [OF assms(1) tp n(2)] by simp
  qed (use assms(6) in \<open>auto simp: paths_def\<close>)
qed

lemma leaf_write_wf:
  assumes "wf_pt m pt" "node m pt r = Some t" "r \<in> paths" "length r = 2" "k < 512"
  shows "wf_pt (st64 m (pte_at t k) v) pt" "pt_pages (st64 m (pte_at t k) v) pt = pt_pages m pt"
  using leaf_write_node [OF assms] assms(1) by (auto simp: wf_pt_def pt_pages_def)

lemma leaf_write_lookup:
  assumes "wf_pt m pt" "node m pt r = Some t" "r \<in> paths" "length r = 2" "k < 512"
  shows "lookup (st64 m (pte_at t k) v) pt va =
    (if vpath va = r \<and> PX 0 va = k then v else lookup m pt va)"
proof -
  have t: "pgal t" using wf_ptD(1) [OF assms(1,3,2)] .
  have n: "node (st64 m (pte_at t k) v) pt (vpath va) = node m pt (vpath va)" by (rule leaf_write_node [OF assms]) simp
  show ?thesis
  proof (cases "node m pt (vpath va)")
    case None
    then show ?thesis using n assms(2) by (auto simp: lookup_def)
  next
    case (Some u)
    have u: "pgal u" using wf_ptD(1) [OF assms(1) _ Some] by simp
    have eq: "u = t \<longleftrightarrow> vpath va = r"
      using wf_ptD(2) [OF assms(1) paths_PX(1) [of va] assms(3), of t] Some assms(2) by (metis option.inject)
    have "ld64 (st64 m (pte_at t k) v) (pte_at u (PX 0 va)) =
        (if u = t \<and> PX 0 va = k then v else ld64 m (pte_at u (PX 0 va)))"
      unfolding ld64_st64 [OF pte_at_page(2) [OF t assms(5)] pte_at_page(2) [OF u PX_less]]
        pte_at_inj [OF t u assms(5) PX_less] by (simp add: eq_commute [of t] eq_commute [of k])
    then show ?thesis unfolding lookup_def n Some option.case eq .
  qed
qed

text \<open>
  Adding a table: \<open>m'\<close> is \<open>m\<close> with a fresh zeroed page \<open>p\<close> hung into the invalid entry \<open>i\<close> of the
  table \<open>t\<close> at path \<open>r\<close>.
\<close>

definition new_table :: "memory \<Rightarrow> addr \<Rightarrow> u64 list \<Rightarrow> addr \<Rightarrow> u64 \<Rightarrow> addr \<Rightarrow> memory \<Rightarrow> bool" where
  "new_table m pt r t i p m' \<longleftrightarrow>
     wf_pt m pt \<and> r @ [i] \<in> paths \<and> node m pt r = Some t \<and> pgal p \<and> unat p < 2 ^ 56 \<and> p \<notin> pt_pages m pt \<and>
     \<not> pte_has (ld64 m (pte_at t i)) PTE_V \<and> same_off {p, t} m m' \<and>
     (\<forall>j<512. ld64 m' (pte_at t j) = (if j = i then PA2PTE p OR PTE_V else ld64 m (pte_at t j))) \<and>
     (\<forall>j<512. ld64 m' (pte_at p j) = 0)"

lemma pte_has_0 [simp]: "\<not> pte_has 0 f"
  by (simp add: pte_has_def)

lemma pte_has_bit: "pte_has e (push_bit n 1) \<longleftrightarrow> n < 64 \<and> bit e n"
proof -
  have "e AND push_bit n 1 = (if n < 64 \<and> bit e n then push_bit n 1 else 0)"
    by (rule bit_word_eqI) (auto simp: bit_simps dest: bit_u64)
  moreover have "push_bit n 1 \<noteq> (0::u64)" if "n < 64" using that by simp
  ultimately show ?thesis by (simp add: pte_has_def)
qed

lemma pte_has_bits:
  "pte_has e PTE_V \<longleftrightarrow> bit e 0" "pte_has e PTE_R \<longleftrightarrow> bit e 1" "pte_has e PTE_W \<longleftrightarrow> bit e 2"
  "pte_has e PTE_X \<longleftrightarrow> bit e 3" "pte_has e PTE_U \<longleftrightarrow> bit e 4" "pte_has e PTE_COW \<longleftrightarrow> bit e 8"
  using pte_has_bit [of e 0] pte_has_bit [of e 1] pte_has_bit [of e 2] pte_has_bit [of e 3]
    pte_has_bit [of e 4] pte_has_bit [of e 8]
  by (simp_all add: push_bit_eq_mult)

lemma pte_has_table [simp]: "pte_has (PA2PTE p OR PTE_V) PTE_V" "pte_has (PA2PTE p OR f OR PTE_V) PTE_V"
  by (simp_all only: pte_has_bits bit_or_iff) (simp_all add: bit_simps)

lemma new_table_node:
  assumes "new_table m pt r t i p m'" "x \<in> paths"
  shows "node m' pt x = (if x = r @ [i] then Some p else node m pt x)"
proof -
  have wf: "wf_pt m pt" and ri: "r @ [i] \<in> paths" and nr: "node m pt r = Some t" and pp: "pgal p" "unat p < 2 ^ 56"
    and fr: "p \<notin> pt_pages m pt" and inv: "\<not> pte_has (ld64 m (pte_at t i)) PTE_V" and so: "same_off {p, t} m m'"
    and tt: "\<And>j. j < 512 \<Longrightarrow> ld64 m' (pte_at t j) = (if j = i then PA2PTE p OR PTE_V else ld64 m (pte_at t j))"
    and pz: "\<And>j. j < 512 \<Longrightarrow> ld64 m' (pte_at p j) = 0"
    using assms(1) by (auto simp: new_table_def)
  have r: "r \<in> paths" using ri by (rule paths_append)
  have ok: "pgal a \<and> a \<notin> {p, t}" if "y \<in> paths" "node m pt y = Some a" "y \<noteq> r" for y a
    using wf_ptD(1) [OF wf that(1,2)] wf_ptD(2) [OF wf that(1) r, of t] pt_pagesI [OF that(1,2)] that nr fr by auto
  have lt: "i < 512" if "i \<in> set y" "y \<in> paths" for i y using that by (auto simp: paths_def)
  show ?thesis
  proof (cases "\<exists>ys. x = r @ ys")
    case False
    have "node m' pt x = node m pt x"
    proof (rule node_cong [OF so])
      fix k a assume "k < length x" "node m pt (take k x) = Some a"
      moreover have "take k x \<noteq> r" using False append_take_drop_id [of k x] by metis
      ultimately show "pgal a \<and> a \<notin> {p, t}" using ok paths_take [OF assms(2)] by blast
    qed (use lt assms(2) in blast)
    then show ?thesis using False by auto
  next
    case True
    then obtain ys where x: "x = r @ ys" by blast
    have "node m' pt r = node m pt r"
    proof (rule node_cong [OF so])
      fix k a assume k: "k < length r" "node m pt (take k r) = Some a"
      then have "take k r \<noteq> r" by (metis length_take less_irrefl min.absorb4)
      then show "pgal a \<and> a \<notin> {p, t}" using ok [OF paths_take [OF r] k(2)] by simp
    qed (use lt r in blast)
    then have n: "node m' pt x = node m' t ys" "node m pt x = node m t ys" using nr x by (simp_all add: node_append)
    show ?thesis
    proof (cases ys)
      case Nil
      then show ?thesis using n x nr by simp
    next
      case (Cons j zs)
      have j: "j < 512" using lt [of j x] assms(2) x Cons by simp
      show ?thesis
      proof (cases "j = i")
        case True
        have a: "PTE2PA (PA2PTE p OR PTE_V) = p" using pp by (intro PTE2PA_PA2PTE) simp_all
        have "node m' p zs = (if zs = [] then Some p else None)"
          using pz lt [of _ x] assms(2) x Cons by (cases zs) (auto simp: Let_def)
        then have "node m' t ys = (if zs = [] then Some p else None)"
          using Cons tt [OF j] True a by (simp add: Let_def)
        moreover have "node m t ys = None" using Cons inv True by (simp add: Let_def)
        ultimately show ?thesis using n x Cons True by simp
      next
        case False
        have e: "ld64 m' (pte_at t j) = ld64 m (pte_at t j)" using tt [OF j] False by simp
        let ?c = "PTE2PA (ld64 m (pte_at t j))"
        have "node m' ?c zs = node m ?c zs" if v: "pte_has (ld64 m (pte_at t j)) PTE_V"
        proof (rule node_cong [OF so])
          fix k a assume k: "k < length zs" "node m ?c (take k zs) = Some a"
          have "r @ j # take k zs = take (length r + Suc k) x" using x Cons by simp
          then have "r @ j # take k zs \<in> paths" using paths_take [OF assms(2)] by metis
          moreover have "node m pt (r @ j # take k zs) = Some a"
            using k(2) v nr by (simp add: node_append Let_def)
          ultimately show "pgal a \<and> a \<notin> {p, t}" using ok by blast
        qed (use lt [of _ x] assms(2) x Cons in auto)
        then show ?thesis using n x Cons e False by (simp add: Let_def)
      qed
    qed
  qed
qed

lemma new_table_wf:
  assumes "new_table m pt r t i p m'"
  shows "wf_pt m' pt" "pt_pages m' pt = insert p (pt_pages m pt)"
proof -
  have a: "wf_pt m pt" "r @ [i] \<in> paths" "pgal p" "p \<notin> pt_pages m pt" "node m pt (r @ [i]) = None"
    using assms by (auto simp: new_table_def node_append Let_def)
  note n = new_table_node [OF assms]
  have nin: "node m pt x \<noteq> Some p" if "x \<in> paths" for x using a(4) pt_pagesI [OF that] by blast
  show "wf_pt m' pt" unfolding wf_pt_def
  proof (intro conjI ballI allI impI)
    fix x b assume "x \<in> paths" "node m' pt x = Some b"
    then show "pgal b" using n a(3) wf_ptD(1) [OF a(1)] by (auto split: if_splits)
  next
    fix x y b assume "x \<in> paths" "y \<in> paths" "node m' pt x = Some b" "node m' pt y = Some b"
    then show "x = y" using n nin wf_ptD(2) [OF a(1)] by (auto split: if_splits)
  qed
  have "b \<in> pt_pages m' pt \<longleftrightarrow> b = p \<or> b \<in> pt_pages m pt" for b
  proof
    assume "b \<in> pt_pages m' pt"
    then show "b = p \<or> b \<in> pt_pages m pt" unfolding pt_pages_def using n by (auto split: if_splits)
  next
    assume "b = p \<or> b \<in> pt_pages m pt"
    then show "b \<in> pt_pages m' pt"
    proof
      assume "b = p" then show ?thesis using pt_pagesI [OF a(2), of m' pt] n [OF a(2)] by simp
    next
      assume "b \<in> pt_pages m pt"
      then obtain x where x: "x \<in> paths" "node m pt x = Some b" by (auto simp: pt_pages_def)
      then have "x \<noteq> r @ [i]" using a(5) by auto
      then show ?thesis using pt_pagesI [OF x(1)] n [OF x(1)] x(2) by simp
    qed
  qed
  then show "pt_pages m' pt = insert p (pt_pages m pt)" by auto
qed

lemma new_table_lookup:
  assumes "new_table m pt r t i p m'"
  shows "lookup m' pt va = lookup m pt va"
proof -
  have a: "wf_pt m pt" "r @ [i] \<in> paths" "node m pt r = Some t" "p \<notin> pt_pages m pt" "same_off {p, t} m m'"
    "node m pt (r @ [i]) = None" "\<And>j. j < 512 \<Longrightarrow> ld64 m' (pte_at p j) = 0"
    using assms by (auto simp: new_table_def node_append Let_def)
  have n: "node m' pt (vpath va) = (if vpath va = r @ [i] then Some p else node m pt (vpath va))"
    by (rule new_table_node [OF assms]) simp
  show ?thesis
  proof (cases "vpath va = r @ [i] \<or> node m pt (vpath va) = None")
    case True
    then show ?thesis using n a(6,7) PX_less by (auto simp: lookup_def)
  next
    case False
    then obtain u where u: "node m pt (vpath va) = Some u" "node m' pt (vpath va) = Some u" using n by auto
    have "length (r @ [i]) \<le> 2" using a(2) by (simp add: paths_def)
    then have "vpath va \<noteq> r" using paths_PX(4) [of va] by auto
    then have "u \<noteq> t" using wf_ptD(2) [OF a(1) paths_PX(1) paths_append [OF a(2)], of va u] u(1) a(3) by auto
    moreover have "u \<noteq> p" using a(4) pt_pagesI [OF paths_PX(1) u(1)] by auto
    moreover have pg: "pgal u" using wf_ptD(1) [OF a(1) paths_PX(1) u(1)] .
    ultimately have "ld64 m' (pte_at u (PX 0 va)) = ld64 m (pte_at u (PX 0 va))"
      using same_off_ld64 [OF a(5)] pte_at_page [OF pg PX_less] by simp
    then show ?thesis using u by (simp add: lookup_def)
  qed
qed

section \<open>walk without allocation\<close>

lemma walk_loop_False:
  "walk_loop 2 pt va False s =
     Inr (case node (mem s) pt (vpath va) of None \<Rightarrow> 0 | Some t \<Rightarrow> pte_at t (PX 0 va), s)"
  by (simp add: vpath_def numeral_2_eq_2 Let_def)

lemma walk_False:
  "va < MAXVA \<Longrightarrow> walk pt va False s =
     Inr (case node (mem s) pt (vpath va) of None \<Rightarrow> 0 | Some t \<Rightarrow> pte_at t (PX 0 va), s)"
  unfolding walk_def walk_loop_False by simp

lemma pte_at_nonzero:
  assumes "pgal t" "t \<noteq> 0" "i < 512"
  shows "pte_at t i \<noteq> 0"
proof
  assume "pte_at t i = 0"
  then have "PGROUNDDOWN 0 = t" using pte_at_page(1) [OF assms(1,3)] by simp
  then show False using assms(2) by (simp add: PGROUNDDOWN_id)
qed

section \<open>Page tables in the kernel's memory\<close>

definition pt_ok :: "'a kmst_scheme \<Rightarrow> addr \<Rightarrow> bool" where
  "pt_ok s pt \<longleftrightarrow> KERNBASE \<le> kend s \<and> wf_pt (mem s) pt \<and>
     (\<forall>a\<in>pt_pages (mem s) pt. vpage (kend s) a \<and> PAGE2REF a s = 1)"

text \<open>What \<open>walk\<close> and \<open>mappages\<close> may do to the state besides setting an entry: take free pages for tables.\<close>

definition pt_grow :: "addr \<Rightarrow> 'a kmst_scheme \<Rightarrow> 'a kmst_scheme \<Rightarrow> bool" where
  "pt_grow pt s s' \<longleftrightarrow>
     s' = s\<lparr>mem := mem s', freelist := freelist s', pageref := pageref s'\<rparr> \<and> kmem_ok s' \<and> pt_ok s' pt \<and>
     pt_pages (mem s) pt \<subseteq> pt_pages (mem s') pt \<and>
     (\<forall>a. a \<in> pt_pages (mem s') pt \<longrightarrow> a \<notin> pt_pages (mem s) pt \<longrightarrow> free_page s a) \<and>
     same_off (pt_pages (mem s') pt) (mem s) (mem s') \<and>
     (\<forall>a. vpage (kend s) a \<longrightarrow> a \<notin> pt_pages (mem s') pt \<longrightarrow> PAGE2REF a s' = PAGE2REF a s)"

lemma vpage_nonzero: "KERNBASE \<le> e \<Longrightarrow> vpage e p \<Longrightarrow> p \<noteq> 0"
  by (auto simp: vpage_def word_le_nat_alt)

lemma vpage_small: "vpage e p \<Longrightarrow> unat p < 2 ^ 56"
  by (auto simp: vpage_def word_less_nat_alt)

lemma pt_okD:
  assumes "pt_ok s pt"
  shows "wf_pt (mem s) pt" "a \<in> pt_pages (mem s) pt \<Longrightarrow> vpage (kend s) a"
    "a \<in> pt_pages (mem s) pt \<Longrightarrow> PAGE2REF a s = 1" "a \<in> pt_pages (mem s) pt \<Longrightarrow> \<not> free_page s a"
    "a \<in> pt_pages (mem s) pt \<Longrightarrow> pgal a" "a \<in> pt_pages (mem s) pt \<Longrightarrow> a \<noteq> 0"
proof -
  show "wf_pt (mem s) pt" using assms by (simp add: pt_ok_def)
  assume "a \<in> pt_pages (mem s) pt"
  then show v: "vpage (kend s) a" and r: "PAGE2REF a s = 1" using assms by (auto simp: pt_ok_def)
  then show "\<not> free_page s a" by (simp add: free_page_def)
  from v show "pgal a" by (rule vpage_pgal)
  from v assms show "a \<noteq> 0" by (auto simp: pt_ok_def dest: vpage_nonzero)
qed

lemma pt_grow_refl: "kmem_ok s \<Longrightarrow> pt_ok s pt \<Longrightarrow> pt_grow pt s s"
  by (simp add: pt_grow_def)

lemma pt_growD:
  assumes "pt_grow pt s s'"
  shows "s' = s\<lparr>mem := mem s', freelist := freelist s', pageref := pageref s'\<rparr>" "kmem_ok s'" "pt_ok s' pt"
    "pt_pages (mem s) pt \<subseteq> pt_pages (mem s') pt" "same_off (pt_pages (mem s') pt) (mem s) (mem s')"
    "kend s' = kend s" "held s' = held s"
    "a \<in> pt_pages (mem s') pt \<Longrightarrow> a \<notin> pt_pages (mem s) pt \<Longrightarrow> free_page s a"
    "vpage (kend s) a \<Longrightarrow> a \<notin> pt_pages (mem s') pt \<Longrightarrow> PAGE2REF a s' = PAGE2REF a s"
proof -
  show e: "s' = s\<lparr>mem := mem s', freelist := freelist s', pageref := pageref s'\<rparr>" and "kmem_ok s'" "pt_ok s' pt"
    "pt_pages (mem s) pt \<subseteq> pt_pages (mem s') pt" "same_off (pt_pages (mem s') pt) (mem s) (mem s')"
    "a \<in> pt_pages (mem s') pt \<Longrightarrow> a \<notin> pt_pages (mem s) pt \<Longrightarrow> free_page s a"
    "vpage (kend s) a \<Longrightarrow> a \<notin> pt_pages (mem s') pt \<Longrightarrow> PAGE2REF a s' = PAGE2REF a s"
    using assms unfolding pt_grow_def by blast+
  have "kend s' = kend (s\<lparr>mem := mem s', freelist := freelist s', pageref := pageref s'\<rparr>)" by (rule arg_cong [OF e])
  then show "kend s' = kend s" by simp
  have "held s' = held (s\<lparr>mem := mem s', freelist := freelist s', pageref := pageref s'\<rparr>)" by (rule arg_cong [OF e])
  then show "held s' = held s" by simp
qed

lemma kframe_trans:
  fixes s s1 s2 :: "'a kmst_scheme"
  assumes "s1 = s\<lparr>mem := mem s1, freelist := freelist s1, pageref := pageref s1\<rparr>"
    "s2 = s1\<lparr>mem := mem s2, freelist := freelist s2, pageref := pageref s2\<rparr>"
  shows "s2 = s\<lparr>mem := mem s2, freelist := freelist s2, pageref := pageref s2\<rparr>"
proof -
  have "s1\<lparr>mem := a, freelist := b, pageref := c\<rparr> = s\<lparr>mem := a, freelist := b, pageref := c\<rparr>" for a b c
    by (subst assms(1)) simp
  then show ?thesis using assms(2) by simp
qed

lemma pt_grow_trans:
  assumes "pt_grow pt s s1" "pt_grow pt s1 s2"
  shows "pt_grow pt s s2"
proof -
  note a = pt_growD [OF assms(1)] and b = pt_growD [OF assms(2)]
  have "free_page s x" if x: "x \<in> pt_pages (mem s2) pt" "x \<notin> pt_pages (mem s) pt" for x
  proof (cases "x \<in> pt_pages (mem s1) pt")
    case True
    then show ?thesis using a(8) x(2) by blast
  next
    case False
    then have f: "free_page s1 x" using b(8) x(1) by blast
    then have "vpage (kend s) x" using a(6) by (simp add: free_page_def)
    then show ?thesis using f a(6) a(9) [OF _ False] by (simp add: free_page_def)
  qed
  moreover have "PAGE2REF x s2 = PAGE2REF x s" if "vpage (kend s) x" "x \<notin> pt_pages (mem s2) pt" for x
    using a(6,9) b(4,9) that by (metis subsetD)
  moreover have "same_off (pt_pages (mem s2) pt) (mem s) (mem s2)"
    using same_off_trans [OF a(5) b(5)] b(4) by blast
  ultimately show ?thesis
    unfolding pt_grow_def using kframe_trans [OF a(1) b(1)] b(2,3,4) a(4) by blast
qed

lemma ld64_memset_0: "pgal p \<Longrightarrow> j < 512 \<Longrightarrow> ld64 (memset p 0 4096 m) (pte_at p j) = 0"
proof -
  assume p: "pgal p" "j < 512"
  have "ld64 (memset p 0 4096 m) (pte_at p j) = ld64 (\<lambda>_. 0) (pte_at p j)"
  proof (rule ld64_cong)
    fix i :: nat assume "i < 8"
    then show "memset p 0 4096 m (pte_at p j + of_nat i) = 0"
      using al8_bytes_same_page [OF pte_at_page(2) [OF p]] pte_at_page(1) [OF p] p(1) by (simp add: memset_page)
  qed
  then show ?thesis by (simp add: ld64_def le_word_zero)
qed

definition linked :: "addr \<Rightarrow> addr \<Rightarrow> 'a kmst_scheme \<Rightarrow> 'a kmst_scheme" where
  "linked p pte s = s\<lparr>mem := st64 (memset p 0 4096 (mem s)) pte (PA2PTE p OR PTE_V)\<rparr>"

lemma linked_new_table:
  assumes ok: "kmem_ok s" "pt_ok s pt" and n: "node (mem s) pt r = Some t" "r @ [i] \<in> paths"
    and inv: "\<not> pte_has (ld64 (mem s) (pte_at t i)) PTE_V" and fp: "free_page s p"
  shows "new_table (mem s) pt r t i p (mem (linked p (pte_at t i) (alloced p s)))"
proof -
  note pk = pt_okD [OF ok(2)]
  let ?m = "mem (linked p (pte_at t i) (alloced p s))"
  have i: "i < 512" and r: "r \<in> paths" using n(2) paths_append by (auto simp: paths_def)
  have t: "t \<in> pt_pages (mem s) pt" "pgal t" using pt_pagesI [OF r n(1)] pk(5) by auto
  have vp: "vpage (kend s) p" "pgal p" using fp by (auto simp: free_page_def vpage_pgal)
  have np: "p \<notin> pt_pages (mem s) pt" using pk(4) fp by blast
  have pt: "p \<noteq> t" using np t(1) by auto
  have so: "same_off {p} (mem s) (memset p 0 4096 (mem (alloced p s)))"
    using same_off_trans [OF same_off_memset [OF vp(2), of "mem s" 5] same_off_memset [OF vp(2)]] by simp
  have st: "same_off {t} (memset p 0 4096 (mem (alloced p s))) ?m"
    using same_off_st64 [OF pte_at_page(2) [OF t(2) i]] pte_at_page(1) [OF t(2) i] by (simp add: linked_def)
  have "ld64 ?m (pte_at t j) = (if j = i then PA2PTE p OR PTE_V else ld64 (mem s) (pte_at t j))" if j: "j < 512" for j
  proof -
    have "ld64 (memset p 0 4096 (mem (alloced p s))) (pte_at t j) = ld64 (mem s) (pte_at t j)"
      using same_off_ld64 [OF so pte_at_page(2) [OF t(2) j]] pte_at_page(1) [OF t(2) j] pt by simp
    then show ?thesis
      using ld64_st64 [OF pte_at_page(2) [OF t(2) i] pte_at_page(2) [OF t(2) j]] pte_at_inj [OF t(2) t(2) i j]
      by (simp add: linked_def)
  qed
  moreover have "ld64 ?m (pte_at p j) = 0" if j: "j < 512" for j
    using same_off_ld64 [OF st pte_at_page(2) [OF vp(2) j]] pte_at_page(1) [OF vp(2) j] pt
      ld64_memset_0 [OF vp(2) j] by simp
  moreover have "same_off {p, t} (mem s) ?m" using same_off_trans [OF so st] by simp
  ultimately show ?thesis
    unfolding new_table_def using pk(1) n inv vp vpage_small [OF vp(1)] np by simp
qed

lemma linked_grow:
  assumes ok: "kmem_ok s" "pt_ok s pt" and n: "node (mem s) pt r = Some t" "r @ [i] \<in> paths"
    and inv: "\<not> pte_has (ld64 (mem s) (pte_at t i)) PTE_V" and k: "kalloc s = Inr (p, s1)" "p \<noteq> 0"
  shows "s1 = alloced p s" "new_table (mem s) pt r t i p (mem (linked p (pte_at t i) (alloced p s)))"
    "pt_grow pt s (linked p (pte_at t i) (alloced p s))"
proof -
  obtain ps where u: "unlocked s" and inv0: "kmem_inv s ps" using ok(1) by (auto simp: kmem_ok_def)
  obtain ps' where ps: "ps = p # ps'" and s1: "s1 = alloced p s" and i1: "kmem_inv (alloced p s) ps'"
  proof (cases ps)
    case Nil
    then show ?thesis using kalloc_empty [of s] inv0 u k by simp
  next
    case (Cons q qs)
    then show ?thesis using that kmem_inv_kalloc [of s q qs] inv0 u k by simp
  qed
  show "s1 = alloced p s" by (rule s1)
  have fp: "free_page s p" using kmem_invD(3) [OF inv0, of p] ps by simp
  show nt: "new_table (mem s) pt r t i p (mem (linked p (pte_at t i) (alloced p s)))"
    by (rule linked_new_table [OF ok n inv fp])
  let ?s = "linked p (pte_at t i) (alloced p s)"
  note pk = pt_okD [OF ok(2)]
  have t: "t \<in> pt_pages (mem s) pt" using pt_pagesI [OF paths_append [OF n(2)] n(1)] .
  have vp: "vpage (kend s) p" using fp by (simp add: free_page_def)
  have pgs: "pt_pages (mem ?s) pt = insert p (pt_pages (mem s) pt)" using new_table_wf(2) [OF nt] .
  have ref: "PAGE2REF a ?s = (if a = p then 1 else PAGE2REF a s)" if "vpage (kend s) a" for a
    using PAGE2REF_alloced [OF vpage_pgal [OF vp] vpage_pgal [OF that], of s] by (simp add: linked_def)
  have so: "same_off {p, t} (mem s) (mem ?s)" using nt by (simp add: new_table_def)
  have "same_off {p, t} (mem (alloced p s)) (mem ?s)"
    using so vpage_pgal [OF vp] by (auto simp: same_off_def memset_page)
  moreover have "\<not> free_page (alloced p s) a" if "a \<in> {p, t}" for a
    using that pk(2,3) [OF t] vp ref by (auto simp: free_page_def linked_def)
  ultimately have "kmem_inv ((alloced p s)\<lparr>mem := mem ?s\<rparr>) ps'" by (rule kmem_inv_mem [OF i1])
  then have kok: "kmem_ok ?s" using u unlocked_held [of ?s s] by (auto simp: kmem_ok_def linked_def)
  have "pt_ok ?s pt"
    using new_table_wf(1) [OF nt] ok(2) vp ref unfolding pt_ok_def pgs by (auto simp: linked_def)
  moreover have "?s = s\<lparr>mem := mem ?s, freelist := freelist ?s, pageref := pageref ?s\<rparr>"
    by (simp add: linked_def alloced_def set_ref_def)
  moreover have "same_off (insert p (pt_pages (mem s) pt)) (mem s) (mem ?s)"
    by (rule same_off_mono [OF so]) (use t in auto)
  ultimately show "pt_grow pt s ?s"
    unfolding pt_grow_def pgs using kok fp ref by auto
qed

section \<open>walk with allocation\<close>

lemma kalloc_cases:
  assumes "kmem_ok s"
  obtains "kalloc s = Inr (0, s)" "\<And>p. \<not> free_page s p"
  | p s1 where "kalloc s = Inr (p, s1)" "p \<noteq> 0"
proof -
  obtain p s1 where k: "kalloc s = Inr (p, s1)" using kmem.alloc_total [OF assms] by auto
  show ?thesis
  proof (cases "p = 0")
    case True
    have "\<not> free_page s q" for q using kmem.alloc_0_iff [OF assms] k True by (auto simp: free_page_def not_le)
    moreover have "s1 = s" using k True kalloc_eq [of s] assms by (auto simp: kmem_ok_def)
    ultimately show ?thesis using that(1) k True by simp
  qed (use that(2) k in blast)
qed

lemma vpath_step:
  assumes "r = take (length r) (vpath va)" "length r + Suc l = 2"
  shows "r @ [PX (Suc l) va] = take (Suc (length r)) (vpath va)"
proof (cases l)
  case 0
  then have "length r = 1" using assms(2) by simp
  then show ?thesis using assms(1) 0 by (simp add: vpath_def)
next
  case (Suc k)
  then have "r = []" "l = 1" using assms(2) by simp_all
  then show ?thesis by (simp add: vpath_def numeral_2_eq_2)
qed

lemma vpath_take_paths: "take k (vpath va) \<in> paths"
  by (rule paths_take) simp

lemma walk_loop_alloc:
  assumes "kmem_ok s" "pt_ok s pt" "r = take (length r) (vpath va)" "length r + l = 2" "node (mem s) pt r = Some t"
  shows "\<exists>a s'. walk_loop l t va True s = Inr (a, s') \<and> pt_grow pt s s' \<and>
    (\<forall>vb. lookup (mem s') pt vb = lookup (mem s) pt vb) \<and> (a = 0 \<longrightarrow> (\<forall>p. \<not> free_page s' p)) \<and>
    (a \<noteq> 0 \<longrightarrow> (\<exists>t'. node (mem s') pt (vpath va) = Some t' \<and> a = pte_at t' (PX 0 va)))"
    (is "\<exists>a s'. ?P l t s a s'")
  using assms
proof (induction l arbitrary: s r t)
  case 0
  have r: "r = vpath va" using 0(3,4) by simp
  have t: "t \<in> pt_pages (mem s) pt" using pt_pagesI [OF paths_PX(1)] 0(5) r by simp
  have "pte_at t (PX 0 va) \<noteq> 0" using pt_okD(5,6) [OF 0(2) t] by (intro pte_at_nonzero PX_less)
  then show ?case using pt_grow_refl [OF 0(1,2)] 0(5) r by auto
next
  case (Suc l)
  let ?i = "PX (Suc l) va" and ?e = "ld64 (mem s) (pte_at t (PX (Suc l) va))"
  have st: "r @ [?i] = take (length (r @ [?i])) (vpath va)"
    using vpath_step [OF Suc.prems(3,4)] unfolding length_append by simp
  have ln: "length (r @ [?i]) + l = 2" using Suc.prems(4) by simp
  have ri: "r @ [?i] \<in> paths" using vpath_take_paths st by metis
  show ?case
  proof (cases "pte_has ?e PTE_V")
    case True
    then have "node (mem s) pt (r @ [?i]) = Some (PTE2PA ?e)" using Suc.prems(5) by (simp add: node_append Let_def)
    from Suc.IH [OF Suc.prems(1,2) st ln this] show ?thesis using True by (simp add: Let_def)
  next
    case inv: False
    show ?thesis
    proof (rule kalloc_cases [OF Suc.prems(1)])
      assume "kalloc s = Inr (0, s)" "\<And>p. \<not> free_page s p"
      then show ?thesis using inv pt_grow_refl [OF Suc.prems(1,2)] by (auto simp: Let_def)
    next
      fix p s1 assume k: "kalloc s = Inr (p, s1)" "p \<noteq> 0"
      note lg = linked_grow [OF Suc.prems(1,2,5) ri inv k]
      let ?s = "linked p (pte_at t ?i) (alloced p s)"
      have eq: "walk_loop (Suc l) t va True s = walk_loop l p va True ?s"
        using inv k lg(1) by (simp add: Let_def linked_def)
      have "node (mem ?s) pt (r @ [?i]) = Some p" using new_table_node [OF lg(2) ri] by simp
      from Suc.IH [OF pt_growD(2,3) [OF lg(3)] st ln this] obtain a s' where "?P l p ?s a s'" by blast
      then show ?thesis
        using eq pt_grow_trans [OF lg(3)] new_table_lookup [OF lg(2)] by auto
    qed
  qed
qed

lemma walk_True:
  assumes "kmem_ok s" "pt_ok s pt" "va < MAXVA"
  shows "\<exists>a s'. walk pt va True s = Inr (a, s') \<and> pt_grow pt s s' \<and>
    (\<forall>vb. lookup (mem s') pt vb = lookup (mem s) pt vb) \<and> (a = 0 \<longrightarrow> (\<forall>p. \<not> free_page s' p)) \<and>
    (a \<noteq> 0 \<longrightarrow> (\<exists>t'. node (mem s') pt (vpath va) = Some t' \<and> a = pte_at t' (PX 0 va)))"
proof -
  have "walk pt va True s = walk_loop 2 pt va True s" using assms(3) by (simp only: walk_def not_le [symmetric] if_False)
  then show ?thesis using walk_loop_alloc [OF assms(1,2), of "[]" va 2 pt] by simp
qed

section \<open>mappages\<close>

lemma vpath_PGROUNDDOWN [simp]: "vpath (PGROUNDDOWN va) = vpath va"
  by (simp add: vpath_def)

lemma lookup_PGROUNDDOWN [simp]: "lookup m pt (PGROUNDDOWN va) = lookup m pt va"
  by (simp add: lookup_def cong: option.case_cong)

lemma same_slot_iff:
  assumes "va < MAXVA" "vb < MAXVA"
  shows "vpath va = vpath vb \<and> PX 0 va = PX 0 vb \<longleftrightarrow> PGROUNDDOWN va = PGROUNDDOWN vb"
proof
  assume "vpath va = vpath vb \<and> PX 0 va = PX 0 vb"
  moreover have "unat va < 2 ^ 38" "unat vb < 2 ^ 38" using assms by (simp_all add: word_less_nat_alt)
  ultimately show "PGROUNDDOWN va = PGROUNDDOWN vb" by (intro PX_page_eq) (auto simp: vpath_def)
next
  assume "PGROUNDDOWN va = PGROUNDDOWN vb"
  then have "vpath (PGROUNDDOWN va) = vpath (PGROUNDDOWN vb) \<and> PX 0 (PGROUNDDOWN va) = PX 0 (PGROUNDDOWN vb)" by simp
  then show "vpath va = vpath vb \<and> PX 0 va = PX 0 vb" by simp
qed

text \<open>Setting the leaf entry of \<open>va\<close>, once its table exists.\<close>

definition set_leaf :: "addr \<Rightarrow> u64 \<Rightarrow> u64 \<Rightarrow> 'a kmst_scheme \<Rightarrow> 'a kmst_scheme" where
  "set_leaf t va v s = s\<lparr>mem := st64 (mem s) (pte_at t (PX 0 va)) v\<rparr>"

lemma set_leaf_sel [simp]:
  "kend (set_leaf t va v s) = kend s" "held (set_leaf t va v s) = held s" "pageref (set_leaf t va v s) = pageref s"
  "freelist (set_leaf t va v s) = freelist s" "PAGE2REF p (set_leaf t va v s) = PAGE2REF p s"
  "procs (set_leaf t va v s) = procs s" "cur (set_leaf t va v s) = cur s"
  by (simp_all add: set_leaf_def)

lemma set_leaf_ok:
  assumes "kmem_ok s" "pt_ok s pt" "node (mem s) pt (vpath va) = Some t"
  shows "pt_grow pt s (set_leaf t va v s)" "pt_pages (mem (set_leaf t va v s)) pt = pt_pages (mem s) pt"
    "same_off {t} (mem s) (mem (set_leaf t va v s))" "t \<in> pt_pages (mem s) pt"
    "\<And>p. node (mem (set_leaf t va v s)) pt p = node (mem s) pt p \<or> p \<notin> paths"
proof -
  note pk = pt_okD [OF assms(2)]
  show t: "t \<in> pt_pages (mem s) pt" by (rule pt_pagesI [OF paths_PX(1) assms(3)])
  have pg: "pgal t" using pk(5) [OF t] .
  note lw = leaf_write_wf [OF pk(1) assms(3) paths_PX(1) paths_PX(4) PX_less, of 0 va v]
  show pgs: "pt_pages (mem (set_leaf t va v s)) pt = pt_pages (mem s) pt" using lw(2) by (simp add: set_leaf_def)
  show so: "same_off {t} (mem s) (mem (set_leaf t va v s))"
    using same_off_st64 [OF pte_at_page(2) [OF pg PX_less], of 0 va "mem s" v] pte_at_page(1) [OF pg PX_less]
    by (simp add: set_leaf_def)
  show "\<And>p. node (mem (set_leaf t va v s)) pt p = node (mem s) pt p \<or> p \<notin> paths"
    using leaf_write_node [OF pk(1) assms(3) paths_PX(1) paths_PX(4) PX_less] by (auto simp: set_leaf_def)
  obtain ps where "unlocked s" "kmem_inv s ps" using assms(1) by (auto simp: kmem_ok_def)
  moreover have "kmem_inv (set_leaf t va v s) ps"
    using kmem_inv_mem [OF \<open>kmem_inv s ps\<close> so] pk(4) [OF t] by (simp add: set_leaf_def)
  ultimately have "kmem_ok (set_leaf t va v s)"
    using unlocked_held [of "set_leaf t va v s" s] by (auto simp: kmem_ok_def)
  moreover have "pt_ok (set_leaf t va v s) pt"
    using lw(1) assms(2) unfolding pt_ok_def pgs by (simp add: set_leaf_def)
  moreover have "same_off (pt_pages (mem s) pt) (mem s) (mem (set_leaf t va v s))"
    by (rule same_off_mono [OF so]) (use t in simp)
  ultimately show "pt_grow pt s (set_leaf t va v s)"
    unfolding pt_grow_def pgs by (simp add: set_leaf_def)
qed

lemma set_leaf_lookup:
  assumes "pt_ok s pt" "node (mem s) pt (vpath va) = Some t" "va < MAXVA" "vb < MAXVA"
  shows "lookup (mem (set_leaf t va v s)) pt vb =
    (if PGROUNDDOWN vb = PGROUNDDOWN va then v else lookup (mem s) pt vb)"
  using leaf_write_lookup [OF pt_okD(1) [OF assms(1)] assms(2) paths_PX(1) paths_PX(4) PX_less, of 0 va v vb]
    same_slot_iff [OF assms(4,3)] by (simp add: set_leaf_def)

lemma node_lookup: "node m pt (vpath va) = Some t \<Longrightarrow> ld64 m (pte_at t (PX 0 va)) = lookup m pt va"
  by (simp add: lookup_def)

text \<open>The entries after \<open>n\<close> pages from \<open>a\<close> on were mapped to the physical pages from \<open>pa\<close> on.\<close>

definition map_range :: "u64 \<Rightarrow> nat \<Rightarrow> addr \<Rightarrow> u64 \<Rightarrow> (u64 \<Rightarrow> u64) \<Rightarrow> u64 \<Rightarrow> u64" where
  "map_range a n pa perm f vb =
     (if unat a \<le> unat vb \<and> unat vb < unat a + 4096 * n
      then PA2PTE (pa + (PGROUNDDOWN vb - a)) OR perm OR PTE_V else f vb)"

lemma map_range_0 [simp]: "map_range a 0 pa perm f = f"
  by (auto simp: map_range_def fun_eq_iff)

lemma in_page_iff:
  assumes "pgal a"
  shows "PGROUNDDOWN vb = a \<longleftrightarrow> unat a \<le> unat vb \<and> unat vb < unat a + 4096"
  using word_diff_less_iff [of a PGSIZE vb] pgal_bound [OF assms] page_off_iff [OF assms, of vb] by simp

lemma map_range_Suc:
  assumes "pgal a" "unat (a + PGSIZE) = unat a + 4096"
    and f': "\<And>vb. vb < MAXVA \<Longrightarrow> f' vb = (if PGROUNDDOWN vb = a then PA2PTE pa OR perm OR PTE_V else f vb)"
    and "vb < MAXVA"
  shows "map_range (a + PGSIZE) n (pa + PGSIZE) perm f' vb = map_range a (Suc n) pa perm f vb"
proof -
  have "pa + PGSIZE + (PGROUNDDOWN vb - (a + PGSIZE)) = pa + (PGROUNDDOWN vb - a)" by simp
  moreover have "PGROUNDDOWN vb = a \<longleftrightarrow> unat a \<le> unat vb \<and> unat vb < unat a + 4096" by (rule in_page_iff [OF assms(1)])
  ultimately show ?thesis
    using assms(2) f' [OF assms(4)] by (auto simp: map_range_def)
qed

text \<open>One round of the loop.\<close>

lemma map_step:
  assumes "kmem_ok s" "pt_ok s pt" "pgal a" "a < MAXVA" "\<not> pte_has (lookup (mem s) pt a) PTE_V"
  obtains s1 where "walk pt a True s = Inr (0, s1)" "pt_grow pt s s1" "\<And>p. \<not> free_page s1 p"
      "\<And>vb. lookup (mem s1) pt vb = lookup (mem s) pt vb"
    | t s1 where "walk pt a True s = Inr (pte_at t (PX 0 a), s1)" "pte_at t (PX 0 a) \<noteq> 0"
      "\<not> pte_has (ld64 (mem s1) (pte_at t (PX 0 a))) PTE_V" "pt_grow pt s (set_leaf t a v s1)"
      "\<And>vb. vb < MAXVA \<Longrightarrow> lookup (mem (set_leaf t a v s1)) pt vb = (if PGROUNDDOWN vb = a then v else lookup (mem s) pt vb)"
proof -
  obtain pte s1 where w: "walk pt a True s = Inr (pte, s1)" and g: "pt_grow pt s s1"
    and l: "\<And>vb. lookup (mem s1) pt vb = lookup (mem s) pt vb" and z: "pte = 0 \<Longrightarrow> (\<forall>p. \<not> free_page s1 p)"
    and nz: "pte \<noteq> 0 \<Longrightarrow> \<exists>t. node (mem s1) pt (vpath a) = Some t \<and> pte = pte_at t (PX 0 a)"
    using walk_True [OF assms(1,2,4)] by auto
  show ?thesis
  proof (cases "pte = 0")
    case True
    then show ?thesis using that(1) w g z l by blast
  next
    case False
    then obtain t where t: "node (mem s1) pt (vpath a) = Some t" "pte = pte_at t (PX 0 a)" using nz by blast
    note g1 = pt_growD(2,3) [OF g]
    have "lookup (mem (set_leaf t a v s1)) pt vb = (if PGROUNDDOWN vb = a then v else lookup (mem s) pt vb)"
      if "vb < MAXVA" for vb
      using set_leaf_lookup [OF g1(2) t(1) assms(4) that] l PGROUNDDOWN_id [OF assms(3)] by simp
    moreover have "\<not> pte_has (ld64 (mem s1) (pte_at t (PX 0 a))) PTE_V"
      using node_lookup [OF t(1)] l assms(5) by simp
    ultimately show ?thesis
      using that(2) w t(2) False pt_grow_trans [OF g set_leaf_ok(1) [OF g1 t(1)]] by blast
  qed
qed

lemma unat_of_nat_u64: "k < 2 ^ 64 \<Longrightarrow> unat (of_nat k :: u64) = k"
  by (simp add: unat_of_nat)

lemma mappages_loop_ok:
  assumes "kmem_ok s" "pt_ok s pt" "pgal a" "0 < n" "unat a + 4096 * n \<le> 2 ^ 38" "lst = a + of_nat (4096 * (n - 1))"
    "\<And>vb. unat a \<le> unat vb \<Longrightarrow> unat vb < unat a + 4096 * n \<Longrightarrow> \<not> pte_has (lookup (mem s) pt vb) PTE_V"
  shows "\<exists>r s' m. mappages_loop pt a lst pa perm s = Inr (r, s') \<and> pt_grow pt s s' \<and>
    (r = 0 \<and> m = n \<or> r = - 1 \<and> m < n \<and> (\<forall>p. \<not> free_page s' p)) \<and>
    (\<forall>vb<MAXVA. lookup (mem s') pt vb = map_range a m pa perm (lookup (mem s) pt) vb)"
    (is "\<exists>r s' m. ?P n a pa s r s' m")
  using assms
proof (induction n arbitrary: a pa s)
  case (Suc n a pa s)
  let ?v = "PA2PTE pa OR perm OR PTE_V"
  have a: "a < MAXVA" "unat (a + PGSIZE) = unat a + 4096"
    using Suc.prems(5) by (simp_all add: word_less_nat_alt unat_word_ariths)
  have last: "a = lst \<longleftrightarrow> n = 0"
  proof -
    have "unat (of_nat (4096 * n) :: u64) = 4096 * n" using Suc.prems(5) by (intro unat_of_nat_u64) simp
    then have "(of_nat (4096 * n) :: u64) = 0 \<longleftrightarrow> n = 0" by (metis mult_is_0 unat_0 unat_eq_zero zero_neq_numeral)
    then show ?thesis using Suc.prems(6) by simp
  qed
  have nv: "\<not> pte_has (lookup (mem s) pt a) PTE_V" using Suc.prems(7) [of a] by simp
  show ?case
  proof (rule map_step [OF Suc.prems(1-3) a(1) nv, where v = ?v])
    fix s1 assume "walk pt a True s = Inr (0, s1)" "pt_grow pt s s1" "\<And>p. \<not> free_page s1 p"
      "\<And>vb. lookup (mem s1) pt vb = lookup (mem s) pt vb"
    then have "?P (Suc n) a pa s (- 1) s1 0" by (subst mappages_loop.simps) simp
    then show ?thesis by blast
  next
    fix t s1 assume w: "walk pt a True s = Inr (pte_at t (PX 0 a), s1)" "pte_at t (PX 0 a) \<noteq> 0"
      "\<not> pte_has (ld64 (mem s1) (pte_at t (PX 0 a))) PTE_V" and g: "pt_grow pt s (set_leaf t a ?v s1)"
      and l: "\<And>vb. vb < MAXVA \<Longrightarrow> lookup (mem (set_leaf t a ?v s1)) pt vb =
        (if PGROUNDDOWN vb = a then ?v else lookup (mem s) pt vb)"
    let ?s = "set_leaf t a ?v s1"
    have eq: "mappages_loop pt a lst pa perm s =
        (if n = 0 then Inr (0, ?s) else mappages_loop pt (a + PGSIZE) lst (pa + PGSIZE) perm ?s)"
      using w last by (subst mappages_loop.simps) (simp add: set_leaf_def Let_def)
    note mr = map_range_Suc [OF Suc.prems(3) a(2), of "lookup (mem ?s) pt" pa perm "lookup (mem s) pt"]
    show ?thesis
    proof (cases "n = 0")
      case True
      then have "?P (Suc n) a pa s 0 ?s (Suc 0)" using eq g mr [OF l, of _ 0] by simp
      then show ?thesis by blast
    next
      case False
      have "\<exists>r s' m. ?P n (a + PGSIZE) (pa + PGSIZE) ?s r s' m"
      proof (rule Suc.IH)
        show "lst = a + PGSIZE + of_nat (4096 * (n - 1))"
          using Suc.prems(6) False by (cases n) (simp_all add: algebra_simps)
        fix vb :: u64 assume vb: "unat (a + PGSIZE) \<le> unat vb" "unat vb < unat (a + PGSIZE) + 4096 * n"
        then have "vb < MAXVA" "PGROUNDDOWN vb \<noteq> a"
          using Suc.prems(3,5) a(2) in_page_iff [of a vb] by (auto simp: word_less_nat_alt)
        then show "\<not> pte_has (lookup (mem ?s) pt vb) PTE_V" using l Suc.prems(7) [of vb] vb a(2) by simp
      qed (use pt_growD(2,3) [OF g] pgal_add_PGSIZE Suc.prems(3,5) a(2) False in auto)
      then obtain r s' m where P: "?P n (a + PGSIZE) (pa + PGSIZE) ?s r s' m" by blast
      have "?P (Suc n) a pa s r s' (Suc m)"
        using P eq False pt_grow_trans [OF g] mr [OF l, of _ m] by auto
      then show ?thesis by blast
    qed
  qed
qed simp

lemma walk_present:
  assumes "va < MAXVA" "node (mem s) pt (vpath va) = Some t"
  shows "walk pt va alloc s = Inr (pte_at t (PX 0 va), s)"
proof -
  have "walk_loop 2 pt va alloc s = Inr (pte_at t (PX 0 va), s)"
    using assms(2) by (simp add: vpath_def numeral_2_eq_2 Let_def split: if_splits)
  then show ?thesis using assms(1) by (simp add: walk_def not_le [symmetric])
qed

lemma lookup_node:
  assumes "pte_has (lookup m pt va) f"
  obtains t where "node m pt (vpath va) = Some t"
  using assms by (cases "node m pt (vpath va)") (auto simp: lookup_def)

lemma pt_ok_slot:
  assumes "pt_ok s pt" "node (mem s) pt (vpath va) = Some t"
  shows "pte_at t (PX 0 va) \<noteq> 0" "t \<in> pt_pages (mem s) pt"
proof -
  show t: "t \<in> pt_pages (mem s) pt" by (rule pt_pagesI [OF paths_PX(1) assms(2)])
  show "pte_at t (PX 0 va) \<noteq> 0" using pt_okD(5,6) [OF assms(1) t] by (intro pte_at_nonzero PX_less)
qed

lemma mappages_loop_remap:
  assumes "pt_ok s pt" "a < MAXVA" "pte_has (lookup (mem s) pt a) PTE_V"
  shows "mappages_loop pt a lst pa perm s = Inl (Panic ''remap'')"
proof -
  obtain t where t: "node (mem s) pt (vpath a) = Some t" using lookup_node [OF assms(3)] .
  show ?thesis
    using walk_present [OF assms(2) t] pt_ok_slot(1) [OF assms(1) t] node_lookup [OF t] assms(3)
    by (subst mappages_loop.simps) simp
qed

lemma mappages_page:
  assumes "kmem_ok s" "pt_ok s pt" "pgal va" "va < MAXVA" "\<not> pte_has (lookup (mem s) pt va) PTE_V"
  obtains s' where "mappages pt va PGSIZE pa perm s = Inr (0, s')" "pt_grow pt s s'"
      "\<And>vb. vb < MAXVA \<Longrightarrow> lookup (mem s') pt vb =
         (if PGROUNDDOWN vb = va then PA2PTE pa OR perm OR PTE_V else lookup (mem s) pt vb)"
    | s' where "mappages pt va PGSIZE pa perm s = Inr (- 1, s')" "pt_grow pt s s'" "\<And>p. \<not> free_page s' p"
      "\<And>vb. vb < MAXVA \<Longrightarrow> lookup (mem s') pt vb = lookup (mem s) pt vb"
proof -
  have e: "va + PGSIZE - 1 = va + 4095" by simp
  have l: "PGROUNDDOWN (va + PGSIZE - 1) = va" unfolding e by (rule PGROUNDDOWN_add [OF assms(3)]) simp
  have m: "mappages pt va PGSIZE pa perm s = mappages_loop pt va va pa perm s"
    unfolding mappages_def l PGROUNDDOWN_id [OF assms(3)] ..
  show ?thesis
  proof (rule map_step [OF assms, where v = "PA2PTE pa OR perm OR PTE_V"])
    fix s1 assume "walk pt va True s = Inr (0, s1)" "pt_grow pt s s1" "\<And>p. \<not> free_page s1 p"
      "\<And>vb. lookup (mem s1) pt vb = lookup (mem s) pt vb"
    then show ?thesis using that(2) [of s1] m by (simp add: mappages_loop.simps [of pt va])
  next
    fix t s1 assume "walk pt va True s = Inr (pte_at t (PX 0 va), s1)" "pte_at t (PX 0 va) \<noteq> 0"
      "\<not> pte_has (ld64 (mem s1) (pte_at t (PX 0 va))) PTE_V"
      "pt_grow pt s (set_leaf t va (PA2PTE pa OR perm OR PTE_V) s1)"
      "\<And>vb. vb < MAXVA \<Longrightarrow> lookup (mem (set_leaf t va (PA2PTE pa OR perm OR PTE_V) s1)) pt vb =
         (if PGROUNDDOWN vb = va then PA2PTE pa OR perm OR PTE_V else lookup (mem s) pt vb)"
    then show ?thesis
      using that(1) m by (simp add: mappages_loop.simps [of pt va] set_leaf_def [symmetric] Let_def)
  qed
qed

text \<open>Where the tables exist already, mapping a page cannot fail.\<close>

lemma mappages_present:
  assumes "pt_ok s pt" "pgal va" "va < MAXVA" "node (mem s) pt (vpath va) = Some t"
    "\<not> pte_has (lookup (mem s) pt va) PTE_V"
  shows "mappages pt va PGSIZE pa perm s = Inr (0, set_leaf t va (PA2PTE pa OR perm OR PTE_V) s)"
proof -
  have e: "va + PGSIZE - 1 = va + 4095" by simp
  have l: "PGROUNDDOWN (va + PGSIZE - 1) = va" unfolding e by (rule PGROUNDDOWN_add [OF assms(2)]) simp
  show ?thesis
    unfolding mappages_def l PGROUNDDOWN_id [OF assms(2)]
    using walk_present [OF assms(3,4)] pt_ok_slot(1) [OF assms(1,4)] node_lookup [OF assms(4)] assms(5)
    by (subst mappages_loop.simps) (simp add: set_leaf_def Let_def)
qed

text \<open>Other page tables do not notice.\<close>

lemma pt_grow_other:
  assumes "pt_grow pt s s'" "pt_ok s pt2" "pt_pages (mem s) pt \<inter> pt_pages (mem s) pt2 = {}"
  shows "pt_ok s' pt2" "pt_pages (mem s') pt2 = pt_pages (mem s) pt2" "lookup (mem s') pt2 va = lookup (mem s) pt2 va"
    "pt_pages (mem s') pt \<inter> pt_pages (mem s') pt2 = {}"
proof -
  note g = pt_growD [OF assms(1)] and k = pt_okD [OF assms(2)]
  have d: "pt_pages (mem s') pt \<inter> pt_pages (mem s) pt2 = {}"
    using g(8) k(4) assms(3) by blast
  show p: "pt_pages (mem s') pt2 = pt_pages (mem s) pt2" by (rule pt_pages_frame(1) [OF k(1) g(5) d])
  show "lookup (mem s') pt2 va = lookup (mem s) pt2 va" by (rule lookup_frame [OF k(1) g(5) d])
  show "pt_pages (mem s') pt \<inter> pt_pages (mem s') pt2 = {}" using d p by simp
  have "PAGE2REF a s' = 1" if "a \<in> pt_pages (mem s) pt2" for a
    using g(9) [of a] k(2,3) [OF that] d that by auto
  then show "pt_ok s' pt2"
    using pt_pages_frame(2) [OF k(1) g(5) d] assms(2) g(6) unfolding pt_ok_def p by auto
qed

section \<open>uvmunmap\<close>

text \<open>Page number \<open>k\<close> of an address space: its address, its entry and the physical page.\<close>

definition uva :: "nat \<Rightarrow> u64" where
  "uva k = of_nat (4096 * k)"

definition upte :: "'a kmst_scheme \<Rightarrow> addr \<Rightarrow> nat \<Rightarrow> u64" where
  "upte s pt k = lookup (mem s) pt (uva k)"

definition upa :: "'a kmst_scheme \<Rightarrow> addr \<Rightarrow> nat \<Rightarrow> addr" where
  "upa s pt k = PTE2PA (upte s pt k)"

lemma unat_uva: "k \<le> 2 ^ 26 \<Longrightarrow> unat (uva k) = 4096 * k"
  unfolding uva_def by (rule unat_of_nat_u64) simp

lemma pgal_uva: "k \<le> 2 ^ 26 \<Longrightarrow> pgal (uva k)"
  by (simp add: pgal_def unat_uva)

lemma uva_less: "k < 2 ^ 26 \<Longrightarrow> uva k < MAXVA"
  by (simp add: word_less_nat_alt unat_uva)

lemma uva_Suc: "uva k + PGSIZE = uva (Suc k)"
  by (simp add: uva_def)

lemma uva_inj: "j \<le> 2 ^ 26 \<Longrightarrow> k \<le> 2 ^ 26 \<Longrightarrow> uva j = uva k \<longleftrightarrow> j = k"
  using unat_uva [of j] unat_uva [of k] by (metis mult_left_cancel zero_neq_numeral)

lemma kfree_step:
  assumes "kmem_ok s" "vpage (kend s) pa" "PAGE2REF pa s \<ge> 1"
  obtains s' where "kfree pa s = Inr s'" "kmem_ok s'"
    "s' = s\<lparr>mem := mem s', freelist := freelist s', pageref := pageref s'\<rparr>" "kend s' = kend s" "held s' = held s"
    "\<And>a. vpage (kend s) a \<Longrightarrow> PAGE2REF a s' = PAGE2REF a s - (if a = pa then 1 else 0)"
    "same_off {p. p = pa \<and> free_page s' p} (mem s) (mem s')"
proof -
  obtain ps where u: "unlocked s" and i: "kmem_inv s ps" using assms(1) by (auto simp: kmem_ok_def)
  have pg: "pgal pa" using assms(2) by (rule vpage_pgal)
  show ?thesis
  proof (cases "PAGE2REF pa s = 1")
    case True
    note f = kmem_inv_kfree [OF i u assms(2) True]
    have "kmem_ok (freed pa s)" using f(2) u unlocked_held [of "freed pa s" s] by (auto simp: kmem_ok_def)
    moreover have "free_page (freed pa s) pa" using kmem_invD(3) [OF f(2), of pa] by simp
    moreover have "PAGE2REF a (freed pa s) = PAGE2REF a s - (if a = pa then 1 else 0)" if "vpage (kend s) a" for a
      using PAGE2REF_freed [OF pg vpage_pgal [OF that], of s] True by auto
    ultimately show ?thesis using that [OF f(1)] same_off_mono [OF same_off_freed [OF pg, of s]]
      by (simp add: freed_def set_ref_def)
  next
    case False
    let ?s = "set_ref pa (PAGE2REF pa s - 1) s"
    have "kmem_ok ?s" using kmem_inv_set_ref [OF i assms(2), of "PAGE2REF pa s - 1"] False assms(3) u unlocked_held [of ?s s]
      by (auto simp: kmem_ok_def)
    moreover have "PAGE2REF a ?s = PAGE2REF a s - (if a = pa then 1 else 0)" if "vpage (kend s) a" for a
      using PAGE2REF_set [OF pg vpage_pgal [OF that], of _ s] by auto
    ultimately show ?thesis using that [OF kfree_dec [OF u assms(2)]] False assms(3) by (simp add: set_ref_def)
  qed
qed

text \<open>One round of the loop of \<open>uvmunmap\<close> with \<open>do_free\<close>.\<close>

lemma unmap_step:
  assumes "kmem_ok s" "pt_ok s pt" "node (mem s) pt (vpath va) = Some t" "va < MAXVA"
    and pa: "vpage (kend s) pa" "PAGE2REF pa s \<ge> 1" "pa \<notin> pt_pages (mem s) pt"
  obtains s1 s2 where "kfree pa s = Inr s1" "s2 = set_leaf t va 0 s1" "kmem_ok s2" "pt_ok s2 pt"
    "s2 = s\<lparr>mem := mem s2, freelist := freelist s2, pageref := pageref s2\<rparr>" "kend s2 = kend s"
    "pt_pages (mem s2) pt = pt_pages (mem s) pt"
    "\<And>vb. vb < MAXVA \<Longrightarrow> lookup (mem s2) pt vb = (if PGROUNDDOWN vb = PGROUNDDOWN va then 0 else lookup (mem s) pt vb)"
    "\<And>a. vpage (kend s) a \<Longrightarrow> PAGE2REF a s2 = PAGE2REF a s - (if a = pa then 1 else 0)"
    "same_off (pt_pages (mem s) pt \<union> {p. p = pa \<and> free_page s2 p}) (mem s) (mem s2)"
proof -
  obtain s1 where f: "kfree pa s = Inr s1" "kmem_ok s1"
    "s1 = s\<lparr>mem := mem s1, freelist := freelist s1, pageref := pageref s1\<rparr>" "kend s1 = kend s" "held s1 = held s"
    "\<And>a. vpage (kend s) a \<Longrightarrow> PAGE2REF a s1 = PAGE2REF a s - (if a = pa then 1 else 0)"
    "same_off {p. p = pa \<and> free_page s1 p} (mem s) (mem s1)"
    by (rule kfree_step [OF assms(1) pa(1,2)]) (rule that)
  note k = pt_okD [OF assms(2)]
  have d: "{p. p = pa \<and> free_page s1 p} \<inter> pt_pages (mem s) pt = {}" using pa(3) by auto
  have p1: "pt_pages (mem s1) pt = pt_pages (mem s) pt" "wf_pt (mem s1) pt"
    using pt_pages_frame [OF k(1) f(7) d] by auto
  have ok1: "pt_ok s1 pt"
    using p1 assms(2) f(4) f(6) pa(3) unfolding pt_ok_def by auto
  have n1: "node (mem s1) pt (vpath va) = Some t" using node_frame [OF k(1) f(7) d paths_PX(1)] assms(3) by simp
  let ?s = "set_leaf t va 0 s1"
  note sl = set_leaf_ok(2,3) [OF f(2) ok1 n1, of 0] set_leaf_ok(4) [OF f(2) ok1 n1] and g = pt_growD [OF set_leaf_ok(1) [OF f(2) ok1 n1, of 0]]
  have lk: "lookup (mem ?s) pt vb = (if PGROUNDDOWN vb = PGROUNDDOWN va then 0 else lookup (mem s) pt vb)"
    if "vb < MAXVA" for vb
    using set_leaf_lookup [OF ok1 n1 assms(4) that] lookup_frame [OF k(1) f(7) d] by simp
  have so: "same_off (pt_pages (mem s) pt \<union> {p. p = pa \<and> free_page ?s p}) (mem s) (mem ?s)"
    using same_off_trans [OF f(7) sl(2)] sl(3) p1(1) by (auto simp: set_leaf_def)
  show ?thesis
    by (rule that [OF f(1) refl g(2,3) kframe_trans [OF f(3) g(1)]]) (use f(4,6) sl(1) p1(1) lk so in simp_all)
qed

definition leaf_ok :: "u64 \<Rightarrow> bool" where
  "leaf_ok e \<longleftrightarrow> pte_has e PTE_V \<and> PTE_FLAGS e \<noteq> PTE_V"

text \<open>How often the pages \<open>K\<close> of an address space map a physical page.\<close>

definition dup :: "'a kmst_scheme \<Rightarrow> addr \<Rightarrow> nat set \<Rightarrow> addr \<Rightarrow> nat" where
  "dup s pt K p = card {j \<in> K. upa s pt j = p}"

text \<open>
  The pages \<open>K\<close> of the address space are mapped to pages of the allocator, and each is counted in the
  reference count of its physical page.
\<close>

definition user_pages :: "'a kmst_scheme \<Rightarrow> addr \<Rightarrow> nat set \<Rightarrow> bool" where
  "user_pages s pt K \<longleftrightarrow> finite K \<and>
     (\<forall>j\<in>K. j < 2 ^ 26 \<and> leaf_ok (upte s pt j) \<and> vpage (kend s) (upa s pt j) \<and> upa s pt j \<notin> pt_pages (mem s) pt) \<and>
     (\<forall>p. vpage (kend s) p \<longrightarrow> int (dup s pt K p) \<le> PAGE2REF p s)"

definition clear_range :: "nat \<Rightarrow> nat \<Rightarrow> (u64 \<Rightarrow> u64) \<Rightarrow> u64 \<Rightarrow> u64" where
  "clear_range k n f vb = (if 4096 * k \<le> unat vb \<and> unat vb < 4096 * (k + n) then 0 else f vb)"

lemma dup_insert:
  assumes "finite K" "k \<notin> K"
  shows "dup s pt (insert k K) p = dup s pt K p + (if upa s pt k = p then 1 else 0)"
proof -
  have "{j \<in> insert k K. upa s pt j = p} =
      (if upa s pt k = p then insert k {j \<in> K. upa s pt j = p} else {j \<in> K. upa s pt j = p})" by auto
  then show ?thesis using assms by (simp add: dup_def)
qed

lemma dup_cong: "(\<And>j. j \<in> K \<Longrightarrow> upa s' pt' j = upa s pt j) \<Longrightarrow> dup s' pt' K p = dup s pt K p"
  unfolding dup_def by (rule arg_cong [where f = card]) auto

lemma uva_page: "k < 2 ^ 26 \<Longrightarrow> PGROUNDDOWN vb = uva k \<longleftrightarrow> 4096 * k \<le> unat vb \<and> unat vb < 4096 * Suc k"
  using in_page_iff [OF pgal_uva, of k vb] unat_uva [of k] by (simp add: add.commute)

lemma uvmunmap_loop_free:
  assumes "kmem_ok s" "pt_ok s pt" "user_pages s pt {k..<k + n}" "k + n \<le> 2 ^ 26"
  shows "\<exists>s'. uvmunmap_loop pt (uva k) (uva (k + n)) True s = Inr s' \<and> kmem_ok s' \<and> pt_ok s' pt \<and>
    s' = s\<lparr>mem := mem s', freelist := freelist s', pageref := pageref s'\<rparr> \<and> kend s' = kend s \<and>
    pt_pages (mem s') pt = pt_pages (mem s) pt \<and>
    (\<forall>vb<MAXVA. lookup (mem s') pt vb = clear_range k n (lookup (mem s) pt) vb) \<and>
    (\<forall>p. vpage (kend s) p \<longrightarrow> PAGE2REF p s' = PAGE2REF p s - int (dup s pt {k..<k + n} p)) \<and>
    same_off (pt_pages (mem s) pt \<union> {p. free_page s' p}) (mem s) (mem s')"
    (is "\<exists>s'. ?P k n s s'")
  using assms
proof (induction n arbitrary: k s)
  case 0
  then show ?case by (auto simp: uvmunmap_loop.simps clear_range_def dup_def)
next
  case (Suc n)
  have k26: "k < 2 ^ 26" "k \<le> 2 ^ 26" "k + Suc n \<le> 2 ^ 26" using Suc.prems(4) by auto
  note u = uva_less [OF k26(1)]
  have K: "{k..<k + Suc n} = insert k {Suc k..<Suc k + n}" by auto
  have leaf: "leaf_ok (upte s pt k)" and vp: "vpage (kend s) (upa s pt k)" and np: "upa s pt k \<notin> pt_pages (mem s) pt"
    and cnt: "\<And>p. vpage (kend s) p \<Longrightarrow> int (dup s pt {k..<k + Suc n} p) \<le> PAGE2REF p s"
    using Suc.prems(3) by (auto simp: user_pages_def)
  have dI: "dup s pt {k..<k + Suc n} p = dup s pt {Suc k..<Suc k + n} p + (if upa s pt k = p then 1 else 0)" for p
    unfolding K by (rule dup_insert) simp_all
  have ref: "PAGE2REF (upa s pt k) s \<ge> 1" using cnt [OF vp] dI by simp
  obtain t where t: "node (mem s) pt (vpath (uva k)) = Some t"
    using leaf lookup_node unfolding leaf_ok_def upte_def by blast
  have e: "ld64 (mem s) (pte_at t (PX 0 (uva k))) = upte s pt k" using node_lookup [OF t] by (simp add: upte_def)
  obtain s1 s2 where st: "kfree (upa s pt k) s = Inr s1" "s2 = set_leaf t (uva k) 0 s1" "kmem_ok s2" "pt_ok s2 pt"
    "s2 = s\<lparr>mem := mem s2, freelist := freelist s2, pageref := pageref s2\<rparr>" "kend s2 = kend s"
    "pt_pages (mem s2) pt = pt_pages (mem s) pt"
    "\<And>vb. vb < MAXVA \<Longrightarrow> lookup (mem s2) pt vb =
       (if PGROUNDDOWN vb = PGROUNDDOWN (uva k) then 0 else lookup (mem s) pt vb)"
    "\<And>a. vpage (kend s) a \<Longrightarrow> PAGE2REF a s2 = PAGE2REF a s - (if a = upa s pt k then 1 else 0)"
    "same_off (pt_pages (mem s) pt \<union> {p. p = upa s pt k \<and> free_page s2 p}) (mem s) (mem s2)"
    by (rule unmap_step [OF Suc.prems(1,2) t u vp ref np]) (rule that)
  have eq: "uvmunmap_loop pt (uva k) (uva (k + Suc n)) True s = uvmunmap_loop pt (uva (Suc k)) (uva (Suc k + n)) True s2"
  proof -
    have lt: "uva k < uva (k + Suc n)" using unat_uva [OF k26(2)] unat_uva [OF k26(3)] by (simp add: word_less_nat_alt)
    have "walk pt (uva k) False s = Inr (pte_at t (PX 0 (uva k)), s)" by (rule walk_present [OF u t])
    then show ?thesis
      using lt pt_ok_slot(1) [OF Suc.prems(2) t] e leaf st(1,2)
      by (subst uvmunmap_loop.simps) (simp add: leaf_ok_def upa_def uva_Suc set_leaf_def)
  qed
  have same: "upte s2 pt j = upte s pt j" if "j \<in> {Suc k..<Suc k + n}" for j
  proof -
    have j: "j < 2 ^ 26" "j \<noteq> k" using that Suc.prems(4) by auto
    then have "PGROUNDDOWN (uva j) \<noteq> PGROUNDDOWN (uva k)"
      using uva_inj [of j k] k26(2) by (simp add: PGROUNDDOWN_id pgal_uva)
    then show ?thesis using st(8) [OF uva_less [OF j(1)]] by (simp add: upte_def)
  qed
  have dd: "dup s2 pt {Suc k..<Suc k + n} p = dup s pt {Suc k..<Suc k + n} p" for p
    by (rule dup_cong) (simp add: upa_def same)
  have "user_pages s2 pt {Suc k..<Suc k + n}"
    using Suc.prems(3) same st(6,7,9) dd dI cnt unfolding user_pages_def K upa_def by fastforce
  from Suc.IH [OF st(3,4) this] Suc.prems(4) obtain s' where P: "?P (Suc k) n s2 s'" by auto
  have lk: "lookup (mem s') pt vb = clear_range k (Suc n) (lookup (mem s) pt) vb" if vb: "vb < MAXVA" for vb
    using P st(8) [OF vb] uva_page [OF k26(1), of vb] vb PGROUNDDOWN_id [OF pgal_uva [OF k26(2)]]
    by (auto simp: clear_range_def)
  have rf: "PAGE2REF p s' = PAGE2REF p s - int (dup s pt {k..<k + Suc n} p)" if "vpage (kend s) p" for p
    using P st(6) st(9) [OF that] dd dI that by auto
  have "{p. p = upa s pt k \<and> free_page s2 p} \<subseteq> {p. free_page s' p}"
    using P st(6) by (auto simp: free_page_def)
  then have so: "same_off (pt_pages (mem s) pt \<union> {p. free_page s' p}) (mem s) (mem s')"
    using P st(7) by (intro same_off_trans [OF st(10)]) auto
  show ?case
    using P eq lk rf so st(6,7) kframe_trans [OF st(5)] by (intro exI [of _ s']) auto
qed

lemma uvmunmap_free:
  assumes "kmem_ok s" "pt_ok s pt" "user_pages s pt {k..<k + n}" "k + n \<le> 2 ^ 26"
  shows "\<exists>s'. uvmunmap pt (uva k) (of_nat n) True s = Inr s' \<and> kmem_ok s' \<and> pt_ok s' pt \<and>
    s' = s\<lparr>mem := mem s', freelist := freelist s', pageref := pageref s'\<rparr> \<and> kend s' = kend s \<and>
    pt_pages (mem s') pt = pt_pages (mem s) pt \<and>
    (\<forall>vb<MAXVA. lookup (mem s') pt vb = clear_range k n (lookup (mem s) pt) vb) \<and>
    (\<forall>p. vpage (kend s) p \<longrightarrow> PAGE2REF p s' = PAGE2REF p s - int (dup s pt {k..<k + n} p)) \<and>
    same_off (pt_pages (mem s) pt \<union> {p. free_page s' p}) (mem s) (mem s')"
proof -
  have "uva k mod PGSIZE = 0" using pgal_uva [of k] assms(4) mod_PGSIZE_pgal by auto
  moreover have "uva k + of_nat n * PGSIZE = uva (k + n)" by (simp add: uva_def algebra_simps)
  ultimately have "uvmunmap pt (uva k) (of_nat n) True s = uvmunmap_loop pt (uva k) (uva (k + n)) True s"
    by (simp add: uvmunmap_def)
  then show ?thesis using uvmunmap_loop_free [OF assms] by simp
qed

lemma uvmunmap_page:
  assumes "pt_ok s pt" "pgal va" "va < MAXVA" "node (mem s) pt (vpath va) = Some t" "leaf_ok (lookup (mem s) pt va)"
  shows "uvmunmap pt va 1 False s = Inr (set_leaf t va 0 s)"
proof -
  have m: "va mod PGSIZE = 0" using assms(2) mod_PGSIZE_pgal by simp
  have lt: "va < va + PGSIZE" using assms(3) by (simp add: word_less_nat_alt unat_word_ariths)
  have w: "walk pt va False s = Inr (pte_at t (PX 0 va), s)" by (rule walk_present [OF assms(3,4)])
  have "uvmunmap_loop pt va (va + PGSIZE) False s = uvmunmap_loop pt (va + PGSIZE) (va + PGSIZE) False (set_leaf t va 0 s)"
    using lt w pt_ok_slot(1) [OF assms(1,4)] node_lookup [OF assms(4)] assms(5)
    by (subst uvmunmap_loop.simps) (simp add: leaf_ok_def set_leaf_def)
  also have "\<dots> = Inr (set_leaf t va 0 s)" by (subst uvmunmap_loop.simps) simp
  finally show ?thesis using m by (simp add: uvmunmap_def)
qed

lemma uvmunmap_missing:
  assumes "pgal va" "va < MAXVA" "\<not> pte_has (lookup (mem s) pt va) PTE_V" "pt_ok s pt"
  shows "\<exists>msg. uvmunmap pt va 1 f s = Inl (Panic msg)"
proof -
  have m: "va mod PGSIZE = 0" using assms(1) mod_PGSIZE_pgal by simp
  have lt: "va < va + PGSIZE" using assms(2) by (simp add: word_less_nat_alt unat_word_ariths)
  show ?thesis
  proof (cases "node (mem s) pt (vpath va)")
    case None
    then have "walk pt va False s = Inr (0, s)" using walk_False [OF assms(2), of pt s] by simp
    then show ?thesis using m lt by (simp add: uvmunmap_def uvmunmap_loop.simps [of pt va])
  next
    case (Some t)
    then show ?thesis using m lt walk_present [OF assms(2) Some] node_lookup [OF Some] assms(3) pt_ok_slot(1) [OF assms(4) Some]
      by (simp add: uvmunmap_def uvmunmap_loop.simps [of pt va])
  qed
qed

section \<open>A page table is a map\<close>

text \<open>
  The contract of \<open>mappages\<close> and \<open>uvmunmap\<close> on one page: \<open>look\<close> is the map from page addresses to
  entries, \<open>mapped\<close> tells the entries in use, \<open>here\<close> the addresses a table can map.
\<close>

locale page_map =
  fixes ins :: "u64 \<Rightarrow> addr \<Rightarrow> 's \<Rightarrow> (int \<times> 's) kres"
    and del :: "u64 \<Rightarrow> 's \<Rightarrow> 's kres"
    and look :: "'s \<Rightarrow> u64 \<Rightarrow> u64"
    and ent :: "addr \<Rightarrow> u64"
    and mapped :: "u64 \<Rightarrow> bool"
    and here :: "u64 \<Rightarrow> bool"
    and ok :: "'s \<Rightarrow> bool"
  assumes ins_new: "ok s \<Longrightarrow> here a \<Longrightarrow> \<not> mapped (look s a) \<Longrightarrow>
      \<exists>r s'. ins a pa s = Inr (r, s') \<and> ok s' \<and>
        (r = 0 \<and> (\<forall>b. here b \<longrightarrow> look s' b = (if b = a then ent pa else look s b)) \<or>
         r = - 1 \<and> (\<forall>b. here b \<longrightarrow> look s' b = look s b))"
    and ins_again: "ok s \<Longrightarrow> here a \<Longrightarrow> mapped (look s a) \<Longrightarrow> ins a pa s = Inl (Panic ''remap'')"
    and del_mapped: "ok s \<Longrightarrow> here a \<Longrightarrow> look s a = ent pa \<Longrightarrow>
      \<exists>s'. del a s = Inr s' \<and> ok s' \<and> (\<forall>b. here b \<longrightarrow> look s' b = (if b = a then 0 else look s b))"
    and del_missing: "ok s \<Longrightarrow> here a \<Longrightarrow> \<not> mapped (look s a) \<Longrightarrow> \<exists>msg. del a s = Inl (Panic msg)"
    and mapped_ent: "mapped (ent pa)" "\<not> mapped 0"
begin

lemma ins_twice:
  assumes "ok s" "here a" "\<not> mapped (look s a)" "ins a pa s = Inr (0, s1)"
  shows "ins a pb s1 = Inl (Panic ''remap'')"
proof -
  have "ok s1" "look s1 a = ent pa" using ins_new [OF assms(1-3), of pa] assms(2,4) by auto
  then show ?thesis using ins_again [OF _ assms(2)] mapped_ent(1) by simp
qed

lemma ins_del:
  assumes "ok s" "here a" "look s a = 0" "ins a pa s = Inr (0, s1)"
  shows "\<exists>s2. del a s1 = Inr s2 \<and> ok s2 \<and> (\<forall>b. here b \<longrightarrow> look s2 b = look s b)"
proof -
  have n: "\<not> mapped (look s a)" using assms(3) mapped_ent(2) by simp
  have s1: "ok s1" "\<forall>b. here b \<longrightarrow> look s1 b = (if b = a then ent pa else look s b)"
    using ins_new [OF assms(1,2) n, of pa] assms(4) by auto
  then obtain s2 where "del a s1 = Inr s2" "ok s2" "\<forall>b. here b \<longrightarrow> look s2 b = (if b = a then 0 else look s1 b)"
    using del_mapped [OF s1(1) assms(2), of pa] assms(2) by auto
  then show ?thesis using s1(2) assms(3) by (intro exI [of _ s2]) simp
qed

lemma del_twice:
  assumes "ok s" "here a" "look s a = ent pa" "del a s = Inr s1"
  shows "\<exists>msg. del a s1 = Inl (Panic msg)"
proof -
  have "ok s1" "look s1 a = 0" using del_mapped [OF assms(1-3)] assms(2,4) by auto
  then show ?thesis using del_missing [OF _ assms(2)] mapped_ent(2) by simp
qed

end

definition user_perm :: u64 where
  "user_perm = PTE_W OR PTE_X OR PTE_R OR PTE_U"

lemma leaf_ok_perm:
  assumes "unat perm < 2 ^ 10" "perm OR PTE_V \<noteq> PTE_V"
  shows "leaf_ok (PA2PTE pa OR perm OR PTE_V)"
proof -
  have "unat (perm OR PTE_V) < 2 ^ 10" using assms(1) unfolding less_exp_bits by (auto simp: bit_simps)
  then have "PTE_FLAGS (PA2PTE pa OR perm OR PTE_V) = perm OR PTE_V"
    using PTE_FLAGS_PA2PTE [of "perm OR PTE_V" pa] by (simp add: or.assoc)
  then show ?thesis using assms(2) by (simp add: leaf_ok_def)
qed

lemma leaf_ok_user_perm: "leaf_ok (PA2PTE pa OR user_perm OR PTE_V)"
  by (rule leaf_ok_perm) (simp_all add: user_perm_def)

interpretation pmap: page_map "\<lambda>a pa. mappages pt a PGSIZE pa user_perm" "\<lambda>a. uvmunmap pt a 1 False"
  "\<lambda>s. lookup (mem s) pt" "\<lambda>pa. PA2PTE pa OR user_perm OR PTE_V" "\<lambda>e. pte_has e PTE_V"
  "\<lambda>a. pgal a \<and> a < MAXVA" "\<lambda>s. kmem_ok s \<and> pt_ok s pt" for pt
proof (unfold_locales, goal_cases)
  case (1 s a pa)
  show ?case
  proof (rule mappages_page [of s pt a pa user_perm])
    fix s' assume "mappages pt a PGSIZE pa user_perm s = Inr (0, s')" "pt_grow pt s s'"
      "\<And>vb. vb < MAXVA \<Longrightarrow> lookup (mem s') pt vb =
        (if PGROUNDDOWN vb = a then PA2PTE pa OR user_perm OR PTE_V else lookup (mem s) pt vb)"
    then show ?thesis using pt_growD(2,3) by (intro exI [of _ 0] exI [of _ s']) (auto simp: PGROUNDDOWN_id)
  next
    fix s' assume "mappages pt a PGSIZE pa user_perm s = Inr (- 1, s')" "pt_grow pt s s'"
      "\<And>vb. vb < MAXVA \<Longrightarrow> lookup (mem s') pt vb = lookup (mem s) pt vb"
    then show ?thesis using pt_growD(2,3) by (intro exI [of _ "- 1"] exI [of _ s']) auto
  qed (use 1 in auto)
next
  case (2 s a pa)
  then show ?case by (simp add: mappages_def PGROUNDDOWN_id mappages_loop_remap)
next
  case (3 s a pa)
  have l: "leaf_ok (lookup (mem s) pt a)" using 3(3) leaf_ok_user_perm by simp
  then obtain t where t: "node (mem s) pt (vpath a) = Some t" using lookup_node unfolding leaf_ok_def by blast
  have "uvmunmap pt a 1 False s = Inr (set_leaf t a 0 s)" using 3(1,2) uvmunmap_page [OF _ _ _ t l] by auto
  moreover have "kmem_ok (set_leaf t a 0 s)" "pt_ok (set_leaf t a 0 s) pt"
    using pt_growD(2,3) [OF set_leaf_ok(1) [OF _ _ t]] 3(1) by auto
  moreover have "lookup (mem (set_leaf t a 0 s)) pt b = (if b = a then 0 else lookup (mem s) pt b)"
    if "pgal b \<and> b < MAXVA" for b
    using set_leaf_lookup [OF _ t, of b 0] 3(1,2) that by (auto simp: PGROUNDDOWN_id)
  ultimately show ?case by blast
next
  case (4 s a)
  then show ?case using uvmunmap_missing by blast
qed simp_all

section \<open>Properties\<close>

lemma empty_table:
  assumes "pgal pt" "\<And>i. i < 512 \<Longrightarrow> ld64 m (pte_at pt i) = 0"
  shows "wf_pt m pt" "pt_pages m pt = {pt}" "lookup m pt va = 0"
proof -
  have n: "node m pt p = (if p = [] then Some pt else None)" if "p \<in> paths" for p
    using assms(2) that by (cases p) (auto simp: paths_def Let_def)
  show "wf_pt m pt" using n assms(1) by (auto simp: wf_pt_def split: if_splits)
  show "pt_pages m pt = {pt}"
  proof (rule set_eqI)
    fix a show "a \<in> pt_pages m pt \<longleftrightarrow> a \<in> {pt}"
      using n pt_root [of pt m] by (auto simp: pt_pages_def split: if_splits)
  qed
  have "vpath va \<noteq> []" by (simp add: vpath_def)
  then have "node m pt (vpath va) = None" using n [OF paths_PX(1), of va] by simp
  then show "lookup m pt va = 0" by (simp add: lookup_def)
qed

definition page_count :: "u64 \<Rightarrow> u64 \<Rightarrow> nat" where
  "page_count va sz = (unat va + unat sz - 1) div 4096 - unat va div 4096 + 1"

text \<open>For the witnesses: an empty root table in the third page from the top, the two above it free.\<close>

definition pt_ex :: kmst where
  "pt_ex = km_ex\<lparr>mem := st64 (\<lambda>_. 0) 0x87FFE000 0x87FFF000, freelist := 0x87FFE000,
     pageref := (\<lambda>i. if i = 0x7FFD then 1 else 0), kend := 0x87FFD000\<rparr>"

lemma vpage_last3: "vpage 0x87FFD000 p \<longleftrightarrow> p = 0x87FFD000 \<or> p = 0x87FFE000 \<or> p = 0x87FFF000"
proof -
  have "4096 dvd unat p \<Longrightarrow> 0x87FFD000 \<le> unat p \<Longrightarrow> unat p < 0x88000000 \<Longrightarrow>
      unat p = 0x87FFD000 \<or> unat p = 0x87FFE000 \<or> unat p = 0x87FFF000"
    by (elim dvdE) (simp, linarith)
  moreover have "4096 dvd (0x87FFD000 :: nat)" "4096 dvd (0x87FFE000 :: nat)" "4096 dvd (0x87FFF000 :: nat)" by simp_all
  ultimately show ?thesis
    by (auto simp: vpage_def pgal_def word_less_nat_alt word_le_nat_alt word_unat_eq_iff)
qed

lemma pt_ex_refs [simp]:
  "PAGE2REF 0x87FFD000 pt_ex = 1" "PAGE2REF 0x87FFE000 pt_ex = 0" "PAGE2REF 0x87FFF000 pt_ex = 0" "kend pt_ex = 0x87FFD000"
  by (simp_all add: pt_ex_def PAGE2REF_def PA2PAGE_ID_def)

lemma pgal_tops: "pgal 0x87FFD000" "pgal 0x87FFE000" "pgal 0x87FFF000"
  using vpage_last3 vpage_pgal by blast+

lemma ld64_zero: "ld64 (\<lambda>_. 0) a = 0"
  by (simp add: ld64_def le_word_zero)

lemma pt_ex_kmem: "kmem_ok pt_ex"
proof -
  have "chain (mem pt_ex) (freelist pt_ex) [0x87FFE000, 0x87FFF000]"
    using pgal_tops [THEN pgal_al8] by (simp add: pt_ex_def ld64_st64_other ld64_zero)
  moreover have "free_page pt_ex p \<longleftrightarrow> p = 0x87FFE000 \<or> p = 0x87FFF000" for p
    unfolding free_page_def pt_ex_refs(4) vpage_last3 by auto
  ultimately have "kmem_inv pt_ex [0x87FFE000, 0x87FFF000]" by (auto simp: kmem_inv_def)
  then show ?thesis by (auto simp: kmem_ok_def unlocked_def pt_ex_def km_ex_def)
qed

lemma pt_ex_pt: "pt_ok pt_ex 0x87FFD000" "lookup (mem pt_ex) 0x87FFD000 va = 0"
proof -
  have "ld64 (mem pt_ex) (pte_at 0x87FFD000 i) = 0" if "i < 512" for i
  proof -
    have "pte_at 0x87FFD000 i \<noteq> 0x87FFE000" using pte_at_page(1) [OF pgal_tops(1) that] PGROUNDDOWN_id [OF pgal_tops(2)] by auto
    then show ?thesis
      using pte_at_page(2) [OF pgal_tops(1) that] pgal_al8 [OF pgal_tops(2)]
      by (simp add: pt_ex_def ld64_st64_other ld64_zero)
  qed
  note e = empty_table [OF pgal_tops(1) this]
  show "pt_ok pt_ex 0x87FFD000" using e(1,2) vpage_last3 by (simp add: pt_ok_def)
  show "lookup (mem pt_ex) 0x87FFD000 va = 0" by (rule e(3))
qed


text \<open>C15. \<open>walk\<close> with allocation returns for every address below MAXVA. It changes no lookup of this
  page table, writes only to its own table pages, takes new tables only from the free pages, and leaves
  every other page table and count alone; the result is the address of the entry of \<open>va\<close>, or 0 when
  memory has run out.\<close>

theorem walk_alloc_correct:
  assumes "kmem_ok s" "pt_ok s pt" "va < MAXVA"
  shows "\<exists>a s'. walk pt va True s = Inr (a, s') \<and> pt_grow pt s s' \<and>
    (\<forall>vb. lookup (mem s') pt vb = lookup (mem s) pt vb) \<and>
    (a = 0 \<longrightarrow> (\<forall>p. \<not> free_page s' p)) \<and> (a \<noteq> 0 \<longrightarrow> ld64 (mem s') a = lookup (mem s) pt va) \<and>
    (\<forall>pt2. pt_ok s pt2 \<longrightarrow> pt_pages (mem s) pt \<inter> pt_pages (mem s) pt2 = {} \<longrightarrow>
       (\<forall>vb. lookup (mem s') pt2 vb = lookup (mem s) pt2 vb))"
proof -
  obtain a s' where w: "walk pt va True s = Inr (a, s')" "pt_grow pt s s'"
    "\<forall>vb. lookup (mem s') pt vb = lookup (mem s) pt vb" "a = 0 \<longrightarrow> (\<forall>p. \<not> free_page s' p)"
    "a \<noteq> 0 \<longrightarrow> (\<exists>t'. node (mem s') pt (vpath va) = Some t' \<and> a = pte_at t' (PX 0 va))"
    using walk_True [OF assms] by blast
  have "a \<noteq> 0 \<longrightarrow> ld64 (mem s') a = lookup (mem s) pt va" using w(3,5) node_lookup by metis
  then show ?thesis using w pt_grow_other(3) [OF w(2)] by blast
qed

theorem walk_alloc_correct_witness:
  "\<exists>a s'. walk 0x87FFD000 0 True pt_ex = Inr (a, s') \<and> pt_grow 0x87FFD000 pt_ex s'"
  using walk_alloc_correct [OF pt_ex_kmem pt_ex_pt(1), of 0] by auto

lemma mappages_range:
  assumes "0 < sz" "unat va + unat sz \<le> 2 ^ 38"
  shows "unat (PGROUNDDOWN va) + 4096 * page_count va sz \<le> 2 ^ 38"
    "PGROUNDDOWN (va + sz - 1) = PGROUNDDOWN va + of_nat (4096 * (page_count va sz - 1))"
proof -
  define q where "q = (unat va + unat sz - 1) div 4096"
  define p where "p = unat va div 4096"
  have sz: "0 < unat sz" using assms(1) by (simp add: word_less_nat_alt)
  have "unat (va + sz) = unat va + unat sz" using assms(2) by (simp add: unat_word_ariths)
  then have "unat (va + sz - 1) = unat va + unat sz - 1"
    using sz by (simp add: unat_sub_if_size size_word.rep_eq)
  then have u: "unat (PGROUNDDOWN (va + sz - 1)) = 4096 * q" "unat (PGROUNDDOWN va) = 4096 * p"
    by (simp_all add: unat_PGROUNDDOWN p_def q_def)
  have le: "p \<le> q" unfolding p_def q_def using sz by (intro div_le_mono) simp
  have q: "q < 2 ^ 26" unfolding q_def using assms(2) sz by (intro less_mult_imp_div_less) simp
  have n: "page_count va sz = Suc (q - p)" by (simp add: page_count_def p_def q_def)
  have "4096 * p + 4096 * Suc (q - p) = 4096 * Suc q" using le by (simp add: algebra_simps)
  then show "unat (PGROUNDDOWN va) + 4096 * page_count va sz \<le> 2 ^ 38" unfolding n u using q by simp
  have "unat (of_nat (4096 * (q - p)) :: u64) = 4096 * (q - p)" using q by (intro unat_of_nat_u64) simp
  then have "unat (PGROUNDDOWN va + of_nat (4096 * (q - p))) = (4096 * p + 4096 * (q - p)) mod 2 ^ 64"
    unfolding unat_word_ariths(1) u by simp
  also have "4096 * p + 4096 * (q - p) = 4096 * q" using le by (simp add: algebra_simps)
  also have "4096 * q mod 2 ^ 64 = 4096 * q" using q by simp
  finally have "unat (PGROUNDDOWN va + of_nat (4096 * (q - p))) = unat (PGROUNDDOWN (va + sz - 1))" using u(1) by simp
  then show "PGROUNDDOWN (va + sz - 1) = PGROUNDDOWN va + of_nat (4096 * (page_count va sz - 1))"
    unfolding n by (simp add: word_unat_eq_iff)
qed

text \<open>C16. \<open>mappages\<close> on a range that ends below MAXVA and has no mapping returns. It maps the pages
  that the bytes of the range touch to consecutive physical pages, with the given permissions and
  valid, and no other page; when it returns -1, memory has run out and the first m pages are mapped.
  Memory changes only in the table pages of this page table.\<close>

theorem mappages_correct:
  assumes "kmem_ok s" "pt_ok s pt" "0 < sz" "unat va + unat sz \<le> 2 ^ 38"
    "\<And>vb. vb < MAXVA \<Longrightarrow> PGROUNDDOWN va \<le> vb \<Longrightarrow> unat vb < unat va + unat sz \<Longrightarrow>
       \<not> pte_has (lookup (mem s) pt vb) PTE_V"
  shows "\<exists>r s' m. mappages pt va sz pa perm s = Inr (r, s') \<and> kmem_ok s' \<and> pt_ok s' pt \<and>
    (r = 0 \<and> m = page_count va sz \<or> r = - 1 \<and> m < page_count va sz \<and> (\<forall>p. \<not> free_page s' p)) \<and>
    (\<forall>vb<MAXVA. lookup (mem s') pt vb = map_range (PGROUNDDOWN va) m pa perm (lookup (mem s) pt) vb) \<and>
    same_off (pt_pages (mem s') pt) (mem s) (mem s')"
proof -
  note mr = mappages_range [OF assms(3,4)]
  have "\<exists>r s' m. mappages pt va sz pa perm s = Inr (r, s') \<and> pt_grow pt s s' \<and>
    (r = 0 \<and> m = page_count va sz \<or> r = - 1 \<and> m < page_count va sz \<and> (\<forall>p. \<not> free_page s' p)) \<and>
    (\<forall>vb<MAXVA. lookup (mem s') pt vb = map_range (PGROUNDDOWN va) m pa perm (lookup (mem s) pt) vb)"
    unfolding mappages_def
  proof (rule mappages_loop_ok [OF assms(1,2) pgal_PGROUNDDOWN _ mr])
    fix vb :: u64
    assume vb: "unat (PGROUNDDOWN va) \<le> unat vb" "unat vb < unat (PGROUNDDOWN va) + 4096 * page_count va sz"
    let ?w = "PGROUNDDOWN vb"
    have w: "unat ?w = unat vb div 4096 * 4096" by (rule unat_PGROUNDDOWN)
    have c: "page_count va sz = (unat va + unat sz - 1) div 4096 - unat va div 4096 + 1" by (simp add: page_count_def)
    have lo: "unat va div 4096 \<le> unat vb div 4096" using vb(1) unfolding unat_PGROUNDDOWN by (simp add: div_le_mono less_eq_div_iff_mult_less_eq)
    have mono: "unat va div 4096 \<le> (unat va + unat sz - 1) div 4096"
      using assms(3) by (intro div_le_mono) (simp add: word_less_nat_alt)
    have "unat vb < 4096 * ((unat va + unat sz - 1) div 4096 + 1)"
      using vb(2) mono unfolding unat_PGROUNDDOWN c by (simp add: algebra_simps)
    then have "unat vb div 4096 \<le> (unat va + unat sz - 1) div 4096" by (simp add: less_mult_imp_div_less mult.commute flip: less_Suc_eq_le)
    then have "unat ?w < unat va + unat sz"
      unfolding w using assms(3) div_times_less_eq_dividend [of "unat va + unat sz - 1" 4096]
      by (simp add: word_less_nat_alt)
    moreover have "?w < MAXVA" using vb(2) mr(1) PGROUNDDOWN_le [of vb] by (simp add: word_less_nat_alt word_le_nat_alt)
    moreover have "PGROUNDDOWN va \<le> ?w" using lo by (simp add: word_le_nat_alt unat_PGROUNDDOWN)
    ultimately show "\<not> pte_has (lookup (mem s) pt vb) PTE_V" using assms(5) [of ?w] by simp
  qed (simp add: page_count_def)
  then obtain r s' m where g: "mappages pt va sz pa perm s = Inr (r, s')" "pt_grow pt s s'"
    "r = 0 \<and> m = page_count va sz \<or> r = - 1 \<and> m < page_count va sz \<and> (\<forall>p. \<not> free_page s' p)"
    "\<forall>vb<MAXVA. lookup (mem s') pt vb = map_range (PGROUNDDOWN va) m pa perm (lookup (mem s) pt) vb" by blast
  show ?thesis
    by (intro exI [of _ r] exI [of _ s'] exI [of _ m] conjI g(1,3,4) pt_growD(2,3,5) [OF g(2)])
qed

theorem mappages_correct_witness:
  "\<exists>r s' m. mappages 0x87FFD000 0 0x2000 0x80000000 PTE_R pt_ex = Inr (r, s') \<and> pt_ok s' 0x87FFD000"
  using mappages_correct [OF pt_ex_kmem pt_ex_pt(1), of "0x2000" 0 "0x80000000" PTE_R] pt_ex_pt(2) by auto

text \<open>
  For the witnesses: an address space of one page. The root, the two lower tables and the user page are the
  four topmost pages; the page below them is free.
\<close>

definition um_ex :: kmst where
  "um_ex = km_ex\<lparr>mem := st64 (st64 (st64 (\<lambda>_. 0) 0x87FFC000 (PA2PTE 0x87FFD000 OR PTE_V))
       0x87FFD000 (PA2PTE 0x87FFE000 OR PTE_V)) 0x87FFE000 (PA2PTE 0x87FFF000 OR user_perm OR PTE_V),
     freelist := 0x87FFB000, pageref := (\<lambda>i. if 0x7FFC \<le> i \<and> i \<le> 0x7FFF then 1 else 0), kend := 0x87FFB000\<rparr>"

lemma vpage_last5:
  "vpage 0x87FFB000 p \<longleftrightarrow>
   p = 0x87FFB000 \<or> p = 0x87FFC000 \<or> p = 0x87FFD000 \<or> p = 0x87FFE000 \<or> p = 0x87FFF000"
proof -
  have "4096 dvd unat p \<Longrightarrow> 0x87FFB000 \<le> unat p \<Longrightarrow> unat p < 0x88000000 \<Longrightarrow>
      unat p = 0x87FFB000 \<or> unat p = 0x87FFC000 \<or> unat p = 0x87FFD000 \<or> unat p = 0x87FFE000 \<or> unat p = 0x87FFF000"
    by (elim dvdE) (simp, linarith)
  moreover have "4096 dvd (0x87FFB000 :: nat)" "4096 dvd (0x87FFC000 :: nat)" "4096 dvd (0x87FFD000 :: nat)"
    "4096 dvd (0x87FFE000 :: nat)" "4096 dvd (0x87FFF000 :: nat)" by simp_all
  ultimately show ?thesis
    by (auto simp: vpage_def pgal_def word_less_nat_alt word_le_nat_alt word_unat_eq_iff)
qed

lemma um_ex_refs [simp]:
  "PAGE2REF 0x87FFB000 um_ex = 0" "PAGE2REF 0x87FFC000 um_ex = 1" "PAGE2REF 0x87FFD000 um_ex = 1"
  "PAGE2REF 0x87FFE000 um_ex = 1" "PAGE2REF 0x87FFF000 um_ex = 1" "kend um_ex = 0x87FFB000"
  by (simp_all add: um_ex_def PAGE2REF_def PA2PAGE_ID_def)

lemma pgal_tops5: "pgal 0x87FFB000" "pgal 0x87FFC000" "pgal 0x87FFD000" "pgal 0x87FFE000" "pgal 0x87FFF000"
  using vpage_last5 vpage_pgal by blast+

lemma pte_at_0 [simp]: "pte_at p 0 = p"
  by (simp add: pte_at_def)

lemma um_ex_entry:
  assumes "pgal p" "i < 512"
  shows "ld64 (mem um_ex) (pte_at p i) =
    (if i \<noteq> 0 then 0 else if p = 0x87FFC000 then PA2PTE 0x87FFD000 OR PTE_V
     else if p = 0x87FFD000 then PA2PTE 0x87FFE000 OR PTE_V
     else if p = 0x87FFE000 then PA2PTE 0x87FFF000 OR user_perm OR PTE_V else 0)"
proof -
  have eq: "q = pte_at p i \<longleftrightarrow> p = q \<and> i = 0" if "pgal q" for q
    using pte_at_inj [OF that assms(1) _ assms(2), of 0] by auto
  have st: "ld64 (st64 m q v) (pte_at p i) = (if p = q \<and> i = 0 then v else ld64 m (pte_at p i))" if "pgal q" for m q v
    using ld64_st64 [OF pgal_al8 [OF that] pte_at_page(2) [OF assms]] eq [OF that] by simp
  have m: "mem um_ex = st64 (st64 (st64 (\<lambda>_. 0) 0x87FFC000 (PA2PTE 0x87FFD000 OR PTE_V))
       0x87FFD000 (PA2PTE 0x87FFE000 OR PTE_V)) 0x87FFE000 (PA2PTE 0x87FFF000 OR user_perm OR PTE_V)"
    by (simp add: um_ex_def)
  show ?thesis
    unfolding m st [OF pgal_tops5(4)] st [OF pgal_tops5(3)] st [OF pgal_tops5(2)] ld64_zero by auto
qed

lemma um_ex_next: "PTE2PA (PA2PTE 0x87FFD000 OR PTE_V) = 0x87FFD000" "PTE2PA (PA2PTE 0x87FFE000 OR PTE_V) = 0x87FFE000"
  "PTE2PA (PA2PTE 0x87FFF000 OR user_perm OR PTE_V) = 0x87FFF000"
  using PTE2PA_PA2PTE [OF pgal_tops5(3), of PTE_V] PTE2PA_PA2PTE [OF pgal_tops5(4), of PTE_V]
    PTE2PA_PA2PTE [OF pgal_tops5(5), of "user_perm OR PTE_V"] by (simp_all add: user_perm_def or.assoc)

lemma um_ex_node:
  assumes "p \<in> paths"
  shows "node (mem um_ex) 0x87FFC000 p =
     (if p = [] then Some 0x87FFC000 else if p = [0] then Some 0x87FFD000 else if p = [0, 0] then Some 0x87FFE000 else None)"
proof -
  consider "p = []" | i where "p = [i]" "i < 512" | i j where "p = [i, j]" "i < 512" "j < 512"
    using assms by (cases p rule: remdups_adj.cases) (auto simp: paths_def)
  then show ?thesis
    by cases (auto simp: Let_def um_ex_entry pgal_tops5 um_ex_next simp del: pte_at_0)
qed

lemma um_ex_pages: "pt_pages (mem um_ex) 0x87FFC000 = {0x87FFC000, 0x87FFD000, 0x87FFE000}"
proof -
  have p: "[0] \<in> paths" "[0, 0] \<in> paths" by (simp_all add: paths_def)
  show ?thesis
  proof (rule set_eqI)
    fix a show "a \<in> pt_pages (mem um_ex) 0x87FFC000 \<longleftrightarrow> a \<in> {0x87FFC000, 0x87FFD000, 0x87FFE000}"
      using um_ex_node p pt_root [of "0x87FFC000" "mem um_ex"] pt_pagesI [OF p(1)] pt_pagesI [OF p(2)]
      by (auto simp: pt_pages_def split: if_splits)
  qed
qed

lemma um_ex_pt: "pt_ok um_ex 0x87FFC000"
proof -
  have "wf_pt (mem um_ex) 0x87FFC000"
    unfolding wf_pt_def using um_ex_node pgal_tops5 by (auto split: if_splits)
  then show ?thesis using vpage_last5 by (simp add: pt_ok_def um_ex_pages)
qed

lemma um_ex_kmem: "kmem_ok um_ex"
proof -
  have "ld64 (mem um_ex) 0x87FFB000 = 0" using um_ex_entry [OF pgal_tops5(1), of 0] by simp
  then have "chain (mem um_ex) (freelist um_ex) [0x87FFB000]" by (simp add: um_ex_def)
  moreover have "free_page um_ex p \<longleftrightarrow> p = 0x87FFB000" for p
    unfolding free_page_def um_ex_refs(6) vpage_last5 by auto
  ultimately have "kmem_inv um_ex [0x87FFB000]" by (simp add: kmem_inv_def)
  then show ?thesis by (auto simp: kmem_ok_def unlocked_def um_ex_def km_ex_def)
qed

lemma um_ex_lookup: "lookup (mem um_ex) 0x87FFC000 0 = PA2PTE 0x87FFF000 OR user_perm OR PTE_V"
proof -
  have v: "vpath 0 = [0, 0]" "PX 0 0 = 0" by (simp_all add: vpath_def PX_def)
  have "[0, 0] \<in> paths" by (simp add: paths_def)
  from um_ex_node [OF this] have n: "node (mem um_ex) 0x87FFC000 (vpath 0) = Some 0x87FFE000"
    unfolding v(1) by (simp only: if_True if_False list.distinct list.inject simp_thms)
  show ?thesis
    unfolding lookup_def n option.case v(2) using um_ex_entry [OF pgal_tops5(4), of 0] by (simp del: pte_at_0)
qed

lemma um_ex_upte:
  "upte um_ex 0x87FFC000 0 = PA2PTE 0x87FFF000 OR user_perm OR PTE_V" "upa um_ex 0x87FFC000 0 = 0x87FFF000"
  using um_ex_lookup um_ex_next(3) by (simp_all add: upte_def upa_def uva_def)

lemma um_ex_user: "user_pages um_ex 0x87FFC000 {0..<0 + 1}"
proof -
  have z: "{0..<0 + 1} = {0::nat}" by auto
  have "dup um_ex 0x87FFC000 {0} p = (if p = 0x87FFF000 then 1 else 0)" for p
    using dup_insert [of "{}" 0 um_ex "0x87FFC000" p] um_ex_upte(2) by (auto simp: dup_def)
  then show ?thesis
    unfolding user_pages_def z using um_ex_upte leaf_ok_user_perm vpage_last5 um_ex_pages by auto
qed



text \<open>A page table behaves as a map from page addresses to entries: mapping a page twice panics, and
  unmapping what \<open>mappages\<close> has just mapped gives every lookup back, after which a second
  \<open>uvmunmap\<close> of the page panics.\<close>

theorem map_unmap_roundtrip:
  assumes "kmem_ok s" "pt_ok s pt" "pgal a" "a < MAXVA" "lookup (mem s) pt a = 0"
    and "mappages pt a PGSIZE pa user_perm s = Inr (0, s1)"
  shows "mappages pt a PGSIZE pb user_perm s1 = Inl (Panic ''remap'') \<and>
    (\<exists>s2. uvmunmap pt a 1 False s1 = Inr s2 \<and> (\<exists>msg. uvmunmap pt a 1 False s2 = Inl (Panic msg)) \<and>
      (\<forall>b. pgal b \<and> b < MAXVA \<longrightarrow> lookup (mem s2) pt b = lookup (mem s) pt b))"
proof -
  have s: "kmem_ok s \<and> pt_ok s pt" and a: "pgal a \<and> a < MAXVA" and n: "\<not> pte_has (lookup (mem s) pt a) PTE_V"
    using assms(1-5) by auto
  obtain s2 where s2: "uvmunmap pt a 1 False s1 = Inr s2" "kmem_ok s2 \<and> pt_ok s2 pt"
    "\<forall>b. pgal b \<and> b < MAXVA \<longrightarrow> lookup (mem s2) pt b = lookup (mem s) pt b"
    using pmap.ins_del [OF s a assms(5,6)] by blast
  have "\<exists>msg. uvmunmap pt a 1 False s2 = Inl (Panic msg)" using pmap.del_missing [OF s2(2) a] s2(3) a n by simp
  then show ?thesis using pmap.ins_twice [OF s a n assms(6)] s2 by blast
qed

lemma um_ex_second:
  "node (mem um_ex) 0x87FFC000 (vpath 0x1000) = Some 0x87FFE000" "lookup (mem um_ex) 0x87FFC000 0x1000 = 0"
proof -
  have v: "vpath 0x1000 = [0, 0]" "PX 0 0x1000 = 1" by (simp_all add: vpath_def PX_def)
  have "[0, 0] \<in> paths" by (simp add: paths_def)
  from um_ex_node [OF this] show n: "node (mem um_ex) 0x87FFC000 (vpath 0x1000) = Some 0x87FFE000"
    unfolding v(1) by (simp only: if_True if_False list.distinct list.inject simp_thms)
  show "lookup (mem um_ex) 0x87FFC000 0x1000 = 0"
    unfolding lookup_def n option.case v(2) using um_ex_entry [OF pgal_tops5(4), of 1] by simp
qed

theorem map_unmap_roundtrip_witness:
  "\<exists>s1 s2. mappages 0x87FFC000 0x1000 PGSIZE 0x80000000 user_perm um_ex = Inr (0, s1) \<and>
     uvmunmap 0x87FFC000 0x1000 1 False s1 = Inr s2 \<and> lookup (mem s2) 0x87FFC000 0 = lookup (mem um_ex) 0x87FFC000 0"
proof -
  have pg: "pgal 0x1000" by (simp add: pgal_def)
  have l: "\<not> pte_has (lookup (mem um_ex) 0x87FFC000 0x1000) PTE_V" using um_ex_second(2) by simp
  have m: "mappages 0x87FFC000 0x1000 PGSIZE 0x80000000 user_perm um_ex =
      Inr (0, set_leaf 0x87FFE000 0x1000 (PA2PTE 0x80000000 OR user_perm OR PTE_V) um_ex)"
    by (rule mappages_present [OF um_ex_pt pg _ um_ex_second(1) l]) simp
  show ?thesis using map_unmap_roundtrip [OF um_ex_kmem um_ex_pt pg _ um_ex_second(2) m, of 0] m by auto
qed

end
