(* ===== verification/Vm.thy ===== *)
theory Vm
  imports Page_Table
begin

text \<open>
  The rest of kernel/vm.c, and the two copy-on-write functions of kernel/trap.c that it calls:
  the kernel page table, growing, shrinking, copying and freeing user address spaces, and moving
  bytes between the kernel and user memory.

  Kernel objects other than pages (buffers, pipes, structures on a kernel stack) are values of the
  model, so the kernel side of \<open>copyout\<close> is the sequence of bytes it copies, and \<open>copyin\<close> and
  \<open>copyinstr\<close> return the bytes they have read. \<open>etext\<close> and \<open>trampoline\<close> are linker symbols; they
  are part of the state and never change.
\<close>

section \<open>The kernel's page table\<close>

record vmst = kmst +
  kernel_pagetable :: addr
  etext :: addr
  trampoline :: addr

definition kvmmap :: "u64 \<Rightarrow> addr \<Rightarrow> u64 \<Rightarrow> u64 \<Rightarrow> 'a vmst_scheme \<Rightarrow> 'a vmst_scheme kres" where
  "kvmmap va pa sz perm s =
     bnd (mappages (kernel_pagetable s) va sz pa perm s) (\<lambda>(r, s).
     if r \<noteq> 0 then Inl (Panic ''kvmmap'') else Inr s)"

definition kvminit :: "'a vmst_scheme \<Rightarrow> 'a vmst_scheme kres" where
  "kvminit s =
     bnd (kalloc s) (\<lambda>(p, s).
     let s = s\<lparr>kernel_pagetable := p\<rparr>;
         s = s\<lparr>mem := memset p 0 4096 (mem s)\<rparr>
     in bnd (kvmmap UART0 UART0 PGSIZE (PTE_R OR PTE_W) s) (\<lambda>s.
        bnd (kvmmap VIRTIO0 VIRTIO0 PGSIZE (PTE_R OR PTE_W) s) (\<lambda>s.
        bnd (kvmmap CLINT CLINT 0x10000 (PTE_R OR PTE_W) s) (\<lambda>s.
        bnd (kvmmap PLIC PLIC 0x400000 (PTE_R OR PTE_W) s) (\<lambda>s.
        bnd (kvmmap KERNBASE KERNBASE (etext s - KERNBASE) (PTE_R OR PTE_X) s) (\<lambda>s.
        bnd (kvmmap (etext s) (etext s) (PHYSTOP - etext s) (PTE_R OR PTE_W) s) (\<lambda>s.
        kvmmap TRAMPOLINE (trampoline s) PGSIZE (PTE_R OR PTE_X) s)))))))"

definition kvminithart :: "'a vmst_scheme \<Rightarrow> hart \<Rightarrow> hart" where
  "kvminithart s h = w_satp (MAKE_SATP (kernel_pagetable s)) h"

definition kvmpa :: "u64 \<Rightarrow> 'a vmst_scheme \<Rightarrow> (addr \<times> 'a vmst_scheme) kres" where
  "kvmpa va s =
     (let off = va mod PGSIZE
      in bnd (walk (kernel_pagetable s) va False s) (\<lambda>(pte, s).
         if pte = 0 then Inl (Panic ''kvmpa'')
         else if \<not> pte_has (ld64 (mem s) pte) PTE_V then Inl (Panic ''kvmpa'')
         else Inr (PTE2PA (ld64 (mem s) pte) + off, s)))"

section \<open>User address spaces\<close>

definition uvmcreate :: "'a kmst_scheme \<Rightarrow> (addr \<times> 'a kmst_scheme) kres" where
  "uvmcreate s =
     bnd (kalloc s) (\<lambda>(p, s).
     if p = 0 then Inr (0, s) else Inr (p, s\<lparr>mem := memset p 0 4096 (mem s)\<rparr>))"

text \<open>Writing \<open>n\<close> bytes of a kernel object to memory at \<open>d\<close>: \<open>memmove(d, src, n)\<close>.\<close>

definition put_bytes :: "addr \<Rightarrow> (nat \<Rightarrow> u8) \<Rightarrow> nat \<Rightarrow> memory \<Rightarrow> memory" where
  "put_bytes d f n m = (\<lambda>x. if unat (x - d) < n then f (unat (x - d)) else m x)"

definition get_bytes :: "addr \<Rightarrow> nat \<Rightarrow> memory \<Rightarrow> u8 list" where
  "get_bytes a n m = map (\<lambda>i. m (a + of_nat i)) [0..<n]"

definition uvminit :: "addr \<Rightarrow> u8 list \<Rightarrow> 'a kmst_scheme \<Rightarrow> 'a kmst_scheme kres" where
  "uvminit pt src s =
     (if length src \<ge> 4096 then Inl (Panic ''inituvm: more than a page'')
      else bnd (kalloc s) (\<lambda>(p, s).
           let s = s\<lparr>mem := memset p 0 4096 (mem s)\<rparr>
           in bnd (mappages pt 0 PGSIZE p (PTE_W OR PTE_R OR PTE_X OR PTE_U) s) (\<lambda>(r, s).
              Inr (s\<lparr>mem := put_bytes p (\<lambda>i. src ! i) (length src) (mem s)\<rparr>))))"

text \<open>\<open>npages\<close> is an \<open>int\<close> in the source and is widened again for \<open>uvmunmap\<close>.\<close>

definition uvmdealloc :: "addr \<Rightarrow> u64 \<Rightarrow> u64 \<Rightarrow> 'a kmst_scheme \<Rightarrow> (u64 \<times> 'a kmst_scheme) kres" where
  "uvmdealloc pt oldsz newsz s =
     (if newsz \<ge> oldsz then Inr (oldsz, s)
      else if PGROUNDUP newsz < PGROUNDUP oldsz
      then let npages = (scast (ucast ((PGROUNDUP oldsz - PGROUNDUP newsz) div PGSIZE) :: 32 word) :: u64)
           in bnd (uvmunmap pt (PGROUNDUP newsz) npages True s) (\<lambda>s. Inr (newsz, s))
      else Inr (newsz, s))"

lemma mappages_bound:
  assumes "mappages pt a sz pa perm s = Inr x"
  shows "PGROUNDDOWN a < MAXVA"
proof -
  obtain y where "walk pt (PGROUNDDOWN a) True s = Inr y"
    using assms unfolding mappages_def by (subst (asm) mappages_loop.simps) (auto simp: bnd_eq_Inr)
  then show ?thesis by (rule walk_bound)
qed

function uvmalloc_loop :: "addr \<Rightarrow> u64 \<Rightarrow> u64 \<Rightarrow> u64 \<Rightarrow> 'a kmst_scheme \<Rightarrow> (u64 \<times> 'a kmst_scheme) kres" where
  "uvmalloc_loop pt oldsz a newsz s =
     (if a < newsz
      then bnd (kalloc s) (\<lambda>(p, s).
           if p = 0 then bnd (uvmdealloc pt a oldsz s) (\<lambda>(_, s). Inr (0, s))
           else let s = s\<lparr>mem := memset p 0 4096 (mem s)\<rparr>
                in bnd (mappages pt a PGSIZE p (PTE_W OR PTE_X OR PTE_R OR PTE_U) s) (\<lambda>(r, s).
                   if r \<noteq> 0
                   then bnd (kfree p s) (\<lambda>s. bnd (uvmdealloc pt a oldsz s) (\<lambda>(_, s). Inr (0, s)))
                   else uvmalloc_loop pt oldsz (a + PGSIZE) newsz s))
      else Inr (newsz, s))"
  by pat_completeness auto

termination
proof (relation "measure (\<lambda>(_, _, a, _). 2 ^ 64 - unat a)", goal_cases)
  case (2 pt oldsz a newsz s x p s1 s2 y r s3)
  then have "PGROUNDDOWN a < MAXVA" using mappages_bound by auto
  then have "unat a div 4096 * 4096 < 2 ^ 38" by (simp add: word_less_nat_alt unat_PGROUNDDOWN)
  then have "unat a < 2 ^ 38 + 4096" using mod_less_divisor [of 4096 "unat a"] div_mult_mod_eq [of "unat a" 4096] by linarith
  then show ?case by (simp add: unat_word_ariths)
qed simp

definition uvmalloc :: "addr \<Rightarrow> u64 \<Rightarrow> u64 \<Rightarrow> 'a kmst_scheme \<Rightarrow> (u64 \<times> 'a kmst_scheme) kres" where
  "uvmalloc pt oldsz newsz s =
     (if newsz < oldsz then Inr (oldsz, s)
      else uvmalloc_loop pt (PGROUNDUP oldsz) (PGROUNDUP oldsz) newsz s)"

text \<open>
  \<open>freewalk\<close> calls itself for every table it finds; \<open>fuel\<close> bounds the depth. Three levels are enough for
  a well-formed page table.
\<close>


fun freewalk_loop :: "(addr \<Rightarrow> 'a kmst_scheme \<Rightarrow> 'a kmst_scheme kres) \<Rightarrow> addr \<Rightarrow> nat list \<Rightarrow>
    'a kmst_scheme \<Rightarrow> 'a kmst_scheme kres" where
  "freewalk_loop rec pt [] s = Inr s"
| "freewalk_loop rec pt (i # is) s =
     (let pte = ld64 (mem s) (pte_at pt (of_nat i))
      in if pte_has pte PTE_V \<and> \<not> pte_has pte (PTE_R OR PTE_W OR PTE_X)
         then bnd (rec (PTE2PA pte) s) (\<lambda>s.
              freewalk_loop rec pt is (s\<lparr>mem := st64 (mem s) (pte_at pt (of_nat i)) 0\<rparr>))
         else if pte_has pte PTE_V then Inl (Panic ''freewalk: leaf'')
         else freewalk_loop rec pt is s)"

fun freewalk :: "nat \<Rightarrow> addr \<Rightarrow> 'a kmst_scheme \<Rightarrow> 'a kmst_scheme kres" where
  "freewalk 0 pt s = Inl NoFuel"
| "freewalk (Suc fuel) pt s = bnd (freewalk_loop (freewalk fuel) pt [0..<512] s) (kfree pt)"

definition uvmfree :: "addr \<Rightarrow> u64 \<Rightarrow> 'a kmst_scheme \<Rightarrow> 'a kmst_scheme kres" where
  "uvmfree pt sz s =
     bnd (if sz > 0 then uvmunmap pt 0 (PGROUNDUP sz div PGSIZE) True s else Inr s) (freewalk 3 pt)"

function uvmcopy_loop :: "addr \<Rightarrow> addr \<Rightarrow> u64 \<Rightarrow> u64 \<Rightarrow> 'a kmst_scheme \<Rightarrow> (int \<times> 'a kmst_scheme) kres" where
  "uvmcopy_loop old new i sz s =
     (if i < sz
      then bnd (walk old i False s) (\<lambda>(pte, s).
           if pte = 0 then Inl (Panic ''uvmcopy: pte should exist'')
           else if \<not> pte_has (ld64 (mem s) pte) PTE_V then Inl (Panic ''uvmcopy: page not present'')
           else let pa = PTE2PA (ld64 (mem s) pte);
                    s = s\<lparr>mem := st64 (mem s) pte ((ld64 (mem s) pte AND NOT PTE_W) OR PTE_COW)\<rparr>;
                    flags = PTE_FLAGS (ld64 (mem s) pte)
                in bnd (mappages new i PGSIZE pa flags s) (\<lambda>(r, s).
                   if r \<noteq> 0 then bnd (uvmunmap new 0 (i div PGSIZE) True s) (\<lambda>s. Inr (- 1, s))
                   else bnd (pageRef pa s) (\<lambda>s. uvmcopy_loop old new (i + PGSIZE) sz s)))
      else Inr (0, s))"
  by pat_completeness auto

termination
proof (relation "measure (\<lambda>(_, _, i, _). 2 ^ 64 - unat i)", goal_cases)
  case (2 old new i sz s x pte s1)
  then have "i < MAXVA" using walk_bound by auto
  then show ?case by (simp add: word_less_nat_alt unat_word_ariths)
qed simp

definition uvmcopy :: "addr \<Rightarrow> addr \<Rightarrow> u64 \<Rightarrow> 'a kmst_scheme \<Rightarrow> (int \<times> 'a kmst_scheme) kres" where
  "uvmcopy old new sz s = uvmcopy_loop old new 0 sz s"

definition uvmclear :: "addr \<Rightarrow> u64 \<Rightarrow> 'a kmst_scheme \<Rightarrow> 'a kmst_scheme kres" where
  "uvmclear pt va s =
     bnd (walk pt va False s) (\<lambda>(pte, s).
     if pte = 0 then Inl (Panic ''uvmclear'')
     else Inr (s\<lparr>mem := st64 (mem s) pte (ld64 (mem s) pte AND NOT PTE_U)\<rparr>))"

section \<open>Copy on write (kernel/trap.c)\<close>

definition should_copyon_write :: "u64 \<Rightarrow> 'a kmst_scheme \<Rightarrow> (bool \<times> 'a kmst_scheme) kres" where
  "should_copyon_write va s =
     (let p = procs s (cur s)
      in bnd (walk (p_pagetable p) va False s) (\<lambda>(pte, s).
         if pte = 0 then Inr (False, s)
         else Inr (PGROUNDDOWN va < p_sz p \<and> pte_has (ld64 (mem s) pte) PTE_V \<and>
                   pte_has (ld64 (mem s) pte) PTE_COW, s)))"

definition copy_on_write :: "u64 \<Rightarrow> 'a kmst_scheme \<Rightarrow> (int \<times> 'a kmst_scheme) kres" where
  "copy_on_write va s =
     (let p = procs s (cur s)
      in bnd (walk (p_pagetable p) va False s) (\<lambda>(pte, s).
         let old_pa = PTE2PA (ld64 (mem s) pte)
         in bnd (cow_kalloc old_pa s) (\<lambda>(new_pa, s).
            if new_pa = 0 then Inr (- 1, s)
            else let flags = (PTE_FLAGS (ld64 (mem s) pte) AND NOT PTE_COW) OR PTE_W
                 in if new_pa = old_pa
                    then Inr (0, s\<lparr>mem := st64 (mem s) pte ((ld64 (mem s) pte AND NOT PTE_COW) OR PTE_W)\<rparr>)
                    else bnd (uvmunmap (p_pagetable p) (PGROUNDDOWN va) 1 False s) (\<lambda>s.
                         bnd (mappages (p_pagetable p) (PGROUNDDOWN va) PGSIZE new_pa flags s) (\<lambda>(r, s).
                         if r \<noteq> 0 then bnd (kfree new_pa s) (\<lambda>s. Inr (- 1, s)) else Inr (0, s))))))"

section \<open>Moving bytes\<close>

text \<open>
  \<open>step_len va len\<close> is the number of bytes of one round: up to the end of the page, at most \<open>len\<close>.
\<close>

definition step_len :: "u64 \<Rightarrow> u64 \<Rightarrow> u64" where
  "step_len va len = (let n = PGSIZE - (va - PGROUNDDOWN va) in if n > len then len else n)"

lemma step_len_bounds:
  assumes "0 < len"
  shows "0 < step_len va len" "step_len va len \<le> len" "unat (step_len va len) \<le> 4096"
proof -
  have o: "unat (va - PGROUNDDOWN va) < 4096" using off_less_PGSIZE [of va] by (simp add: word_less_nat_alt)
  then have u: "unat (PGSIZE - (va - PGROUNDDOWN va)) = 4096 - unat (va - PGROUNDDOWN va)"
    by (simp add: unat_sub_if_size)
  then show "0 < step_len va len" "step_len va len \<le> len" "unat (step_len va len) \<le> 4096"
    using o assms by (auto simp: step_len_def Let_def word_less_nat_alt word_le_nat_alt)
qed

lemma step_len_dec: "0 < len \<Longrightarrow> unat (len - step_len va len) < unat len"
  using step_len_bounds [of len va] by (simp add: unat_sub word_less_nat_alt)

function copyout :: "addr \<Rightarrow> u64 \<Rightarrow> (nat \<Rightarrow> u8) \<Rightarrow> u64 \<Rightarrow> 'a kmst_scheme \<Rightarrow> (int \<times> 'a kmst_scheme) kres" where
  "copyout pt dstva src len s =
     (if len > 0
      then bnd (should_copyon_write dstva s) (\<lambda>(c, s).
           bnd (if c then bnd (copy_on_write dstva s) (\<lambda>(_, s). Inr s) else Inr s) (\<lambda>s.
           let va0 = PGROUNDDOWN dstva
           in bnd (walkaddr pt va0 s) (\<lambda>(pa0, s).
              if pa0 = 0 then Inr (- 1, s)
              else let n = step_len dstva len;
                       s = s\<lparr>mem := put_bytes (pa0 + (dstva - va0)) src (unat n) (mem s)\<rparr>
                   in copyout pt (va0 + PGSIZE) (\<lambda>i. src (i + unat n)) (len - n) s)))
      else Inr (0, s))"
  by pat_completeness auto

termination
  by (relation "measure (\<lambda>(_, _, _, len, _). unat len)") (auto simp: step_len_dec)

function copyin :: "addr \<Rightarrow> u64 \<Rightarrow> u64 \<Rightarrow> 'a kmst_scheme \<Rightarrow> (int \<times> u8 list \<times> 'a kmst_scheme) kres" where
  "copyin pt srcva len s =
     (if len > 0
      then let va0 = PGROUNDDOWN srcva
           in bnd (walkaddr pt va0 s) (\<lambda>(pa0, s).
              if pa0 = 0 then Inr (- 1, [], s)
              else let n = step_len srcva len;
                       bs = get_bytes (pa0 + (srcva - va0)) (unat n) (mem s)
                   in bnd (copyin pt (va0 + PGSIZE) (len - n) s) (\<lambda>(r, bs', s). Inr (r, bs @ bs', s)))
      else Inr (0, [], s))"
  by pat_completeness auto

termination
  by (relation "measure (\<lambda>(_, _, len, _). unat len)") (auto simp: step_len_dec)

text \<open>
  The inner loop of \<open>copyinstr\<close> over \<open>n\<close> bytes from \<open>p\<close>: the bytes it stores, and whether it stored the
  terminating zero.
\<close>

fun copyinstr_page :: "memory \<Rightarrow> addr \<Rightarrow> nat \<Rightarrow> u8 list \<times> bool" where
  "copyinstr_page m p 0 = ([], False)"
| "copyinstr_page m p (Suc n) =
     (if m p = 0 then ([0], True)
      else let (bs, nul) = copyinstr_page m (p + 1) n in (m p # bs, nul))"

function copyinstr :: "addr \<Rightarrow> u64 \<Rightarrow> u64 \<Rightarrow> 'a kmst_scheme \<Rightarrow> (int \<times> u8 list \<times> 'a kmst_scheme) kres" where
  "copyinstr pt srcva mx s =
     (if mx > 0
      then let va0 = PGROUNDDOWN srcva
           in bnd (walkaddr pt va0 s) (\<lambda>(pa0, s).
              if pa0 = 0 then Inr (- 1, [], s)
              else let n = step_len srcva mx;
                       (bs, nul) = copyinstr_page (mem s) (pa0 + (srcva - va0)) (unat n)
                   in if nul then Inr (0, bs, s)
                      else bnd (copyinstr pt (va0 + PGSIZE) (mx - n) s) (\<lambda>(r, bs', s). Inr (r, bs @ bs', s)))
      else Inr (- 1, [], s))"
  by pat_completeness auto

termination
  by (relation "measure (\<lambda>(_, _, len, _). unat len)") (auto simp: step_len_dec)

declare uvmalloc_loop.simps [simp del] uvmcopy_loop.simps [simp del] copyout.simps [simp del]
  copyin.simps [simp del] copyinstr.simps [simp del]

end
