(* ===== verification/Virtio.thy ===== *)
theory Virtio
  imports Vm Sleeplock
begin

text \<open>
  The disk driver, kernel/virtio_disk.c, with the buffers of kernel/buf.h it transfers. The descriptor table, the
  two rings and the driver's book-keeping are part of the state. A descriptor's \<open>addr\<close> field names the object it
  points to: the request header on the stack of \<open>virtio_disk_rw\<close>, the data of a buffer, or a status byte.

  The device is not code of the repository. It is the function \<open>vdev\<close> of the state: given the queue, the data of
  the buffers and the medium, what it leaves when it has processed the queue. \<open>virtio_blk\<close> states what the virtio
  specification says about one outstanding request. \<open>mmio\<close> are the values its registers read as; the values the
  driver writes to registers are appended to \<open>mmiow\<close>. \<open>mhist\<close> records what the medium contained after each run of the
  device, so that statements about a crash can speak of every content the medium has had.

  A block is the list of its BSIZE bytes, the medium maps a sector number to the list of its 512 bytes.
\<close>

section \<open>State\<close>

type_synonym block = "u8 list"
type_synonym medium = "nat \<Rightarrow> u8 list"

abbreviation (input) BSIZE :: nat where "BSIZE \<equiv> 1024"
abbreviation (input) NUM :: nat where "NUM \<equiv> 8"

record buf =
  b_valid :: bool
  b_disk :: bool
  b_dev :: u32
  b_blockno :: u32
  b_refcnt :: u32
  b_prev :: nat
  b_next :: nat
  b_data :: block

datatype dptr = DNull | DHdr u32 u64 | DBuf nat | DStatus nat

record VRingDesc =
  d_addr :: dptr
  d_len :: u32
  d_flags :: u16
  d_next :: u16

record VRing =
  desc :: "nat \<Rightarrow> VRingDesc"
  avail :: "nat \<Rightarrow> u16"
  used_id :: u16
  used_elems :: "nat \<Rightarrow> u32"
  info_status :: "nat \<Rightarrow> u8"

type_synonym vdevice = "VRing \<Rightarrow> (nat \<Rightarrow> block) \<Rightarrow> medium \<Rightarrow> VRing \<times> (nat \<Rightarrow> block) \<times> medium"

record dkst = vmst +
  bufs :: "nat \<Rightarrow> buf"
  vq :: VRing
  vq_free :: "nat \<Rightarrow> bool"
  used_idx :: u16
  info_b :: "nat \<Rightarrow> nat option"
  medium :: medium
  mhist :: "medium list"
  vdev :: vdevice
  mmio :: "u64 \<Rightarrow> u32"
  mmiow :: "(u64 \<times> u32) list"

definition upd_buf :: "nat \<Rightarrow> (buf \<Rightarrow> buf) \<Rightarrow> 'a dkst_scheme \<Rightarrow> 'a dkst_scheme" where
  "upd_buf i f s = s\<lparr>bufs := (bufs s)(i := f (bufs s i))\<rparr>"

definition set_desc :: "nat \<Rightarrow> (VRingDesc \<Rightarrow> VRingDesc) \<Rightarrow> 'a dkst_scheme \<Rightarrow> 'a dkst_scheme" where
  "set_desc i f s = s\<lparr>vq := (vq s)\<lparr>desc := (desc (vq s))(i := f (desc (vq s) i))\<rparr>\<rparr>"

section \<open>Initialisation\<close>

definition wr_reg :: "u64 \<Rightarrow> u32 \<Rightarrow> 'a dkst_scheme \<Rightarrow> 'a dkst_scheme" where
  "wr_reg r v s = s\<lparr>mmiow := mmiow s @ [(r, v)]\<rparr>"

text \<open>\<open>disk.pages\<close> is the address of the ring memory, a linker symbol; \<open>pfn\<close> is its page number.\<close>

definition virtio_disk_init :: "u32 \<Rightarrow> 'a dkst_scheme \<Rightarrow> 'a dkst_scheme kres" where
  "virtio_disk_init pfn s =
     (if mmio s 0x000 \<noteq> 0x74726976 \<or> mmio s 0x004 \<noteq> 1 \<or> mmio s 0x008 \<noteq> 2 \<or> mmio s 0x00c \<noteq> 0x554d4551
      then Inl (Panic ''could not find virtio disk'')
      else let status = 0;
               status = status OR 1; s = wr_reg 0x070 status s;
               status = status OR 2; s = wr_reg 0x070 status s;
               features = mmio s 0x010;
               features = features AND NOT (push_bit 5 1);
               features = features AND NOT (push_bit 7 1);
               features = features AND NOT (push_bit 11 1);
               features = features AND NOT (push_bit 12 1);
               features = features AND NOT (push_bit 27 1);
               features = features AND NOT (push_bit 29 1);
               features = features AND NOT (push_bit 28 1);
               s = wr_reg 0x020 features s;
               status = status OR 8; s = wr_reg 0x070 status s;
               status = status OR 4; s = wr_reg 0x070 status s;
               s = wr_reg 0x028 4096 s;
               s = wr_reg 0x030 0 s;
               mx = mmio s 0x034
           in if mx = 0 then Inl (Panic ''virtio disk has no queue 0'')
              else if mx < 8 then Inl (Panic ''virtio disk max queue too short'')
              else let s = wr_reg 0x038 8 s;
                       s = s\<lparr>vq := \<lparr>desc = (\<lambda>_. \<lparr>d_addr = DNull, d_len = 0, d_flags = 0, d_next = 0\<rparr>), avail = (\<lambda>_. 0),
                              used_id = 0, used_elems = (\<lambda>_. 0), info_status = info_status (vq s)\<rparr>\<rparr>;
                       s = wr_reg 0x040 pfn s
                   in Inr (s\<lparr>vq_free := (\<lambda>i. i < NUM \<or> vq_free s i)\<rparr>))"

section \<open>Descriptors\<close>

fun alloc_desc_loop :: "nat list \<Rightarrow> 'a dkst_scheme \<Rightarrow> nat option \<times> 'a dkst_scheme" where
  "alloc_desc_loop [] s = (None, s)"
| "alloc_desc_loop (i # is) s =
     (if vq_free s i then (Some i, s\<lparr>vq_free := (vq_free s)(i := False)\<rparr>) else alloc_desc_loop is s)"

definition alloc_desc :: "'a dkst_scheme \<Rightarrow> nat option \<times> 'a dkst_scheme" where
  "alloc_desc s = alloc_desc_loop [0..<NUM] s"

definition free_desc :: "nat \<Rightarrow> 'a dkst_scheme \<Rightarrow> 'a dkst_scheme kres" where
  "free_desc i s =
     (if i \<ge> NUM then Inl (Panic ''virtio_disk_intr 1'')
      else if vq_free s i then Inl (Panic ''virtio_disk_intr 2'')
      else let s = set_desc i (d_addr_update (\<lambda>_. DNull)) s;
               s = s\<lparr>vq_free := (vq_free s)(i := True)\<rparr>
           in wakeup ChDiskFree s)"

lemma free_desc_Inr [kres_iff]:
  "free_desc i s = Inr s' \<longleftrightarrow> i < NUM \<and> \<not> vq_free s i \<and> no_proc_lock s \<and>
     s' = (set_desc i (d_addr_update (\<lambda>_. DNull)) s)\<lparr>vq_free := (vq_free s)(i := True), procs := wake_all ChDiskFree (procs s)\<rparr>"
  by (auto simp: free_desc_def kres_iff Let_def set_desc_def no_proc_lock_def)

lemma free_descD:
  assumes "free_desc i s = Inr s'"
  shows "i < NUM" "\<not> vq_free s i" "vq_free s' = (vq_free s)(i := True)"
proof -
  show "i < NUM" "\<not> vq_free s i" using assms unfolding free_desc_Inr by blast+
  have "s' = (set_desc i (d_addr_update (\<lambda>_. DNull)) s)\<lparr>vq_free := (vq_free s)(i := True), procs := wake_all ChDiskFree (procs s)\<rparr>"
    using assms unfolding free_desc_Inr by blast
  then show "vq_free s' = (vq_free s)(i := True)" by simp
qed

text \<open>Freeing a chain ends: a descriptor that is already free stops it with a panic.\<close>

function free_chain :: "nat \<Rightarrow> 'a dkst_scheme \<Rightarrow> 'a dkst_scheme kres" where
  "free_chain i s =
     bnd (free_desc i s) (\<lambda>s.
     if d_flags (desc (vq s) i) AND 1 \<noteq> 0 then free_chain (unat (d_next (desc (vq s) i))) s else Inr s)"
  by pat_completeness auto

termination
proof (relation "measure (\<lambda>(i, s). card {j. j < NUM \<and> \<not> vq_free s j})", goal_cases)
  case (2 i s x)
  note d = free_descD [OF 2(1)]
  have "{j. j < NUM \<and> \<not> vq_free x j} \<subset> {j. j < NUM \<and> \<not> vq_free s j}" unfolding d(3) using d(1,2) by auto
  then show ?case by (simp add: psubset_card_mono)
qed simp

declare free_chain.simps [simp del]

fun free_list :: "nat list \<Rightarrow> 'a dkst_scheme \<Rightarrow> 'a dkst_scheme kres" where
  "free_list [] s = Inr s"
| "free_list (i # is) s = bnd (free_desc i s) (free_list is)"

fun alloc3_loop :: "nat \<Rightarrow> nat list \<Rightarrow> 'a dkst_scheme \<Rightarrow> (nat list option \<times> 'a dkst_scheme) kres" where
  "alloc3_loop 0 idx s = Inr (Some idx, s)"
| "alloc3_loop (Suc k) idx s =
     (case alloc_desc s of
        (None, s) \<Rightarrow> bnd (free_list idx s) (\<lambda>s. Inr (None, s))
      | (Some d, s) \<Rightarrow> alloc3_loop k (idx @ [d]) s)"

definition alloc3_desc :: "'a dkst_scheme \<Rightarrow> (nat list option \<times> 'a dkst_scheme) kres" where
  "alloc3_desc s = alloc3_loop 3 [] s"

section \<open>Requests\<close>

text \<open>Formatting the three descriptors and publishing the chain in the available ring.\<close>

definition rw_submit :: "nat \<Rightarrow> bool \<Rightarrow> nat \<Rightarrow> nat \<Rightarrow> nat \<Rightarrow> 'a dkst_scheme \<Rightarrow> 'a dkst_scheme" where
  "rw_submit b write i0 i1 i2 s =
     (let sector = (ucast (b_blockno (bufs s b) * 2) :: u64);
          s = set_desc i0 (\<lambda>_. \<lparr>d_addr = DHdr (if write then 1 else 0) sector, d_len = 16, d_flags = 1, d_next = of_nat i1\<rparr>) s;
          s = set_desc i1 (\<lambda>_. \<lparr>d_addr = DBuf b, d_len = 1024, d_flags = (if write then 0 else 2) OR 1, d_next = of_nat i2\<rparr>) s;
          s = s\<lparr>vq := (vq s)\<lparr>info_status := (info_status (vq s))(i0 := 0)\<rparr>\<rparr>;
          s = set_desc i2 (\<lambda>_. \<lparr>d_addr = DStatus i0, d_len = 1, d_flags = 2, d_next = 0\<rparr>) s;
          s = upd_buf b (b_disk_update (\<lambda>_. True)) s;
          s = s\<lparr>info_b := (info_b s)(i0 := Some b)\<rparr>;
          s = s\<lparr>vq := (vq s)\<lparr>avail := (avail (vq s))(2 + unat (avail (vq s) 1) mod NUM := of_nat i0)\<rparr>\<rparr>;
          s = s\<lparr>vq := (vq s)\<lparr>avail := (avail (vq s))(1 := avail (vq s) 1 + 1)\<rparr>\<rparr>
      in wr_reg 0x050 0 s)"

lemma rw_submit_frame:
  "rw_submit b write i0 i1 i2 s = s\<lparr>vq := vq (rw_submit b write i0 i1 i2 s), bufs := bufs (rw_submit b write i0 i1 i2 s),
     info_b := info_b (rw_submit b write i0 i1 i2 s), mmiow := mmiow (rw_submit b write i0 i1 i2 s)\<rparr>"
  by (simp add: rw_submit_def Let_def set_desc_def upd_buf_def wr_reg_def)

definition device_runs :: "'a dkst_scheme \<Rightarrow> 'a dkst_scheme" where
  "device_runs s =
     (let (q, d, m) = vdev s (vq s) (\<lambda>i. b_data (bufs s i)) (medium s)
      in s\<lparr>vq := q, bufs := (\<lambda>i. (bufs s i)\<lparr>b_data := d i\<rparr>), medium := m, mhist := mhist s @ [m]\<rparr>)"

lemma ring_dec:
  assumes "a mod 8 \<noteq> b mod (8 :: nat)"
  shows "(b + 8 - Suc a mod 8) mod 8 < (b + 8 - a mod 8) mod 8"
proof -
  obtain x y q where a: "a mod 8 = x" "x < 8" and b: "b = 8 * q + y" "y < 8"
    by (metis mod_less_divisor mult_div_mod_eq zero_less_numeral)
  have "Suc a mod 8 = (if x = 7 then 0 else Suc x)" using a by (auto simp: mod_Suc)
  moreover have "(8 * q + y + 8 - z) mod 8 = (y + 8 - z) mod 8" if "z < 8" for z
    using that by (metis Nat.add_diff_assoc add.assoc less_imp_le_nat mod_mult_self4 trans_le_add2)
  moreover have "(y + 8 - z) mod 8 = (if z \<le> y then y - z else y + 8 - z)" if "z < 8" for z
    using that b by (auto simp: mod_if)
  ultimately have e: "(b + 8 - Suc a mod 8) mod 8 = (if x = 7 then y else if Suc x \<le> y then y - Suc x else y + 8 - Suc x)"
    "(b + 8 - a mod 8) mod 8 = (if x \<le> y then y - x else y + 8 - x)" using a b by auto
  have "x \<noteq> y" using assms a b by simp
  then show ?thesis unfolding e using a(2) b(2) by auto
qed

text \<open>
  The interrupt handler goes through the used ring until it has seen what the device has put there. A completion
  without a buffer would be a null pointer, at which the kernel traps and panics.
\<close>

function virtio_intr_loop :: "'a dkst_scheme \<Rightarrow> 'a dkst_scheme kres" where
  "virtio_intr_loop s =
     (if unat (used_idx s) mod NUM \<noteq> unat (used_id (vq s)) mod NUM
      then let id = unat (used_elems (vq s) (unat (used_idx s)))
           in if info_status (vq s) id \<noteq> 0 then Inl (Panic ''virtio_disk_intr status'')
              else case info_b s id of
                     None \<Rightarrow> Inl (Panic ''kerneltrap'')
                   | Some b \<Rightarrow> bnd (wakeup (ChBuf b) (upd_buf b (b_disk_update (\<lambda>_. False)) s)) (\<lambda>s.
                       virtio_intr_loop (s\<lparr>used_idx := (used_idx s + 1) mod 8\<rparr>))
      else Inr s)"
  by pat_completeness auto

termination
proof (relation "measure (\<lambda>s. (unat (used_id (vq s)) + 8 - unat (used_idx s) mod 8) mod 8)", goal_cases)
  case (2 s x y s1)
  have "unat ((used_idx s + 1) mod 8) = unat (used_idx s + 1) mod 8" by (simp add: unat_mod)
  moreover have "unat (used_idx s + 1) mod 8 = Suc (unat (used_idx s)) mod 8" by (simp add: unat_word_ariths mod_mod_cancel)
  moreover have "vq s1 = vq s" "used_idx s1 = used_idx s" using 2(5) unfolding wakeup_Inr by (simp_all add: upd_buf_def)
  ultimately show ?case using ring_dec [OF 2(1)] by simp
qed simp

declare virtio_intr_loop.simps [simp del]

definition virtio_disk_intr :: "'a dkst_scheme \<Rightarrow> 'a dkst_scheme kres" where
  "virtio_disk_intr s =
     bnd (acquire LkVdisk s) (\<lambda>s.
     bnd (virtio_intr_loop s) (\<lambda>s.
     release LkVdisk (wr_reg 0x064 (mmio s 0x060 AND 3) s)))"

text \<open>
  \<open>while(b->disk == 1) sleep(b, &disk.vdisk_lock)\<close>. While the process sleeps the device processes the queue and its
  interrupt is handled; the scheduler resumes the process if that has made it runnable.
\<close>

definition disk_wait :: "nat \<Rightarrow> 'a dkst_scheme \<Rightarrow> 'a dkst_scheme kres" where
  "disk_wait b s =
     (if b_disk (bufs s b)
      then bnd (sleep_begin (ChBuf b) LkVdisk s) (\<lambda>s.
           bnd (release (LkProc (cur s)) s) (\<lambda>s.
           bnd (virtio_disk_intr (device_runs s)) (\<lambda>s.
           if p_state (procs s (cur s)) = RUNNABLE
           then bnd (acquire (LkProc (cur s)) s) (\<lambda>s.
                bnd (sleep_end LkVdisk (sched_back s)) (\<lambda>s.
                if b_disk (bufs s b) then Inl (Sleep (ChBuf b)) else Inr s))
           else Inl (Sleep (ChBuf b)))))
      else Inr s)"

definition virtio_disk_rw :: "nat \<Rightarrow> bool \<Rightarrow> 'a dkst_scheme \<Rightarrow> 'a dkst_scheme kres" where
  "virtio_disk_rw b write s =
     bnd (acquire LkVdisk s) (\<lambda>s.
     bnd (alloc3_desc s) (\<lambda>(r, s).
     case r of
       None \<Rightarrow> sleep ChDiskFree LkVdisk s
     | Some idx \<Rightarrow>
         bnd (disk_wait b (rw_submit b write (idx ! 0) (idx ! 1) (idx ! 2) s)) (\<lambda>s.
         bnd (free_chain (idx ! 0) (s\<lparr>info_b := (info_b s)(idx ! 0 := None)\<rparr>)) (release LkVdisk))))"

section \<open>The device\<close>

definition vq_complete :: "nat \<Rightarrow> nat \<Rightarrow> VRing \<Rightarrow> VRing" where
  "vq_complete i k q = q\<lparr>used_elems := (used_elems q)(unat (used_id q) mod NUM := of_nat i), used_id := used_id q + 1,
     info_status := (info_status q)(k := 0)\<rparr>"

text \<open>
  What the virtio specification says of a device with one new request in its queue, a chain of three descriptors for
  header, data and status: a read fills the data from the medium, a write stores it, the status becomes 0 and the
  chain is entered in the used ring.
\<close>

definition virtio_blk :: "vdevice \<Rightarrow> bool" where
  "virtio_blk dev \<longleftrightarrow>
     (\<forall>q d m i0 i1 i2 ty sec b k.
        avail q 1 = used_id q + 1 \<longrightarrow> i0 = unat (avail q (2 + unat (used_id q) mod NUM)) \<longrightarrow>
        i1 = unat (d_next (desc q i0)) \<longrightarrow> i2 = unat (d_next (desc q i1)) \<longrightarrow>
        d_addr (desc q i0) = DHdr ty sec \<longrightarrow> d_addr (desc q i1) = DBuf b \<longrightarrow> d_addr (desc q i2) = DStatus k \<longrightarrow>
        (ty = 0 \<longrightarrow> dev q d m = (vq_complete i0 k q, d(b := m (unat sec) @ m (unat sec + 1)), m)) \<and>
        (ty = 1 \<longrightarrow> dev q d m = (vq_complete i0 k q, d, m(unat sec := take 512 (d b), unat sec + 1 := drop 512 (d b)))))"

text \<open>The queue between two requests.\<close>

definition vq_idle :: "'a dkst_scheme \<Rightarrow> bool" where
  "vq_idle s \<longleftrightarrow> (\<forall>i<NUM. vq_free s i) \<and> avail (vq s) 1 = used_id (vq s) \<and> used_idx s < 8 \<and>
     unat (used_idx s) = unat (used_id (vq s)) mod NUM"

definition dblk :: "medium \<Rightarrow> u32 \<Rightarrow> block" where
  "dblk m bn = m (2 * unat bn) @ m (2 * unat bn + 1)"

definition set_dblk :: "u32 \<Rightarrow> block \<Rightarrow> medium \<Rightarrow> medium" where
  "set_dblk bn d m = m(2 * unat bn := take 512 d, 2 * unat bn + 1 := drop 512 d)"

lemma dblk_set: "dblk (set_dblk bn d m) bn' = (if bn' = bn then d else dblk m bn')"
proof -
  have "2 * unat bn' \<noteq> 2 * unat bn + 1" "2 * unat bn \<noteq> 2 * unat bn' + 1" by presburger+
  then show ?thesis by (auto simp: dblk_def set_dblk_def word_unat_eq_iff)
qed

text \<open>Processes apart from what scheduling changes.\<close>

definition pcore :: "proc \<Rightarrow> proc" where
  "pcore p = p\<lparr>p_state := UNUSED, p_chan := ChNone\<rparr>"

definition procs_like :: "'a procst_scheme \<Rightarrow> 'a procst_scheme \<Rightarrow> bool" where
  "procs_like s s' \<longleftrightarrow> (\<forall>i. pcore (procs s' i) = pcore (procs s i))"

lemma procs_like_refl [simp]: "procs_like s s"
  by (simp add: procs_like_def)

lemma procs_like_trans: "procs_like s s1 \<Longrightarrow> procs_like s1 s2 \<Longrightarrow> procs_like s s2"
  by (simp add: procs_like_def)

lemma pcoreD:
  assumes "pcore p = pcore q"
  shows "p_parent p = p_parent q" "p_killed p = p_killed q" "p_xstate p = p_xstate q" "p_pid p = p_pid q" "p_kstack p = p_kstack q"
    "p_sz p = p_sz q" "p_pagetable p = p_pagetable q" "p_trapframe p = p_trapframe q" "p_context p = p_context q"
    "p_ofile p = p_ofile q" "p_cwd p = p_cwd q" "p_name p = p_name q"
  using assms by (cases p; cases q; simp add: pcore_def)+

lemma pcore_wake_all [simp]: "pcore (wake_all c ps i) = pcore (ps i)"
  by (simp add: pcore_def wake_all_def woken_def)

lemma pcore_upd [simp]: "pcore (p\<lparr>p_state := st\<rparr>) = pcore p" "pcore (p\<lparr>p_chan := ch\<rparr>) = pcore p"
  by (simp_all add: pcore_def)

section \<open>A request\<close>

lemma alloc3_idle:
  assumes "\<forall>i<NUM. vq_free s i"
  shows "alloc3_desc s = Inr (Some [0, 1, 2], s\<lparr>vq_free := (vq_free s)(0 := False, 1 := False, 2 := False)\<rparr>)"
proof -
  have l: "[0..<NUM] = [0, 1, 2, 3, 4, 5, 6, 7]" by (simp add: upt_rec)
  have f: "vq_free s 0" "vq_free s 1" "vq_free s 2" using assms by auto
  show ?thesis unfolding alloc3_desc_def alloc_desc_def numeral_3_eq_3 l using f by (simp add: alloc_desc_def l numeral_2_eq_2)
qed

lemma intr_loop_stop: "unat (used_idx s) mod NUM = unat (used_id (vq s)) mod NUM \<Longrightarrow> virtio_intr_loop s = Inr s"
  by (subst virtio_intr_loop.simps) simp

lemma intr_loop_one:
  assumes "unat (used_idx s) mod NUM = u mod NUM" "unat (used_id (vq s)) mod NUM = Suc u mod NUM" "used_idx s < 8"
    "used_elems (vq s) (unat (used_idx s)) = of_nat i" "i < NUM" "info_status (vq s) i = 0" "info_b s i = Some b" "no_proc_lock s"
  shows "virtio_intr_loop s = Inr (s\<lparr>bufs := (bufs s)(b := (bufs s b)\<lparr>b_disk := False\<rparr>), procs := wake_all (ChBuf b) (procs s),
    used_idx := (used_idx s + 1) mod 8\<rparr>)"
proof -
  have ne: "unat (used_idx s) mod NUM \<noteq> unat (used_id (vq s)) mod NUM"
    unfolding assms(1,2) by (simp add: mod_Suc)
  have i: "unat (of_nat i :: u32) = i" using assms(5) by (simp add: unat_of_nat)
  have e: "unat ((used_idx s + 1) mod 8) mod 8 = Suc u mod NUM"
  proof -
    have "unat ((used_idx s + 1) mod 8) = unat (used_idx s + 1) mod 8" by (simp add: unat_mod)
    moreover have "unat (used_idx s + 1) mod 8 = Suc (unat (used_idx s)) mod 8" by (simp add: unat_word_ariths mod_mod_cancel)
    ultimately show ?thesis using assms(1) by (metis mod_Suc_eq mod_mod_trivial)
  qed
  show ?thesis
    using ne assms(4-8) i e assms(2)
    by (subst virtio_intr_loop.simps) (simp add: Let_def upd_buf_def wakeup_eq no_proc_lock_def intr_loop_stop)
qed

lemma disk_wait_eq:
  fixes s :: "'a dkst_scheme"
  assumes h: "held s = {LkVdisk}" "cur s < NPROC" "b_disk (bufs s b)"
    and d: "vdev s (vq s) (\<lambda>i. b_data (bufs s i)) (medium s) = (q, d, m)"
    and q: "unat (used_idx s) mod NUM = u mod NUM" "unat (used_id q) mod NUM = Suc u mod NUM" "used_idx s < 8"
      "used_elems q (unat (used_idx s)) = of_nat i" "i < NUM" "info_status q i = 0" "info_b s i = Some b"
  shows "disk_wait b s = Inr (s\<lparr>vq := q, medium := m, mhist := mhist s @ [m],
    bufs := (\<lambda>j. (bufs s j)\<lparr>b_data := d j\<rparr>)(b := (bufs s b)\<lparr>b_data := d b, b_disk := False\<rparr>),
    used_idx := (used_idx s + 1) mod 8, mmiow := mmiow s @ [(0x064, mmio s 0x060 AND 3)],
    procs := (wake_all (ChBuf b) ((procs s)(cur s := (procs s (cur s))\<lparr>p_chan := ChBuf b, p_state := SLEEPING\<rparr>)))
      (cur s := (procs s (cur s))\<lparr>p_state := RUNNING, p_chan := ChNone\<rparr>), held := {LkVdisk}\<rparr>)"
proof -
  let ?ps = "(procs s)(cur s := (procs s (cur s))\<lparr>p_chan := ChBuf b, p_state := SLEEPING\<rparr>)"
  let ?s1 = "s\<lparr>procs := ?ps, held := {}\<rparr>"
  let ?s2 = "?s1\<lparr>vq := q, bufs := (\<lambda>j. (bufs s j)\<lparr>b_data := d j\<rparr>), medium := m, mhist := mhist s @ [m]\<rparr>"
  have sb: "sleep_begin (ChBuf b) LkVdisk s = Inr (s\<lparr>procs := ?ps, held := {LkProc (cur s)}\<rparr>)"
    using sleep_begin_eq [OF h(1), of "ChBuf b"] by (simp add: upd_proc_def)
  have dr: "device_runs ?s1 = ?s2" using d by (simp add: device_runs_def)
  have il: "virtio_intr_loop (?s2\<lparr>held := {LkVdisk}\<rparr>) = Inr (?s2\<lparr>held := {LkVdisk}, bufs := (bufs ?s2)(b := (bufs ?s2 b)\<lparr>b_disk := False\<rparr>),
      procs := wake_all (ChBuf b) ?ps, used_idx := (used_idx s + 1) mod 8\<rparr>)"
    using intr_loop_one [of "?s2\<lparr>held := {LkVdisk}\<rparr>" u i b] q by (simp add: no_proc_lock_def)
  have vi: "virtio_disk_intr ?s2 = Inr (?s2\<lparr>bufs := (bufs ?s2)(b := (bufs ?s2 b)\<lparr>b_disk := False\<rparr>),
      procs := wake_all (ChBuf b) ?ps, used_idx := (used_idx s + 1) mod 8, mmiow := mmiow s @ [(0x064, mmio s 0x060 AND 3)]\<rparr>)"
    unfolding virtio_disk_intr_def using il by (simp add: wr_reg_def)
  have st: "p_state (wake_all (ChBuf b) ?ps (cur s)) = RUNNABLE" using h(2) by (simp add: wake_all_state)
  have cu: "wake_all (ChBuf b) ?ps (cur s) = (procs s (cur s))\<lparr>p_chan := ChBuf b, p_state := RUNNABLE\<rparr>"
    using h(2) by (simp add: wake_all_def woken_def)
  show ?thesis
    unfolding disk_wait_def using h(3) sb dr vi st cu
    by (simp add: sched_back_def sleep_end_def upd_proc_def insert_commute Let_def)
qed

lemma free_chain_3:
  assumes "\<not> vq_free s 0" "\<not> vq_free s 1" "\<not> vq_free s 2" "no_proc_lock s"
    "d_flags (desc (vq s) 0) AND 1 \<noteq> 0" "d_next (desc (vq s) 0) = 1" "d_flags (desc (vq s) 1) AND 1 \<noteq> 0"
    "d_next (desc (vq s) 1) = 2" "d_flags (desc (vq s) 2) AND 1 = 0"
  shows "\<exists>q. free_chain 0 s = Inr (s\<lparr>vq := q, vq_free := (vq_free s)(0 := True, 1 := True, 2 := True),
      procs := wake_all ChDiskFree (wake_all ChDiskFree (wake_all ChDiskFree (procs s)))\<rparr>) \<and>
    avail q = avail (vq s) \<and> used_id q = used_id (vq s)"
proof -
  have np: "no_proc_lock (s\<lparr>vq := q, vq_free := f, procs := p\<rparr>) = no_proc_lock s" for q f p by (simp add: no_proc_lock_def)
  have f2: "free_desc i s' = Inr (s'\<lparr>vq := (vq s')\<lparr>desc := (desc (vq s'))(i := (desc (vq s') i)\<lparr>d_addr := DNull\<rparr>)\<rparr>,
     vq_free := (vq_free s')(i := True), procs := wake_all ChDiskFree (procs s')\<rparr>)"
    if "i < NUM" "\<not> vq_free s' i" "no_proc_lock s'" for i and s' :: "'b dkst_scheme"
    using that unfolding free_desc_Inr by (simp add: set_desc_def)
  define q where "q = (vq s)\<lparr>desc := (desc (vq s))(0 := (desc (vq s) 0)\<lparr>d_addr := DNull\<rparr>,
    1 := (desc (vq s) 1)\<lparr>d_addr := DNull\<rparr>, 2 := (desc (vq s) 2)\<lparr>d_addr := DNull\<rparr>)\<rparr>"
  have "free_chain 0 s = Inr (s\<lparr>vq := q, vq_free := (vq_free s)(0 := True, 1 := True, 2 := True),
      procs := wake_all ChDiskFree (wake_all ChDiskFree (wake_all ChDiskFree (procs s)))\<rparr>)"
    using assms unfolding q_def
    by (subst free_chain.simps, simp add: f2, subst free_chain.simps, simp add: f2 np, subst free_chain.simps, simp add: f2 np)
  moreover have "avail q = avail (vq s) \<and> used_id q = used_id (vq s)" by (simp add: q_def)
  ultimately show ?thesis by blast
qed

lemma unat_ucast_u32: "unat (ucast (x :: u32) :: u64) = unat x"
  by (simp add: unsigned_ucast_eq take_bit_nat_eq_self_iff) (use unsigned_less [of x, where 'a=nat] in simp)

lemma sector_eq: "unat (b :: u32) < 2 ^ 31 \<Longrightarrow> unat (ucast (b * 2) :: u64) = 2 * unat b"
  unfolding unat_ucast_u32 by (simp add: unat_word_ariths)

definition rw_procs :: "nat \<Rightarrow> nat \<Rightarrow> (nat \<Rightarrow> proc) \<Rightarrow> nat \<Rightarrow> proc" where
  "rw_procs c b ps = wake_all ChDiskFree (wake_all ChDiskFree (wake_all ChDiskFree
     ((wake_all (ChBuf b) (ps(c := (ps c)\<lparr>p_chan := ChBuf b, p_state := SLEEPING\<rparr>)))
      (c := (ps c)\<lparr>p_state := RUNNING, p_chan := ChNone\<rparr>))))"

text \<open>A request on the idle queue returns with the transfer done and the queue idle again.\<close>

lemma virtio_disk_rw_eq:
  fixes s :: "'a dkst_scheme"
  assumes idle: "vq_idle s" and dev: "virtio_blk (vdev s)" and h: "held s = {}" "cur s < NPROC" and bn: "unat (b_blockno (bufs s b)) < 2 ^ 31"
  shows "\<exists>s'. virtio_disk_rw b write s = Inr s' \<and> vq_idle s' \<and>
    s' = s\<lparr>vq := vq s', used_idx := used_idx s', info_b := info_b s', mmiow := mmiow s', procs := rw_procs (cur s) b (procs s),
      vq_free := vq_free s',
      medium := (if write then set_dblk (b_blockno (bufs s b)) (b_data (bufs s b)) (medium s) else medium s),
      mhist := mhist s @ [if write then set_dblk (b_blockno (bufs s b)) (b_data (bufs s b)) (medium s) else medium s],
      bufs := (bufs s)(b := (bufs s b)\<lparr>b_disk := False,
        b_data := (if write then b_data (bufs s b) else dblk (medium s) (b_blockno (bufs s b)))\<rparr>)\<rparr>"
proof -
  define bno where "bno = b_blockno (bufs s b)"
  let ?sec = "ucast (bno * 2) :: u64"
  have sec: "unat ?sec = 2 * unat bno" by (rule sector_eq) (use bn in \<open>simp add: bno_def\<close>)
  let ?u = "unat (used_id (vq s))" and ?ty = "(if write then 1 else 0) :: u32"
  define s0 where "s0 = s\<lparr>held := {LkVdisk}, vq_free := (vq_free s)(0 := False, 1 := False, 2 := False)\<rparr>"
  define s1 where "s1 = rw_submit b write 0 1 2 s0"
  have id: "\<forall>i<NUM. vq_free s i" "avail (vq s) 1 = used_id (vq s)" "used_idx s < 8" "unat (used_idx s) = ?u mod NUM"
    using idle by (auto simp: vq_idle_def)
  have v1: "desc (vq s1) 0 = \<lparr>d_addr = DHdr ?ty ?sec, d_len = 16, d_flags = 1, d_next = 1\<rparr>"
    "desc (vq s1) 1 = \<lparr>d_addr = DBuf b, d_len = 1024, d_flags = (if write then 0 else 2) OR 1, d_next = 2\<rparr>"
    "desc (vq s1) 2 = \<lparr>d_addr = DStatus 0, d_len = 1, d_flags = 2, d_next = 0\<rparr>"
    "avail (vq s1) 1 = used_id (vq s) + 1" "avail (vq s1) (2 + ?u mod NUM) = 0" "used_id (vq s1) = used_id (vq s)"
    "info_status (vq s1) 0 = 0"
    using id(2) by (simp_all add: s1_def s0_def rw_submit_def Let_def set_desc_def upd_buf_def wr_reg_def bno_def)
  have e1: "held s1 = {LkVdisk}" "cur s1 = cur s" "b_disk (bufs s1 b)" "vdev s1 = vdev s" "medium s1 = medium s" "used_idx s1 = used_idx s"
    "info_b s1 0 = Some b" "vq_free s1 = (vq_free s)(0 := False, 1 := False, 2 := False)" "procs s1 = procs s"
    "b_data (bufs s1 i) = b_data (bufs s i)" for i
    by (simp_all add: s1_def s0_def rw_submit_def Let_def set_desc_def upd_buf_def wr_reg_def)
  define q where "q = vq_complete 0 0 (vq s1)"
  define d where "d = (if write then (\<lambda>i. b_data (bufs s i)) else (\<lambda>i. b_data (bufs s i))(b := dblk (medium s) bno))"
  define m where "m = (if write then set_dblk bno (b_data (bufs s b)) (medium s) else medium s)"
  have dv: "vdev s1 (vq s1) (\<lambda>i. b_data (bufs s1 i)) (medium s1) = (q, d, m)"
  proof -
    have "avail (vq s1) 1 = used_id (vq s1) + 1" "0 = unat (avail (vq s1) (2 + unat (used_id (vq s1)) mod NUM))"
      "1 = unat (d_next (desc (vq s1) 0))" "2 = unat (d_next (desc (vq s1) 1))"
      "d_addr (desc (vq s1) 0) = DHdr ?ty ?sec" "d_addr (desc (vq s1) 1) = DBuf b" "d_addr (desc (vq s1) 2) = DStatus 0"
      using v1 by simp_all
    from dev [unfolded virtio_blk_def, rule_format, OF this]
    show ?thesis unfolding e1 q_def d_def m_def by (cases "write") (simp_all add: sec dblk_def set_dblk_def fun_upd_def)
  qed
  have qf: "unat (used_id q) mod NUM = Suc ?u mod NUM" "used_elems q (unat (used_idx s1)) = of_nat 0" "info_status q 0 = 0"
    "avail q 1 = used_id q" "desc q = desc (vq s1)"
    using v1(4,6) id(4) by (simp_all add: q_def vq_complete_def unat_word_ariths mod_mod_cancel e1)
  obtain s2 where w: "disk_wait b s1 = Inr s2" and s2: "s2 = s1\<lparr>vq := q, medium := m, mhist := mhist s1 @ [m],
    bufs := (\<lambda>j. (bufs s1 j)\<lparr>b_data := d j\<rparr>)(b := (bufs s1 b)\<lparr>b_data := d b, b_disk := False\<rparr>),
    used_idx := (used_idx s1 + 1) mod 8, mmiow := mmiow s1 @ [(0x064, mmio s1 0x060 AND 3)],
    procs := (wake_all (ChBuf b) ((procs s1)(cur s1 := (procs s1 (cur s1))\<lparr>p_chan := ChBuf b, p_state := SLEEPING\<rparr>)))
      (cur s1 := (procs s1 (cur s1))\<lparr>p_state := RUNNING, p_chan := ChNone\<rparr>), held := {LkVdisk}\<rparr>"
    using disk_wait_eq [OF e1(1) _ e1(3) dv, of ?u 0] qf id(3,4) h(2) by (simp add: e1)
  define s3 where "s3 = s2\<lparr>info_b := (info_b s2)(0 := None)\<rparr>"
  have vq3: "vq s3 = q" "vq_free s3 = (vq_free s)(0 := False, 1 := False, 2 := False)" "held s3 = {LkVdisk}"
    using e1(8) by (simp_all add: s3_def s2)
  have "\<exists>q'. free_chain 0 s3 = Inr (s3\<lparr>vq := q', vq_free := (vq_free s3)(0 := True, 1 := True, 2 := True),
      procs := wake_all ChDiskFree (wake_all ChDiskFree (wake_all ChDiskFree (procs s3)))\<rparr>) \<and>
    avail q' = avail (vq s3) \<and> used_id q' = used_id (vq s3)"
    by (rule free_chain_3) (use v1(2) in \<open>simp_all add: vq3 qf v1 no_proc_lock_def\<close>)
  then obtain q' where q': "free_chain 0 s3 = Inr (s3\<lparr>vq := q', vq_free := (vq_free s3)(0 := True, 1 := True, 2 := True),
      procs := wake_all ChDiskFree (wake_all ChDiskFree (wake_all ChDiskFree (procs s3)))\<rparr>)"
    "avail q' = avail q" "used_id q' = used_id q" unfolding vq3 by blast
  define s4 where "s4 = s3\<lparr>vq := q', vq_free := (vq_free s3)(0 := True, 1 := True, 2 := True),
      procs := wake_all ChDiskFree (wake_all ChDiskFree (wake_all ChDiskFree (procs s3))), held := {}\<rparr>"
  have "virtio_disk_rw b write s = Inr s4"
  proof -
    have a: "alloc3_desc (s\<lparr>held := {LkVdisk}\<rparr>) = Inr (Some [0, 1, 2], s0)"
      using alloc3_idle [of "s\<lparr>held := {LkVdisk}\<rparr>"] id(1) by (simp add: s0_def)
    have "rw_submit b write 0 (Suc 0) 2 s0 = s1" by (simp add: s1_def)
    then show ?thesis
      unfolding virtio_disk_rw_def using h(1) a w q'(1) vq3(3)
      by (simp add: s3_def [symmetric] s4_def)
  qed
  moreover have "vq_idle s4"
  proof -
    have "unat ((used_idx s + 1) mod 8) = Suc (unat (used_idx s)) mod 8" by (simp add: unat_mod unat_word_ariths mod_mod_cancel)
    also have "\<dots> = unat (used_id q) mod 8" using id(4) qf(1) by (metis mod_Suc_eq)
    finally have "unat (used_idx s4) = unat (used_id (vq s4)) mod NUM" "used_idx s4 < 8"
      using q'(3) e1(6) by (simp_all add: s4_def s3_def s2 word_less_nat_alt)
    then show ?thesis
      unfolding vq_idle_def using q'(2,3) qf(4) id(1) vq3(2) by (simp add: s4_def)
  qed
  moreover have "s4 = s\<lparr>vq := vq s4, used_idx := used_idx s4, info_b := info_b s4, mmiow := mmiow s4, procs := rw_procs (cur s) b (procs s),
      vq_free := vq_free s4,
      medium := (if write then set_dblk (b_blockno (bufs s b)) (b_data (bufs s b)) (medium s) else medium s),
      mhist := mhist s @ [if write then set_dblk (b_blockno (bufs s b)) (b_data (bufs s b)) (medium s) else medium s],
      bufs := (bufs s)(b := (bufs s b)\<lparr>b_disk := False,
        b_data := (if write then b_data (bufs s b) else dblk (medium s) (b_blockno (bufs s b)))\<rparr>)\<rparr>"
  proof -
    have b1: "bufs s1 = (bufs s)(b := (bufs s b)\<lparr>b_disk := True\<rparr>)"
      by (simp add: s1_def s0_def rw_submit_def Let_def set_desc_def upd_buf_def wr_reg_def)
    have b4: "bufs s4 = (bufs s)(b := (bufs s b)\<lparr>b_disk := False, b_data := d b\<rparr>)"
      by (rule ext) (simp add: s4_def s3_def s2 b1 d_def)
    have m1: "mhist s1 = mhist s" by (simp add: s1_def s0_def rw_submit_def Let_def set_desc_def upd_buf_def wr_reg_def)
    have p4: "procs s4 = rw_procs (cur s) b (procs s)" "medium s4 = m" "mhist s4 = mhist s @ [m]" "held s4 = {}"
      by (simp_all add: s4_def s3_def s2 e1 m1 rw_procs_def)
    have f0: "s0 = s\<lparr>held := held s0, vq_free := vq_free s0\<rparr>" by (simp add: s0_def)
    have f1: "s1 = s0\<lparr>vq := vq s1, bufs := bufs s1, info_b := info_b s1, mmiow := mmiow s1\<rparr>"
      unfolding s1_def by (rule rw_submit_frame)
    have f4: "s4 = s1\<lparr>vq := vq s4, medium := medium s4, mhist := mhist s4, bufs := bufs s4, used_idx := used_idx s4, mmiow := mmiow s4, procs := procs s4,
        info_b := info_b s4, vq_free := vq_free s4, held := held s4\<rparr>"
      by (simp add: s4_def s3_def s2)
    have x4: "cur s4 = cur s1" "initproc s4 = initproc s1" "nextpid s4 = nextpid s1" "ticks s4 = ticks s1" "slocks s4 = slocks s1" "mem s4 = mem s1" "freelist s4 = freelist s1" "pageref s4 = pageref s1" "kend s4 = kend s1" "kernel_pagetable s4 = kernel_pagetable s1" "etext s4 = etext s1" "trampoline s4 = trampoline s1" "vdev s4 = vdev s1" "mmio s4 = mmio s1" "dkst.more s4 = dkst.more s1"
      by (subst f4, simp)+
    have x1: "cur s1 = cur s0" "initproc s1 = initproc s0" "nextpid s1 = nextpid s0" "ticks s1 = ticks s0" "slocks s1 = slocks s0" "mem s1 = mem s0" "freelist s1 = freelist s0" "pageref s1 = pageref s0" "kend s1 = kend s0" "kernel_pagetable s1 = kernel_pagetable s0" "etext s1 = etext s0" "trampoline s1 = trampoline s0" "vdev s1 = vdev s0" "mmio s1 = mmio s0" "dkst.more s1 = dkst.more s0"
      by (subst f1, simp)+
    have x0: "cur s0 = cur s" "initproc s0 = initproc s" "nextpid s0 = nextpid s" "ticks s0 = ticks s" "slocks s0 = slocks s" "mem s0 = mem s" "freelist s0 = freelist s" "pageref s0 = pageref s" "kend s0 = kend s" "kernel_pagetable s0 = kernel_pagetable s" "etext s0 = etext s" "trampoline s0 = trampoline s" "vdev s0 = vdev s" "mmio s0 = mmio s" "dkst.more s0 = dkst.more s"
      by (subst f0, simp)+
    show ?thesis
      by (rule dkst.equality) (simp_all add: x4 x1 x0 b4 p4 d_def m_def bno_def h(1))
  qed
  ultimately show ?thesis by blast
qed

text \<open>Each process is as before, apart from its scheduling state; the requesting process runs.\<close>

lemma rw_procs_like [simp]: "pcore (rw_procs c b ps i) = pcore (ps i)"
  unfolding rw_procs_def pcore_wake_all by (simp add: pcore_def wake_all_def woken_def)

lemma rw_procs_cur: "rw_procs c b ps c = (ps c)\<lparr>p_state := RUNNING, p_chan := ChNone\<rparr>"
  by (simp add: rw_procs_def wake_all_def woken_def)

text \<open>A device that behaves as specified, for the witnesses.\<close>

definition ref_dev :: vdevice where
  "ref_dev q d m =
     (let i0 = unat (avail q (2 + unat (used_id q) mod NUM)); i1 = unat (d_next (desc q i0)); i2 = unat (d_next (desc q i1))
      in case (d_addr (desc q i0), d_addr (desc q i1), d_addr (desc q i2)) of
           (DHdr ty sec, DBuf b, DStatus k) \<Rightarrow>
             (vq_complete i0 k q,
              if ty = 0 then d(b := m (unat sec) @ m (unat sec + 1)) else d,
              if ty = 1 then m(unat sec := take 512 (d b), unat sec + 1 := drop 512 (d b)) else m)
         | _ \<Rightarrow> (q, d, m))"

lemma virtio_blk_ref_dev: "virtio_blk ref_dev"
  unfolding virtio_blk_def ref_dev_def Let_def by simp

definition dk_ex :: dkst where
  "dk_ex = vmst.extend (kmst.extend km_ex \<lparr>kernel_pagetable = 0, etext = 0, trampoline = 0\<rparr>)
     \<lparr>bufs = (\<lambda>i. \<lparr>b_valid = False, b_disk = False, b_dev = 0, b_blockno = 7, b_refcnt = 0, b_prev = 0, b_next = 0, b_data = replicate 1024 9\<rparr>),
      vq = \<lparr>desc = (\<lambda>_. \<lparr>d_addr = DNull, d_len = 0, d_flags = 0, d_next = 0\<rparr>), avail = (\<lambda>_. 0), used_id = 0, used_elems = (\<lambda>_. 0), info_status = (\<lambda>_. 0)\<rparr>,
      vq_free = (\<lambda>i. i < NUM), used_idx = 0, info_b = (\<lambda>_. None), medium = (\<lambda>_. replicate 512 0), mhist = [], vdev = ref_dev, mmio = (\<lambda>_. 0), mmiow = []\<rparr>"

lemma dk_ex_sel [simp]: "vq_idle dk_ex" "vdev dk_ex = ref_dev" "held dk_ex = {}" "cur dk_ex = 0" "bufs dk_ex i = \<lparr>b_valid = False, b_disk = False, b_dev = 0, b_blockno = 7, b_refcnt = 0, b_prev = 0, b_next = 0, b_data = replicate 1024 9\<rparr>"
  by (simp_all add: dk_ex_def vq_idle_def km_ex_def kmst.extend_def vmst.extend_def)

section \<open>Properties\<close>

text \<open>C28. A disk request on an idle queue, with a device that behaves as the virtio specification says, returns: a read
  leaves the block in the buffer and the medium as it was, a write stores the buffer's data in that block and no other;
  no other buffer changes, all descriptors are free again and the queue is ready for the next request.\<close>

theorem virtio_disk_rw_correct:
  assumes "vq_idle s" "virtio_blk (vdev s)" "held s = {}" "cur s < NPROC" "unat (b_blockno (bufs s b)) < 2 ^ 31"
  shows "\<exists>s'. virtio_disk_rw b write s = Inr s' \<and> vq_idle s' \<and> held s' = {} \<and>
    (\<forall>bn. dblk (medium s') bn = (if write \<and> bn = b_blockno (bufs s b) then b_data (bufs s b) else dblk (medium s) bn)) \<and>
    bufs s' = (bufs s)(b := (bufs s b)\<lparr>b_disk := False,
      b_data := (if write then b_data (bufs s b) else dblk (medium s) (b_blockno (bufs s b)))\<rparr>)"
proof -
  obtain s' where s': "virtio_disk_rw b write s = Inr s'" "vq_idle s'"
    "s' = s\<lparr>vq := vq s', used_idx := used_idx s', info_b := info_b s', mmiow := mmiow s', procs := rw_procs (cur s) b (procs s),
      vq_free := vq_free s',
      medium := (if write then set_dblk (b_blockno (bufs s b)) (b_data (bufs s b)) (medium s) else medium s),
      mhist := mhist s @ [if write then set_dblk (b_blockno (bufs s b)) (b_data (bufs s b)) (medium s) else medium s],
      bufs := (bufs s)(b := (bufs s b)\<lparr>b_disk := False,
        b_data := (if write then b_data (bufs s b) else dblk (medium s) (b_blockno (bufs s b)))\<rparr>)\<rparr>"
    using virtio_disk_rw_eq [OF assms, of "write"] by blast
  have "held s' = {}" using assms(3) by (subst s'(3)) simp
  moreover have "medium s' = (if write then set_dblk (b_blockno (bufs s b)) (b_data (bufs s b)) (medium s) else medium s)"
    by (subst s'(3)) simp
  moreover have "bufs s' = (bufs s)(b := (bufs s b)\<lparr>b_disk := False,
      b_data := (if write then b_data (bufs s b) else dblk (medium s) (b_blockno (bufs s b)))\<rparr>)" by (subst s'(3)) simp
  ultimately show ?thesis using s'(1,2) by (simp add: dblk_set)
qed

theorem virtio_disk_rw_correct_witness:
  "\<exists>s'. virtio_disk_rw 3 True dk_ex = Inr s' \<and> dblk (medium s') 7 = replicate 1024 9 \<and> vq_idle s'"
  using virtio_disk_rw_correct [of dk_ex 3 True] virtio_blk_ref_dev by auto

end
