(* ===== verification/Bio.thy ===== *)
theory Bio
  imports Virtio
begin

text \<open>
  The buffer cache, kernel/bio.c. The buffers are \<open>bufs s 0\<close> to \<open>bufs s 29\<close>; \<open>bufs s 30\<close> is \<open>bcache.head\<close>. The doubly
  linked list is kept in the \<open>b_prev\<close> and \<open>b_next\<close> fields, as in the source; \<open>dll\<close> relates it to the list of buffers
  from the most to the least recently used. The searches follow the links, so they carry fuel: one more than the
  number of buffers is enough for a well-formed list.
\<close>

section \<open>Operations\<close>

abbreviation (input) NBUF :: nat where "NBUF \<equiv> 30"
abbreviation (input) BHEAD :: nat where "BHEAD \<equiv> 30"

text \<open>Assignments to the links of a buffer, on the array of buffers.\<close>

definition set_prev :: "nat \<Rightarrow> nat \<Rightarrow> (nat \<Rightarrow> buf) \<Rightarrow> nat \<Rightarrow> buf" where
  "set_prev i v B = B(i := (B i)\<lparr>b_prev := v\<rparr>)"

definition set_next :: "nat \<Rightarrow> nat \<Rightarrow> (nat \<Rightarrow> buf) \<Rightarrow> nat \<Rightarrow> buf" where
  "set_next i v B = B(i := (B i)\<lparr>b_next := v\<rparr>)"

definition push_front :: "nat \<Rightarrow> (nat \<Rightarrow> buf) \<Rightarrow> nat \<Rightarrow> buf" where
  "push_front b B =
     (let B = set_next b (b_next (B BHEAD)) B;
          B = set_prev b BHEAD B;
          B = set_prev (b_next (B BHEAD)) b B
      in set_next BHEAD b B)"

fun binit_loop :: "nat list \<Rightarrow> 'a dkst_scheme \<Rightarrow> 'a dkst_scheme" where
  "binit_loop [] s = s"
| "binit_loop (b # bs) s = binit_loop bs (initsleeplock (SlBuf b) ''buffer'' (s\<lparr>bufs := push_front b (bufs s)\<rparr>))"

definition binit :: "'a dkst_scheme \<Rightarrow> 'a dkst_scheme" where
  "binit s = binit_loop [0..<NBUF] (s\<lparr>bufs := set_next BHEAD BHEAD (set_prev BHEAD BHEAD (bufs s))\<rparr>)"

fun bget_cached :: "nat \<Rightarrow> nat \<Rightarrow> u32 \<Rightarrow> u32 \<Rightarrow> 'a dkst_scheme \<Rightarrow> nat option kres" where
  "bget_cached 0 b dev blockno s = Inl NoFuel"
| "bget_cached (Suc n) b dev blockno s =
     (if b = BHEAD then Inr None
      else if b_dev (bufs s b) = dev \<and> b_blockno (bufs s b) = blockno then Inr (Some b)
      else bget_cached n (b_next (bufs s b)) dev blockno s)"

fun bget_unused :: "nat \<Rightarrow> nat \<Rightarrow> 'a dkst_scheme \<Rightarrow> nat option kres" where
  "bget_unused 0 b s = Inl NoFuel"
| "bget_unused (Suc n) b s =
     (if b = BHEAD then Inr None
      else if b_refcnt (bufs s b) = 0 then Inr (Some b)
      else bget_unused n (b_prev (bufs s b)) s)"

definition bget :: "u32 \<Rightarrow> u32 \<Rightarrow> 'a dkst_scheme \<Rightarrow> (nat \<times> 'a dkst_scheme) kres" where
  "bget dev blockno s =
     bnd (acquire LkBcache s) (\<lambda>s.
     bnd (bget_cached (NBUF + 1) (b_next (bufs s BHEAD)) dev blockno s) (\<lambda>r.
     case r of
       Some b \<Rightarrow>
         bnd (release LkBcache (upd_buf b (b_refcnt_update (\<lambda>n. n + 1)) s)) (\<lambda>s.
         bnd (acquiresleep (SlBuf b) s) (\<lambda>s. Inr (b, s)))
     | None \<Rightarrow>
         bnd (bget_unused (NBUF + 1) (b_prev (bufs s BHEAD)) s) (\<lambda>r.
         case r of
           Some b \<Rightarrow>
             bnd (release LkBcache (upd_buf b (\<lambda>x. x\<lparr>b_dev := dev, b_blockno := blockno, b_valid := False, b_refcnt := 1\<rparr>) s)) (\<lambda>s.
             bnd (acquiresleep (SlBuf b) s) (\<lambda>s. Inr (b, s)))
         | None \<Rightarrow> Inl (Panic ''bget: no buffers''))))"

definition bread :: "u32 \<Rightarrow> u32 \<Rightarrow> 'a dkst_scheme \<Rightarrow> (nat \<times> 'a dkst_scheme) kres" where
  "bread dev blockno s =
     bnd (bget dev blockno s) (\<lambda>(b, s).
     if \<not> b_valid (bufs s b)
     then bnd (virtio_disk_rw b False s) (\<lambda>s. Inr (b, upd_buf b (b_valid_update (\<lambda>_. True)) s))
     else Inr (b, s))"

definition bwrite :: "nat \<Rightarrow> 'a dkst_scheme \<Rightarrow> 'a dkst_scheme kres" where
  "bwrite b s =
     bnd (holdingsleep (SlBuf b) s) (\<lambda>(h, s).
     if \<not> h then Inl (Panic ''bwrite'') else virtio_disk_rw b True s)"

definition brelse_front :: "nat \<Rightarrow> (nat \<Rightarrow> buf) \<Rightarrow> nat \<Rightarrow> buf" where
  "brelse_front b B =
     (let B = set_prev (b_next (B b)) (b_prev (B b)) B;
          B = set_next (b_prev (B b)) (b_next (B b)) B
      in push_front b B)"

definition brelse :: "nat \<Rightarrow> 'a dkst_scheme \<Rightarrow> 'a dkst_scheme kres" where
  "brelse b s =
     bnd (holdingsleep (SlBuf b) s) (\<lambda>(h, s).
     if \<not> h then Inl (Panic ''brelse'')
     else bnd (releasesleep (SlBuf b) s) (\<lambda>s.
          bnd (acquire LkBcache s) (\<lambda>s.
          let s = upd_buf b (b_refcnt_update (\<lambda>n. n - 1)) s
          in release LkBcache (if b_refcnt (bufs s b) = 0 then s\<lparr>bufs := brelse_front b (bufs s)\<rparr> else s))))"

definition bpin :: "nat \<Rightarrow> 'a dkst_scheme \<Rightarrow> 'a dkst_scheme kres" where
  "bpin b s = bnd (acquire LkBcache s) (\<lambda>s. release LkBcache (upd_buf b (b_refcnt_update (\<lambda>n. n + 1)) s))"

definition bunpin :: "nat \<Rightarrow> 'a dkst_scheme \<Rightarrow> 'a dkst_scheme kres" where
  "bunpin b s = bnd (acquire LkBcache s) (\<lambda>s. release LkBcache (upd_buf b (b_refcnt_update (\<lambda>n. n - 1)) s))"

section \<open>Doubly linked lists\<close>

fun seg :: "(nat \<Rightarrow> nat) \<Rightarrow> (nat \<Rightarrow> nat) \<Rightarrow> nat \<Rightarrow> nat list \<Rightarrow> nat \<Rightarrow> bool" where
  "seg nx pv a [] b \<longleftrightarrow> nx a = b \<and> pv b = a"
| "seg nx pv a (x # xs) b \<longleftrightarrow> nx a = x \<and> pv x = a \<and> seg nx pv x xs b"

definition dll :: "(nat \<Rightarrow> nat) \<Rightarrow> (nat \<Rightarrow> nat) \<Rightarrow> nat \<Rightarrow> nat list \<Rightarrow> bool" where
  "dll nx pv h xs \<longleftrightarrow> distinct (h # xs) \<and> seg nx pv h xs h"

lemma seg_append: "seg nx pv a (xs @ y # ys) b \<longleftrightarrow> seg nx pv a xs y \<and> seg nx pv y ys b"
  by (induction xs arbitrary: a) auto

lemma seg_cong:
  assumes "seg nx pv a xs b" "\<And>x. x \<in> set (a # xs) \<Longrightarrow> nx' x = nx x" "\<And>x. x \<in> set (xs @ [b]) \<Longrightarrow> pv' x = pv x"
  shows "seg nx' pv' a xs b"
  using assms by (induction xs arbitrary: a) auto

lemma seg_ends: "seg nx pv a xs b \<Longrightarrow> pv b = last (a # xs)" "seg nx pv a xs b \<Longrightarrow> nx a = hd (xs @ [b])"
  by (induction xs arbitrary: a) auto

lemma dll_neighbours:
  assumes "dll nx pv h (xs @ b # ys)"
  shows "pv b = last (h # xs)" "nx b = hd (ys @ [h])" "pv b \<noteq> b" "nx b \<noteq> b" "b \<noteq> h"
proof -
  have d: "distinct (h # xs @ b # ys)" and s: "seg nx pv h xs b" "seg nx pv b ys h"
    using assms by (auto simp: dll_def seg_append)
  show p: "pv b = last (h # xs)" and n: "nx b = hd (ys @ [h])" using seg_ends(1) [OF s(1)] seg_ends(2) [OF s(2)] by auto
  have "last (h # xs) \<in> set (h # xs)" "hd (ys @ [h]) \<in> set (ys @ [h])" by (rule last_in_set, simp, rule hd_in_set, simp)
  then show "pv b \<noteq> b" "nx b \<noteq> b" "b \<noteq> h" using d unfolding p n by auto
qed

text \<open>Unlinking a node: the first two assignments of \<open>brelse\<close>.\<close>

lemma dll_remove:
  assumes "dll nx pv h (xs @ b # ys)"
  shows "dll (nx(pv b := nx b)) (pv(nx b := pv b)) h (xs @ ys)"
proof -
  have d: "distinct (h # xs @ b # ys)" and s: "seg nx pv h xs b" "seg nx pv b ys h"
    using assms by (auto simp: dll_def seg_append)
  define p n where pn: "p = pv b" "n = nx b"
  have p: "p = last (h # xs)" and n: "n = hd (ys @ [h])" using dll_neighbours(1,2) [OF assms] pn by auto
  have tl: "seg (nx(p := n)) (pv(n := p)) p ys h" if "p \<noteq> b" "p \<notin> set ys"
    using s(2) n that d by (cases ys) (auto elim!: seg_cong)
  have "seg (nx(p := n)) (pv(n := p)) h (xs @ ys) h"
  proof (cases xs rule: rev_cases)
    case Nil then show ?thesis using tl p d by auto
  next
    case (snoc zs q)
    then have q: "q = p" using p by simp
    have "seg nx pv h zs p" using s(1) by (simp add: snoc q seg_append)
    then have "seg (nx(p := n)) (pv(n := p)) h zs p"
      by (rule seg_cong) (use d snoc q n in \<open>auto simp: hd_append split: if_splits\<close>)
    then show ?thesis using tl d by (simp add: snoc q seg_append)
  qed
  then show ?thesis using d by (simp add: dll_def pn)
qed

text \<open>Linking it in at the front: the remaining four.\<close>

lemma dll_front:
  assumes "dll nx pv h xs" "b \<noteq> h" "b \<notin> set xs"
  shows "dll (nx(b := nx h, h := b)) ((pv(b := h))(nx h := b)) h (b # xs)"
proof -
  have n: "nx h = hd (xs @ [h])" using assms by (cases xs) (auto simp: dll_def)
  then have nb: "nx h \<noteq> b" using assms by (cases xs) auto
  have "seg (nx(b := nx h, h := b)) ((pv(b := h))(nx h := b)) b xs h"
    using assms n by (cases xs) (auto simp: dll_def elim!: seg_cong)
  then show ?thesis using assms nb by (auto simp: dll_def)
qed


section \<open>The cache invariant\<close>

abbreviation (input) ROOTDEV :: u32 where "ROOTDEV \<equiv> 1"

text \<open>\<open>bkey x bn\<close>: the buffer caches block \<open>bn\<close> of the one disk.\<close>

definition bkey :: "buf \<Rightarrow> u32 \<Rightarrow> bool" where
  "bkey x bn \<longleftrightarrow> b_dev x = ROOTDEV \<and> b_blockno x = bn"

definition lru :: "(nat \<Rightarrow> buf) \<Rightarrow> nat list \<Rightarrow> bool" where
  "lru B xs \<longleftrightarrow> dll (\<lambda>i. b_next (B i)) (\<lambda>i. b_prev (B i)) BHEAD xs \<and> set xs = {..<NBUF}"

definition buf_ok :: "medium \<Rightarrow> buf \<Rightarrow> bool" where
  "buf_ok m x \<longleftrightarrow>
     length (b_data x) = BSIZE \<and> (b_dev x = 0 \<or> b_dev x = ROOTDEV \<and> unat (b_blockno x) < 2 ^ 31) \<and>
     (b_valid x \<and> b_dev x = ROOTDEV \<and> b_refcnt x = 0 \<longrightarrow> b_data x = dblk m (b_blockno x))"

definition bc_wf :: "(nat \<Rightarrow> buf) \<Rightarrow> medium \<Rightarrow> bool" where
  "bc_wf B m \<longleftrightarrow> (\<exists>xs. lru B xs) \<and> (\<forall>i<NBUF. buf_ok m (B i)) \<and>
     (\<forall>i<NBUF. \<forall>j<NBUF. \<forall>bn. bkey (B i) bn \<and> bkey (B j) bn \<longrightarrow> i = j) \<and> (\<forall>sec. length (m sec) = 512)"

definition bc_inv :: "'a dkst_scheme \<Rightarrow> bool" where
  "bc_inv s \<longleftrightarrow> vq_idle s \<and> virtio_blk (vdev s) \<and> held s = {} \<and> cur s < NPROC \<and> bc_wf (bufs s) (medium s)"

text \<open>The contents of the disk as the cache presents them: a valid buffer hides the block on the medium.\<close>

definition bview :: "'a dkst_scheme \<Rightarrow> u32 \<Rightarrow> block" where
  "bview s bn = (case find (\<lambda>i. bkey (bufs s i) bn \<and> b_valid (bufs s i)) [0..<NBUF] of
     Some i \<Rightarrow> b_data (bufs s i) | None \<Rightarrow> dblk (medium s) bn)"

lemma bview_same:
  assumes "\<And>i x. bkey (bufs t i) x = bkey (bufs s i) x" "\<And>i. b_valid (bufs t i) = b_valid (bufs s i)" "\<And>i. b_data (bufs t i) = b_data (bufs s i)"
    "medium t = medium s"
  shows "bview t = bview s"
  by (rule ext) (simp only: bview_def assms)

lemma bview_cong: "bufs t = bufs s \<Longrightarrow> medium t = medium s \<Longrightarrow> bview t = bview s"
  by (rule bview_same) simp_all

lemma bc_wf_uniq: "bc_wf B m \<Longrightarrow> i < NBUF \<Longrightarrow> j < NBUF \<Longrightarrow> bkey (B i) bn \<Longrightarrow> bkey (B j) bn \<Longrightarrow> i = j"
  unfolding bc_wf_def by blast

lemma bview_cached:
  assumes "bc_wf (bufs s) (medium s)" "i < NBUF" "bkey (bufs s i) bn" "b_valid (bufs s i)"
  shows "bview s bn = b_data (bufs s i)"
proof -
  obtain j where j: "find (\<lambda>i. bkey (bufs s i) bn \<and> b_valid (bufs s i)) [0..<NBUF] = Some j"
    using assms(2-4) by (cases "find (\<lambda>i. bkey (bufs s i) bn \<and> b_valid (bufs s i)) [0..<NBUF]") (auto simp: find_None_iff)
  then have "j < NBUF" "bkey (bufs s j) bn" by (auto simp: find_Some_iff)
  then have "j = i" using bc_wf_uniq [OF assms(1) _ assms(2) _ assms(3)] by blast
  then show ?thesis using j by (simp add: bview_def)
qed

lemma bview_uncached:
  assumes "\<And>i. i < NBUF \<Longrightarrow> bkey (bufs s i) bn \<Longrightarrow> \<not> b_valid (bufs s i)"
  shows "bview s bn = dblk (medium s) bn"
proof -
  have "find (\<lambda>i. bkey (bufs s i) bn \<and> b_valid (bufs s i)) [0..<NBUF] = None" using assms by (auto simp: find_None_iff)
  then show ?thesis by (simp add: bview_def)
qed

text \<open>Buffers up to their links.\<close>

definition bcore :: "buf \<Rightarrow> buf" where
  "bcore x = x\<lparr>b_prev := 0, b_next := 0\<rparr>"

lemma bcoreD:
  assumes "bcore x = bcore y"
  shows "b_valid x = b_valid y" "b_disk x = b_disk y" "b_dev x = b_dev y" "b_blockno x = b_blockno y" "b_refcnt x = b_refcnt y"
    "b_data x = b_data y" "bkey x bn = bkey y bn"
  using assms by (cases x; cases y; simp add: bcore_def bkey_def)+

lemma bcore_links [simp]: "bcore (x\<lparr>b_prev := p\<rparr>) = bcore x" "bcore (x\<lparr>b_next := p\<rparr>) = bcore x"
  by (simp_all add: bcore_def)

section \<open>The searches\<close>

lemma bget_cached_seg:
  assumes "seg (\<lambda>i. b_next (bufs s i)) pv a xs BHEAD" "BHEAD \<notin> set xs" "length xs < n"
  shows "bget_cached n (b_next (bufs s a)) dev bn s = Inr (find (\<lambda>i. b_dev (bufs s i) = dev \<and> b_blockno (bufs s i) = bn) xs)"
  using assms
proof (induction xs arbitrary: a n)
  case Nil then show ?case by (cases n) auto
next
  case (Cons x xs)
  then show ?case by (cases n) auto
qed

lemma bget_unused_seg:
  assumes "seg nx (\<lambda>i. b_prev (bufs s i)) BHEAD xs b" "BHEAD \<notin> set xs" "length xs < n"
  shows "bget_unused n (b_prev (bufs s b)) s = Inr (find (\<lambda>i. b_refcnt (bufs s i) = 0) (rev xs))"
  using assms
proof (induction xs arbitrary: b n rule: rev_induct)
  case Nil then show ?case by (cases n) auto
next
  case (snoc x xs)
  then show ?case by (cases n) (auto simp: seg_append)
qed

lemma lru_length:
  assumes "lru B xs"
  shows "length xs = NBUF" "BHEAD \<notin> set xs"
proof -
  have "distinct xs" "set xs = {..<NBUF}" using assms by (auto simp: lru_def dll_def)
  then show "length xs = NBUF" "BHEAD \<notin> set xs" by (simp_all flip: distinct_card)
qed

lemma bget_cached_lru:
  assumes "lru (bufs s) xs"
  shows "bget_cached (NBUF + 1) (b_next (bufs s BHEAD)) dev bn s = Inr (find (\<lambda>i. b_dev (bufs s i) = dev \<and> b_blockno (bufs s i) = bn) xs)"
proof (rule bget_cached_seg)
  show "seg (\<lambda>i. b_next (bufs s i)) (\<lambda>i. b_prev (bufs s i)) BHEAD xs BHEAD" using assms by (simp add: lru_def dll_def)
qed (use lru_length [OF assms] in auto)

lemma bget_unused_lru:
  assumes "lru (bufs s) xs"
  shows "bget_unused (NBUF + 1) (b_prev (bufs s BHEAD)) s = Inr (find (\<lambda>i. b_refcnt (bufs s i) = 0) (rev xs))"
proof (rule bget_unused_seg)
  show "seg (\<lambda>i. b_next (bufs s i)) (\<lambda>i. b_prev (bufs s i)) BHEAD xs BHEAD" using assms by (simp add: lru_def dll_def)
qed (use lru_length [OF assms] in auto)

lemma links_simps [simp]:
  "b_next (set_prev j v B i) = b_next (B i)" "b_prev (set_next j v B i) = b_prev (B i)"
  "b_next (set_next j v B i) = (if i = j then v else b_next (B i))" "b_prev (set_prev j v B i) = (if i = j then v else b_prev (B i))"
  "bcore (set_prev j v B i) = bcore (B i)" "bcore (set_next j v B i) = bcore (B i)"
  by (simp_all add: set_prev_def set_next_def)

lemma push_front_core [simp]: "bcore (push_front b B i) = bcore (B i)"
  by (simp add: push_front_def Let_def)

lemma brelse_front_core [simp]: "bcore (brelse_front b B i) = bcore (B i)"
  by (simp add: brelse_front_def Let_def)

lemma push_front_dll:
  assumes "dll (\<lambda>i. b_next (B i)) (\<lambda>i. b_prev (B i)) BHEAD xs" "b \<noteq> BHEAD" "b \<notin> set xs"
  shows "dll (\<lambda>i. b_next (push_front b B i)) (\<lambda>i. b_prev (push_front b B i)) BHEAD (b # xs)"
proof -
  let ?nx = "\<lambda>i. b_next (B i)" and ?pv = "\<lambda>i. b_prev (B i)"
  have "(\<lambda>i. b_next (push_front b B i)) = ?nx(b := ?nx BHEAD, BHEAD := b)"
    "(\<lambda>i. b_prev (push_front b B i)) = (?pv(b := BHEAD))(?nx BHEAD := b)"
    using assms(2) by (auto simp: push_front_def Let_def fun_eq_iff)
  then show ?thesis using dll_front [OF assms] by simp
qed

text \<open>\<open>brelse\<close> moves the buffer to the front of the list and leaves the rest of the buffers alone.\<close>

lemma brelse_front_lru:
  assumes "lru B (xs @ b # ys)"
  shows "lru (brelse_front b B) (b # xs @ ys)"
proof -
  let ?nx = "\<lambda>i. b_next (B i)" and ?pv = "\<lambda>i. b_prev (B i)"
  have d: "dll ?nx ?pv BHEAD (xs @ b # ys)" using assms by (simp add: lru_def)
  note nb = dll_neighbours(3-5) [OF d]
  let ?B1 = "set_prev (b_next (B b)) (b_prev (B b)) B"
  let ?B2 = "set_next (b_prev (?B1 b)) (b_next (?B1 b)) ?B1"
  have "(\<lambda>i. b_next (?B2 i)) = ?nx(?pv b := ?nx b)" "(\<lambda>i. b_prev (?B2 i)) = ?pv(?nx b := ?pv b)"
    using nb by (auto simp: fun_eq_iff)
  then have "dll (\<lambda>i. b_next (?B2 i)) (\<lambda>i. b_prev (?B2 i)) BHEAD (xs @ ys)" using dll_remove [OF d] by simp
  from push_front_dll [OF this, of b] have "dll (\<lambda>i. b_next (brelse_front b B i)) (\<lambda>i. b_prev (brelse_front b B i)) BHEAD (b # xs @ ys)"
    using d by (simp add: brelse_front_def Let_def dll_def)
  then show ?thesis using assms by (simp add: lru_def)
qed

section \<open>Frames\<close>

text \<open>What a cache operation may change: buffers, their sleep locks, the driver's state, the medium and the scheduling state of
  processes.\<close>

definition dk_frame :: "'a dkst_scheme \<Rightarrow> 'a dkst_scheme \<Rightarrow> bool" where
  "dk_frame s t \<longleftrightarrow> procs_like s t \<and> (\<exists>P L B q f u ib m mh w. t = s\<lparr>procs := P, slocks := L, bufs := B, vq := q, vq_free := f, used_idx := u,
     info_b := ib, medium := m, mhist := mh, mmiow := w\<rparr>) \<and> (\<forall>i. slocks t (SlInode i) = slocks s (SlInode i))"

lemma dk_frame_refl [simp]: "dk_frame s s"
proof -
  have "s = s\<lparr>procs := procs s, slocks := slocks s, bufs := bufs s, vq := vq s, vq_free := vq_free s, used_idx := used_idx s,
     info_b := info_b s, medium := medium s, mhist := mhist s, mmiow := mmiow s\<rparr>" by simp
  then have "\<exists>P L B q f u ib m mh w. s = s\<lparr>procs := P, slocks := L, bufs := B, vq := q, vq_free := f, used_idx := u,
     info_b := ib, medium := m, mhist := mh, mmiow := w\<rparr>" by (intro exI)
  then show ?thesis unfolding dk_frame_def by simp
qed

lemma dk_frame_trans [trans]: "dk_frame s t \<Longrightarrow> dk_frame t u \<Longrightarrow> dk_frame s u"
  unfolding dk_frame_def
proof (elim conjE exE, intro conjI)
  fix P L B q f v ib m mh w P' L' B' q' f' v' ib' m' mh' w'
  assume t: "t = s\<lparr>procs := P, slocks := L, bufs := B, vq := q, vq_free := f, used_idx := v, info_b := ib, medium := m, mhist := mh, mmiow := w\<rparr>"
    and u: "u = t\<lparr>procs := P', slocks := L', bufs := B', vq := q', vq_free := f', used_idx := v', info_b := ib', medium := m', mhist := mh', mmiow := w'\<rparr>"
  have "u = s\<lparr>procs := P', slocks := L', bufs := B', vq := q', vq_free := f', used_idx := v', info_b := ib', medium := m', mhist := mh', mmiow := w'\<rparr>"
    unfolding u t by simp
  then show "\<exists>P L B q f v ib m mh w. u = s\<lparr>procs := P, slocks := L, bufs := B, vq := q, vq_free := f, used_idx := v, info_b := ib, medium := m, mhist := mh, mmiow := w\<rparr>"
    by blast
qed (auto intro: procs_like_trans)

lemma dk_frameD:
  assumes "dk_frame s t"
  shows "held t = held s" "cur t = cur s" "initproc t = initproc s" "nextpid t = nextpid s" "ticks t = ticks s" "mem t = mem s"
    "freelist t = freelist s" "pageref t = pageref s" "kend t = kend s" "kernel_pagetable t = kernel_pagetable s" "etext t = etext s"
    "trampoline t = trampoline s" "vdev t = vdev s" "mmio t = mmio s" "dkst.more t = dkst.more s" "procs_like s t"
    "slocks t (SlInode i) = slocks s (SlInode i)"
  using assms by (auto simp: dk_frame_def)


text \<open>A state that differs from \<open>s\<close> in buffers and locks only, and from it by the links of buffers.\<close>

lemma dk_frameI:
  assumes "t = s\<lparr>procs := P, slocks := L, bufs := B, vq := q, vq_free := f, used_idx := u, info_b := ib, medium := m, mhist := mh, mmiow := w\<rparr>"
    "\<And>i. pcore (P i) = pcore (procs s i)" "\<And>i. L (SlInode i) = slocks s (SlInode i)"
  shows "dk_frame s t"
proof -
  have "\<exists>P L B q f u ib m mh w. t = s\<lparr>procs := P, slocks := L, bufs := B, vq := q, vq_free := f, used_idx := u, info_b := ib, medium := m, mhist := mh, mmiow := w\<rparr>"
    using assms(1) by (intro exI)
  moreover have "procs_like s t" using assms(1,2) by (simp add: procs_like_def)
  ultimately show ?thesis using assms(1,3) by (simp add: dk_frame_def)
qed

lemma dk_frame_bufs:
  "(\<And>i. L (SlInode i) = slocks s (SlInode i)) \<Longrightarrow> dk_frame s (s\<lparr>bufs := B, slocks := L\<rparr>)"
  "dk_frame s (s\<lparr>bufs := B\<rparr>)"
  by (rule dk_frameI [where P = "procs s" and B = B and q = "vq s" and f = "vq_free s" and u = "used_idx s" and ib = "info_b s" and m = "medium s"
    and mh = "mhist s" and w = "mmiow s" and L = L], simp, simp, simp)
    (rule dk_frameI [where P = "procs s" and B = B and q = "vq s" and f = "vq_free s" and u = "used_idx s" and ib = "info_b s" and m = "medium s"
    and mh = "mhist s" and w = "mmiow s" and L = "slocks s"], simp_all)

section \<open>Operations on a well-formed cache\<close>

lemma lru_core:
  assumes "lru B xs" "\<And>i. b_next (B' i) = b_next (B i)" "\<And>i. b_prev (B' i) = b_prev (B i)"
  shows "lru B' xs"
  using assms by (simp add: lru_def)

text \<open>Changing one buffer.\<close>

lemma bc_wf_upd:
  assumes "bc_wf B m" "\<And>i. b_next (B' i) = b_next (B i)" "\<And>i. b_prev (B' i) = b_prev (B i)"
    "\<And>i. i < NBUF \<Longrightarrow> i \<noteq> b \<Longrightarrow> B' i = B i" "buf_ok m (B' b)"
    "\<And>i bn. i < NBUF \<Longrightarrow> i \<noteq> b \<Longrightarrow> bkey (B' b) bn \<Longrightarrow> \<not> bkey (B i) bn"
  shows "bc_wf B' m"
  unfolding bc_wf_def
proof (intro conjI allI impI)
  show "\<exists>xs. lru B' xs" using assms(1-3) lru_core unfolding bc_wf_def by metis
  show "buf_ok m (B' i)" if "i < NBUF" for i
    using assms(1,4,5) that by (cases "i = b") (auto simp: bc_wf_def buf_ok_def)
  show "i = j" if "i < NBUF" "j < NBUF" "bkey (B' i) bn \<and> bkey (B' j) bn" for i j bn
    using assms(1,4,6) that unfolding bc_wf_def by (cases "i = b"; cases "j = b") metis+
  show "length (m sec) = 512" for sec using assms(1) by (simp add: bc_wf_def)
qed

lemma bview_iff:
  assumes "bc_wf (bufs s) (medium s)"
  shows "bview s bn = d \<longleftrightarrow> (\<forall>i<NBUF. bkey (bufs s i) bn \<longrightarrow> b_valid (bufs s i) \<longrightarrow> b_data (bufs s i) = d) \<and>
    ((\<forall>i<NBUF. bkey (bufs s i) bn \<longrightarrow> \<not> b_valid (bufs s i)) \<longrightarrow> dblk (medium s) bn = d)"
proof (cases "\<exists>i<NBUF. bkey (bufs s i) bn \<and> b_valid (bufs s i)")
  case True
  then obtain i where i: "i < NBUF" "bkey (bufs s i) bn" "b_valid (bufs s i)" by auto
  have "bview s bn = b_data (bufs s i)" by (rule bview_cached [OF assms i])
  moreover have "j = i" if "j < NBUF" "bkey (bufs s j) bn" for j using bc_wf_uniq [OF assms that(1) i(1) that(2) i(2)] .
  ultimately show ?thesis using i by metis
next
  case False
  then show ?thesis using bview_uncached [of s bn] by auto
qed

text \<open>What \<open>bget\<close> makes of the buffer it returns.\<close>

definition got_buf :: "u32 \<Rightarrow> buf \<Rightarrow> buf" where
  "got_buf bn x = (if bkey x bn then b_refcnt_update (\<lambda>n. n + 1) x
     else x\<lparr>b_dev := ROOTDEV, b_blockno := bn, b_valid := False, b_refcnt := 1\<rparr>)"

definition sl_take :: "nat \<Rightarrow> 'a slst_scheme \<Rightarrow> slid \<Rightarrow> sleeplock" where
  "sl_take b s = (slocks s)(SlBuf b := (slocks s (SlBuf b))\<lparr>sl_locked := True, sl_pid := p_pid (procs s (cur s))\<rparr>)"

lemma sl_take_simps [simp]:
  "sl_locked (sl_take b s (SlBuf b))" "i \<noteq> b \<Longrightarrow> sl_take b s (SlBuf i) = slocks s (SlBuf i)" "sl_take b s (SlInode j) = slocks s (SlInode j)"
  "sl_pid (sl_take b s (SlBuf b)) = p_pid (procs s (cur s))"
  by (simp_all add: sl_take_def)

lemma held_empty: "held s = {} \<Longrightarrow> s\<lparr>held := {}\<rparr> = s" for s :: "'a lockst_scheme"
  by (metis held_self)

lemma bget_cases:
  assumes h: "held s = {}" and l: "lru (bufs s) xs"
  shows "bget dev bn s =
    (case find (\<lambda>i. b_dev (bufs s i) = dev \<and> b_blockno (bufs s i) = bn) xs of
       Some b \<Rightarrow> bnd (acquiresleep (SlBuf b) (upd_buf b (b_refcnt_update (\<lambda>n. n + 1)) s)) (\<lambda>s. Inr (b, s))
     | None \<Rightarrow>
         (case find (\<lambda>i. b_refcnt (bufs s i) = 0) (rev xs) of
            Some b \<Rightarrow> bnd (acquiresleep (SlBuf b) (upd_buf b (\<lambda>x. x\<lparr>b_dev := dev, b_blockno := bn, b_valid := False, b_refcnt := 1\<rparr>) s))
                        (\<lambda>s. Inr (b, s))
          | None \<Rightarrow> Inl (Panic ''bget: no buffers'')))"
proof -
  let ?s = "s\<lparr>held := {LkBcache}\<rparr>"
  have l': "lru (bufs ?s) xs" using l by simp
  have r: "release LkBcache (upd_buf b f ?s) = Inr (upd_buf b f s)" for b f
    using h by (simp add: upd_buf_def)
  show ?thesis
    using h bget_cached_lru [OF l', of dev bn] bget_unused_lru [OF l']
    by (auto simp: bget_def r simp del: One_nat_def split: option.splits)
qed

lemma bget_ok:
  assumes inv: "bc_inv s"
    and free: "\<And>i. i < NBUF \<Longrightarrow> bkey (bufs s i) bn \<Longrightarrow> \<not> sl_locked (slocks s (SlBuf i))"
    and free0: "\<And>i. i < NBUF \<Longrightarrow> b_refcnt (bufs s i) = 0 \<Longrightarrow> \<not> sl_locked (slocks s (SlBuf i))"
    and avail: "(\<exists>i<NBUF. bkey (bufs s i) bn) \<or> (\<exists>i<NBUF. b_refcnt (bufs s i) = 0)"
  shows "\<exists>b<NBUF. (bkey (bufs s b) bn \<or> b_refcnt (bufs s b) = 0 \<and> (\<forall>i<NBUF. \<not> bkey (bufs s i) bn)) \<and>
    bget ROOTDEV bn s = Inr (b, s\<lparr>bufs := (bufs s)(b := got_buf bn (bufs s b)), slocks := sl_take b s\<rparr>)"
proof -
  obtain xs where xs: "lru (bufs s) xs" using inv by (auto simp: bc_inv_def bc_wf_def)
  then have set: "set xs = {..<NBUF}" by (simp add: lru_def)
  have h: "held s = {}" using inv by (simp add: bc_inv_def)
  have ok: "\<And>i. i < NBUF \<Longrightarrow> buf_ok (medium s) (bufs s i)" using inv by (simp add: bc_inv_def bc_wf_def)
  show ?thesis
  proof (cases "find (\<lambda>i. b_dev (bufs s i) = ROOTDEV \<and> b_blockno (bufs s i) = bn) xs")
    case (Some b)
    then have b: "b < NBUF" "bkey (bufs s b) bn" using set by (auto simp: find_Some_iff bkey_def)
    then show ?thesis using free [OF b] h
      by (intro exI [of _ b]) (simp add: bget_cases [OF h xs] Some acquiresleep_eq upd_buf_def got_buf_def sl_take_def)
  next
    case None
    then have no: "\<forall>i<NBUF. \<not> bkey (bufs s i) bn" using set by (auto simp: find_None_iff bkey_def)
    then obtain b where b: "find (\<lambda>i. b_refcnt (bufs s i) = 0) (rev xs) = Some b"
      using avail set by (cases "find (\<lambda>i. b_refcnt (bufs s i) = 0) (rev xs)") (auto simp: find_None_iff)
    then have "b \<in> set (rev xs)" and r: "b_refcnt (bufs s b) = 0" using nth_mem [of _ "rev xs"] by (auto simp: find_Some_iff)
    then have lt: "b < NBUF" using set by simp
    then have "\<not> sl_locked (slocks s (SlBuf b))" using free0 r by blast
    then show ?thesis using no r lt h
      by (intro exI [of _ b]) (simp add: bget_cases [OF h xs] None b acquiresleep_eq upd_buf_def got_buf_def sl_take_def)
  qed
qed

lemma bc_inv_wf: "bc_inv s \<Longrightarrow> bc_wf (bufs s) (medium s)"
  by (simp add: bc_inv_def)

lemma bc_inv_buf: "bc_inv s \<Longrightarrow> i < NBUF \<Longrightarrow> buf_ok (medium s) (bufs s i)"
  by (simp add: bc_inv_def bc_wf_def)

lemma got_buf_simps [simp]:
  "bkey (got_buf bn x) bn' \<longleftrightarrow> bn' = bn" "b_next (got_buf bn x) = b_next x" "b_prev (got_buf bn x) = b_prev x"
  "b_data (got_buf bn x) = b_data x" "b_valid (got_buf bn x) \<longleftrightarrow> bkey x bn \<and> b_valid x" "b_dev (got_buf bn x) = ROOTDEV"
  "b_blockno (got_buf bn x) = bn" "b_refcnt (got_buf bn x) = (if bkey x bn then b_refcnt x + 1 else 1)"
  by (auto simp: got_buf_def bkey_def)

lemma bget_keeps:
  assumes inv: "bc_inv s" and b: "b < NBUF" "bkey (bufs s b) bn \<or> b_refcnt (bufs s b) = 0 \<and> (\<forall>i<NBUF. \<not> bkey (bufs s i) bn)"
    and bn: "unat bn < 2 ^ 31" and rc: "b_refcnt (bufs s b) + 1 \<noteq> 0"
  shows "bc_inv (s\<lparr>bufs := (bufs s)(b := got_buf bn (bufs s b)), slocks := sl_take b s\<rparr>)" (is "bc_inv ?t")
    "bview (s\<lparr>bufs := (bufs s)(b := got_buf bn (bufs s b)), slocks := sl_take b s\<rparr>) bn' = bview s bn'"
proof -
  have w: "bc_wf (bufs s) (medium s)" and ok: "buf_ok (medium s) (bufs s b)"
    using bc_inv_wf [OF inv] bc_inv_buf [OF inv b(1)] .
  have "bc_wf ((bufs s)(b := got_buf bn (bufs s b))) (medium s)"
  proof (rule bc_wf_upd [OF w, where b = b])
    show "\<not> bkey (bufs s i) bn'" if "i < NBUF" "i \<noteq> b" "bkey (((bufs s)(b := got_buf bn (bufs s b))) b) bn'" for i bn'
      using b(2) that bc_wf_uniq [OF w that(1) b(1)] by auto
  qed (use ok bn rc in \<open>auto simp: buf_ok_def\<close>)
  then have w': "bc_wf (bufs ?t) (medium ?t)" by simp
  show "bc_inv ?t" using inv w' by (simp add: bc_inv_def vq_idle_def)
  have v: "bview s bn' = d \<longleftrightarrow> (\<forall>i<NBUF. bkey (bufs s i) bn' \<longrightarrow> b_valid (bufs s i) \<longrightarrow> b_data (bufs s i) = d) \<and>
    ((\<forall>i<NBUF. bkey (bufs s i) bn' \<longrightarrow> \<not> b_valid (bufs s i)) \<longrightarrow> dblk (medium s) bn' = d)" for d by (rule bview_iff [OF w])
  have key: "bkey (bufs s b) bn'' \<Longrightarrow> bn'' \<noteq> bn \<Longrightarrow> b_refcnt (bufs s b) = 0 \<and> b_blockno (bufs s b) = bn'' \<and> b_dev (bufs s b) = ROOTDEV" for bn''
    using b(2) by (auto simp: bkey_def)
  show "bview ?t bn' = bview s bn'"
  proof (subst bview_iff [OF w'], intro conjI allI impI)
    fix i assume i: "i < NBUF" "bkey (bufs ?t i) bn'" "b_valid (bufs ?t i)"
    then have "bkey (bufs s i) bn'" "b_valid (bufs s i)" by (auto split: if_splits)
    then show "b_data (bufs ?t i) = bview s bn'" using bview_cached [OF w i(1)] by (auto split: if_splits)
  next
    assume n: "\<forall>i<NBUF. bkey (bufs ?t i) bn' \<longrightarrow> \<not> b_valid (bufs ?t i)"
    show "dblk (medium ?t) bn' = bview s bn'"
    proof (cases "\<exists>i<NBUF. bkey (bufs s i) bn' \<and> b_valid (bufs s i)")
      case True
      then obtain i where i: "i < NBUF" "bkey (bufs s i) bn'" "b_valid (bufs s i)" by auto
      then have "i = b" "bn' \<noteq> bn" using n by (auto split: if_splits)
      then have "b_data (bufs s b) = dblk (medium s) bn'" using key [of bn'] i ok by (auto simp: buf_ok_def)
      then show ?thesis using bview_cached [OF w i] \<open>i = b\<close> by simp
    next
      case False
      then show ?thesis using bview_uncached [of s bn'] by auto
    qed
  qed
qed

text \<open>A buffer with the block in it: its data are the view of the block.\<close>

definition buf_has :: "'a dkst_scheme \<Rightarrow> nat \<Rightarrow> u32 \<Rightarrow> bool" where
  "buf_has s b bn \<longleftrightarrow> b < NBUF \<and> bkey (bufs s b) bn \<and> b_valid (bufs s b) \<and> has_sleep (SlBuf b) s"

lemma buf_has_view: "bc_inv s \<Longrightarrow> buf_has s b bn \<Longrightarrow> b_data (bufs s b) = bview s bn"
  using bview_cached [OF bc_inv_wf, of s b bn] by (simp add: buf_has_def)

text \<open>Reading a block into a buffer whose data are not valid.\<close>

lemma fill_keeps:
  assumes inv: "bc_inv s" and b: "b < NBUF" "bkey (bufs s b) bn" "\<not> b_valid (bufs s b)" "b_refcnt (bufs s b) \<noteq> 0"
    and t: "t = s\<lparr>bufs := (bufs s)(b := (bufs s b)\<lparr>b_disk := d, b_data := dblk (medium s) bn, b_valid := True\<rparr>)\<rparr>"
  shows "bc_wf (bufs t) (medium t)" "bview t bn' = bview s bn'"
proof -
  have w: "bc_wf (bufs s) (medium s)" and ok: "buf_ok (medium s) (bufs s b)"
    using bc_inv_wf [OF inv] bc_inv_buf [OF inv b(1)] .
  have len: "length (dblk (medium s) bn) = BSIZE" using w by (simp add: bc_wf_def dblk_def)
  have "bc_wf ((bufs s)(b := (bufs s b)\<lparr>b_disk := d, b_data := dblk (medium s) bn, b_valid := True\<rparr>)) (medium s)"
  proof (rule bc_wf_upd [OF w, where b = b])
    fix i bn' assume "i < NBUF" "i \<noteq> b" "bkey (((bufs s)(b := (bufs s b)\<lparr>b_disk := d, b_data := dblk (medium s) bn, b_valid := True\<rparr>)) b) bn'"
    then show "\<not> bkey (bufs s i) bn'" using bc_wf_uniq [OF w _ b(1), of i bn'] by (auto simp: bkey_def)
  qed (use ok b len in \<open>auto simp: buf_ok_def bkey_def\<close>)
  then show w': "bc_wf (bufs t) (medium t)" by (simp add: t)
  have k: "bkey (bufs t i) x \<longleftrightarrow> bkey (bufs s i) x" for i x by (simp add: t bkey_def)
  show "bview t bn' = bview s bn'"
  proof (subst bview_iff [OF w'], intro conjI allI impI)
    fix i assume i: "i < NBUF" "bkey (bufs t i) bn'" "b_valid (bufs t i)"
    show "b_data (bufs t i) = bview s bn'"
    proof (cases "i = b")
      case True
      then have "bn' = bn" using i b(2) unfolding k by (simp add: bkey_def)
      moreover have "bview s bn = dblk (medium s) bn"
        by (rule bview_uncached) (use b bc_wf_uniq [OF w _ b(1) _ b(2)] in auto)
      ultimately show ?thesis using True by (simp add: t)
    next
      case False
      then show ?thesis using i bview_cached [OF w i(1), of bn'] unfolding k by (simp add: t)
    qed
  next
    assume n: "\<forall>i<NBUF. bkey (bufs t i) bn' \<longrightarrow> \<not> b_valid (bufs t i)"
    have "\<not> b_valid (bufs s i)" if "i < NBUF" "bkey (bufs s i) bn'" for i using n that b k [of i bn'] by (cases "i = b") (auto simp: t)
    then show "dblk (medium t) bn' = bview s bn'" using bview_uncached [of s bn'] by (simp add: t)
  qed
qed

text \<open>The driver on the cache's states.\<close>

lemma disk_rw_bc:
  assumes "bc_inv s" "b < NBUF" "bkey (bufs s b) bn"
  shows "\<exists>q u ib w f. virtio_disk_rw b write s = Inr (s\<lparr>procs := rw_procs (cur s) b (procs s),
    bufs := (bufs s)(b := (bufs s b)\<lparr>b_disk := False, b_data := (if write then b_data (bufs s b) else dblk (medium s) bn)\<rparr>),
    vq := q, vq_free := f, used_idx := u, info_b := ib, medium := (if write then set_dblk bn (b_data (bufs s b)) (medium s) else medium s),
    mhist := mhist s @ [if write then set_dblk bn (b_data (bufs s b)) (medium s) else medium s], mmiow := w\<rparr>)
    \<and> (\<forall>P L B m mh. vq_idle (s\<lparr>procs := P, slocks := L, bufs := B, vq := q, vq_free := f, used_idx := u, info_b := ib, medium := m, mhist := mh, mmiow := w\<rparr>))"
proof -
  have i: "vq_idle s" "virtio_blk (vdev s)" "held s = {}" "cur s < NPROC" and ok: "buf_ok (medium s) (bufs s b)"
    using assms(1) bc_inv_buf [OF assms(1,2)] by (simp_all add: bc_inv_def)
  have bn: "b_blockno (bufs s b) = bn" "unat (b_blockno (bufs s b)) < 2 ^ 31" using assms(3) ok by (auto simp: bkey_def buf_ok_def)
  from virtio_disk_rw_eq [OF i bn(2), of "write", unfolded bn(1)]
  obtain t where r: "virtio_disk_rw b write s = Inr t" and it: "vq_idle t" and t: "t = s\<lparr>vq := vq t, used_idx := used_idx t, info_b := info_b t,
      mmiow := mmiow t, procs := rw_procs (cur s) b (procs s), vq_free := vq_free t,
      medium := (if write then set_dblk bn (b_data (bufs s b)) (medium s) else medium s),
      mhist := mhist s @ [if write then set_dblk bn (b_data (bufs s b)) (medium s) else medium s],
      bufs := (bufs s)(b := (bufs s b)\<lparr>b_disk := False, b_data := (if write then b_data (bufs s b) else dblk (medium s) bn)\<rparr>)\<rparr>" by blast
  have "virtio_disk_rw b write s = Inr (s\<lparr>procs := rw_procs (cur s) b (procs s),
    bufs := (bufs s)(b := (bufs s b)\<lparr>b_disk := False, b_data := (if write then b_data (bufs s b) else dblk (medium s) bn)\<rparr>),
    vq := vq t, vq_free := vq_free t, used_idx := used_idx t, info_b := info_b t,
    medium := (if write then set_dblk bn (b_data (bufs s b)) (medium s) else medium s),
    mhist := mhist s @ [if write then set_dblk bn (b_data (bufs s b)) (medium s) else medium s], mmiow := mmiow t\<rparr>)"
    unfolding r by (subst t) simp
  then show ?thesis using it by (intro exI conjI) (assumption, simp add: vq_idle_def)
qed

definition bread_post :: "'a dkst_scheme \<Rightarrow> u32 \<Rightarrow> nat \<Rightarrow> 'a dkst_scheme \<Rightarrow> bool" where
  "bread_post s bn b t \<longleftrightarrow> bc_inv t \<and> buf_has t b bn \<and> bview t = bview s \<and> dk_frame s t \<and> medium t = medium s \<and>
     set (mhist t) \<subseteq> insert (medium s) (set (mhist s)) \<and> set (mhist s) \<subseteq> set (mhist t) \<and> slocks t = sl_take b s \<and> (\<forall>i. i \<noteq> b \<longrightarrow> bufs t i = bufs s i) \<and> b_refcnt (bufs t b) = b_refcnt (bufs s b) + 1 \<and>
     (bkey (bufs s b) bn \<or> b_refcnt (bufs s b) = 0 \<and> (\<forall>i<NBUF. \<not> bkey (bufs s i) bn))"

lemma has_sleep_take [simp]:
  "has_sleep (SlBuf b) (s\<lparr>bufs := B, slocks := sl_take b s\<rparr>)"
  by (simp add: has_sleep_def)

lemma bread_ok:
  assumes inv: "bc_inv s" and bn: "unat bn < 2 ^ 31"
    and free: "\<And>i. i < NBUF \<Longrightarrow> bkey (bufs s i) bn \<Longrightarrow> \<not> sl_locked (slocks s (SlBuf i)) \<and> b_refcnt (bufs s i) + 1 \<noteq> 0"
    and free0: "\<And>i. i < NBUF \<Longrightarrow> b_refcnt (bufs s i) = 0 \<Longrightarrow> \<not> sl_locked (slocks s (SlBuf i))"
    and avail: "(\<exists>i<NBUF. bkey (bufs s i) bn) \<or> (\<exists>i<NBUF. b_refcnt (bufs s i) = 0)"
  shows "\<exists>b t. bread ROOTDEV bn s = Inr (b, t) \<and> bread_post s bn b t"
proof -
  obtain b where b: "b < NBUF" "bkey (bufs s b) bn \<or> b_refcnt (bufs s b) = 0 \<and> (\<forall>i<NBUF. \<not> bkey (bufs s i) bn)"
    and g: "bget ROOTDEV bn s = Inr (b, s\<lparr>bufs := (bufs s)(b := got_buf bn (bufs s b)), slocks := sl_take b s\<rparr>)"
    using bget_ok [OF inv _ free0 avail] free by blast
  have rc: "b_refcnt (bufs s b) + 1 \<noteq> 0" using b free by auto
  define s1 where "s1 = s\<lparr>bufs := (bufs s)(b := got_buf bn (bufs s b)), slocks := sl_take b s\<rparr>"
  note k = bget_keeps [OF inv b bn rc, folded s1_def]
  have s1: "bkey (bufs s1 b) bn" "b_refcnt (bufs s1 b) = b_refcnt (bufs s b) + 1" "slocks s1 = sl_take b s" "medium s1 = medium s"
    "has_sleep (SlBuf b) s1" "i \<noteq> b \<Longrightarrow> bufs s1 i = bufs s i" "b_blockno (bufs s1 b) = bn" "mhist s1 = mhist s" for i
    using b by (auto simp: s1_def)
  have f: "dk_frame s s1" unfolding s1_def by (rule dk_frame_bufs) simp
  show ?thesis
  proof (cases "b_valid (bufs s1 b)")
    case True
    then have "bread ROOTDEV bn s = Inr (b, s1)" by (simp add: bread_def g flip: s1_def)
    moreover have "bread_post s bn b s1" using k f s1 True b by (simp add: bread_post_def buf_has_def fun_eq_iff subset_insertI)
    ultimately show ?thesis by blast
  next
    case False
    from disk_rw_bc [OF k(1) b(1) s1(1), of False] obtain q ui ib w fr
      where r: "virtio_disk_rw b False s1 = Inr (s1\<lparr>procs := rw_procs (cur s1) b (procs s1),
        bufs := (bufs s1)(b := (bufs s1 b)\<lparr>b_disk := False, b_data := dblk (medium s1) bn\<rparr>),
        vq := q, vq_free := fr, used_idx := ui, info_b := ib, medium := medium s1, mhist := mhist s1 @ [medium s1], mmiow := w\<rparr>)"
      and i2: "\<And>P L B m mh. vq_idle (s1\<lparr>procs := P, slocks := L, bufs := B, vq := q, vq_free := fr, used_idx := ui, info_b := ib, medium := m, mhist := mh, mmiow := w\<rparr>)"
      unfolding if_False by blast
    define u where "u = s1\<lparr>bufs := (bufs s1)(b := (bufs s1 b)\<lparr>b_disk := False, b_data := dblk (medium s1) bn, b_valid := True\<rparr>)\<rparr>"
    define t where "t = s1\<lparr>procs := rw_procs (cur s1) b (procs s1), slocks := slocks s1, bufs := bufs u,
      vq := q, vq_free := fr, used_idx := ui, info_b := ib, medium := medium s1, mhist := mhist s1 @ [medium s1], mmiow := w\<rparr>"
    note fk = fill_keeps [OF k(1) b(1) s1(1) False _ u_def]
    have rc1: "b_refcnt (bufs s1 b) \<noteq> 0" using rc s1(2) by simp
    have tb: "bufs t = bufs u" "medium t = medium s1" by (simp_all add: t_def)
    have tm: "medium t = medium s1" "slocks t = slocks s1" "held t = held s1" "cur t = cur s1" "vdev t = vdev s1"
       "procs t = rw_procs (cur s1) b (procs s1)" by (simp_all add: t_def)
    have v: "bview t = bview u" by (rule bview_cong [OF tb(1)]) (simp add: tm u_def)
    have "bc_wf (bufs t) (medium t)" using fk(1) [OF rc1] by (simp add: tb tm) (simp add: u_def)
    moreover have "vq_idle t" unfolding t_def by (rule i2)
    ultimately have it: "bc_inv t" using k(1) tm by (simp add: bc_inv_def)
    have ft: "dk_frame s1 t" by (rule dk_frameI [OF t_def]) simp_all
    have eq: "upd_buf b (b_valid_update (\<lambda>_. True)) (s1\<lparr>procs := rw_procs (cur s1) b (procs s1),
        bufs := (bufs s1)(b := (bufs s1 b)\<lparr>b_disk := False, b_data := dblk (medium s1) bn\<rparr>),
        vq := q, vq_free := fr, used_idx := ui, info_b := ib, mhist := mhist s1 @ [medium s1], mmiow := w\<rparr>) = t"
      by (simp add: t_def u_def upd_buf_def)
    have "bread ROOTDEV bn s = Inr (b, t)" using False by (simp add: bread_def g r eq flip: s1_def)
    moreover have "bread_post s bn b t"
      unfolding bread_post_def buf_has_def
    proof (intro conjI allI impI)
      show "bc_inv t" by fact
      show "b < NBUF" by fact
      show "bkey (bufs t b) bn" using s1(1) by (simp add: tb u_def bkey_def)
      show "b_valid (bufs t b)" by (simp add: tb u_def)
      show "bview t = bview s" using v fk(2) [OF rc1] k(2) by (simp add: fun_eq_iff)
      show "dk_frame s t" by (rule dk_frame_trans [OF f ft])
      have "p_pid (procs t (cur t)) = p_pid (procs s1 (cur s1))" by (rule pcoreD(4)) (simp add: tm)
      then show "has_sleep (SlBuf b) t" using s1(5) unfolding has_sleep_def tm by simp
      show "medium t = medium s" using tm s1 by simp
      have "mhist t = mhist s @ [medium s]" by (simp add: t_def) (simp add: s1_def)
      then show "set (mhist t) \<subseteq> insert (medium s) (set (mhist s))" "set (mhist s) \<subseteq> set (mhist t)" by auto
      show "slocks t = sl_take b s" using tm s1 by simp
      show "bufs t i = bufs s i" if "i \<noteq> b" for i using that s1(6) by (simp add: tb u_def)
      show "b_refcnt (bufs t b) = b_refcnt (bufs s b) + 1" using s1(2) by (simp add: tb u_def)
      show "bkey (bufs s b) bn \<or> b_refcnt (bufs s b) = 0 \<and> (\<forall>i<NBUF. \<not> bkey (bufs s i) bn)" by fact
    qed
    ultimately show ?thesis by blast
  qed
qed

text \<open>Giving a buffer back.\<close>

definition sl_drop :: "nat \<Rightarrow> 'a slst_scheme \<Rightarrow> slid \<Rightarrow> sleeplock" where
  "sl_drop b s = (slocks s)(SlBuf b := (slocks s (SlBuf b))\<lparr>sl_locked := False, sl_pid := 0\<rparr>)"

lemma sl_drop_simps [simp]:
  "\<not> sl_locked (sl_drop b s (SlBuf b))" "i \<noteq> b \<Longrightarrow> sl_drop b s (SlBuf i) = slocks s (SlBuf i)" "sl_drop b s (SlInode j) = slocks s (SlInode j)"
  by (simp_all add: sl_drop_def)

definition brelse_post :: "'a dkst_scheme \<Rightarrow> nat \<Rightarrow> 'a dkst_scheme \<Rightarrow> bool" where
  "brelse_post s b t \<longleftrightarrow> bc_inv t \<and> bview t = bview s \<and> dk_frame s t \<and> medium t = medium s \<and> mhist t = mhist s \<and> slocks t = sl_drop b s \<and>
     (\<forall>i. i \<noteq> b \<longrightarrow> bcore (bufs t i) = bcore (bufs s i)) \<and> bcore (bufs t b) = bcore (b_refcnt_update (\<lambda>n. n - 1) (bufs s b))"

text \<open>Well-formedness and the view depend on the buffers only up to the links, apart from the list itself.\<close>

lemma bc_wf_core:
  assumes "bc_wf B m" "\<exists>xs. lru B' xs" "\<And>i. bcore (B' i) = bcore (B i)"
  shows "bc_wf B' m"
proof -
  note c = bcoreD [OF assms(3)]
  show ?thesis using assms(1,2) unfolding bc_wf_def buf_ok_def c by blast
qed

lemma bview_core: "(\<And>i. bcore (bufs t i) = bcore (bufs s i)) \<Longrightarrow> medium t = medium s \<Longrightarrow> bview t = bview s"
  by (rule bview_same) (use bcoreD in blast)+

lemma brelse_ok:
  assumes inv: "bc_inv s" and b: "buf_has s b bn" and rc: "b_refcnt (bufs s b) = 1 \<Longrightarrow> bview s bn = dblk (medium s) bn"
  shows "\<exists>t. brelse b s = Inr t \<and> brelse_post s b t"
proof -
  have i: "vq_idle s" "virtio_blk (vdev s)" "held s = {}" "cur s < NPROC" using inv by (simp_all add: bc_inv_def)
  have lt: "b < NBUF" and k: "bkey (bufs s b) bn" "b_valid (bufs s b)" and hs: "has_sleep (SlBuf b) s" using b by (auto simp: buf_has_def)
  have w: "bc_wf (bufs s) (medium s)" and ok: "buf_ok (medium s) (bufs s b)" using bc_inv_wf [OF inv] bc_inv_buf [OF inv lt] .
  define s1 where "s1 = s\<lparr>slocks := sl_drop b s, procs := wake_all (ChSleepLock (SlBuf b)) (procs s),
    bufs := (bufs s)(b := b_refcnt_update (\<lambda>n. n - 1) (bufs s b))\<rparr>"
  have w1: "bc_wf (bufs s1) (medium s1)"
  proof -
    have "bc_wf ((bufs s)(b := b_refcnt_update (\<lambda>n. n - 1) (bufs s b))) (medium s)"
    proof (rule bc_wf_upd [OF w, where b = b])
      show "\<not> bkey (bufs s i) bn'" if "i < NBUF" "i \<noteq> b" "bkey (((bufs s)(b := b_refcnt_update (\<lambda>n. n - 1) (bufs s b))) b) bn'" for i bn'
        using that bc_wf_uniq [OF w that(1) lt, of bn'] by (auto simp: bkey_def)
    qed (use ok k rc buf_has_view [OF inv b] in \<open>auto simp: buf_ok_def bkey_def\<close>)
    then show ?thesis by (simp add: s1_def)
  qed
  have v1: "bview s1 = bview s" by (rule bview_same) (simp_all add: s1_def bkey_def)
  define B where "B = (if b_refcnt (bufs s1 b) = 0 then brelse_front b (bufs s1) else bufs s1)"
  have B: "bcore (B i) = bcore (bufs s1 i)" for i by (simp add: B_def)
  have l: "\<exists>xs. lru B xs"
  proof -
    obtain zs where z: "lru (bufs s1) zs" using w1 by (auto simp: bc_wf_def)
    then have "b \<in> set zs" using lt by (simp add: lru_def)
    then obtain xs ys where "zs = xs @ b # ys" by (auto simp: in_set_conv_decomp)
    then show ?thesis using z brelse_front_lru [of "bufs s1" xs b ys] by (auto simp: B_def)
  qed
  define t where "t = s1\<lparr>bufs := B\<rparr>"
  have "no_proc_lock s" using i by (simp add: no_proc_lock_def)
  then have "brelse b s = Inr t" using i(3) hs
    by (simp add: brelse_def holdingsleep_eq releasesleep_eq Let_def t_def B_def s1_def upd_buf_def sl_drop_def held_empty)
  moreover have "brelse_post s b t"
    unfolding brelse_post_def
  proof (intro conjI allI impI)
    have "bc_wf B (medium s1)" by (rule bc_wf_core [OF w1 l B])
    then show "bc_inv t" using i by (simp add: bc_inv_def t_def s1_def vq_idle_def)
    show "bview t = bview s" unfolding v1 [symmetric] by (rule bview_core) (simp_all add: t_def B)
    show "dk_frame s t"
      by (rule dk_frameI [where P = "wake_all (ChSleepLock (SlBuf b)) (procs s)" and L = "sl_drop b s" and B = B and q = "vq s" and f = "vq_free s"
        and u = "used_idx s" and ib = "info_b s" and m = "medium s" and mh = "mhist s" and w = "mmiow s"]) (simp_all add: t_def s1_def)
    show "bcore (bufs t i) = bcore (bufs s i)" if "i \<noteq> b" for i using that by (simp add: t_def B) (simp add: s1_def)
    show "bcore (bufs t b) = bcore (b_refcnt_update (\<lambda>n. n - 1) (bufs s b))" by (simp add: t_def B) (simp add: s1_def)
  qed (simp_all add: t_def s1_def)
  ultimately show ?thesis by blast
qed

text \<open>Changing the data of a buffer one has: the view of that block changes, nothing else.\<close>

definition set_bdata :: "nat \<Rightarrow> block \<Rightarrow> 'a dkst_scheme \<Rightarrow> 'a dkst_scheme" where
  "set_bdata b d s = s\<lparr>bufs := (bufs s)(b := (bufs s b)\<lparr>b_data := d\<rparr>)\<rparr>"

lemma set_bdata_ok:
  assumes inv: "bc_inv s" and b: "buf_has s b bn" and rc: "b_refcnt (bufs s b) \<noteq> 0" and d: "length d = BSIZE"
  shows "bc_inv (set_bdata b d s)" "bview (set_bdata b d s) = (bview s)(bn := d)" "dk_frame s (set_bdata b d s)" "buf_has (set_bdata b d s) b bn"
proof -
  let ?t = "set_bdata b d s"
  have lt: "b < NBUF" and k: "bkey (bufs s b) bn" "b_valid (bufs s b)"
    using b by (auto simp: buf_has_def)
  have w: "bc_wf (bufs s) (medium s)" and ok: "buf_ok (medium s) (bufs s b)" using bc_inv_wf [OF inv] bc_inv_buf [OF inv lt] .
  have "bc_wf ((bufs s)(b := (bufs s b)\<lparr>b_data := d\<rparr>)) (medium s)"
  proof (rule bc_wf_upd [OF w, where b = b])
    show "\<not> bkey (bufs s i) bn'" if "i < NBUF" "i \<noteq> b" "bkey (((bufs s)(b := (bufs s b)\<lparr>b_data := d\<rparr>)) b) bn'" for i bn'
      using that bc_wf_uniq [OF w that(1) lt, of bn'] by (auto simp: bkey_def)
  qed (use ok rc d in \<open>auto simp: buf_ok_def\<close>)
  then have w': "bc_wf (bufs ?t) (medium ?t)" by (simp add: set_bdata_def)
  then show i': "bc_inv ?t" using inv by (simp add: bc_inv_def set_bdata_def vq_idle_def)
  show b': "buf_has ?t b bn" using b by (simp add: buf_has_def set_bdata_def bkey_def has_sleep_def)
  show "dk_frame s ?t" unfolding set_bdata_def by (rule dk_frame_bufs)
  show "bview ?t = (bview s)(bn := d)"
  proof
    fix x
    show "bview ?t x = ((bview s)(bn := d)) x"
    proof (cases "x = bn")
      case True then show ?thesis using buf_has_view [OF i' b'] by (simp add: set_bdata_def)
    next
      case False
      have kk: "bkey (bufs ?t i) x = bkey (bufs s i) x" "b_valid (bufs ?t i) = b_valid (bufs s i)"
        "bkey (bufs s i) x \<Longrightarrow> b_data (bufs ?t i) = b_data (bufs s i)" for i
        using False k by (auto simp: set_bdata_def bkey_def)
      have "bview ?t x = bview s x"
        by (subst bview_iff [OF w']) (use kk bview_iff [OF w, of x "bview s x"] in \<open>auto simp: set_bdata_def\<close>)
      then show ?thesis using False by simp
    qed
  qed
qed

definition bwrite_post :: "'a dkst_scheme \<Rightarrow> nat \<Rightarrow> u32 \<Rightarrow> 'a dkst_scheme \<Rightarrow> bool" where
  "bwrite_post s b bn t \<longleftrightarrow> bc_inv t \<and> bview t = bview s \<and> dk_frame s t \<and> medium t = set_dblk bn (bview s bn) (medium s) \<and>
     mhist t = mhist s @ [medium t] \<and> slocks t = slocks s \<and>
     buf_has t b bn \<and> (\<forall>i. i \<noteq> b \<longrightarrow> bufs t i = bufs s i) \<and> bufs t b = (bufs s b)\<lparr>b_disk := False\<rparr>"

lemma bwrite_ok:
  assumes inv: "bc_inv s" and b: "buf_has s b bn"
  shows "\<exists>t. bwrite b s = Inr t \<and> bwrite_post s b bn t"
proof -
  have lt: "b < NBUF" and k: "bkey (bufs s b) bn" "b_valid (bufs s b)" and hs: "has_sleep (SlBuf b) s"
    using b by (auto simp: buf_has_def)
  have h: "held s = {}" using inv by (simp add: bc_inv_def)
  have w: "bc_wf (bufs s) (medium s)" and ok: "buf_ok (medium s) (bufs s b)" using bc_inv_wf [OF inv] bc_inv_buf [OF inv lt] .
  let ?d = "b_data (bufs s b)" and ?B = "(bufs s)(b := (bufs s b)\<lparr>b_disk := False\<rparr>)"
  from disk_rw_bc [OF inv lt k(1), of True] obtain q ui ib wr fr
    where r: "virtio_disk_rw b True s = Inr (s\<lparr>procs := rw_procs (cur s) b (procs s),
        bufs := (bufs s)(b := (bufs s b)\<lparr>b_disk := False, b_data := ?d\<rparr>),
        vq := q, vq_free := fr, used_idx := ui, info_b := ib, medium := set_dblk bn ?d (medium s), mhist := mhist s @ [set_dblk bn ?d (medium s)], mmiow := wr\<rparr>)"
    and i2: "\<And>P L B m mh. vq_idle (s\<lparr>procs := P, slocks := L, bufs := B, vq := q, vq_free := fr, used_idx := ui, info_b := ib, medium := m, mhist := mh, mmiow := wr\<rparr>)"
    unfolding if_True by blast
  define t where "t = s\<lparr>procs := rw_procs (cur s) b (procs s), slocks := slocks s, bufs := ?B,
    vq := q, vq_free := fr, used_idx := ui, info_b := ib, medium := set_dblk bn ?d (medium s), mhist := mhist s @ [set_dblk bn ?d (medium s)], mmiow := wr\<rparr>"
  have e: "bwrite b s = Inr t" using hs h by (simp add: bwrite_def holdingsleep_eq r) (simp add: t_def)
  have len: "length (set_dblk bn ?d (medium s) sec) = 512" for sec
    using ok w by (auto simp: set_dblk_def buf_ok_def bc_wf_def)
  have w': "bc_wf (bufs t) (medium t)"
    unfolding bc_wf_def
  proof (intro conjI allI impI)
    obtain xs where "lru (bufs s) xs" using w by (auto simp: bc_wf_def)
    then have "lru (bufs t) xs" by (rule lru_core) (simp_all add: t_def)
    then show "\<exists>xs. lru (bufs t) xs" by blast
    show "buf_ok (medium t) (bufs t i)" if "i < NBUF" for i
    proof (cases "i = b")
      case True then show ?thesis using ok k by (auto simp: buf_ok_def t_def dblk_set bkey_def)
    next
      case False
      then have "\<not> bkey (bufs s i) bn" using bc_wf_uniq [OF w that lt _ k(1)] by blast
      then show ?thesis using False bc_inv_buf [OF inv that] by (auto simp: buf_ok_def t_def dblk_set bkey_def)
    qed
    show "i = j" if "i < NBUF" "j < NBUF" "bkey (bufs t i) x \<and> bkey (bufs t j) x" for i j x
    proof (rule bc_wf_uniq [OF w that(1,2)])
      show "bkey (bufs s i) x" "bkey (bufs s j) x" using that(3) by (auto simp: t_def bkey_def split: if_splits)
    qed
    show "length (medium t sec) = 512" for sec using len by (simp add: t_def)
  qed
  have v: "bview t = bview s"
  proof
    fix x
    have kk: "bkey (bufs t i) x = bkey (bufs s i) x" "b_valid (bufs t i) = b_valid (bufs s i)" "b_data (bufs t i) = b_data (bufs s i)" for i
      by (auto simp: t_def bkey_def)
    have m: "(\<forall>i<NBUF. bkey (bufs s i) x \<longrightarrow> \<not> b_valid (bufs s i)) \<Longrightarrow> dblk (medium t) x = dblk (medium s) x"
      using k lt by (auto simp: t_def dblk_set)
    show "bview t x = bview s x"
      by (subst bview_iff [OF w']) (use m bview_iff [OF w, of x "bview s x"] in \<open>simp add: kk\<close>)
  qed
  have "vq_idle t" unfolding t_def by (rule i2)
  then have it: "bc_inv t" using inv w' by (simp add: bc_inv_def t_def)
  have "dk_frame s t" by (rule dk_frameI [OF t_def]) simp_all
  moreover have "p_pid (procs t (cur t)) = p_pid (procs s (cur s))" by (rule pcoreD(4)) (simp add: t_def)
  ultimately have "bwrite_post s b bn t"
    using it v b buf_has_view [OF inv b] by (simp add: bwrite_post_def buf_has_def has_sleep_def) (simp add: t_def bkey_def)
  then show ?thesis using e by blast
qed

text \<open>Pinning.\<close>

lemma bpin_eq: "held s = {} \<Longrightarrow> bpin b s = Inr (upd_buf b (b_refcnt_update (\<lambda>n. n + 1)) s)"
  by (simp add: bpin_def upd_buf_def held_empty)

lemma bunpin_eq: "held s = {} \<Longrightarrow> bunpin b s = Inr (upd_buf b (b_refcnt_update (\<lambda>n. n - 1)) s)"
  by (simp add: bunpin_def upd_buf_def held_empty)

text \<open>Changing a reference count to a value that is allowed.\<close>

lemma set_rc_ok:
  assumes inv: "bc_inv s" and lt: "b < NBUF" and f: "f (b_refcnt (bufs s b)) \<noteq> 0 \<or>
    (b_valid (bufs s b) \<longrightarrow> b_dev (bufs s b) = ROOTDEV \<longrightarrow> b_data (bufs s b) = dblk (medium s) (b_blockno (bufs s b)))"
  shows "bc_inv (upd_buf b (b_refcnt_update f) s)" "bview (upd_buf b (b_refcnt_update f) s) = bview s" "dk_frame s (upd_buf b (b_refcnt_update f) s)"
proof -
  let ?t = "upd_buf b (b_refcnt_update f) s"
  have w: "bc_wf (bufs s) (medium s)" and ok: "buf_ok (medium s) (bufs s b)" using bc_inv_wf [OF inv] bc_inv_buf [OF inv lt] .
  have "bc_wf ((bufs s)(b := b_refcnt_update f (bufs s b))) (medium s)"
  proof (rule bc_wf_upd [OF w, where b = b])
    show "\<not> bkey (bufs s i) bn'" if "i < NBUF" "i \<noteq> b" "bkey (((bufs s)(b := b_refcnt_update f (bufs s b))) b) bn'" for i bn'
      using that bc_wf_uniq [OF w that(1) lt, of bn'] by (auto simp: bkey_def)
  qed (use ok f in \<open>auto simp: buf_ok_def\<close>)
  then show "bc_inv ?t" using inv by (simp add: bc_inv_def upd_buf_def vq_idle_def)
  show "bview ?t = bview s" by (rule bview_same) (simp_all add: upd_buf_def bkey_def)
  show "dk_frame s ?t" unfolding upd_buf_def by (rule dk_frame_bufs)
qed

section \<open>Initialisation\<close>

lemma binit_loop_lru:
  assumes "dll (\<lambda>i. b_next (bufs s i)) (\<lambda>i. b_prev (bufs s i)) BHEAD xs" "distinct (bs @ xs)" "BHEAD \<notin> set bs"
  shows "dll (\<lambda>i. b_next (bufs (binit_loop bs s) i)) (\<lambda>i. b_prev (bufs (binit_loop bs s) i)) BHEAD (rev bs @ xs)"
  using assms
proof (induction bs arbitrary: s xs)
  case (Cons b bs)
  let ?s = "initsleeplock (SlBuf b) ''buffer'' (s\<lparr>bufs := push_front b (bufs s)\<rparr>)"
  have "dll (\<lambda>i. b_next (bufs ?s i)) (\<lambda>i. b_prev (bufs ?s i)) BHEAD (b # xs)"
    using push_front_dll [of "bufs s" xs b] Cons.prems by (simp add: initsleeplock_def)
  from Cons.IH [OF this] Cons.prems show ?case by simp
qed simp

lemma binit_lru: "lru (bufs (binit s)) (rev [0..<NBUF])"
proof -
  let ?s = "s\<lparr>bufs := set_next BHEAD BHEAD (set_prev BHEAD BHEAD (bufs s))\<rparr>"
  have "dll (\<lambda>i. b_next (bufs (binit s) i)) (\<lambda>i. b_prev (bufs (binit s) i)) BHEAD (rev [0..<NBUF] @ [])"
    unfolding binit_def by (rule binit_loop_lru) (simp add: dll_def, simp_all only: append_Nil2 distinct_upt set_upt, simp)
  then show ?thesis unfolding lru_def set_rev set_upt append_Nil2 by (simp only: atLeast0LessThan simp_thms)
qed

lemma binit_loop_frame:
  "bcore (bufs (binit_loop bs s) i) = bcore (bufs s i)" "medium (binit_loop bs s) = medium s" "vdev (binit_loop bs s) = vdev s"
  "held (binit_loop bs s) = held s" "cur (binit_loop bs s) = cur s" "vq_idle (binit_loop bs s) = vq_idle s"
  by (induction bs arbitrary: s) (simp_all add: initsleeplock_def vq_idle_def)

lemma binit_loop_locks: "\<not> sl_locked (slocks (binit_loop bs s) (SlBuf i)) \<longleftrightarrow> i \<in> set bs \<or> \<not> sl_locked (slocks s (SlBuf i))"
  by (induction bs arbitrary: s) (auto simp: initsleeplock_def)

text \<open>\<open>binit\<close> on the zeroed buffers of the kernel image gives a well-formed, empty cache.\<close>

lemma binit_ok:
  assumes "vq_idle s" "virtio_blk (vdev s)" "held s = {}" "cur s < NPROC" "\<And>sec. length (medium s sec) = 512"
    and z: "\<And>i. i < NBUF \<Longrightarrow> b_dev (bufs s i) = 0 \<and> length (b_data (bufs s i)) = BSIZE"
  shows "bc_inv (binit s)" "bview (binit s) = dblk (medium s)"
proof -
  have core: "bcore (bufs (binit s) i) = bcore (bufs s i)" for i by (simp add: binit_def binit_loop_frame)
  have f: "medium (binit s) = medium s" "vdev (binit s) = vdev s" "held (binit s) = held s" "cur (binit s) = cur s" "vq_idle (binit s) = vq_idle s"
    unfolding binit_def binit_loop_frame by (simp_all add: vq_idle_def)
  have l: "\<not> sl_locked (slocks (binit s) (SlBuf i))" if "i < NBUF" for i
    using that by (simp add: binit_def binit_loop_locks del: upt_rec_numeral)
  note c = bcoreD [OF core]
  have "bc_wf (bufs (binit s)) (medium (binit s))"
    unfolding bc_wf_def f
  proof (intro conjI allI impI)
    show "\<exists>xs. lru (bufs (binit s)) xs" using binit_lru by blast
  qed (use assms l in \<open>auto simp: buf_ok_def bkey_def c\<close>)
  then show "bc_inv (binit s)" using assms by (simp add: bc_inv_def f)
  show "bview (binit s) = dblk (medium s)"
    by (rule ext, subst bview_uncached) (use z in \<open>auto simp: f c bkey_def\<close>)
qed

section \<open>Properties\<close>

definition bc_ex :: dkst where
  "bc_ex = binit dk_ex"

lemma dk_ex_medium: "medium dk_ex = (\<lambda>_. replicate 512 0)"
  by (simp add: dk_ex_def vmst.extend_def kmst.extend_def km_ex_def)

lemma bc_ex_ok: "bc_inv bc_ex" "bview bc_ex = dblk (medium dk_ex)"
  unfolding bc_ex_def by (rule binit_ok; simp add: virtio_blk_ref_dev dk_ex_medium)+

lemma bc_ex_buf: "b_dev (bufs bc_ex i) = 0" "b_refcnt (bufs bc_ex i) = 0" "\<not> bkey (bufs bc_ex i) bn"
proof -
  have "bcore (bufs bc_ex i) = bcore (bufs dk_ex i)" by (simp add: bc_ex_def binit_def binit_loop_frame)
  from bcoreD [OF this] show "b_dev (bufs bc_ex i) = 0" "b_refcnt (bufs bc_ex i) = 0" "\<not> bkey (bufs bc_ex i) bn" by (simp_all add: bkey_def)
qed

lemma bc_ex_locks: "i < NBUF \<Longrightarrow> \<not> sl_locked (slocks bc_ex (SlBuf i))"
  by (simp add: bc_ex_def binit_def binit_loop_locks del: upt_rec_numeral)



text \<open>C27. The links implement a list in the order of use. Along any sequence of operations the buffers form a list from the most to the least recently
  released; the last user's \<open>brelse\<close> moves the buffer to the front, and a block that is not cached takes over the unused buffer
  that is closest to the end.\<close>

theorem bcache_lru:
  fixes s :: "'a dkst_scheme"
  assumes inv: "bc_inv s" and l: "lru (bufs s) (xs @ b # ys)"
  shows "(buf_has s b bn \<and> b_refcnt (bufs s b) = 1 \<and> bview s bn = dblk (medium s) bn \<longrightarrow> (\<exists>t. brelse b s = Inr t \<and> lru (bufs t) (b # xs @ ys))) \<and>
    ((\<forall>i<NBUF. \<not> bkey (bufs s i) bn) \<and> b_refcnt (bufs s b) = 0 \<and> \<not> sl_locked (slocks s (SlBuf b)) \<and> (\<forall>y\<in>set ys. b_refcnt (bufs s y) \<noteq> 0) \<longrightarrow>
      bget ROOTDEV bn s = Inr (b, s\<lparr>bufs := (bufs s)(b := got_buf bn (bufs s b)), slocks := sl_take b s\<rparr>))"
proof (intro conjI impI; elim conjE)
  assume b: "buf_has s b bn" "b_refcnt (bufs s b) = 1"
  have i: "held s = {}" "no_proc_lock s" using inv by (simp_all add: bc_inv_def no_proc_lock_def)
  let ?B = "(bufs s)(b := b_refcnt_update (\<lambda>n. n - 1) (bufs s b))"
  have "lru ?B (xs @ b # ys)" by (rule lru_core [OF l]) auto
  then have "lru (brelse_front b ?B) (b # xs @ ys)" by (rule brelse_front_lru)
  then show "\<exists>t. brelse b s = Inr t \<and> lru (bufs t) (b # xs @ ys)"
    using i b by (simp add: brelse_def holdingsleep_eq releasesleep_eq Let_def upd_buf_def buf_has_def)
next
  assume b: "\<forall>i<NBUF. \<not> bkey (bufs s i) bn" "b_refcnt (bufs s b) = 0" "\<forall>y\<in>set ys. b_refcnt (bufs s y) \<noteq> 0" and ul: "\<not> sl_locked (slocks s (SlBuf b))"
  have h: "held s = {}" using inv by (simp add: bc_inv_def)
  have set: "set (xs @ b # ys) = {..<NBUF}" and lt: "b < NBUF" using l by (auto simp: lru_def)
  have 1: "find (\<lambda>i. b_dev (bufs s i) = ROOTDEV \<and> b_blockno (bufs s i) = bn) (xs @ b # ys) = None"
    unfolding find_None_iff set using b(1) by (auto simp: bkey_def)
  have "find P (rev zs @ b # ws) = Some b" if "P b" "\<forall>y\<in>set zs. \<not> P y" for P zs and ws :: "nat list"
    using that by (induction zs rule: rev_induct) auto
  from this [of "\<lambda>i. b_refcnt (bufs s i) = 0" ys "rev xs"] b(2,3)
  have 2: "find (\<lambda>i. b_refcnt (bufs s i) = 0) (rev (xs @ b # ys)) = Some b" by simp
  then show "bget ROOTDEV bn s = Inr (b, s\<lparr>bufs := (bufs s)(b := got_buf bn (bufs s b)), slocks := sl_take b s\<rparr>)"
    using h b(1) lt ul unfolding bget_cases [OF h l] 1 2 by (simp add: acquiresleep_eq upd_buf_def got_buf_def sl_take_def)
qed

theorem bcache_lru_witness:
  "bget ROOTDEV 3 bc_ex = Inr (0, bc_ex\<lparr>bufs := (bufs bc_ex)(0 := got_buf 3 (bufs bc_ex 0)), slocks := sl_take 0 bc_ex\<rparr>)"
proof -
  have "rev [0..<NBUF] = rev [1..<NBUF] @ [0]" by (simp add: upt_rec)
  then have "lru (bufs bc_ex) (rev [1..<NBUF] @ 0 # [])" using binit_lru [of dk_ex] unfolding bc_ex_def by simp
  from bcache_lru [OF bc_ex_ok(1) this, of 3] show ?thesis using bc_ex_buf bc_ex_locks by auto
qed

end
