(* ===== verification/Bytes.thy ===== *)
theory Bytes
  imports Xv6_Prelude
begin

text \<open>
  Fields of structures that live in blocks and buffers. A block is a list of bytes; \<open>getb\<close> and \<open>putb\<close> read and
  replace a range of it, \<open>ldw\<close> and \<open>stw\<close> a little-endian word. Each read of a range that a write did not touch is unchanged, and
  a read of the range just written gives what was written.
\<close>

definition getb :: "nat \<Rightarrow> nat \<Rightarrow> u8 list \<Rightarrow> u8 list" where
  "getb off n d = take n (drop off d)"

definition putb :: "nat \<Rightarrow> u8 list \<Rightarrow> u8 list \<Rightarrow> u8 list" where
  "putb off xs d = take off d @ xs @ drop (off + length xs) d"

definition word_bytes :: "'a::len word \<Rightarrow> u8 list" where
  "word_bytes v = map (le_bytes v) [0..<LENGTH('a) div 8]"

definition ldw :: "nat \<Rightarrow> u8 list \<Rightarrow> 'a::len word" where
  "ldw off d = le_word (\<lambda>i. d ! (off + i))"

definition stw :: "nat \<Rightarrow> 'a::len word \<Rightarrow> u8 list \<Rightarrow> u8 list" where
  "stw off v d = putb off (word_bytes v) d"

lemma length_word_bytes [simp]: "length (word_bytes (v :: 'a::len word)) = LENGTH('a) div 8"
  by (simp add: word_bytes_def)

lemma length_putb [simp]: "off + length xs \<le> length d \<Longrightarrow> length (putb off xs d) = length d"
  by (simp add: putb_def)

lemma length_stw [simp]: "off + LENGTH('a) div 8 \<le> length d \<Longrightarrow> length (stw off (v :: 'a::len word) d) = length d"
  by (simp add: stw_def)

lemma nth_putb:
  "off + length xs \<le> length d \<Longrightarrow> i < length d \<Longrightarrow>
   putb off xs d ! i = (if off \<le> i \<and> i < off + length xs then xs ! (i - off) else d ! i)"
  by (auto simp: putb_def nth_append min_def add.commute)

lemma get_put_same: "off + length xs \<le> length d \<Longrightarrow> getb off (length xs) (putb off xs d) = xs"
  by (simp add: getb_def putb_def)

lemma length_getb [simp]: "off + n \<le> length d \<Longrightarrow> length (getb off n d) = n"
  by (simp add: getb_def)

lemma nth_getb: "off + n \<le> length d \<Longrightarrow> i < n \<Longrightarrow> getb off n d ! i = d ! (off + i)"
  by (simp add: getb_def)

lemma get_put_other:
  "off + length xs \<le> length d \<Longrightarrow> o' + n \<le> length d \<Longrightarrow> o' + n \<le> off \<or> off + length xs \<le> o' \<Longrightarrow>
   getb o' n (putb off xs d) = getb o' n d"
  by (rule nth_equalityI) (auto simp: nth_getb nth_putb)

lemma put_get_same: "off + n \<le> length d \<Longrightarrow> putb off (getb off n d) d = d"
  by (rule nth_equalityI) (auto simp: nth_getb nth_putb)

lemma ldw_cong: "(\<And>i. i < LENGTH('a) div 8 \<Longrightarrow> d ! (off + i) = d' ! (o' + i)) \<Longrightarrow> (ldw off d :: 'a::len word) = ldw o' d'"
  unfolding ldw_def by (rule le_word_cong) simp

lemma ldw_stw_same:
  fixes v :: "'a::len word"
  assumes "8 dvd LENGTH('a)" "off + LENGTH('a) div 8 \<le> length d"
  shows "ldw off (stw off v d) = v"
proof -
  have "ldw off (stw off v d) = (le_word (le_bytes v) :: 'a word)"
    unfolding ldw_def stw_def by (rule le_word_cong) (use assms(2) in \<open>auto simp: nth_putb word_bytes_def\<close>)
  then show ?thesis by (simp add: le_word_bytes [OF assms(1)])
qed

lemma ldw_put_other:
  assumes "off + length xs \<le> length d" "o' + LENGTH('a) div 8 \<le> length d" "o' + LENGTH('a) div 8 \<le> off \<or> off + length xs \<le> o'"
  shows "(ldw o' (putb off xs d) :: 'a::len word) = ldw o' d"
  by (rule ldw_cong) (use assms in \<open>auto simp: nth_putb\<close>)

lemma ldw_stw_other:
  fixes v :: "'b::len word"
  assumes "off + LENGTH('b) div 8 \<le> length d" "o' + LENGTH('a) div 8 \<le> length d"
    "o' + LENGTH('a) div 8 \<le> off \<or> off + LENGTH('b) div 8 \<le> o'"
  shows "(ldw o' (stw off v d) :: 'a::len word) = ldw o' d"
  unfolding stw_def by (rule ldw_put_other) (use assms in auto)

text \<open>The widths that occur.\<close>

lemma ldw_stw_32 [simp]:
  fixes v :: u32
  shows "off + 4 \<le> length d \<Longrightarrow> ldw off (stw off v d) = v"
    "off + 4 \<le> length d \<Longrightarrow> o' + 4 \<le> length d \<Longrightarrow> o' + 4 \<le> off \<or> off + 4 \<le> o' \<Longrightarrow> (ldw o' (stw off v d) :: u32) = ldw o' d"
    "off + 4 \<le> length d \<Longrightarrow> o' + 2 \<le> length d \<Longrightarrow> o' + 2 \<le> off \<or> off + 4 \<le> o' \<Longrightarrow> (ldw o' (stw off v d) :: u16) = ldw o' d"
  by (simp_all add: ldw_stw_same ldw_stw_other)

lemma ldw_stw_16 [simp]:
  fixes v :: u16
  shows "off + 2 \<le> length d \<Longrightarrow> ldw off (stw off v d) = v"
    "off + 2 \<le> length d \<Longrightarrow> o' + 4 \<le> length d \<Longrightarrow> o' + 4 \<le> off \<or> off + 2 \<le> o' \<Longrightarrow> (ldw o' (stw off v d) :: u32) = ldw o' d"
    "off + 2 \<le> length d \<Longrightarrow> o' + 2 \<le> length d \<Longrightarrow> o' + 2 \<le> off \<or> off + 2 \<le> o' \<Longrightarrow> (ldw o' (stw off v d) :: u16) = ldw o' d"
  by (simp_all add: ldw_stw_same ldw_stw_other)

lemma length_stw_32 [simp]: "off + 4 \<le> length d \<Longrightarrow> length (stw off (v :: u32) d) = length d"
  by simp

lemma length_stw_16 [simp]: "off + 2 \<le> length d \<Longrightarrow> length (stw off (v :: u16) d) = length d"
  by simp

lemma ldw_zero [simp]: "off + LENGTH('a) div 8 \<le> n \<Longrightarrow> (ldw off (replicate n 0) :: 'a::len word) = 0"
proof -
  assume "off + LENGTH('a) div 8 \<le> n"
  then have "(ldw off (replicate n 0) :: 'a word) = le_word (\<lambda>_. 0)" unfolding ldw_def by (intro le_word_cong) simp
  then show ?thesis by simp
qed

end
