(* ===== verification/Bcache_Rules.thy ===== *)
theory Bcache_Rules
  imports Bio Bytes
begin

text \<open>
  The cache as a file system operation sees it. \<open>bq s P H\<close>: the buffers in \<open>H\<close> are locked by the running process, the blocks in \<open>P\<close> are
  pinned by the log, there are no other users, and every block that is not pinned has its contents on the medium. Each operation of
  the cache is given once in these terms; the log and the file system only use these rules.

  \<open>bql s P H L\<close> is the same with a set \<open>L\<close> of buffers whose reference count is one below zero. Recovery of the log leaves such buffers.
\<close>

definition bql :: "'a dkst_scheme \<Rightarrow> u32 set \<Rightarrow> nat set \<Rightarrow> nat set \<Rightarrow> bool" where
  "bql s P H L \<longleftrightarrow> bc_inv s \<and> finite P \<and> H \<subseteq> {..<NBUF} \<and> L \<subseteq> {..<NBUF} \<and> H \<inter> L = {} \<and>
     (\<forall>i<NBUF. sl_locked (slocks s (SlBuf i)) \<longleftrightarrow> i \<in> H) \<and>
     (\<forall>i<NBUF. i \<notin> L \<longrightarrow> b_refcnt (bufs s i) = of_bool (i \<in> H) + of_bool (b_dev (bufs s i) = ROOTDEV \<and> b_blockno (bufs s i) \<in> P)) \<and>
     (\<forall>i\<in>L. b_refcnt (bufs s i) = - 1 \<and> b_dev (bufs s i) = ROOTDEV \<and> b_blockno (bufs s i) \<notin> P) \<and>
     (\<forall>i\<in>H. has_sleep (SlBuf i) s \<and> b_valid (bufs s i) \<and> b_dev (bufs s i) = ROOTDEV) \<and>
     (\<forall>bn\<in>P. \<exists>i<NBUF. bkey (bufs s i) bn \<and> b_valid (bufs s i)) \<and>
     (\<forall>bn. bn \<notin> P \<longrightarrow> bview s bn = dblk (medium s) bn)"

abbreviation bq :: "'a dkst_scheme \<Rightarrow> u32 set \<Rightarrow> nat set \<Rightarrow> bool" where
  "bq s P H \<equiv> bql s P H {}"

lemma bqD:
  assumes "bql s P H L"
  shows "bc_inv s" "finite P" "\<And>i. i \<in> H \<Longrightarrow> i < NBUF" "\<And>i. i < NBUF \<Longrightarrow> sl_locked (slocks s (SlBuf i)) \<longleftrightarrow> i \<in> H"
    "\<And>i. i < NBUF \<Longrightarrow> i \<notin> L \<Longrightarrow> b_refcnt (bufs s i) = of_bool (i \<in> H) + of_bool (b_dev (bufs s i) = ROOTDEV \<and> b_blockno (bufs s i) \<in> P)"
    "\<And>i. i \<in> H \<Longrightarrow> has_sleep (SlBuf i) s \<and> b_valid (bufs s i) \<and> b_dev (bufs s i) = ROOTDEV"
    "\<And>bn. bn \<in> P \<Longrightarrow> \<exists>i<NBUF. bkey (bufs s i) bn \<and> b_valid (bufs s i)" "\<And>bn. bn \<notin> P \<Longrightarrow> bview s bn = dblk (medium s) bn" "finite H"
    "\<And>i. i \<in> L \<Longrightarrow> i < NBUF" "\<And>i. i \<in> H \<Longrightarrow> i \<notin> L"
    "\<And>i. i \<in> L \<Longrightarrow> b_refcnt (bufs s i) = - 1 \<and> b_dev (bufs s i) = ROOTDEV \<and> b_blockno (bufs s i) \<notin> P" "finite L"
  using assms unfolding bql_def by (blast intro: finite_subset)+

text \<open>What holds of the other buffers after an operation on buffer \<open>b\<close>.\<close>

definition others :: "nat \<Rightarrow> 'a dkst_scheme \<Rightarrow> 'a dkst_scheme \<Rightarrow> bool" where
  "others b s t \<longleftrightarrow> (\<forall>i. i \<noteq> b \<longrightarrow> bcore (bufs t i) = bcore (bufs s i) \<and> slocks t (SlBuf i) = slocks s (SlBuf i))"

lemma othersD:
  assumes "others b s t" "i \<noteq> b"
  shows "b_valid (bufs t i) = b_valid (bufs s i)" "b_dev (bufs t i) = b_dev (bufs s i)" "b_blockno (bufs t i) = b_blockno (bufs s i)"
    "b_refcnt (bufs t i) = b_refcnt (bufs s i)" "b_data (bufs t i) = b_data (bufs s i)" "bkey (bufs t i) bn = bkey (bufs s i) bn"
    "slocks t (SlBuf i) = slocks s (SlBuf i)"
  using assms bcoreD [of "bufs t i" "bufs s i"] by (auto simp: others_def)

lemma same_pid: "dk_frame s t \<Longrightarrow> p_pid (procs t (cur t)) = p_pid (procs s (cur s))"
  using dk_frameD [of s t] pcoreD(4) by (metis procs_like_def)

lemma bq_has: "bql s P H L \<Longrightarrow> b \<in> H \<Longrightarrow> buf_has s b (b_blockno (bufs s b))"
  by (auto simp: buf_has_def bkey_def bqD)

lemma bq_rc: "bql s P H L \<Longrightarrow> b \<in> H \<Longrightarrow> b_refcnt (bufs s b) \<noteq> 0"
  using bqD(5) [of s P H L b] bqD(3,11) [of s P H L b] by auto

text \<open>Re-establishing the predicate after an operation on one buffer.\<close>

lemma bq_step:
  assumes q: "bql s P H L" and inv: "bc_inv t" and f: "dk_frame s t" and o: "others b s t" and lt: "b < NBUF" "b \<notin> L" and fin: "finite P'"
    and lk: "sl_locked (slocks t (SlBuf b)) \<longleftrightarrow> b \<in> H'" and rc: "b_refcnt (bufs t b) = of_bool (b \<in> H') + of_bool (b_dev (bufs t b) = ROOTDEV \<and> b_blockno (bufs t b) \<in> P')"
    and hs: "b \<in> H' \<Longrightarrow> has_sleep (SlBuf b) t \<and> b_valid (bufs t b) \<and> b_dev (bufs t b) = ROOTDEV"
    and H': "\<And>i. i \<noteq> b \<Longrightarrow> i \<in> H' \<longleftrightarrow> i \<in> H"
    and P': "\<And>i. i < NBUF \<Longrightarrow> i \<noteq> b \<Longrightarrow> b_dev (bufs s i) = ROOTDEV \<Longrightarrow> b_blockno (bufs s i) \<in> P' \<longleftrightarrow> b_blockno (bufs s i) \<in> P"
    and pin: "\<And>bn. bn \<in> P' \<Longrightarrow> \<exists>i<NBUF. bkey (bufs t i) bn \<and> b_valid (bufs t i)"
    and v: "\<And>bn. bn \<notin> P' \<Longrightarrow> bview t bn = dblk (medium t) bn"
  shows "bql t P' H' L"
  unfolding bql_def
proof (intro conjI allI ballI impI)
  note d = bqD [OF q] and od = othersD [OF o]
  show "H' \<subseteq> {..<NBUF}" using H' d(3) lt by (metis lessThan_iff subsetI)
  show "sl_locked (slocks t (SlBuf i)) = (i \<in> H')" if "i < NBUF" for i using that lk H' d(4) od(7) by (cases "i = b") auto
  show "L \<subseteq> {..<NBUF}" using d(10) by blast
  show "H' \<inter> L = {}" using H' d(11) lt by (metis disjoint_iff)
  show "b_refcnt (bufs t i) = - 1" "b_dev (bufs t i) = ROOTDEV" "b_blockno (bufs t i) \<notin> P'" if "i \<in> L" for i
  proof -
    have ib: "i \<noteq> b" using that lt by blast
    show "b_refcnt (bufs t i) = - 1" "b_dev (bufs t i) = ROOTDEV" "b_blockno (bufs t i) \<notin> P'"
      using d(12) [OF that] od(2-4) [OF ib] P' [OF d(10) [OF that] ib] by auto
  qed
  show "b_refcnt (bufs t i) = of_bool (i \<in> H') + of_bool (b_dev (bufs t i) = ROOTDEV \<and> b_blockno (bufs t i) \<in> P')" if "i < NBUF" "i \<notin> L" for i
  proof (cases "i = b")
    case True then show ?thesis using rc by simp
  next
    case False then show ?thesis using that d(5) [OF that] od(2-4) [OF False] H' [OF False] P' [OF that(1) False] by auto
  qed
  show "has_sleep (SlBuf i) t" if "i \<in> H'" for i
  proof (cases "i = b")
    case True then show ?thesis using that hs by simp
  next
    case False
    then have "has_sleep (SlBuf i) s" using d(6) [of i] H' [OF False] that by simp
    then show ?thesis using od(7) [OF False] same_pid [OF f] by (simp add: has_sleep_def)
  qed
  show "b_valid (bufs t i)" if "i \<in> H'" for i using that hs H' d(6) [of i] od(1) [of i] by (cases "i = b") auto
  show "b_dev (bufs t i) = ROOTDEV" if "i \<in> H'" for i using that hs H' d(6) [of i] od(2) [of i] by (cases "i = b") auto
qed (use assms in auto)

section \<open>Rules\<close>

lemma bq_free:
  assumes q: "bql s P H L" and c: "card P + card H + card L < NBUF"
  shows "\<exists>i<NBUF. b_refcnt (bufs s i) = 0"
proof (rule ccontr)
  assume n: "\<not> ?thesis"
  note d = bqD [OF q]
  let ?K = "{i. i < NBUF \<and> bkey (bufs s i) (b_blockno (bufs s i)) \<and> b_blockno (bufs s i) \<in> P}"
  have "{..<NBUF} \<subseteq> H \<union> ?K \<union> L"
  proof
    fix i :: nat assume i: "i \<in> {..<NBUF}"
    then have "b_refcnt (bufs s i) \<noteq> 0" using n by auto
    then show "i \<in> H \<union> ?K \<union> L" using d(5) [of i] i by (auto simp: bkey_def)
  qed
  then have "NBUF \<le> card (H \<union> ?K \<union> L)" using card_mono [of "H \<union> ?K \<union> L" "{..<NBUF}"] d(9,13) by simp
  also have "\<dots> \<le> card H + card ?K + card L" using card_Un_le [of "H \<union> ?K" L] card_Un_le [of H ?K] by linarith
  also have "card ?K \<le> card P"
  proof (rule card_inj_on_le [where f = "\<lambda>i. b_blockno (bufs s i)"])
    show "inj_on (\<lambda>i. b_blockno (bufs s i)) ?K"
    proof (rule inj_onI)
      fix i j assume "i \<in> ?K" "j \<in> ?K" "b_blockno (bufs s i) = b_blockno (bufs s j)"
      then show "i = j" using bc_wf_uniq [OF bc_inv_wf [OF d(1)], of i j "b_blockno (bufs s i)"] by auto
    qed
  qed (use d(2) in auto)
  finally show False using c by simp
qed

lemma bq_bread:
  assumes q: "bql s P H L" and bn: "unat bn < 2 ^ 31" and nh: "\<And>i. i \<in> H \<union> L \<Longrightarrow> b_blockno (bufs s i) \<noteq> bn" and av: "bn \<in> P \<or> card P + card H + card L < NBUF"
  shows "\<exists>b t. bread ROOTDEV bn s = Inr (b, t) \<and> bql t P (insert b H) L \<and> b \<notin> H \<union> L \<and> buf_has t b bn \<and> bview t = bview s \<and> medium t = medium s \<and>
    set (mhist t) \<subseteq> insert (medium s) (set (mhist s)) \<and> set (mhist s) \<subseteq> set (mhist t) \<and> dk_frame s t \<and> others b s t"
proof -
  note d = bqD [OF q]
  have 1: "\<not> sl_locked (slocks s (SlBuf i)) \<and> b_refcnt (bufs s i) + 1 \<noteq> 0" if "i < NBUF" "bkey (bufs s i) bn" for i
  proof -
    have "i \<notin> H" "i \<notin> L" using nh [of i] that by (auto simp: bkey_def)
    then show ?thesis using d(4,5) [OF that(1)] by auto
  qed
  have 2: "\<not> sl_locked (slocks s (SlBuf i))" if "i < NBUF" "b_refcnt (bufs s i) = 0" for i using that d(4) [OF that(1)] bq_rc [OF q, of i] by auto
  have 3: "(\<exists>i<NBUF. bkey (bufs s i) bn) \<or> (\<exists>i<NBUF. b_refcnt (bufs s i) = 0)" using av d(7) [of bn] bq_free [OF q] by blast
  obtain b t where r: "bread ROOTDEV bn s = Inr (b, t)" and p: "bread_post s bn b t" using bread_ok [OF d(1) bn 1 2 3] by blast
  then have t: "bc_inv t" "buf_has t b bn" "bview t = bview s" "dk_frame s t" "medium t = medium s" "slocks t = sl_take b s"
    "\<And>i. i \<noteq> b \<Longrightarrow> bufs t i = bufs s i" "b_refcnt (bufs t b) = b_refcnt (bufs s b) + 1"
    "bkey (bufs s b) bn \<or> b_refcnt (bufs s b) = 0 \<and> (\<forall>i<NBUF. \<not> bkey (bufs s i) bn)"
    "set (mhist t) \<subseteq> insert (medium s) (set (mhist s))" "set (mhist s) \<subseteq> set (mhist t)" by (auto simp: bread_post_def)
  have lt: "b < NBUF" and k: "bkey (bufs t b) bn" using t(2) by (auto simp: buf_has_def)
  have nb: "b \<notin> H" "b \<notin> L" using t(9) nh [of b] bq_rc [OF q, of b] d(12) [of b] by (auto simp: bkey_def)
  have rc: "b_refcnt (bufs s b) = of_bool (bn \<in> P)"
    using t(9)
  proof
    assume "bkey (bufs s b) bn" then show ?thesis using d(5) [OF lt nb(2)] nb by (simp add: bkey_def)
  next
    assume a: "b_refcnt (bufs s b) = 0 \<and> (\<forall>i<NBUF. \<not> bkey (bufs s i) bn)"
    then have "bn \<notin> P" using d(7) [of bn] by blast
    then show ?thesis using a by simp
  qed
  have o: "others b s t" using t(6,7) by (simp add: others_def)
  have "bql t P (insert b H) L"
  proof (rule bq_step [OF q t(1,4) o lt nb(2) d(2)])
    show "\<exists>i<NBUF. bkey (bufs t i) x \<and> b_valid (bufs t i)" if x: "x \<in> P" for x
    proof (cases "x = bn")
      case True then show ?thesis using t(2) by (auto simp: buf_has_def)
    next
      case False
      obtain i where i: "i < NBUF" "bkey (bufs s i) x" "b_valid (bufs s i)" using d(7) [OF x] by blast
      have "i \<noteq> b"
      proof
        assume "i = b"
        then have "b_refcnt (bufs s b) = 0" using t(9) i False by (auto simp: bkey_def)
        then show False using d(5) [OF lt nb(2)] i x nb \<open>i = b\<close> by (auto simp: bkey_def)
      qed
      then show ?thesis using i t(7) by auto
    qed
  qed (use t k nb rc d(8) in \<open>auto simp: bkey_def buf_has_def\<close>)
  then show ?thesis using r t nb o by blast
qed

lemma bq_brelse:
  assumes q: "bql s P H L" and b: "b \<in> H"
  shows "\<exists>t. brelse b s = Inr t \<and> bql t P (H - {b}) L \<and> bview t = bview s \<and> medium t = medium s \<and> mhist t = mhist s \<and> dk_frame s t \<and> others b s t"
proof -
  note d = bqD [OF q]
  let ?bn = "b_blockno (bufs s b)"
  have hb: "buf_has s b ?bn" by (rule bq_has [OF q b])
  have lt: "b < NBUF" using d(3) b by blast
  have "bview s ?bn = dblk (medium s) ?bn" if "b_refcnt (bufs s b) = 1"
  proof -
    have "?bn \<notin> P" using that d(5) [OF lt d(11) [OF b]] d(6) [OF b] b by auto
    then show ?thesis using d(8) by blast
  qed
  then obtain t where r: "brelse b s = Inr t" and p: "brelse_post s b t" using brelse_ok [OF d(1) hb] by blast
  then have t: "bc_inv t" "bview t = bview s" "dk_frame s t" "medium t = medium s" "mhist t = mhist s" "slocks t = sl_drop b s"
    "\<And>i. i \<noteq> b \<Longrightarrow> bcore (bufs t i) = bcore (bufs s i)" "bcore (bufs t b) = bcore (b_refcnt_update (\<lambda>n. n - 1) (bufs s b))"
    by (auto simp: brelse_post_def)
  note c = bcoreD [OF t(8), simplified]
  have o: "others b s t" using t(6,7) by (simp add: others_def)
  have "bql t P (H - {b}) L"
  proof (rule bq_step [OF q t(1,3) o lt d(11) [OF b] d(2)])
    show "\<exists>i<NBUF. bkey (bufs t i) x \<and> b_valid (bufs t i)" if x: "x \<in> P" for x
    proof -
      obtain i where i: "i < NBUF" "bkey (bufs s i) x" "b_valid (bufs s i)" using d(7) [OF x] by blast
      then show ?thesis using c othersD [OF o, of i] by (cases "i = b") (auto simp: bkey_def intro!: exI [of _ i])
    qed
  qed (use t c d(8) d(5) [OF lt d(11) [OF b]] b in \<open>auto simp: bkey_def\<close>)
  then show ?thesis using r t o by blast
qed

lemma set_bdata_sel [simp]:
  "medium (set_bdata b d s) = medium s" "mhist (set_bdata b d s) = mhist s" "slocks (set_bdata b d s) = slocks s" "held (set_bdata b d s) = held s"
  "bufs (set_bdata b d s) = (bufs s)(b := (bufs s b)\<lparr>b_data := d\<rparr>)"
  by (simp_all add: set_bdata_def)

lemma others_set_bdata [simp]: "others b s (set_bdata b d s)"
  by (simp add: others_def)

lemma others_trans: "others b s t \<Longrightarrow> others b t u \<Longrightarrow> others b s u"
  by (simp add: others_def)

text \<open>Writing a pinned block.\<close>

lemma bq_dirty:
  assumes q: "bql s P H L" and b: "b \<in> H" "b_blockno (bufs s b) \<in> P" and len: "length d = BSIZE"
  shows "bql (set_bdata b d s) P H L" "bview (set_bdata b d s) = (bview s)(b_blockno (bufs s b) := d)" "dk_frame s (set_bdata b d s)"
proof -
  note D = bqD [OF q] and hb = bq_has [OF q b(1)]
  note ok = set_bdata_ok [OF D(1) hb bq_rc [OF q b(1)] len]
  show "bview (set_bdata b d s) = (bview s)(b_blockno (bufs s b) := d)" "dk_frame s (set_bdata b d s)" by (rule ok)+
  show "bql (set_bdata b d s) P H L"
  proof (rule bq_step [OF q ok(1,3) others_set_bdata])
    show "\<exists>i<NBUF. bkey (bufs (set_bdata b d s) i) x \<and> b_valid (bufs (set_bdata b d s) i)" if x: "x \<in> P" for x
    proof -
      obtain i where i: "i < NBUF" "bkey (bufs s i) x" "b_valid (bufs s i)" using D(7) [OF x] by blast
      then show ?thesis by (intro exI [of _ i]) (auto simp: bkey_def)
    qed
    show "bview (set_bdata b d s) bn = dblk (medium (set_bdata b d s)) bn" if "bn \<notin> P" for bn
      using that b D(8) [OF that] by (auto simp: ok(2))
    show "has_sleep (SlBuf b) (set_bdata b d s) \<and> b_valid (bufs (set_bdata b d s) b) \<and> b_dev (bufs (set_bdata b d s) b) = ROOTDEV"
      using ok(4) D(6) [OF b(1)] by (simp add: buf_has_def)
  qed (use D(2,3,4,11) D(5) [of b] b in auto)
qed

text \<open>Writing a block and pinning it.\<close>

lemma bq_pin:
  assumes q: "bql s P H L" and b: "b \<in> H" "b_blockno (bufs s b) \<notin> P" and len: "length d = BSIZE"
  shows "bql (upd_buf b (b_refcnt_update (\<lambda>n. n + 1)) (set_bdata b d s)) (insert (b_blockno (bufs s b)) P) H L" (is "bql ?t ?P H L")
    "bview (upd_buf b (b_refcnt_update (\<lambda>n. n + 1)) (set_bdata b d s)) = (bview s)(b_blockno (bufs s b) := d)"
    "dk_frame s (upd_buf b (b_refcnt_update (\<lambda>n. n + 1)) (set_bdata b d s))"
proof -
  note D = bqD [OF q] and hb = bq_has [OF q b(1)]
  note ok = set_bdata_ok [OF D(1) hb bq_rc [OF q b(1)] len]
  have lt: "b < NBUF" using D(3) b by blast
  have rc: "b_refcnt (bufs s b) = 1" using D(5) [OF lt D(11) [OF b(1)]] b by simp
  have ok2: "bc_inv ?t" "bview ?t = bview (set_bdata b d s)" "dk_frame (set_bdata b d s) ?t"
    by (rule set_rc_ok [OF ok(1) lt]; simp add: rc)+
  show v: "bview ?t = (bview s)(b_blockno (bufs s b) := d)" using ok2(2) ok(2) by simp
  show f: "dk_frame s ?t" by (rule dk_frame_trans [OF ok(3) ok2(3)])
  show "bql ?t ?P H L"
  proof (rule bq_step [OF q ok2(1) f])
    show "others b s ?t" by (simp add: others_def upd_buf_def)
    show "\<exists>i<NBUF. bkey (bufs ?t i) x \<and> b_valid (bufs ?t i)" if x: "x \<in> ?P" for x
    proof (cases "x = b_blockno (bufs s b)")
      case True then show ?thesis using lt D(6) [OF b(1)] by (intro exI [of _ b]) (simp add: upd_buf_def bkey_def)
    next
      case False
      then obtain i where i: "i < NBUF" "bkey (bufs s i) x" "b_valid (bufs s i)" using D(7) [of x] x by blast
      then show ?thesis by (intro exI [of _ i]) (auto simp: bkey_def upd_buf_def)
    qed
    have m: "medium ?t = medium s" by (simp add: upd_buf_def)
    show "bview ?t bn = dblk (medium ?t) bn" if "bn \<notin> ?P" for bn
      using that D(8) [of bn] unfolding v m by auto
    show "has_sleep (SlBuf b) ?t \<and> b_valid (bufs ?t b) \<and> b_dev (bufs ?t b) = ROOTDEV"
      using ok(4) D(6) [OF b(1)] by (simp add: buf_has_def upd_buf_def has_sleep_def)
    show "b_blockno (bufs s i) \<in> ?P \<longleftrightarrow> b_blockno (bufs s i) \<in> P" if "i < NBUF" "i \<noteq> b" "b_dev (bufs s i) = ROOTDEV" for i
      using bc_wf_uniq [OF bc_inv_wf [OF D(1)] that(1) lt, of "b_blockno (bufs s b)"] that D(6) [OF b(1)] by (auto simp: bkey_def)
  qed (use D(2,3,4,11) rc b lt in \<open>auto simp: upd_buf_def D(6)\<close>)
qed

text \<open>Writing a block that is not pinned through to the medium.\<close>

lemma bq_through:
  assumes q: "bql s P H L" and b: "b \<in> H" "b_blockno (bufs s b) \<notin> P" and len: "length d = BSIZE"
  shows "\<exists>t. bwrite b (set_bdata b d s) = Inr t \<and> bql t P H L \<and> bview t = (bview s)(b_blockno (bufs s b) := d) \<and>
    medium t = set_dblk (b_blockno (bufs s b)) d (medium s) \<and> mhist t = mhist s @ [medium t] \<and> dk_frame s t \<and> others b s t \<and>
    bufs t b = (bufs s b)\<lparr>b_disk := False, b_data := d\<rparr>"
proof -
  note D = bqD [OF q] and hb = bq_has [OF q b(1)]
  note ok = set_bdata_ok [OF D(1) hb bq_rc [OF q b(1)] len]
  let ?bn = "b_blockno (bufs s b)" and ?s = "set_bdata b d s"
  have lt: "b < NBUF" using D(3) b by blast
  obtain t where r: "bwrite b ?s = Inr t" and p: "bwrite_post ?s b ?bn t" using bwrite_ok [OF ok(1,4)] by blast
  have t: "bc_inv t" "bview t = bview ?s" "dk_frame ?s t" "medium t = set_dblk ?bn d (medium s)" "mhist t = mhist s @ [medium t]" "slocks t = slocks s"
    "buf_has t b ?bn" "\<And>i. i \<noteq> b \<Longrightarrow> bufs t i = bufs s i" "bufs t b = (bufs s b)\<lparr>b_disk := False, b_data := d\<rparr>"
    using p ok(2) by (auto simp: bwrite_post_def)
  have f: "dk_frame s t" by (rule dk_frame_trans [OF ok(3) t(3)])
  have o: "others b s t" using t(6,8) by (simp add: others_def)
  have "bql t P H L"
  proof (rule bq_step [OF q t(1) f o lt D(11) [OF b(1)] D(2)])
    show "\<exists>i<NBUF. bkey (bufs t i) x \<and> b_valid (bufs t i)" if x: "x \<in> P" for x
    proof -
      obtain i where i: "i < NBUF" "bkey (bufs s i) x" "b_valid (bufs s i)" using D(7) [OF x] by blast
      then show ?thesis using t(8) [of i] t(9) by (intro exI [of _ i]) (cases "i = b"; auto simp: bkey_def)
    qed
    show "bview t bn = dblk (medium t) bn" if "bn \<notin> P" for bn
      using that D(8) [of bn] by (auto simp: t(2,4) ok(2) dblk_set)
  qed (use t lt D(4) D(5) [OF lt D(11) [OF b(1)]] D(6) [OF b(1)] b in \<open>auto simp: buf_has_def\<close>)
  then show ?thesis using r t f o ok(2) by auto
qed

text \<open>Writing a pinned block through to the medium and unpinning it.\<close>

lemma bq_unpin:
  assumes q: "bql s P H L" and b: "b \<in> H" "b_blockno (bufs s b) \<in> P" and len: "length d = BSIZE"
  shows "\<exists>t u. bwrite b (set_bdata b d s) = Inr t \<and> bunpin b t = Inr u \<and> bql u (P - {b_blockno (bufs s b)}) H L \<and> bview u = (bview s)(b_blockno (bufs s b) := d) \<and>
    medium u = set_dblk (b_blockno (bufs s b)) d (medium s) \<and> mhist u = mhist s @ [medium u] \<and> dk_frame s u \<and> others b s u"
proof -
  note D = bqD [OF q] and hb = bq_has [OF q b(1)]
  note ok = set_bdata_ok [OF D(1) hb bq_rc [OF q b(1)] len]
  let ?bn = "b_blockno (bufs s b)" and ?s = "set_bdata b d s"
  have lt: "b < NBUF" using D(3) b by blast
  have rc: "b_refcnt (bufs s b) = 2" using D(5) [OF lt D(11) [OF b(1)]] b D(6) [OF b(1)] by simp
  obtain t where r: "bwrite b ?s = Inr t" and p: "bwrite_post ?s b ?bn t" using bwrite_ok [OF ok(1,4)] by blast
  have t: "bc_inv t" "bview t = bview ?s" "dk_frame ?s t" "medium t = set_dblk ?bn d (medium s)" "mhist t = mhist s @ [medium t]" "slocks t = slocks s"
    "buf_has t b ?bn" "\<And>i. i \<noteq> b \<Longrightarrow> bufs t i = bufs s i" "bufs t b = (bufs s b)\<lparr>b_disk := False, b_data := d\<rparr>"
    using p ok(2) by (auto simp: bwrite_post_def)
  define u where "u = upd_buf b (b_refcnt_update (\<lambda>n. n - 1)) t"
  have e: "bunpin b t = Inr u" unfolding u_def by (rule bunpin_eq) (use t(1) in \<open>simp add: bc_inv_def\<close>)
  have u: "bc_inv u" "bview u = bview t" "dk_frame t u" unfolding u_def by (rule set_rc_ok [OF t(1) lt]; simp add: t(9) rc)+
  have us: "medium u = medium t" "mhist u = mhist t" "slocks u = slocks t" "\<And>i. i \<noteq> b \<Longrightarrow> bufs u i = bufs s i"
    "bufs u b = (bufs s b)\<lparr>b_disk := False, b_data := d, b_refcnt := 1\<rparr>"
    using t(8,9) rc by (simp_all add: u_def upd_buf_def)
  have f: "dk_frame s u" using dk_frame_trans [OF ok(3) t(3)] u(3) by (rule dk_frame_trans)
  have o: "others b s u" using t(6) us by (simp add: others_def)
  have "bql u (P - {?bn}) H L"
  proof (rule bq_step [OF q u(1) f o lt D(11) [OF b(1)]])
    show "\<exists>i<NBUF. bkey (bufs u i) x \<and> b_valid (bufs u i)" if x: "x \<in> P - {?bn}" for x
    proof -
      obtain i where i: "i < NBUF" "bkey (bufs s i) x" "b_valid (bufs s i)" using D(7) [of x] x by blast
      moreover have "i \<noteq> b" using i x by (auto simp: bkey_def)
      ultimately show ?thesis using us(4) [of i] by (intro exI [of _ i]) auto
    qed
    show "bview u bn = dblk (medium u) bn" if "bn \<notin> P - {?bn}" for bn
      using that D(8) [of bn] by (auto simp: t(2,4) u(2) us(1) ok(2) dblk_set)
    show "has_sleep (SlBuf b) u \<and> b_valid (bufs u b) \<and> b_dev (bufs u b) = ROOTDEV"
      using D(6) [OF b(1)] us same_pid [OF f] t(6) by (simp add: has_sleep_def)
    show "b_blockno (bufs s i) \<in> P - {?bn} \<longleftrightarrow> b_blockno (bufs s i) \<in> P" if "i < NBUF" "i \<noteq> b" "b_dev (bufs s i) = ROOTDEV" for i
      using bc_wf_uniq [OF bc_inv_wf [OF D(1)] that(1) lt, of ?bn] that D(6) [OF b(1)] by (auto simp: bkey_def)
  qed (use t us lt D(2,4) b in auto)
  then show ?thesis using r e t us f o ok(2) u(2) by auto
qed

text \<open>Unpinning a block that nobody had pinned and releasing it: the count of its buffer wraps around.\<close>

lemma bq_leak:
  assumes q: "bql s P {d, l} L" and n: "d \<noteq> l" and np: "b_blockno (bufs s d) \<notin> P"
  shows "\<exists>t. bnd (bunpin d s) (\<lambda>s. bnd (brelse l s) (brelse d)) = Inr t \<and> bql t P {} (insert d L) \<and> bview t = bview s \<and> medium t = medium s \<and>
    mhist t = mhist s \<and> dk_frame s t \<and> b_blockno (bufs t d) = b_blockno (bufs s d) \<and> (\<forall>i\<in>L. b_blockno (bufs t i) = b_blockno (bufs s i))"
proof -
  note D = bqD [OF q]
  have lt: "d < NBUF" "l < NBUF" and nl: "d \<notin> L" "l \<notin> L" using D(3,11) by auto
  have rcd: "b_refcnt (bufs s d) = 1" and dev: "b_dev (bufs s d) = ROOTDEV" using D(5) [OF lt(1) nl(1)] D(6) [of d] np by auto
  define s1 where "s1 = upd_buf d (b_refcnt_update (\<lambda>n. n - 1)) s"
  have cl: "b_data (bufs s d) = dblk (medium s) (b_blockno (bufs s d))"
    using buf_has_view [OF D(1) bq_has [OF q, of d]] D(8) [OF np] by simp
  have 1: "bc_inv s1" "bview s1 = bview s" "dk_frame s s1" unfolding s1_def by (rule set_rc_ok [OF D(1) lt(1)]; simp add: cl)+
  have r1: "bunpin d s = Inr s1" unfolding s1_def by (rule bunpin_eq) (use D(1) in \<open>simp add: bc_inv_def\<close>)
  have e1: "medium s1 = medium s" "mhist s1 = mhist s" "slocks s1 = slocks s" "bufs s1 = (bufs s)(d := b_refcnt_update (\<lambda>n. n - 1) (bufs s d))"
    by (simp_all add: s1_def upd_buf_def)
  have hl: "buf_has s1 l (b_blockno (bufs s l))"
    using bq_has [OF q, of l] same_pid [OF 1(3)] n by (simp add: buf_has_def e1 has_sleep_def)
  have "bview s1 (b_blockno (bufs s l)) = dblk (medium s1) (b_blockno (bufs s l))" if "b_refcnt (bufs s1 l) = 1"
  proof -
    have "b_blockno (bufs s l) \<notin> P" using that n D(5) [OF lt(2) nl(2)] D(6) [of l] by (auto simp: e1)
    then show ?thesis using D(8) 1(2) e1 by simp
  qed
  then obtain s2 where r2: "brelse l s1 = Inr s2" and p2: "brelse_post s1 l s2" using brelse_ok [OF 1(1) hl] by blast
  then have 2: "bc_inv s2" "bview s2 = bview s1" "dk_frame s1 s2" "medium s2 = medium s1" "mhist s2 = mhist s1" "slocks s2 = sl_drop l s1"
    "\<And>i. i \<noteq> l \<Longrightarrow> bcore (bufs s2 i) = bcore (bufs s1 i)" "bcore (bufs s2 l) = bcore (b_refcnt_update (\<lambda>n. n - 1) (bufs s1 l))"
    by (auto simp: brelse_post_def)
  note c2 = bcoreD [OF 2(7) [of d], unfolded e1, simplified, OF n]
  have hd: "buf_has s2 d (b_blockno (bufs s d))"
    using bq_has [OF q, of d] same_pid [OF dk_frame_trans [OF 1(3) 2(3)]] n c2 lt by (simp add: buf_has_def has_sleep_def 2(6) e1 bkey_def)
  have "b_refcnt (bufs s2 d) = 0" using c2 rcd by simp
  then obtain t where r3: "brelse d s2 = Inr t" and p3: "brelse_post s2 d t" using brelse_ok [OF 2(1) hd] by auto
  then have 3: "bc_inv t" "bview t = bview s2" "dk_frame s2 t" "medium t = medium s2" "mhist t = mhist s2" "slocks t = sl_drop d s2"
    "\<And>i. i \<noteq> d \<Longrightarrow> bcore (bufs t i) = bcore (bufs s2 i)" "bcore (bufs t d) = bcore (b_refcnt_update (\<lambda>n. n - 1) (bufs s2 d))"
    by (auto simp: brelse_post_def)
  have f: "dk_frame s t" using 1(3) 2(3) 3(3) by (meson dk_frame_trans)
  have bt: "bcore (bufs t i) = bcore (bufs s i)" if "i \<noteq> d" "i \<noteq> l" for i using 3(7) [OF that(1)] 2(7) [OF that(2)] that by (simp add: e1)
  have btl: "bcore (bufs t l) = bcore (b_refcnt_update (\<lambda>n. n - 1) (bufs s l))" using 3(7) [of l] 2(8) n by (simp add: e1)
  note cl = bcoreD [OF btl, simplified] and co = bcoreD [OF bt]
  have cd: "b_valid (bufs t d) = b_valid (bufs s d)" "b_dev (bufs t d) = b_dev (bufs s d)" "b_blockno (bufs t d) = b_blockno (bufs s d)" "b_refcnt (bufs t d) = - 1"
    "bkey (bufs t d) x = bkey (bufs s d) x" for x
    using bcoreD [OF 3(8), simplified] c2 rcd by (simp_all add: bkey_def)
  have any: "b_valid (bufs t i) = b_valid (bufs s i)" "b_dev (bufs t i) = b_dev (bufs s i)" "b_blockno (bufs t i) = b_blockno (bufs s i)" "bkey (bufs t i) x = bkey (bufs s i) x" for i x
    using cd cl co [of i] by (cases "i = d"; cases "i = l"; simp add: bkey_def)+
  have lk: "\<not> sl_locked (slocks t (SlBuf i))" if "i < NBUF" for i
    using that D(4) [OF that] by (cases "i = d"; cases "i = l"; simp add: 3(6) 2(6) e1 sl_drop_def)
  have "bql t P {} (insert d L)" unfolding bql_def
  proof (intro conjI allI ballI impI)
    show "b_refcnt (bufs t i) = of_bool (i \<in> {}) + of_bool (b_dev (bufs t i) = ROOTDEV \<and> b_blockno (bufs t i) \<in> P)" if "i < NBUF" "i \<notin> insert d L" for i
      using that D(5) [of i] cl co [of i] n by (cases "i = l") (auto simp: any)
    show "b_refcnt (bufs t i) = - 1" "b_dev (bufs t i) = ROOTDEV" "b_blockno (bufs t i) \<notin> P" if "i \<in> insert d L" for i
      using that D(12) [of i] dev np cd co(5) [of i] nl by (cases "i = d"; cases "i = l"; auto simp: any)+
    show "\<exists>i<NBUF. bkey (bufs t i) x \<and> b_valid (bufs t i)" if "x \<in> P" for x using D(7) [OF that] by (simp add: any)
  qed (use 3 2 1 e1 D(2,8,10) lt lk in auto)
  then show ?thesis using r1 r2 r3 1 2 3 e1 f any by (intro exI [of _ t]) simp
qed

end
