(* ===== verification/Log.thy ===== *)
theory Log
  imports Bcache_Rules
begin

text \<open>
  The write-ahead log, kernel/log.c. The on-disk header is the first bytes of block \<open>log_start\<close>: the number of logged blocks and
  their home locations; the copies follow in the blocks after it. \<open>int\<close> fields that the source only passes on as block numbers are kept
  as 32-bit words. A loop over a header with more than LOGSIZE entries runs off the array, \<open>Undef\<close>.

  \<open>recovered\<close> is what the file system will read after a crash that leaves a given medium: the home locations, overwritten by the blocks
  in the log if the header says that they were committed.
\<close>

section \<open>State and operations\<close>

abbreviation (input) LOGSIZE :: nat where "LOGSIZE \<equiv> 30"
abbreviation (input) MAXOPBLOCKS :: nat where "MAXOPBLOCKS \<equiv> 10"

record logst = dkst +
  log_start :: u32
  log_size :: int
  log_outstanding :: int
  log_committing :: bool
  log_dev :: u32
  lh_n :: int
  lh_block :: "nat \<Rightarrow> u32"

definition hdr_n :: "block \<Rightarrow> int" where
  "hdr_n d = sint (ldw 0 d :: u32)"

definition hdr_block :: "block \<Rightarrow> nat \<Rightarrow> u32" where
  "hdr_block d i = ldw (4 + 4 * i) d"

definition install_round :: "nat \<Rightarrow> 'a logst_scheme \<Rightarrow> 'a logst_scheme kres" where
  "install_round tail s =
     bnd (bread (log_dev s) (log_start s + of_nat tail + 1) s) (\<lambda>(lbuf, s).
     bnd (bread (log_dev s) (lh_block s tail) s) (\<lambda>(dbuf, s).
     bnd (bwrite dbuf (set_bdata dbuf (b_data (bufs s lbuf)) s)) (\<lambda>s.
     bnd (bunpin dbuf s) (\<lambda>s.
     bnd (brelse lbuf s) (brelse dbuf)))))"

fun install_loop :: "nat list \<Rightarrow> 'a logst_scheme \<Rightarrow> 'a logst_scheme kres" where
  "install_loop [] s = Inr s"
| "install_loop (tail # ts) s = bnd (install_round tail s) (install_loop ts)"

definition install_trans :: "'a logst_scheme \<Rightarrow> 'a logst_scheme kres" where
  "install_trans s = (if lh_n s > int LOGSIZE then Inl Undef else install_loop [0..<nat (lh_n s)] s)"

definition read_head :: "'a logst_scheme \<Rightarrow> 'a logst_scheme kres" where
  "read_head s =
     bnd (bread (log_dev s) (log_start s) s) (\<lambda>(b, s).
     let d = b_data (bufs s b); n = hdr_n d
     in if n > int LOGSIZE then Inl Undef
        else brelse b (s\<lparr>lh_n := n, lh_block := (\<lambda>i. if i < nat n then hdr_block d i else lh_block s i)\<rparr>))"

fun write_head_loop :: "nat list \<Rightarrow> (nat \<Rightarrow> u32) \<Rightarrow> block \<Rightarrow> block" where
  "write_head_loop [] blk d = d"
| "write_head_loop (i # is) blk d = write_head_loop is blk (stw (4 + 4 * i) (blk i) d)"

definition write_head :: "'a logst_scheme \<Rightarrow> 'a logst_scheme kres" where
  "write_head s =
     bnd (bread (log_dev s) (log_start s) s) (\<lambda>(b, s).
     if lh_n s > int LOGSIZE then Inl Undef
     else let d = stw 0 (word_of_int (lh_n s) :: u32) (b_data (bufs s b));
              d = write_head_loop [0..<nat (lh_n s)] (lh_block s) d
          in bnd (bwrite b (set_bdata b d s)) (brelse b))"

definition recover_from_log :: "'a logst_scheme \<Rightarrow> 'a logst_scheme kres" where
  "recover_from_log s =
     bnd (read_head s) (\<lambda>s.
     bnd (install_trans s) (\<lambda>s.
     write_head (s\<lparr>lh_n := 0\<rparr>)))"

definition initlog :: "u32 \<Rightarrow> u32 \<Rightarrow> u32 \<Rightarrow> 'a logst_scheme \<Rightarrow> 'a logst_scheme kres" where
  "initlog dev sb_logstart sb_nlog s =
     (if 4 + 4 * LOGSIZE \<ge> BSIZE then Inl (Panic ''initlog: too big logheader'')
      else recover_from_log (s\<lparr>log_start := sb_logstart, log_size := sint sb_nlog, log_dev := dev\<rparr>))"

definition begin_op :: "'a logst_scheme \<Rightarrow> 'a logst_scheme kres" where
  "begin_op s =
     bnd (acquire LkLog s) (\<lambda>s.
     if log_committing s then sleep ChLog LkLog s
     else if lh_n s + (log_outstanding s + 1) * int MAXOPBLOCKS > int LOGSIZE then sleep ChLog LkLog s
     else release LkLog (s\<lparr>log_outstanding := log_outstanding s + 1\<rparr>))"

definition write_log_round :: "nat \<Rightarrow> 'a logst_scheme \<Rightarrow> 'a logst_scheme kres" where
  "write_log_round tail s =
     bnd (bread (log_dev s) (log_start s + of_nat tail + 1) s) (\<lambda>(to, s).
     bnd (bread (log_dev s) (lh_block s tail) s) (\<lambda>(from, s).
     bnd (bwrite to (set_bdata to (b_data (bufs s from)) s)) (\<lambda>s.
     bnd (brelse from s) (brelse to))))"

fun write_log_loop :: "nat list \<Rightarrow> 'a logst_scheme \<Rightarrow> 'a logst_scheme kres" where
  "write_log_loop [] s = Inr s"
| "write_log_loop (tail # ts) s = bnd (write_log_round tail s) (write_log_loop ts)"

definition write_log :: "'a logst_scheme \<Rightarrow> 'a logst_scheme kres" where
  "write_log s = (if lh_n s > int LOGSIZE then Inl Undef else write_log_loop [0..<nat (lh_n s)] s)"

definition commit :: "'a logst_scheme \<Rightarrow> 'a logst_scheme kres" where
  "commit s =
     (if lh_n s > 0
      then bnd (write_log s) (\<lambda>s.
           bnd (write_head s) (\<lambda>s.
           bnd (install_trans s) (\<lambda>s.
           write_head (s\<lparr>lh_n := 0\<rparr>))))
      else Inr s)"

definition end_op :: "'a logst_scheme \<Rightarrow> 'a logst_scheme kres" where
  "end_op s =
     bnd (acquire LkLog s) (\<lambda>s.
     let s = s\<lparr>log_outstanding := log_outstanding s - 1\<rparr>
     in if log_committing s then Inl (Panic ''log.committing'')
        else if log_outstanding s = 0
        then bnd (release LkLog (s\<lparr>log_committing := True\<rparr>)) (\<lambda>s.
             bnd (commit s) (\<lambda>s.
             bnd (acquire LkLog s) (\<lambda>s.
             bnd (wakeup ChLog (s\<lparr>log_committing := False\<rparr>)) (release LkLog))))
        else bnd (wakeup ChLog s) (release LkLog))"

fun log_find :: "nat \<Rightarrow> nat \<Rightarrow> u32 \<Rightarrow> (nat \<Rightarrow> u32) \<Rightarrow> nat" where
  "log_find 0 i bn blk = i"
| "log_find (Suc k) i bn blk = (if blk i = bn then i else log_find k (Suc i) bn blk)"

definition log_write :: "nat \<Rightarrow> 'a logst_scheme \<Rightarrow> 'a logst_scheme kres" where
  "log_write b s =
     (if lh_n s \<ge> int LOGSIZE \<or> lh_n s \<ge> log_size s - 1 then Inl (Panic ''too big a transaction'')
      else if log_outstanding s < 1 then Inl (Panic ''log_write outside of trans'')
      else bnd (acquire LkLog s) (\<lambda>s.
           let i = log_find (nat (lh_n s)) 0 (b_blockno (bufs s b)) (lh_block s);
               s = s\<lparr>lh_block := (lh_block s)(i := b_blockno (bufs s b))\<rparr>
           in if int i = lh_n s
              then bnd (bpin b s) (\<lambda>s. release LkLog (s\<lparr>lh_n := lh_n s + 1\<rparr>))
              else release LkLog s))"

section \<open>The log on the medium\<close>

text \<open>mkfs lays out LOGSIZE blocks for the log: the header and 29 blocks of data.\<close>

abbreviation (input) LOGDATA :: nat where "LOGDATA \<equiv> 29"

definition lblk :: "u32 \<Rightarrow> nat \<Rightarrow> u32" where
  "lblk st i = st + of_nat i + 1"

definition logged :: "u32 \<Rightarrow> medium \<Rightarrow> (u32 \<times> block) list" where
  "logged st m = (let d = dblk m st in map (\<lambda>i. (hdr_block d i, dblk m (lblk st i))) [0..<nat (hdr_n d)])"

definition recovered :: "u32 \<Rightarrow> medium \<Rightarrow> u32 \<Rightarrow> block" where
  "recovered st m bn = (case map_of (logged st m) bn of Some d \<Rightarrow> d | None \<Rightarrow> dblk m bn)"

definition log_area :: "u32 \<Rightarrow> u32 \<Rightarrow> bool" where
  "log_area st bn \<longleftrightarrow> unat st \<le> unat bn \<and> unat bn < unat st + LOGSIZE"

definition logblks :: "'a logst_scheme \<Rightarrow> u32 list" where
  "logblks s = map (lh_block s) [0..<nat (lh_n s)]"

lemma unat_lblk: "unat st + 31 < 2 ^ 31 \<Longrightarrow> i < LOGDATA \<Longrightarrow> unat (lblk st i) = unat st + i + 1"
proof -
  assume a: "unat st + 31 < 2 ^ 31" "i < LOGDATA"
  have "unat (of_nat i + 1 :: u32) = i + 1" using a(2) by (simp add: unat_word_ariths unat_of_nat)
  then have "unat (st + (of_nat i + 1)) = unat st + (i + 1)" using a by (simp add: unat_word_ariths)
  then show ?thesis by (simp add: lblk_def add.assoc)
qed

lemma lblk_facts:
  assumes "unat st + 31 < 2 ^ 31" "i < LOGDATA"
  shows "log_area st (lblk st i)" "lblk st i \<noteq> st" "unat (lblk st i) < 2 ^ 31" "j < LOGDATA \<Longrightarrow> lblk st i = lblk st j \<longleftrightarrow> i = j"
proof -
  have u: "unat (lblk st i) = unat st + i + 1" by (rule unat_lblk [OF assms])
  show "log_area st (lblk st i)" using assms(2) unfolding log_area_def u by linarith
  show "unat (lblk st i) < 2 ^ 31" using assms unfolding u by linarith
  show "lblk st i \<noteq> st"
  proof
    assume "lblk st i = st"
    then have "unat (lblk st i) = unat st" by (rule arg_cong)
    then show False unfolding u by linarith
  qed
  assume j: "j < LOGDATA"
  show "lblk st i = lblk st j \<longleftrightarrow> i = j"
  proof
    assume "lblk st i = lblk st j"
    then have "unat (lblk st i) = unat (lblk st j)" by (rule arg_cong)
    then show "i = j" unfolding u unat_lblk [OF assms(1) j] by linarith
  qed simp
qed

lemma log_area_start [simp]: "log_area st st"
  by (simp add: log_area_def)

lemma dk_frame_log:
  assumes "dk_frame s t"
  shows "log_start t = log_start s" "log_size t = log_size s" "log_outstanding t = log_outstanding s" "log_committing t = log_committing s"
    "log_dev t = log_dev s" "lh_n t = lh_n s" "lh_block t = lh_block s"
  using assms by (auto simp: dk_frame_def)

lemma lh_block_mem: "i < nat (lh_n s) \<Longrightarrow> lh_block s i \<in> set (logblks s)"
  by (simp add: logblks_def)

section \<open>Header blocks\<close>

lemma write_head_loop_len [simp]: "length d = BSIZE \<Longrightarrow> \<forall>i\<in>set is. i < LOGSIZE \<Longrightarrow> length (write_head_loop is blk d) = BSIZE"
  by (induction "is" arbitrary: d) auto

lemma write_head_loop_other:
  "length d = BSIZE \<Longrightarrow> \<forall>i\<in>set is. i < LOGSIZE \<Longrightarrow> o' + 4 \<le> BSIZE \<Longrightarrow> \<forall>i\<in>set is. o' + 4 \<le> 4 + 4 * i \<or> 4 + 4 * i + 4 \<le> o' \<Longrightarrow>
   (ldw o' (write_head_loop is blk d) :: u32) = ldw o' d"
  by (induction "is" arbitrary: d) auto

lemma write_head_loop_blk:
  "length d = BSIZE \<Longrightarrow> \<forall>i\<in>set is. i < LOGSIZE \<Longrightarrow> distinct is \<Longrightarrow> j \<in> set is \<Longrightarrow> hdr_block (write_head_loop is blk d) j = blk j"
proof (induction "is" arbitrary: d)
  case (Cons i "is")
  show ?case
  proof (cases "j = i")
    case True
    have "4 + 4 * i + 4 \<le> 4 + 4 * k \<or> 4 + 4 * k + 4 \<le> 4 + 4 * i" if "k \<noteq> i" for k :: nat using that by arith
    then have "\<forall>k\<in>set is. 4 + 4 * i + 4 \<le> 4 + 4 * k \<or> 4 + 4 * k + 4 \<le> 4 + 4 * i" using Cons.prems(3) by (metis distinct.simps(2))
    then show ?thesis using Cons.prems True by (simp add: hdr_block_def write_head_loop_other)
  next
    case False
    then show ?thesis using Cons by simp
  qed
qed simp

definition hdr_for :: "'a logst_scheme \<Rightarrow> block \<Rightarrow> block" where
  "hdr_for s d = write_head_loop [0..<nat (lh_n s)] (lh_block s) (stw 0 (word_of_int (lh_n s) :: u32) d)"

lemma hdr_for_facts:
  assumes "length d = BSIZE" "0 \<le> lh_n s" "lh_n s < int LOGSIZE"
  shows "length (hdr_for s d) = BSIZE" "hdr_n (hdr_for s d) = lh_n s" "i < nat (lh_n s) \<Longrightarrow> hdr_block (hdr_for s d) i = lh_block s i"
proof -
  have l: "\<forall>i\<in>set [0..<nat (lh_n s)]. i < LOGSIZE" using assms(3) by auto
  show "length (hdr_for s d) = BSIZE" unfolding hdr_for_def using assms(1) by (intro write_head_loop_len l) simp
  have "(ldw 0 (hdr_for s d) :: u32) = word_of_int (lh_n s)"
    unfolding hdr_for_def by (subst write_head_loop_other) (use assms(1) l in auto)
  then show "hdr_n (hdr_for s d) = lh_n s" using assms(2,3) unfolding hdr_n_def by (simp add: signed_take_bit_int_eq_self signed_of_int)
  show "hdr_block (hdr_for s d) i = lh_block s i" if "i < nat (lh_n s)"
    unfolding hdr_for_def by (rule write_head_loop_blk) (use assms(1) l that in auto)
qed

section \<open>Writing the log\<close>

definition same_but :: "(u32 \<Rightarrow> bool) \<Rightarrow> medium \<Rightarrow> medium \<Rightarrow> bool" where
  "same_but Q m m' \<longleftrightarrow> (\<forall>bn. \<not> Q bn \<longrightarrow> dblk m' bn = dblk m bn)"

lemma same_but_refl [simp]: "same_but Q m m"
  by (simp add: same_but_def)

lemma same_but_set [simp]: "same_but Q m (set_dblk bn d m) \<longleftrightarrow> Q bn \<or> d = dblk m bn"
  by (auto simp: same_but_def dblk_set)

lemma same_but_trans: "same_but Q m m1 \<Longrightarrow> same_but Q m1 m2 \<Longrightarrow> same_but Q m m2"
  by (simp add: same_but_def)

lemma bview_len: "bc_inv s \<Longrightarrow> length (bview s bn) = BSIZE"
proof (cases "\<exists>i<NBUF. bkey (bufs s i) bn \<and> b_valid (bufs s i)")
  case True
  assume inv: "bc_inv s"
  then show ?thesis using True bview_cached [OF bc_inv_wf [OF inv], of _ bn] bc_inv_buf [OF inv] by (auto simp: buf_ok_def)
next
  case False
  assume "bc_inv s"
  moreover have "bview s bn = dblk (medium s) bn" by (rule bview_uncached) (use False in auto)
  ultimately show ?thesis by (simp add: bc_inv_def bc_wf_def dblk_def)
qed

text \<open>One round: log block \<open>l\<close> receives the contents of the pinned block \<open>bn\<close>.\<close>

lemma write_log_round_ok:
  fixes s :: "'a logst_scheme" and i :: nat
  defines "l \<equiv> lblk (log_start s) i" and "bn \<equiv> lh_block s i"
  assumes q: "bq s P {}" and dev: "log_dev s = ROOTDEV" and l: "l \<notin> P" "unat l < 2 ^ 31" and bn: "bn \<in> P" "unat bn < 2 ^ 31" and c: "card P < NBUF"
  shows "\<exists>t. write_log_round i s = Inr t \<and> bq t P {} \<and> dk_frame s t \<and> bview t = (bview s)(l := bview s bn) \<and>
    medium t = set_dblk l (bview s bn) (medium s) \<and> set (mhist t) \<subseteq> set (mhist s) \<union> {medium s, medium t}"
proof -
  obtain to s1 where r1: "bread ROOTDEV l s = Inr (to, s1)" and q1: "bq s1 P {to}" and h1: "buf_has s1 to l"
    and e1: "bview s1 = bview s" "medium s1 = medium s" "set (mhist s1) \<subseteq> insert (medium s) (set (mhist s))" "dk_frame s s1"
    using bq_bread [OF q l(2)] c by auto
  have k1: "b_blockno (bufs s1 to) = l" using h1 by (simp add: buf_has_def bkey_def)
  obtain fr s2 where r2: "bread ROOTDEV bn s1 = Inr (fr, s2)" and q2: "bq s2 P {fr, to}" and h2: "buf_has s2 fr bn" and n2: "fr \<noteq> to"
    and e2: "bview s2 = bview s1" "medium s2 = medium s1" "set (mhist s2) \<subseteq> insert (medium s1) (set (mhist s1))" "dk_frame s1 s2" and o2: "others fr s1 s2"
    using bq_bread [OF q1 bn(2)] bn(1) l(1) k1 by auto
  have k2: "b_blockno (bufs s2 to) = l" using k1 othersD(3) [OF o2, of to] n2 by auto
  have d2: "b_data (bufs s2 fr) = bview s bn" using buf_has_view [OF bqD(1) [OF q2] h2] e1 e2 by simp
  have len: "length (bview s bn) = BSIZE" by (rule bview_len [OF bqD(1) [OF q]])
  obtain s3 where r3: "bwrite to (set_bdata to (bview s bn) s2) = Inr s3" and q3: "bq s3 P {fr, to}"
    and e3: "bview s3 = (bview s2)(l := bview s bn)" "medium s3 = set_dblk l (bview s bn) (medium s2)" "mhist s3 = mhist s2 @ [medium s3]" "dk_frame s2 s3"
    using bq_through [OF q2 _ _ len, of to] l(1) k2 by auto
  obtain s4 where r4: "brelse fr s3 = Inr s4" and q4: "bq s4 P ({fr, to} - {fr})" and e4: "bview s4 = bview s3" "medium s4 = medium s3" "mhist s4 = mhist s3" "dk_frame s3 s4"
    using bq_brelse [OF q3, of fr] by auto
  obtain s5 where r5: "brelse to s4 = Inr s5" and q5: "bq s5 P ({fr, to} - {fr} - {to})" and e5: "bview s5 = bview s4" "medium s5 = medium s4" "mhist s5 = mhist s4" "dk_frame s4 s5"
    using bq_brelse [OF q4, of to] n2 by auto
  have x: "log_start s + word_of_nat i + 1 = l" "lh_block s1 i = bn" "log_dev s1 = ROOTDEV" using dk_frame_log [OF e1(4)] dev by (simp_all add: l_def bn_def lblk_def)
  have "write_log_round i s = Inr s5" by (simp add: write_log_round_def dev x r1 r2 d2 r3 r4 r5)
  moreover have "{fr, to} - {fr} - {to} = {}" by auto
  then have "bq s5 P {}" using q5 by (simp only:)
  moreover have "dk_frame s s5" using e1(4) e2(4) e3(4) e4(4) e5(4) by (meson dk_frame_trans)
  ultimately show ?thesis using e1 e2 e3 e4 e5 by auto
qed

text \<open>The blocks pinned by the log, and what the loops need of the header.\<close>

definition pinned_ok :: "'a logst_scheme \<Rightarrow> u32 set \<Rightarrow> bool" where
  "pinned_ok s P \<longleftrightarrow> log_dev s = ROOTDEV \<and> 0 \<le> lh_n s \<and> lh_n s < int LOGSIZE \<and> unat (log_start s) + 31 < 2 ^ 31 \<and> distinct (logblks s) \<and>
     (\<forall>bn\<in>set (logblks s). \<not> log_area (log_start s) bn \<and> unat bn < 2 ^ 31) \<and> P \<subseteq> set (logblks s)"

definition lq :: "'a logst_scheme \<Rightarrow> nat set \<Rightarrow> bool" where
  "lq s H \<longleftrightarrow> bq s (set (logblks s)) H \<and> pinned_ok s (set (logblks s))"

lemma card_pinned: "pinned_ok s P \<Longrightarrow> card P < NBUF"
proof -
  assume p: "pinned_ok s P"
  then have "card P \<le> length (logblks s)" using card_mono [of "set (logblks s)" P] card_length [of "logblks s"] unfolding pinned_ok_def by force
  moreover have "nat (lh_n s) < NBUF" using p by (simp add: pinned_ok_def nat_less_iff)
  ultimately show ?thesis by (simp add: logblks_def)
qed

lemma write_log_loop_ok:
  assumes "bq s P {}" "pinned_ok s P" "\<forall>i\<in>set is. i < nat (lh_n s) \<and> lh_block s i \<in> P" "distinct is"
  shows "\<exists>t. write_log_loop is s = Inr t \<and> bq t P {} \<and> dk_frame s t \<and>
    (\<forall>bn. \<not> log_area (log_start s) bn \<or> bn = log_start s \<longrightarrow> bview t bn = bview s bn \<and> dblk (medium t) bn = dblk (medium s) bn) \<and>
    (\<forall>i\<in>set is. dblk (medium t) (lblk (log_start s) i) = bview s (lh_block s i)) \<and>
    (\<forall>i<LOGDATA. i \<notin> set is \<longrightarrow> dblk (medium t) (lblk (log_start s) i) = dblk (medium s) (lblk (log_start s) i)) \<and>
    (\<forall>m\<in>set (mhist t) - set (mhist s). \<forall>bn. \<not> log_area (log_start s) bn \<or> bn = log_start s \<longrightarrow> dblk m bn = dblk (medium s) bn)"
  using assms
proof (induction "is" arbitrary: s)
  case (Cons i "is")
  let ?st = "log_start s" and ?l = "lblk (log_start s) i"
  have p: "log_dev s = ROOTDEV" "lh_n s < int LOGSIZE" "unat ?st + 31 < 2 ^ 31" "\<forall>bn\<in>set (logblks s). \<not> log_area ?st bn \<and> unat bn < 2 ^ 31" "P \<subseteq> set (logblks s)"
    using Cons.prems(2) by (auto simp: pinned_ok_def)
  have i: "i < nat (lh_n s)" "lh_block s i \<in> P" "i < LOGDATA" using Cons.prems(3) p(2) by auto
  note lf = lblk_facts [OF p(3) i(3)]
  have np: "?l \<notin> P" using p(4,5) lf(1) by blast
  have c: "card P < NBUF" by (rule card_pinned [OF Cons.prems(2)])
  have u: "unat (lh_block s i) < 2 ^ 31" using p(4,5) i(2) by blast
  obtain s1 where r: "write_log_round i s = Inr s1" and q1: "bq s1 P {}" and f: "dk_frame s s1"
    and v: "bview s1 = (bview s)(?l := bview s (lh_block s i))" "medium s1 = set_dblk ?l (bview s (lh_block s i)) (medium s)"
      "set (mhist s1) \<subseteq> set (mhist s) \<union> {medium s, medium s1}"
    using write_log_round_ok [OF Cons.prems(1) p(1) np lf(3) i(2) u c] by blast
  note fl = dk_frame_log [OF f]
  have lb: "logblks s1 = logblks s" by (simp add: logblks_def fl)
  have "pinned_ok s1 P" using Cons.prems(2) by (simp add: pinned_ok_def fl lb)
  from Cons.IH [OF q1 this] Cons.prems(3,4) obtain t where t: "write_log_loop is s1 = Inr t" "bq t P {}" "dk_frame s1 t"
    "\<forall>bn. \<not> log_area ?st bn \<or> bn = ?st \<longrightarrow> bview t bn = bview s1 bn \<and> dblk (medium t) bn = dblk (medium s1) bn"
    "\<forall>j\<in>set is. dblk (medium t) (lblk ?st j) = bview s1 (lh_block s j)"
    "\<forall>j<LOGDATA. j \<notin> set is \<longrightarrow> dblk (medium t) (lblk ?st j) = dblk (medium s1) (lblk ?st j)"
    "\<forall>m\<in>set (mhist t) - set (mhist s1). \<forall>bn. \<not> log_area ?st bn \<or> bn = ?st \<longrightarrow> dblk m bn = dblk (medium s1) bn"
    by (auto simp: fl)
  have out: "bn \<noteq> ?l" if "\<not> log_area ?st bn \<or> bn = ?st" for bn using that lf(1,2) by auto
  have blk: "lh_block s j \<noteq> ?l" if "j \<in> set is" for j using Cons.prems(3) that np by auto
  have same: "dblk (medium s1) bn = dblk (medium s) bn" if "\<not> log_area ?st bn \<or> bn = ?st" for bn using out [OF that] by (simp add: v dblk_set)
  show ?case
  proof (intro exI [of _ t] conjI)
    show "write_log_loop (i # is) s = Inr t" using r t(1) by simp
    show "dk_frame s t" by (rule dk_frame_trans [OF f t(3)])
    show "\<forall>bn. \<not> log_area ?st bn \<or> bn = ?st \<longrightarrow> bview t bn = bview s bn \<and> dblk (medium t) bn = dblk (medium s) bn"
      using t(4) out same by (simp add: v(1))
    show "\<forall>j\<in>set (i # is). dblk (medium t) (lblk ?st j) = bview s (lh_block s j)"
      using t(5,6) Cons.prems(4) i(3) blk by (auto simp: v dblk_set)
    show "\<forall>j<LOGDATA. j \<notin> set (i # is) \<longrightarrow> dblk (medium t) (lblk ?st j) = dblk (medium s) (lblk ?st j)"
    proof (intro allI impI)
      fix j assume j: "j < LOGDATA" "j \<notin> set (i # is)"
      then have "lblk ?st j \<noteq> ?l" using lf(4) [OF j(1)] by (auto dest: sym)
      then show "dblk (medium t) (lblk ?st j) = dblk (medium s) (lblk ?st j)" using t(6) j by (simp add: v dblk_set)
    qed
    show "\<forall>m\<in>set (mhist t) - set (mhist s). \<forall>bn. \<not> log_area ?st bn \<or> bn = ?st \<longrightarrow> dblk m bn = dblk (medium s) bn"
    proof (intro ballI allI impI)
      fix m bn assume m: "m \<in> set (mhist t) - set (mhist s)" and bn: "\<not> log_area ?st bn \<or> bn = ?st"
      show "dblk m bn = dblk (medium s) bn"
      proof (cases "m \<in> set (mhist s1)")
        case True
        then have "m = medium s \<or> m = medium s1" using v(3) m by blast
        then show ?thesis using same [OF bn] by auto
      next
        case False
        then show ?thesis using t(7) m bn same [OF bn] by (metis DiffD1 DiffI)
      qed
    qed
  qed (use t in auto)
qed auto

section \<open>Installing the log\<close>

lemma install_round_ok:
  fixes s :: "'a logst_scheme" and i :: nat
  defines "l \<equiv> lblk (log_start s) i" and "bn \<equiv> lh_block s i"
  assumes q: "bq s P {}" and dev: "log_dev s = ROOTDEV" and l: "l \<notin> P" "unat l < 2 ^ 31" and bn: "bn \<in> P" "unat bn < 2 ^ 31" and c: "card P < NBUF"
  shows "\<exists>t. install_round i s = Inr t \<and> bq t (P - {bn}) {} \<and> dk_frame s t \<and> bview t = (bview s)(bn := bview s l) \<and>
    medium t = set_dblk bn (bview s l) (medium s) \<and> set (mhist t) \<subseteq> set (mhist s) \<union> {medium s, medium t}"
proof -
  obtain lb s1 where r1: "bread ROOTDEV l s = Inr (lb, s1)" and q1: "bq s1 P {lb}" and h1: "buf_has s1 lb l"
    and e1: "bview s1 = bview s" "medium s1 = medium s" "set (mhist s1) \<subseteq> insert (medium s) (set (mhist s))" "dk_frame s s1"
    using bq_bread [OF q l(2)] c by auto
  have k1: "b_blockno (bufs s1 lb) = l" using h1 by (simp add: buf_has_def bkey_def)
  obtain db s2 where r2: "bread ROOTDEV bn s1 = Inr (db, s2)" and q2: "bq s2 P {db, lb}" and h2: "buf_has s2 db bn" and n2: "db \<noteq> lb"
    and e2: "bview s2 = bview s1" "medium s2 = medium s1" "set (mhist s2) \<subseteq> insert (medium s1) (set (mhist s1))" "dk_frame s1 s2" and o2: "others db s1 s2"
    using bq_bread [OF q1 bn(2)] bn(1) l(1) k1 by auto
  have k2: "b_blockno (bufs s2 db) = bn" using h2 by (simp add: buf_has_def bkey_def)
  have d2: "b_data (bufs s2 lb) = bview s l" using buf_has_view [OF bqD(1) [OF q1] h1] e1 othersD(5) [OF o2, of lb] n2 by auto
  have len: "length (bview s l) = BSIZE" by (rule bview_len [OF bqD(1) [OF q]])
  obtain t3 s3 where r3: "bwrite db (set_bdata db (bview s l) s2) = Inr t3" "bunpin db t3 = Inr s3" and q3: "bq s3 (P - {bn}) {db, lb}"
    and e3: "bview s3 = (bview s2)(bn := bview s l)" "medium s3 = set_dblk bn (bview s l) (medium s2)" "mhist s3 = mhist s2 @ [medium s3]" "dk_frame s2 s3"
    using bq_unpin [OF q2 _ _ len, of db] bn(1) k2 by auto
  obtain s4 where r4: "brelse lb s3 = Inr s4" and q4: "bq s4 (P - {bn}) ({db, lb} - {lb})" and e4: "bview s4 = bview s3" "medium s4 = medium s3" "mhist s4 = mhist s3" "dk_frame s3 s4"
    using bq_brelse [OF q3, of lb] by auto
  obtain s5 where r5: "brelse db s4 = Inr s5" and q5: "bq s5 (P - {bn}) ({db, lb} - {lb} - {db})" and e5: "bview s5 = bview s4" "medium s5 = medium s4" "mhist s5 = mhist s4" "dk_frame s4 s5"
    using bq_brelse [OF q4, of db] n2 by auto
  have x: "log_start s + word_of_nat i + 1 = l" "lh_block s1 i = bn" "log_dev s1 = ROOTDEV" using dk_frame_log [OF e1(4)] dev by (simp_all add: l_def bn_def lblk_def)
  have "install_round i s = Inr s5" by (simp add: install_round_def dev x r1 r2 d2 r3 r4 r5)
  moreover have "{db, lb} - {lb} - {db} = {}" by auto
  then have "bq s5 (P - {bn}) {}" using q5 by (simp only:)
  moreover have "dk_frame s s5" using e1(4) e2(4) e3(4) e4(4) e5(4) by (meson dk_frame_trans)
  ultimately show ?thesis using e1 e2 e3 e4 e5 by auto
qed

lemma install_hist:
  assumes "medium s1 = set_dblk (lh_block s i) (bview s (lblk st i)) (medium s)" "set (mhist s1) \<subseteq> set (mhist s) \<union> {medium s, medium s1}"
    and h: "\<forall>m\<in>set (mhist t) - set (mhist s1). \<forall>bn. dblk m bn = dblk (medium s1) bn \<or> (\<exists>j\<in>set is. bn = lh_block s j \<and> dblk m bn = bview s1 (lblk st j))"
    and vl: "\<And>j. j \<in> set is \<Longrightarrow> bview s1 (lblk st j) = bview s (lblk st j)"
  shows "\<forall>m\<in>set (mhist t) - set (mhist s). \<forall>bn. dblk m bn = dblk (medium s) bn \<or> (\<exists>j\<in>set (i # is). bn = lh_block s j \<and> dblk m bn = bview s (lblk st j))"
proof (intro ballI allI)
  fix m bn assume m: "m \<in> set (mhist t) - set (mhist s)"
  have s1: "dblk (medium s1) bn = dblk (medium s) bn \<or> bn = lh_block s i \<and> dblk (medium s1) bn = bview s (lblk st i)" by (auto simp: assms(1) dblk_set)
  show "dblk m bn = dblk (medium s) bn \<or> (\<exists>j\<in>set (i # is). bn = lh_block s j \<and> dblk m bn = bview s (lblk st j))"
  proof (cases "m \<in> set (mhist s1)")
    case True
    then have "m = medium s \<or> m = medium s1" using assms(2) m by blast
    then show ?thesis using s1 by auto
  next
    case False
    then have "dblk m bn = dblk (medium s1) bn \<or> (\<exists>j\<in>set is. bn = lh_block s j \<and> dblk m bn = bview s1 (lblk st j))" using h m by blast
    then show ?thesis using s1 vl by auto
  qed
qed

lemma install_loop_ok:
  assumes "bq s P {}" "pinned_ok s P" "\<forall>i\<in>set is. i < nat (lh_n s) \<and> lh_block s i \<in> P" "distinct is"
  shows "\<exists>t. install_loop is s = Inr t \<and> bq t (P - lh_block s ` set is) {} \<and> dk_frame s t \<and>
    (\<forall>bn. bn \<notin> lh_block s ` set is \<longrightarrow> bview t bn = bview s bn \<and> dblk (medium t) bn = dblk (medium s) bn) \<and>
    (\<forall>i\<in>set is. bview t (lh_block s i) = bview s (lblk (log_start s) i) \<and> dblk (medium t) (lh_block s i) = bview s (lblk (log_start s) i)) \<and>
    (\<forall>m\<in>set (mhist t) - set (mhist s). \<forall>bn. dblk m bn = dblk (medium s) bn \<or> (\<exists>i\<in>set is. bn = lh_block s i \<and> dblk m bn = bview s (lblk (log_start s) i)))"
  using assms
proof (induction "is" arbitrary: s P)
  case (Cons i "is")
  let ?st = "log_start s" and ?l = "lblk (log_start s) i" and ?bn = "lh_block s i"
  have p: "log_dev s = ROOTDEV" "lh_n s < int LOGSIZE" "unat ?st + 31 < 2 ^ 31" "\<forall>bn\<in>set (logblks s). \<not> log_area ?st bn \<and> unat bn < 2 ^ 31" "P \<subseteq> set (logblks s)"
    and di: "distinct (logblks s)" using Cons.prems(2) by (auto simp: pinned_ok_def)
  have i: "i < nat (lh_n s)" "?bn \<in> P" "i < LOGDATA" using Cons.prems(3) p(2) by auto
  note lf = lblk_facts [OF p(3) i(3)]
  have np: "?l \<notin> P" using p(4,5) lf(1) by blast
  have u: "unat ?bn < 2 ^ 31" using p(4,5) i(2) by blast
  obtain s1 where r: "install_round i s = Inr s1" and q1: "bq s1 (P - {?bn}) {}" and f: "dk_frame s s1"
    and v: "bview s1 = (bview s)(?bn := bview s ?l)" "medium s1 = set_dblk ?bn (bview s ?l) (medium s)"
      "set (mhist s1) \<subseteq> set (mhist s) \<union> {medium s, medium s1}"
    using install_round_ok [OF Cons.prems(1) p(1) np lf(3) i(2) u card_pinned [OF Cons.prems(2)]] by blast
  note fl = dk_frame_log [OF f]
  have lb: "logblks s1 = logblks s" by (simp add: logblks_def fl)
  have ne: "lh_block s j \<noteq> ?bn" if "j \<in> set is" for j
  proof -
    have "j < nat (lh_n s)" "j \<noteq> i" using Cons.prems(3,4) that by auto
    then show ?thesis using di i(1) by (auto simp: logblks_def distinct_map inj_on_def)
  qed
  have p1: "pinned_ok s1 (P - {?bn})" using Cons.prems(2) by (auto simp: pinned_ok_def fl lb)
  have m1: "\<forall>j\<in>set is. j < nat (lh_n s1) \<and> lh_block s1 j \<in> P - {?bn}" using Cons.prems(3) ne by (simp add: fl)
  have lj: "lblk ?st j \<noteq> ?bn" if "j \<in> set is" for j
  proof -
    have "j < LOGDATA" using Cons.prems(3) that p(2) by auto
    then show ?thesis using lblk_facts(1) [OF p(3), of j] p(4,5) i(2) by auto
  qed
  from Cons.IH [OF q1 p1 m1] Cons.prems(4) obtain t where t: "install_loop is s1 = Inr t" "bq t (P - {?bn} - lh_block s ` set is) {}" "dk_frame s1 t"
    "\<forall>bn. bn \<notin> lh_block s ` set is \<longrightarrow> bview t bn = bview s1 bn \<and> dblk (medium t) bn = dblk (medium s1) bn"
    "\<forall>j\<in>set is. bview t (lh_block s j) = bview s1 (lblk ?st j) \<and> dblk (medium t) (lh_block s j) = bview s1 (lblk ?st j)"
    "\<forall>m\<in>set (mhist t) - set (mhist s1). \<forall>bn. dblk m bn = dblk (medium s1) bn \<or> (\<exists>j\<in>set is. bn = lh_block s j \<and> dblk m bn = bview s1 (lblk ?st j))"
    unfolding fl by auto
  have P: "P - {?bn} - lh_block s ` set is = P - lh_block s ` set (i # is)" by auto
  have vl: "bview s1 (lblk ?st j) = bview s (lblk ?st j)" if "j \<in> set is" for j using lj [OF that] by (simp add: v)
  have nbn: "?bn \<notin> lh_block s ` set is" using ne by (metis imageE)
  show ?case
  proof (intro exI [of _ t] conjI)
    show "install_loop (i # is) s = Inr t" using r t(1) by simp
    show "bq t (P - lh_block s ` set (i # is)) {}" using t(2) unfolding P .
    show "dk_frame s t" by (rule dk_frame_trans [OF f t(3)])
    show "\<forall>bn. bn \<notin> lh_block s ` set (i # is) \<longrightarrow> bview t bn = bview s bn \<and> dblk (medium t) bn = dblk (medium s) bn"
      using t(4) by (auto simp: v dblk_set)
    show "\<forall>j\<in>set (i # is). bview t (lh_block s j) = bview s (lblk ?st j) \<and> dblk (medium t) (lh_block s j) = bview s (lblk ?st j)"
      using t(4,5) vl nbn by (auto simp: v dblk_set)
    show "\<forall>m\<in>set (mhist t) - set (mhist s). \<forall>bn. dblk m bn = dblk (medium s) bn \<or> (\<exists>j\<in>set (i # is). bn = lh_block s j \<and> dblk m bn = bview s (lblk ?st j))"
      by (rule install_hist [OF v(2,3) t(6) vl])
  qed
qed auto

section \<open>Commit\<close>

lemma write_head_ok:
  assumes q: "bql s P {} L" and p: "pinned_ok s P" and L: "\<And>i. i \<in> L \<Longrightarrow> b_blockno (bufs s i) \<noteq> log_start s" "card P + card L < NBUF"
  shows "\<exists>t d. write_head s = Inr t \<and> bql t P {} L \<and> dk_frame s t \<and> bview t = (bview s)(log_start s := d) \<and> medium t = set_dblk (log_start s) d (medium s) \<and>
    hdr_n d = lh_n s \<and> (\<forall>i<nat (lh_n s). hdr_block d i = lh_block s i) \<and> set (mhist t) \<subseteq> set (mhist s) \<union> {medium s, medium t}"
proof -
  let ?st = "log_start s"
  have n: "?st \<notin> P" using p log_area_start unfolding pinned_ok_def by blast
  have lt: "unat ?st < 2 ^ 31" and dev: "log_dev s = ROOTDEV" and nn: "0 \<le> lh_n s" "lh_n s < int LOGSIZE" using p by (auto simp: pinned_ok_def)
  obtain b s1 where r1: "bread ROOTDEV ?st s = Inr (b, s1)" and q1: "bql s1 P {b} L" and h1: "buf_has s1 b ?st"
    and e1: "bview s1 = bview s" "medium s1 = medium s" "set (mhist s1) \<subseteq> insert (medium s) (set (mhist s))" "dk_frame s s1"
    using bq_bread [OF q lt] L by auto
  note fl = dk_frame_log [OF e1(4)]
  define d where "d = hdr_for s1 (b_data (bufs s1 b))"
  have len: "length (b_data (bufs s1 b)) = BSIZE" using buf_has_view [OF bqD(1) [OF q1] h1] bview_len [OF bqD(1) [OF q1]] by simp
  note hf = hdr_for_facts [OF len, of s1, folded d_def, unfolded fl, OF nn]
  have k1: "b_blockno (bufs s1 b) = ?st" using h1 by (simp add: buf_has_def bkey_def)
  obtain s2 where r2: "bwrite b (set_bdata b d s1) = Inr s2" and q2: "bql s2 P {b} L"
    and e2: "bview s2 = (bview s1)(?st := d)" "medium s2 = set_dblk ?st d (medium s1)" "mhist s2 = mhist s1 @ [medium s2]" "dk_frame s1 s2"
    using bq_through [OF q1 _ _ hf(1), of b] n k1 by auto
  obtain s3 where r3: "brelse b s2 = Inr s3" and q3: "bql s3 P ({b} - {b}) L" and e3: "bview s3 = bview s2" "medium s3 = medium s2" "mhist s3 = mhist s2" "dk_frame s2 s3"
    using bq_brelse [OF q2, of b] by auto
  have "write_head s = Inr s3" using nn r2 r3 by (simp add: write_head_def dev r1 fl Let_def d_def hdr_for_def)
  moreover have "dk_frame s s3" using e1(4) e2(4) e3(4) by (meson dk_frame_trans)
  ultimately show ?thesis using q3 e1 e2 e3 hf(2,3) by (intro exI [of _ s3] exI [of _ d]) auto
qed

text \<open>What is recovered from a medium with an empty, or with a complete, log.\<close>

lemma recovered_empty: "hdr_n (dblk m st) = 0 \<Longrightarrow> recovered st m bn = dblk m bn"
  by (simp add: recovered_def logged_def)

lemma recovered_full:
  assumes h: "hdr_n (dblk m st) = int (length bs)" "\<forall>i<length bs. hdr_block (dblk m st) i = bs ! i" and di: "distinct bs"
    and l: "\<forall>i<length bs. dblk m (lblk st i) = f (bs ! i)" and o: "bn \<notin> set bs \<Longrightarrow> dblk m bn = f bn"
  shows "recovered st m bn = f bn"
proof -
  have "logged st m = map (\<lambda>b. (b, f b)) bs"
    by (rule nth_equalityI) (use h l in \<open>auto simp: logged_def Let_def\<close>)
  then have "map_of (logged st m) bn = (if bn \<in> set bs then Some (f bn) else None)"
    by (simp add: map_of_map_restrict restrict_map_def)
  then show ?thesis using o by (simp add: recovered_def)
qed

lemma pinned_ok_frame: "dk_frame s t \<Longrightarrow> pinned_ok s P \<Longrightarrow> P' \<subseteq> P \<Longrightarrow> pinned_ok t P'"
  using dk_frame_log [of s t] by (auto simp: pinned_ok_def logblks_def)

lemma lq_empty_log: "bq s {} {} \<Longrightarrow> pinned_ok s {} \<Longrightarrow> lh_n s = 0 \<Longrightarrow> lq s {}"
  by (simp add: lq_def logblks_def pinned_ok_def)

lemma bq_cong:
  assumes "bufs t = bufs s" "slocks t = slocks s" "medium t = medium s" "vq_idle t = vq_idle s" "vdev t = vdev s" "held t = held s" "cur t = cur s"
    "procs t = procs s"
  shows "bql t P H L = bql s P H L"
  by (simp only: bql_def bc_inv_def has_sleep_def bview_cong [OF assms(1,3)] assms)

lemma bq_log [simp]: "bql (s\<lparr>lh_n := n\<rparr>) P H L = bql s P H L" "bql (s\<lparr>lh_n := n, lh_block := b\<rparr>) P H L = bql s P H L"
  "bql (s\<lparr>lh_block := b\<rparr>) P H L = bql s P H L"
  "bql (s\<lparr>log_outstanding := k\<rparr>) P H L = bql s P H L" "bql (s\<lparr>log_committing := c\<rparr>) P H L = bql s P H L"
  by (rule bq_cong; simp add: vq_idle_def)+

lemma bview_log [simp]: "bview (s\<lparr>lh_n := n\<rparr>) = bview s" "bview (s\<lparr>lh_n := n, lh_block := b\<rparr>) = bview s" "bview (s\<lparr>lh_block := b\<rparr>) = bview s"
  "bview (s\<lparr>log_outstanding := k\<rparr>) = bview s" "bview (s\<lparr>log_committing := c\<rparr>) = bview s"
  by (rule bview_cong; simp)+

lemma dk_frame_lh: "dk_frame s t \<Longrightarrow> dk_frame (s\<lparr>lh_n := n, lh_block := b\<rparr>) (t\<lparr>lh_n := n, lh_block := b\<rparr>)"
proof -
  assume f: "dk_frame s t"
  then obtain P L B q fr u ib m mh w where t: "t = s\<lparr>procs := P, slocks := L, bufs := B, vq := q, vq_free := fr, used_idx := u,
     info_b := ib, medium := m, mhist := mh, mmiow := w\<rparr>" unfolding dk_frame_def by blast
  show ?thesis
    by (rule dk_frameI [where P = P and L = L and B = B and q = q and f = fr and u = u and ib = ib and m = m and mh = mh and w = w])
      (use f in \<open>simp_all add: t dk_frame_def procs_like_def\<close>)
qed

text \<open>What an operation inside a transaction may change: besides the cache, the in-memory header.\<close>

definition lg_frame :: "'a logst_scheme \<Rightarrow> 'a logst_scheme \<Rightarrow> bool" where
  "lg_frame s t \<longleftrightarrow> dk_frame (s\<lparr>lh_n := lh_n t, lh_block := lh_block t\<rparr>) t"

lemma lg_frame_dk: "dk_frame s t \<Longrightarrow> lg_frame s t"
proof -
  assume f: "dk_frame s t"
  have "s\<lparr>lh_n := lh_n t, lh_block := lh_block t\<rparr> = s" by (simp add: dk_frame_log [OF f])
  then show ?thesis using f by (simp add: lg_frame_def)
qed

lemma lg_frame_refl [simp]: "lg_frame s s"
  by (simp add: lg_frame_dk)

lemma lg_frame_upd [simp]: "lg_frame s (s\<lparr>lh_n := n, lh_block := b\<rparr>)" "lg_frame s (s\<lparr>lh_n := n\<rparr>)" "lg_frame s (s\<lparr>lh_block := b\<rparr>)"
  by (simp_all add: lg_frame_def)

lemma lg_frame_trans [trans]: "lg_frame s t \<Longrightarrow> lg_frame t u \<Longrightarrow> lg_frame s u"
  unfolding lg_frame_def
  using dk_frame_lh [of "s\<lparr>lh_n := lh_n t, lh_block := lh_block t\<rparr>" t "lh_block u" "lh_n u"] by (auto intro: dk_frame_trans)

lemma lg_frameD:
  assumes "lg_frame s t"
  shows "held t = held s" "cur t = cur s" "initproc t = initproc s" "nextpid t = nextpid s" "ticks t = ticks s" "mem t = mem s"
    "freelist t = freelist s" "pageref t = pageref s" "kend t = kend s" "kernel_pagetable t = kernel_pagetable s" "etext t = etext s"
    "trampoline t = trampoline s" "vdev t = vdev s" "mmio t = mmio s" "procs_like s t" "slocks t (SlInode i) = slocks s (SlInode i)"
    "log_start t = log_start s" "log_size t = log_size s" "log_outstanding t = log_outstanding s" "log_committing t = log_committing s"
    "log_dev t = log_dev s" "logst.more t = logst.more s"
proof -
  obtain P L B q fr u ib m mh w where t: "t = s\<lparr>lh_n := lh_n t, lh_block := lh_block t, procs := P, slocks := L, bufs := B, vq := q, vq_free := fr, used_idx := u,
     info_b := ib, medium := m, mhist := mh, mmiow := w\<rparr>" using assms unfolding lg_frame_def dk_frame_def by blast
  show "logst.more t = logst.more s" by (subst t) simp
qed (use dk_frameD [OF assms [unfolded lg_frame_def]] dk_frame_log [OF assms [unfolded lg_frame_def]] in \<open>auto simp: procs_like_def\<close>)

definition commit_post :: "'a logst_scheme \<Rightarrow> 'a logst_scheme \<Rightarrow> bool" where
  "commit_post s t \<longleftrightarrow> lq t {} \<and> lh_n t = 0 \<and> lg_frame s t \<and> hdr_n (dblk (medium t) (log_start s)) = 0 \<and>
     (\<forall>bn. \<not> log_area (log_start s) bn \<longrightarrow> bview t bn = bview s bn \<and> dblk (medium t) bn = bview s bn) \<and>
     (\<forall>m\<in>set (mhist t) - set (mhist s). (\<forall>bn. \<not> log_area (log_start s) bn \<longrightarrow> recovered (log_start s) m bn = dblk (medium s) bn) \<or>
        (\<forall>bn. \<not> log_area (log_start s) bn \<longrightarrow> recovered (log_start s) m bn = bview s bn))"

lemma commit_ok:
  assumes lq: "lq s {}" and h: "hdr_n (dblk (medium s) (log_start s)) = 0" and n: "lh_n s > 0"
  shows "\<exists>t. commit s = Inr t \<and> commit_post s t"
proof -
  define st P f where d: "st = log_start s" "P = set (logblks s)" "f = bview s"
  let ?is = "[0..<nat (lh_n s)]"
  have q: "bq s P {}" and p: "pinned_ok s P" using lq by (auto simp: lq_def d)
  have lt: "lh_n s \<le> int LOGSIZE" "nat (lh_n s) < LOGSIZE" "unat st + 31 < 2 ^ 31" and di: "distinct (logblks s)" and na: "\<And>bn. bn \<in> P \<Longrightarrow> \<not> log_area st bn"
    using p by (auto simp: pinned_ok_def d)
  have mem: "\<forall>i\<in>set ?is. i < nat (lh_n s) \<and> lh_block s i \<in> P" by (simp add: d logblks_def)
  have im: "lh_block s ` set ?is = P" by (simp add: d logblks_def)
  have len: "length (logblks s) = nat (lh_n s)" "\<And>i. i < nat (lh_n s) \<Longrightarrow> logblks s ! i = lh_block s i" by (simp_all add: logblks_def)
  obtain s1 where r1: "write_log_loop ?is s = Inr s1" and q1: "bq s1 P {}" and f1: "dk_frame s s1"
    and o1: "\<And>bn. \<not> log_area st bn \<or> bn = st \<Longrightarrow> bview s1 bn = f bn \<and> dblk (medium s1) bn = dblk (medium s) bn"
    and l1: "\<And>i. i < nat (lh_n s) \<Longrightarrow> dblk (medium s1) (lblk st i) = f (lh_block s i)"
    and h1: "\<And>m bn. m \<in> set (mhist s1) - set (mhist s) \<Longrightarrow> \<not> log_area st bn \<or> bn = st \<Longrightarrow> dblk m bn = dblk (medium s) bn"
    using write_log_loop_ok [OF q p mem distinct_upt] unfolding d [symmetric] by auto
  note fl1 = dk_frame_log [OF f1]
  have p1: "pinned_ok s1 P" by (rule pinned_ok_frame [OF f1 p]) simp
  obtain s2 hd where r2: "write_head s1 = Inr s2" and q2: "bq s2 P {}" and f2: "dk_frame s1 s2" and v2: "bview s2 = (bview s1)(st := hd)"
    and m2: "medium s2 = set_dblk st hd (medium s1)" and hd: "hdr_n hd = lh_n s" "\<And>i. i < nat (lh_n s) \<Longrightarrow> hdr_block hd i = lh_block s i"
    and h2: "set (mhist s2) \<subseteq> set (mhist s1) \<union> {medium s1, medium s2}"
    using write_head_ok [OF q1 p1] card_pinned [OF p1] unfolding fl1 d [symmetric] by auto
  note fl2 = dk_frame_log [OF f2]
  have p2: "pinned_ok s2 P" by (rule pinned_ok_frame [OF f2 p1]) simp
  have mem2: "\<forall>i\<in>set ?is. i < nat (lh_n s2) \<and> lh_block s2 i \<in> P" using mem by (simp add: fl1 fl2)
  obtain s3 where r3: "install_loop ?is s2 = Inr s3" and q3: "bq s3 {} {}" and f3: "dk_frame s2 s3"
    and a3: "\<forall>bn. bn \<notin> P \<longrightarrow> bview s3 bn = bview s2 bn \<and> dblk (medium s3) bn = dblk (medium s2) bn"
      "\<forall>i\<in>set ?is. bview s3 (lh_block s i) = bview s2 (lblk st i) \<and> dblk (medium s3) (lh_block s i) = bview s2 (lblk st i)"
      "\<forall>m\<in>set (mhist s3) - set (mhist s2). \<forall>bn. dblk m bn = dblk (medium s2) bn \<or> (\<exists>i\<in>set ?is. bn = lh_block s i \<and> dblk m bn = bview s2 (lblk st i))"
    using install_loop_ok [OF q2 p2 mem2 distinct_upt] unfolding fl1 fl2 d(1) [symmetric] im Diff_cancel by blast
  have o3: "bview s3 bn = bview s2 bn \<and> dblk (medium s3) bn = dblk (medium s2) bn" if "bn \<notin> P" for bn using a3(1) that by blast
  have l3: "bview s3 (lh_block s i) = bview s2 (lblk st i) \<and> dblk (medium s3) (lh_block s i) = bview s2 (lblk st i)" if "i < nat (lh_n s)" for i
    using a3(2) that by simp
  have h3: "dblk m bn = dblk (medium s2) bn \<or> (\<exists>i<nat (lh_n s). bn = lh_block s i \<and> dblk m bn = bview s2 (lblk st i))" if "m \<in> set (mhist s3) - set (mhist s2)" for m bn
    using a3(3) [rule_format, OF that, of bn] by auto
  note fl3 = dk_frame_log [OF f3]
  define s4 where "s4 = s3\<lparr>lh_n := 0\<rparr>"
  have q4: "bq s4 {} {}" using q3 by (simp add: s4_def)
  have p4: "pinned_ok s4 {}" using p lt by (simp add: pinned_ok_def s4_def fl1 fl2 fl3 logblks_def)
  have x4: "log_start s4 = st" "lh_n s4 = 0" by (simp_all add: s4_def fl1 fl2 fl3 d)
  obtain t hd' where r5: "write_head s4 = Inr t" and q5: "bq t {} {}" and f5: "dk_frame s4 t" and v5: "bview t = (bview s4)(st := hd')"
    and m5: "medium t = set_dblk st hd' (medium s4)" and hd': "hdr_n hd' = 0" and h5: "set (mhist t) \<subseteq> set (mhist s4) \<union> {medium s4, medium t}"
    using write_head_ok [OF q4 p4] unfolding x4 by auto
  have x3: "bview s4 = bview s3" "medium s4 = medium s3" "mhist s4 = mhist s3" by (simp_all add: s4_def)
  have lb: "bview s2 (lblk st i) = f (lh_block s i)" "dblk (medium s2) (lblk st i) = f (lh_block s i)" if "i < nat (lh_n s)" for i
  proof -
    have a: "log_area st (lblk st i)" "lblk st i \<noteq> st" using lblk_facts [OF lt(3), of i] lt(2) that by auto
    show m: "dblk (medium s2) (lblk st i) = f (lh_block s i)" using a l1 [OF that] by (simp add: m2 dblk_set)
    have "lblk st i \<notin> P" using a na by blast
    then show "bview s2 (lblk st i) = f (lh_block s i)" using bqD(8) [OF q2] m by simp
  qed
  have s2o: "dblk (medium s2) bn = dblk (medium s) bn" "bview s2 bn = f bn" if "\<not> log_area st bn" for bn
    using o1 [of bn] that by (auto simp: m2 v2 dblk_set)
  have ex: "\<exists>i<nat (lh_n s). bn = lh_block s i" if "bn \<in> P" for bn using that unfolding im [symmetric] by auto
  have s3o: "bview s3 bn = f bn \<and> dblk (medium s3) bn = f bn" if "\<not> log_area st bn" for bn
  proof (cases "bn \<in> P")
    case True then show ?thesis using ex [OF True] l3 lb by auto
  next
    case False
    then have "dblk (medium s) bn = f bn" using bqD(8) [OF q False] by (simp add: d)
    then show ?thesis using o3 [OF False] s2o [OF that] by simp
  qed
  have rec: "recovered st m bn = f bn" if m: "\<And>bn. dblk m bn = dblk (medium s2) bn \<or> (\<exists>i<nat (lh_n s). bn = lh_block s i \<and> dblk m bn = bview s2 (lblk st i))"
    and bn: "\<not> log_area st bn" for m bn
  proof (rule recovered_full [where bs = "logblks s"])
    have stp: "st \<notin> P" using na log_area_start by blast
    then have "dblk m st = hd" using m [of st] mem by (auto simp: m2 dblk_set)
    then show "hdr_n (dblk m st) = int (length (logblks s))" "\<forall>i<length (logblks s). hdr_block (dblk m st) i = logblks s ! i"
      using hd n by (simp_all add: len)
    show "\<forall>i<length (logblks s). dblk m (lblk st i) = f (logblks s ! i)"
    proof (intro allI impI)
      fix i assume i: "i < length (logblks s)"
      then have "lblk st i \<notin> P" using na lblk_facts(1) [OF lt(3), of i] lt(2) by (auto simp: len)
      then have "dblk m (lblk st i) = dblk (medium s2) (lblk st i)" using m [of "lblk st i"] mem by auto
      then show "dblk m (lblk st i) = f (logblks s ! i)" using lb i by (simp add: len)
    qed
    show "dblk m bn = f bn" if "bn \<notin> set (logblks s)"
    proof -
      have "dblk m bn = dblk (medium s2) bn" using m [of bn] that mem by (auto simp: d)
      then show ?thesis using s2o(1) [OF bn] bqD(8) [OF q] that by (simp add: d)
    qed
  qed (rule di)
  have rec0: "recovered st m bn = dblk (medium s) bn" if m: "\<And>bn. \<not> log_area st bn \<or> bn = st \<Longrightarrow> dblk m bn = dblk (medium s) bn" and bn: "\<not> log_area st bn" for m bn
    using recovered_empty [of m st bn] m [of st] m [of bn] h bn by (simp add: d)
  have hist: "(\<forall>bn. \<not> log_area st bn \<longrightarrow> recovered st m bn = dblk (medium s) bn) \<or> (\<forall>bn. \<not> log_area st bn \<longrightarrow> recovered st m bn = f bn)"
    if m: "m \<in> set (mhist t) - set (mhist s)" for m
  proof -
    have ms3: "\<And>bn. dblk (medium s3) bn = dblk (medium s2) bn \<or> (\<exists>i<nat (lh_n s). bn = lh_block s i \<and> dblk (medium s3) bn = bview s2 (lblk st i))"
      using o3 ex l3 by metis
    consider "m = medium t" | "m = medium s3" | "m \<in> set (mhist s3) - set (mhist s2)" | "m = medium s2" | "m = medium s1" | "m \<in> set (mhist s1) - set (mhist s)"
      using m h5 h2 unfolding x3 by blast
    then show ?thesis
    proof cases
      case 1
      have "recovered st m bn = f bn" if "\<not> log_area st bn" for bn
        using recovered_empty [of m st bn] hd' s3o [OF that] that unfolding 1 m5 x3 by (auto simp: dblk_set)
      then show ?thesis by blast
    next
      case 2 then show ?thesis using rec [of m] ms3 by blast
    next
      case 3 then show ?thesis using rec [of m] h3 [OF 3] by blast
    next
      case 4 then show ?thesis using rec [of m] by blast
    next
      case 5 then show ?thesis using rec0 [of m] o1 by blast
    next
      case 6 then show ?thesis using rec0 [of m] h1 [OF 6] by blast
    qed
  qed
  have e: "commit s = Inr t" using n lt r1 r2 r3 r5 by (simp add: commit_def write_log_def install_trans_def fl1 fl2 s4_def)
  have "lg_frame s s3" by (rule lg_frame_dk) (use f1 f2 f3 in \<open>meson dk_frame_trans\<close>)
  also have "lg_frame s3 s4" by (simp add: s4_def)
  also have "lg_frame s4 t" by (rule lg_frame_dk [OF f5])
  finally have fr: "lg_frame s t" .
  note fl5 = dk_frame_log [OF f5]
  have "lq t {}" by (rule lq_empty_log [OF q5]) (use pinned_ok_frame [OF f5 p4] fl5 x4 in auto)
  moreover have "bview t bn = f bn \<and> dblk (medium t) bn = f bn" if "\<not> log_area st bn" for bn
    using s3o [OF that] that by (auto simp: v5 m5 x3 dblk_set)
  ultimately have "commit_post s t"
    unfolding commit_post_def d [symmetric] using fr fl5 x4 hist hd' by (auto simp: m5 dblk_set)
  then show ?thesis using e by blast
qed

section \<open>Recovery\<close>

text \<open>At boot the blocks of the log are not pinned, so that \<open>bunpin\<close> and \<open>brelse\<close> together drop one reference too many.\<close>

lemma install_round_rec:
  fixes s :: "'a logst_scheme" and i :: nat
  defines "l \<equiv> lblk (log_start s) i" and "bn \<equiv> lh_block s i"
  assumes q: "bql s {} {} L" and dev: "log_dev s = ROOTDEV" and l: "unat l < 2 ^ 31" and bn: "bn \<noteq> l" "unat bn < 2 ^ 31"
    and L: "\<And>k. k \<in> L \<Longrightarrow> b_blockno (bufs s k) \<noteq> l \<and> b_blockno (bufs s k) \<noteq> bn" "card L + 1 < NBUF"
  shows "\<exists>t d. install_round i s = Inr t \<and> bql t {} {} (insert d L) \<and> d \<notin> L \<and> dk_frame s t \<and> bview t = (bview s)(bn := bview s l) \<and>
    medium t = set_dblk bn (bview s l) (medium s) \<and> set (mhist t) \<subseteq> set (mhist s) \<union> {medium s, medium t} \<and>
    b_blockno (bufs t d) = bn \<and> (\<forall>k\<in>L. b_blockno (bufs t k) = b_blockno (bufs s k))"
proof -
  obtain lb s1 where r1: "bread ROOTDEV l s = Inr (lb, s1)" and q1: "bql s1 {} {lb} L" and h1: "buf_has s1 lb l" and n1: "lb \<notin> L"
    and e1: "bview s1 = bview s" "medium s1 = medium s" "set (mhist s1) \<subseteq> insert (medium s) (set (mhist s))" "dk_frame s s1" and o1: "others lb s s1"
    using bq_bread [OF q l] L by auto
  have k1: "b_blockno (bufs s1 lb) = l" using h1 by (simp add: buf_has_def bkey_def)
  have L1: "b_blockno (bufs s1 k) = b_blockno (bufs s k)" if "k \<in> L" for k using othersD(3) [OF o1] n1 that by metis
  have nb: "b_blockno (bufs s1 k) \<noteq> bn" if "k \<in> {lb} \<union> L" for k using that L(1) [of k] L1 [of k] bn(1) k1 by auto
  obtain db s2 where r2: "bread ROOTDEV bn s1 = Inr (db, s2)" and q2: "bql s2 {} {db, lb} L" and h2: "buf_has s2 db bn" and n2: "db \<noteq> lb" "db \<notin> L"
    and e2: "bview s2 = bview s1" "medium s2 = medium s1" "set (mhist s2) \<subseteq> insert (medium s1) (set (mhist s1))" "dk_frame s1 s2" and o2: "others db s1 s2"
    using bq_bread [OF q1 bn(2) nb] L(2) by auto
  have k2: "b_blockno (bufs s2 db) = bn" using h2 by (simp add: buf_has_def bkey_def)
  have L2: "b_blockno (bufs s2 k) = b_blockno (bufs s k)" if "k \<in> L" for k using othersD(3) [OF o2] n2 L1 that by metis
  have d2: "b_data (bufs s2 lb) = bview s l" using buf_has_view [OF bqD(1) [OF q1] h1] e1 othersD(5) [OF o2, of lb] n2 by auto
  have len: "length (bview s l) = BSIZE" by (rule bview_len [OF bqD(1) [OF q]])
  obtain s3 where r3: "bwrite db (set_bdata db (bview s l) s2) = Inr s3" and q3: "bql s3 {} {db, lb} L"
    and e3: "bview s3 = (bview s2)(bn := bview s l)" "medium s3 = set_dblk bn (bview s l) (medium s2)" "mhist s3 = mhist s2 @ [medium s3]" "dk_frame s2 s3"
    and o3: "others db s2 s3" and b3: "bufs s3 db = (bufs s2 db)\<lparr>b_disk := False, b_data := bview s l\<rparr>"
    using bq_through [OF q2 _ _ len, of db] k2 by auto
  have k3: "b_blockno (bufs s3 db) = bn" using b3 k2 by simp
  have L3: "b_blockno (bufs s3 k) = b_blockno (bufs s k)" if "k \<in> L" for k using othersD(3) [OF o3] n2 L2 that by metis
  obtain t where r4: "bnd (bunpin db s3) (\<lambda>s. bnd (brelse lb s) (brelse db)) = Inr t" and q4: "bql t {} {} (insert db L)"
    and e4: "bview t = bview s3" "medium t = medium s3" "mhist t = mhist s3" "dk_frame s3 t" and k4: "b_blockno (bufs t db) = b_blockno (bufs s3 db)"
      "\<forall>i\<in>L. b_blockno (bufs t i) = b_blockno (bufs s3 i)"
    using bq_leak [OF q3 n2(1)] by auto
  have x: "log_start s + word_of_nat i + 1 = l" "lh_block s1 i = bn" "log_dev s1 = ROOTDEV" using dk_frame_log [OF e1(4)] dev by (simp_all add: l_def bn_def lblk_def)
  have "install_round i s = Inr t" using r4 by (simp add: install_round_def dev x r1 r2 d2 r3)
  moreover have "dk_frame s t" using e1(4) e2(4) e3(4) e4(4) by (meson dk_frame_trans)
  ultimately show ?thesis using q4 n2 k3 k4 L3 e1 e2 e3 e4 by (intro exI [of _ t] exI [of _ db]) auto
qed

lemma install_loop_rec:
  assumes "bql s {} {} L" "log_dev s = ROOTDEV" "unat (log_start s) + 31 < 2 ^ 31" "distinct (map (lh_block s) is)"
    "\<forall>i\<in>set is. i < LOGDATA \<and> \<not> log_area (log_start s) (lh_block s i) \<and> unat (lh_block s i) < 2 ^ 31"
    "\<forall>k\<in>L. \<not> log_area (log_start s) (b_blockno (bufs s k)) \<and> b_blockno (bufs s k) \<notin> lh_block s ` set is" "card L + length is < NBUF"
  shows "\<exists>t L'. install_loop is s = Inr t \<and> bql t {} {} L' \<and> card L' = card L + length is \<and> dk_frame s t \<and> (\<forall>k\<in>L'. \<not> log_area (log_start s) (b_blockno (bufs t k))) \<and>
    (\<forall>bn. bn \<notin> lh_block s ` set is \<longrightarrow> bview t bn = bview s bn \<and> dblk (medium t) bn = dblk (medium s) bn) \<and>
    (\<forall>i\<in>set is. bview t (lh_block s i) = bview s (lblk (log_start s) i) \<and> dblk (medium t) (lh_block s i) = bview s (lblk (log_start s) i)) \<and>
    (\<forall>m\<in>set (mhist t) - set (mhist s). \<forall>bn. dblk m bn = dblk (medium s) bn \<or> (\<exists>i\<in>set is. bn = lh_block s i \<and> dblk m bn = bview s (lblk (log_start s) i)))"
  using assms
proof (induction "is" arbitrary: s L)
  case (Cons i "is")
  let ?st = "log_start s" and ?l = "lblk (log_start s) i" and ?bn = "lh_block s i"
  have i: "i < LOGDATA" "\<not> log_area ?st ?bn" "unat ?bn < 2 ^ 31" using Cons.prems(5) by auto
  note lf = lblk_facts [OF Cons.prems(3) i(1)]
  have bl: "?bn \<noteq> ?l" using i(2) lf(1) by auto
  have Lk: "b_blockno (bufs s k) \<noteq> ?l \<and> b_blockno (bufs s k) \<noteq> ?bn" if "k \<in> L" for k using Cons.prems(6) that lf(1) by auto
  obtain s1 d where r: "install_round i s = Inr s1" and q1: "bql s1 {} {} (insert d L)" and dL: "d \<notin> L" and f: "dk_frame s s1"
    and v: "bview s1 = (bview s)(?bn := bview s ?l)" "medium s1 = set_dblk ?bn (bview s ?l) (medium s)"
      "set (mhist s1) \<subseteq> set (mhist s) \<union> {medium s, medium s1}" and k: "b_blockno (bufs s1 d) = ?bn" "\<forall>k\<in>L. b_blockno (bufs s1 k) = b_blockno (bufs s k)"
    using install_round_rec [OF Cons.prems(1,2) lf(3) bl i(3) Lk] Cons.prems(7) by auto
  note fl = dk_frame_log [OF f]
  have ne: "lh_block s j \<noteq> ?bn" if "j \<in> set is" for j using Cons.prems(4) that by auto (metis image_eqI)
  have lj: "lblk ?st j \<noteq> ?bn" if "j \<in> set is" for j using lblk_facts(1) [OF Cons.prems(3), of j] Cons.prems(5) that i(2) by auto
  have fin: "finite L" using bqD(13) [OF Cons.prems(1)] .
  have p6: "\<forall>k\<in>insert d L. \<not> log_area (log_start s1) (b_blockno (bufs s1 k)) \<and> b_blockno (bufs s1 k) \<notin> lh_block s1 ` set is"
    using Cons.prems(6) k i(2) ne by (auto simp: fl) metis
  from Cons.IH [OF q1 _ _ _ _ p6] Cons.prems(2-5,7) fin dL obtain t L' where t: "install_loop is s1 = Inr t" "bql t {} {} L'" "card L' = card L + length (i # is)" "dk_frame s1 t"
    "\<forall>k\<in>L'. \<not> log_area ?st (b_blockno (bufs t k))"
    "\<forall>bn. bn \<notin> lh_block s ` set is \<longrightarrow> bview t bn = bview s1 bn \<and> dblk (medium t) bn = dblk (medium s1) bn"
    "\<forall>j\<in>set is. bview t (lh_block s j) = bview s1 (lblk ?st j) \<and> dblk (medium t) (lh_block s j) = bview s1 (lblk ?st j)"
    "\<forall>m\<in>set (mhist t) - set (mhist s1). \<forall>bn. dblk m bn = dblk (medium s1) bn \<or> (\<exists>j\<in>set is. bn = lh_block s j \<and> dblk m bn = bview s1 (lblk ?st j))"
    unfolding fl by auto
  have vl: "bview s1 (lblk ?st j) = bview s (lblk ?st j)" if "j \<in> set is" for j using lj [OF that] by (simp add: v)
  have nbn: "?bn \<notin> lh_block s ` set is" using ne by (metis imageE)
  show ?case
  proof (intro exI [of _ t] exI [of _ L'] conjI)
    show "install_loop (i # is) s = Inr t" using r t(1) by simp
    show "bql t {} {} L'" "card L' = card L + length (i # is)" "\<forall>k\<in>L'. \<not> log_area ?st (b_blockno (bufs t k))" by fact+
    show "dk_frame s t" by (rule dk_frame_trans [OF f t(4)])
    show "\<forall>bn. bn \<notin> lh_block s ` set (i # is) \<longrightarrow> bview t bn = bview s bn \<and> dblk (medium t) bn = dblk (medium s) bn"
      using t(6) by (auto simp: v dblk_set)
    show "\<forall>j\<in>set (i # is). bview t (lh_block s j) = bview s (lblk ?st j) \<and> dblk (medium t) (lh_block s j) = bview s (lblk ?st j)"
      using t(6,7) vl nbn by (auto simp: v dblk_set)
    show "\<forall>m\<in>set (mhist t) - set (mhist s). \<forall>bn. dblk m bn = dblk (medium s) bn \<or> (\<exists>j\<in>set (i # is). bn = lh_block s j \<and> dblk m bn = bview s (lblk ?st j))"
      by (rule install_hist [OF v(2,3) t(8) vl])
  qed
qed auto

definition log_valid :: "u32 \<Rightarrow> medium \<Rightarrow> bool" where
  "log_valid st m \<longleftrightarrow> (let d = dblk m st; n = hdr_n d; bs = map (hdr_block d) [0..<nat n]
     in 0 \<le> n \<and> n < int LOGSIZE \<and> distinct bs \<and> (\<forall>b\<in>set bs. \<not> log_area st b \<and> unat b < 2 ^ 31))"

lemma recovered_logged:
  assumes "log_valid st m"
  shows "i < nat (hdr_n (dblk m st)) \<Longrightarrow> recovered st m (hdr_block (dblk m st) i) = dblk m (lblk st i)"
    and "bn \<notin> hdr_block (dblk m st) ` {0..<nat (hdr_n (dblk m st))} \<Longrightarrow> recovered st m bn = dblk m bn"
proof -
  let ?d = "dblk m st"
  have di: "distinct (map fst (logged st m))" using assms by (simp add: log_valid_def Let_def logged_def comp_def)
  show "recovered st m (hdr_block ?d i) = dblk m (lblk st i)" if "i < nat (hdr_n ?d)"
  proof -
    have "(hdr_block ?d i, dblk m (lblk st i)) \<in> set (logged st m)" using that by (auto simp: logged_def Let_def)
    then show ?thesis using di by (simp add: recovered_def)
  qed
  show "recovered st m bn = dblk m bn" if "bn \<notin> hdr_block ?d ` {0..<nat (hdr_n ?d)}"
  proof -
    have "map_of (logged st m) bn = None" using that by (auto simp: map_of_eq_None_iff logged_def Let_def comp_def image_image)
    then show ?thesis by (simp add: recovered_def)
  qed
qed

text \<open>A medium on which some of the blocks have been installed.\<close>

lemma recovered_partly:
  assumes v: "log_valid st m" and b: "unat st + 31 < 2 ^ 31"
    and m': "\<And>x. dblk m' x = dblk m x \<or> (\<exists>i<nat (hdr_n (dblk m st)). x = hdr_block (dblk m st) i \<and> dblk m' x = dblk m (lblk st i))"
  shows "recovered st m' bn = recovered st m bn"
proof (rule recovered_full [where bs = "map (hdr_block (dblk m st)) [0..<nat (hdr_n (dblk m st))]"])
  let ?d = "dblk m st"
  have n: "0 \<le> hdr_n ?d" "hdr_n ?d < int LOGSIZE" and na: "\<And>i. i < nat (hdr_n ?d) \<Longrightarrow> \<not> log_area st (hdr_block ?d i)"
    using v by (auto simp: log_valid_def Let_def)
  have st: "dblk m' st = ?d" using m' [of st] na log_area_start by metis
  show "hdr_n (dblk m' st) = int (length (map (hdr_block ?d) [0..<nat (hdr_n ?d)]))" using n by (simp add: st)
  show "\<forall>i<length (map (hdr_block ?d) [0..<nat (hdr_n ?d)]). hdr_block (dblk m' st) i = map (hdr_block ?d) [0..<nat (hdr_n ?d)] ! i" by (simp add: st)
  show "distinct (map (hdr_block ?d) [0..<nat (hdr_n ?d)])" using v by (simp add: log_valid_def Let_def)
  show "\<forall>i<length (map (hdr_block ?d) [0..<nat (hdr_n ?d)]). dblk m' (lblk st i) = recovered st m (map (hdr_block ?d) [0..<nat (hdr_n ?d)] ! i)"
  proof (intro allI impI)
    fix i assume "i < length (map (hdr_block ?d) [0..<nat (hdr_n ?d)])"
    then have i: "i < nat (hdr_n ?d)" "i < LOGDATA" using n by auto
    then have "dblk m' (lblk st i) = dblk m (lblk st i)" using m' [of "lblk st i"] na lblk_facts(1) [OF b i(2)] by metis
    then show "dblk m' (lblk st i) = recovered st m (map (hdr_block ?d) [0..<nat (hdr_n ?d)] ! i)" using recovered_logged(1) [OF v i(1)] i by simp
  qed
  show "dblk m' bn = recovered st m bn" if "bn \<notin> set (map (hdr_block ?d) [0..<nat (hdr_n ?d)])"
    using that m' [of bn] recovered_logged(2) [OF v, of bn] by auto
qed

definition recover_post :: "'a logst_scheme \<Rightarrow> 'a logst_scheme \<Rightarrow> nat set \<Rightarrow> bool" where
  "recover_post s t L \<longleftrightarrow> bql t {} {} L \<and> card L = nat (hdr_n (dblk (medium s) (log_start s))) \<and> lh_n t = 0 \<and> hdr_n (dblk (medium t) (log_start s)) = 0 \<and>
     lg_frame s t \<and>
     (\<forall>bn. \<not> log_area (log_start s) bn \<longrightarrow> dblk (medium t) bn = recovered (log_start s) (medium s) bn) \<and>
     (\<forall>m\<in>set (mhist t) - set (mhist s). \<forall>bn. \<not> log_area (log_start s) bn \<longrightarrow> recovered (log_start s) m bn = recovered (log_start s) (medium s) bn)"

lemma recover_ok:
  assumes q: "bq s {} {}" and dev: "log_dev s = ROOTDEV" and b: "unat (log_start s) + 31 < 2 ^ 31" and v: "log_valid (log_start s) (medium s)"
  shows "\<exists>t L. recover_from_log s = Inr t \<and> recover_post s t L"
proof -
  define st d where st: "st = log_start s" "d = dblk (medium s) st"
  let ?n = "hdr_n d" and ?is = "[0..<nat (hdr_n d)]"
  have n: "0 \<le> ?n" "?n < int LOGSIZE" and bs: "distinct (map (hdr_block d) ?is)" "\<And>i. i < nat ?n \<Longrightarrow> \<not> log_area st (hdr_block d i) \<and> unat (hdr_block d i) < 2 ^ 31"
    using v by (auto simp: log_valid_def Let_def st)
  have lt: "unat st < 2 ^ 31" using b by (simp add: st)
  obtain h s1 where r1: "bread ROOTDEV st s = Inr (h, s1)" and q1: "bq s1 {} {h}" and h1: "buf_has s1 h st"
    and e1: "bview s1 = bview s" "medium s1 = medium s" "set (mhist s1) \<subseteq> insert (medium s) (set (mhist s))" "dk_frame s s1"
    using bq_bread [OF q lt] by auto
  have view: "bview s x = dblk (medium s) x" for x using bqD(8) [OF q] by simp
  have hd: "b_data (bufs s1 h) = d" using buf_has_view [OF bqD(1) [OF q1] h1] e1 view by (simp add: st)
  define blk where "blk = (\<lambda>i. if i < nat ?n then hdr_block d i else lh_block s1 i)"
  define s2 where "s2 = s1\<lparr>lh_n := ?n, lh_block := blk\<rparr>"
  have q2: "bq s2 {} {h}" using q1 by (simp add: s2_def)
  obtain s3 where r3: "brelse h s2 = Inr s3" and q3: "bq s3 {} ({h} - {h})" and e3: "bview s3 = bview s2" "medium s3 = medium s2" "mhist s3 = mhist s2" "dk_frame s2 s3"
    using bq_brelse [OF q2, of h] by auto
  have rh: "read_head s = Inr s3" unfolding read_head_def dev st(1) [symmetric] r1 bnd_Inr prod.case hd Let_def using n r3 by (simp add: s2_def blk_def)
  note fl3 = dk_frame_log [OF e3(4)]
  have x3: "log_start s3 = st" "log_dev s3 = ROOTDEV" "lh_n s3 = ?n" "\<And>i. i < nat ?n \<Longrightarrow> lh_block s3 i = hdr_block d i"
    using dk_frame_log [OF e1(4)] dev by (simp_all add: fl3 s2_def blk_def st)
  have y3: "bview s3 = bview s" "medium s3 = medium s" using e1 e3 by (simp_all add: s2_def)
  have im: "lh_block s3 ` set ?is = hdr_block d ` {0..<nat ?n}" using x3(4) by auto
  have "map (lh_block s3) ?is = map (hdr_block d) ?is" using x3(4) by simp
  then have d3: "distinct (map (lh_block s3) ?is)" using bs(1) by (simp only:)
  have pre: "\<forall>i\<in>set ?is. i < LOGDATA \<and> \<not> log_area (log_start s3) (lh_block s3 i) \<and> unat (lh_block s3 i) < 2 ^ 31" "card ({} :: nat set) + length ?is < NBUF"
    using bs(2) n x3 by auto
  obtain s4 L where r4: "install_loop ?is s3 = Inr s4" and q4: "bql s4 {} {} L" and c4: "card L = nat ?n" and f4: "dk_frame s3 s4"
    and L4: "\<forall>k\<in>L. \<not> log_area st (b_blockno (bufs s4 k))"
    and a4: "\<forall>bn. bn \<notin> lh_block s3 ` set ?is \<longrightarrow> bview s4 bn = bview s3 bn \<and> dblk (medium s4) bn = dblk (medium s3) bn"
      "\<forall>i\<in>set ?is. bview s4 (lh_block s3 i) = bview s3 (lblk st i) \<and> dblk (medium s4) (lh_block s3 i) = bview s3 (lblk st i)"
      "\<forall>m\<in>set (mhist s4) - set (mhist s3). \<forall>bn. dblk m bn = dblk (medium s3) bn \<or> (\<exists>i\<in>set ?is. bn = lh_block s3 i \<and> dblk m bn = bview s3 (lblk st i))"
    using install_loop_rec [OF q3 [unfolded Diff_cancel] x3(2) _ d3 pre(1) _ pre(2)] b unfolding x3(1) st(1) by auto
  have part: "dblk m x = dblk (medium s) x \<or> (\<exists>i<nat ?n. x = hdr_block d i \<and> dblk m x = dblk (medium s) (lblk st i))"
    if "m \<in> set (mhist s4) - set (mhist s3) \<or> m = medium s4" for m x
  proof -
    have "dblk (medium s4) x = dblk (medium s3) x \<or> (\<exists>i\<in>set ?is. x = lh_block s3 i \<and> dblk (medium s4) x = bview s3 (lblk st i))"
      using a4(1,2) by (cases "x \<in> lh_block s3 ` set ?is") auto
    then have "dblk m x = dblk (medium s3) x \<or> (\<exists>i\<in>set ?is. x = lh_block s3 i \<and> dblk m x = bview s3 (lblk st i))"
      using that a4(3) by blast
    then show ?thesis using x3(4) by (auto simp: y3 view)
  qed
  have rec: "recovered st m bn = recovered st (medium s) bn" if "m \<in> set (mhist s4) - set (mhist s3) \<or> m = medium s4" for m bn
    by (rule recovered_partly) (use v b part [OF that] in \<open>auto simp: st\<close>)
  have inst: "dblk (medium s4) bn = recovered st (medium s) bn" for bn
  proof (cases "bn \<in> hdr_block d ` {0..<nat ?n}")
    case True
    then obtain i where i: "i < nat ?n" "bn = hdr_block d i" by auto
    then have "dblk (medium s4) bn = dblk (medium s) (lblk st i)" using a4(2) x3(4) by (auto simp: y3 view)
    then show ?thesis using recovered_logged(1) [of st "medium s" i] v i by (simp add: st)
  next
    case False
    then have "dblk (medium s4) bn = dblk (medium s) bn" using a4(1) im by (simp add: y3)
    then show ?thesis using recovered_logged(2) [of st "medium s" bn] v False by (simp add: st)
  qed
  note fl4 = dk_frame_log [OF f4]
  define s5 where "s5 = s4\<lparr>lh_n := 0\<rparr>"
  have q5: "bql s5 {} {} L" using q4 by (simp add: s5_def)
  have p5: "pinned_ok s5 {}" using b by (simp add: pinned_ok_def s5_def fl4 x3 logblks_def st)
  have x5: "log_start s5 = st" "lh_n s5 = 0" "medium s5 = medium s4" "mhist s5 = mhist s4" by (simp_all add: s5_def fl4 x3)
  have L5: "b_blockno (bufs s5 i) \<noteq> log_start s5" if "i \<in> L" for i using that L4 log_area_start by (auto simp: s5_def fl4 x3)
  have nl: "card ({} :: u32 set) + card L < NBUF" using c4 n by simp
  obtain t hd' where r6: "write_head s5 = Inr t" and q6: "bql t {} {} L" and f6: "dk_frame s5 t" and m6: "medium t = set_dblk st hd' (medium s4)"
    and hd': "hdr_n hd' = 0" and h6: "set (mhist t) \<subseteq> set (mhist s4) \<union> {medium s4, medium t}"
    using write_head_ok [OF q5 p5 L5 nl] unfolding x5 by auto
  have fin: "dblk (medium t) bn = recovered st (medium s) bn" if "\<not> log_area st bn" for bn
    using that inst [of bn] by (auto simp: m6 dblk_set)
  have h0: "hdr_n (dblk (medium t) st) = 0" using hd' by (simp add: m6 dblk_set)
  have e: "recover_from_log s = Inr t" using n r4 r6 by (simp add: recover_from_log_def rh install_trans_def x3 s5_def)
  have "set (mhist s3) \<subseteq> insert (medium s) (set (mhist s))" using e1(3) e3(3) by (simp add: s2_def)
  then have hist: "recovered st m bn = recovered st (medium s) bn" if "m \<in> set (mhist t) - set (mhist s)" "\<not> log_area st bn" for m bn
    using that h6 rec [of m bn] fin [OF that(2)] recovered_empty [of m st bn] h0 unfolding x5 by fastforce
  have "lg_frame s s1" by (rule lg_frame_dk [OF e1(4)])
  also have "lg_frame s1 s2" by (simp add: s2_def)
  also have "lg_frame s2 s3" by (rule lg_frame_dk [OF e3(4)])
  also have "lg_frame s3 s4" by (rule lg_frame_dk [OF f4])
  also have "lg_frame s4 s5" by (simp add: s5_def)
  also have "lg_frame s5 t" by (rule lg_frame_dk [OF f6])
  finally have "recover_post s t L"
    unfolding recover_post_def st(1) [symmetric] st(2) [symmetric] using q6 c4 h0 fin hist dk_frame_log [OF f6] x5 by auto
  then show ?thesis using e by blast
qed

section \<open>Writing inside a transaction\<close>

lemma log_find_cases:
  "(\<exists>j. i \<le> j \<and> j < i + k \<and> blk j = bn \<and> log_find k i bn blk = j) \<or> (\<forall>j. i \<le> j \<and> j < i + k \<longrightarrow> blk j \<noteq> bn) \<and> log_find k i bn blk = i + k"
proof (induction k arbitrary: i)
  case (Suc k)
  show ?case
  proof (cases "blk i = bn")
    case True then show ?thesis by (intro disjI1 exI [of _ i]) simp
  next
    case False
    then show ?thesis using Suc.IH [of "Suc i"]
    proof (elim disjE exE conjE)
      fix j assume j: "Suc i \<le> j" "j < Suc i + k" "blk j = bn" "log_find k (Suc i) bn blk = j"
      then show ?thesis using False by (intro disjI1 exI [of _ j]) simp
    next
      assume a: "\<forall>j. Suc i \<le> j \<and> j < Suc i + k \<longrightarrow> blk j \<noteq> bn" "log_find k (Suc i) bn blk = Suc i + k"
      have "blk j \<noteq> bn" if "i \<le> j \<and> j < i + Suc k" for j using a(1) that False by (cases "j = i") auto
      then show ?thesis using a(2) False by simp
    qed
  qed
qed auto

lemma log_write_ok:
  fixes s :: "'a logst_scheme" and b :: nat
  defines "bn \<equiv> b_blockno (bufs s b)"
  assumes lq: "lq s H" and b: "b \<in> H" and na: "\<not> log_area (log_start s) bn" and o: "log_outstanding s \<ge> 1"
    and n: "lh_n s < log_size s - 1" "log_size s \<le> int LOGSIZE" and len: "length d = BSIZE"
  shows "\<exists>t. log_write b (set_bdata b d s) = Inr t \<and> lq t H \<and> bview t = (bview s)(bn := d) \<and> medium t = medium s \<and> mhist t = mhist s \<and>
    lg_frame s t \<and> others b s t \<and> b_blockno (bufs t b) = bn \<and> set (logblks t) = insert bn (set (logblks s)) \<and> lh_n t \<le> lh_n s + 1"
proof -
  let ?P = "set (logblks s)" and ?s = "set_bdata b d s" and ?n = "nat (lh_n s)"
  have q: "bq s ?P H" and p: "pinned_ok s ?P" using lq by (auto simp: lq_def)
  have h: "held s = {}" using bqD(1) [OF q] by (simp add: bc_inv_def)
  have nn: "0 \<le> lh_n s" using p by (simp add: pinned_ok_def)
  have sel: "lh_n ?s = lh_n s" "lh_block ?s = lh_block s" "log_size ?s = log_size s" "log_outstanding ?s = log_outstanding s" "b_blockno (bufs ?s b) = bn"
    by (simp_all add: set_bdata_def bn_def)
  have g: "\<not> (lh_n s \<ge> int LOGSIZE \<or> lh_n s \<ge> log_size s - 1)" "\<not> log_outstanding s < 1" using n o by auto
  have bn31: "unat bn < 2 ^ 31" using bc_inv_buf [OF bqD(1) [OF q] bqD(3) [OF q b]] bqD(6) [OF q b] by (auto simp: buf_ok_def bn_def)
  consider j where "j < ?n" "lh_block s j = bn" "log_find ?n 0 bn (lh_block s) = j" | "bn \<notin> ?P" "log_find ?n 0 bn (lh_block s) = ?n"
    using log_find_cases [of 0 ?n "lh_block s" bn] by (auto simp: logblks_def) (metis atLeastLessThan_iff imageE)
  then show ?thesis
  proof cases
    case (1 j)
    then have P: "bn \<in> ?P" by (auto simp: logblks_def)
    note D = bq_dirty [OF q b P [unfolded bn_def] len, folded bn_def]
    have same: "(lh_block s)(j := bn) = lh_block s" using 1(2) by auto
    have "int j \<noteq> lh_n s" using 1(1) nn by auto
    then have "log_write b ?s = Inr ?s"
      unfolding log_write_def sel using g h 1(3) by (simp add: Let_def sel same bn_def [symmetric] held_empty)
    moreover have "logblks ?s = logblks s" by (simp add: logblks_def sel)
    moreover have "pinned_ok ?s ?P" by (rule pinned_ok_frame [OF D(3) p]) simp
    ultimately show ?thesis using D P by (intro exI [of _ ?s]) (auto simp: lq_def lg_frame_dk bn_def sel)
  next
    case 2
    define u where "u = upd_buf b (b_refcnt_update (\<lambda>n. n + 1)) ?s"
    define t where "t = u\<lparr>lh_n := lh_n s + 1, lh_block := (lh_block s)(?n := bn)\<rparr>"
    note D = bq_pin [OF q b 2(1) [unfolded bn_def] len, folded bn_def u_def]
    have "log_write b ?s = Inr t"
      unfolding log_write_def sel using g h 2(2) nn
      by (simp add: Let_def sel bpin_def bn_def [symmetric]) (simp add: t_def u_def set_bdata_def upd_buf_def held_empty bn_def)
    moreover have lb: "logblks t = logblks s @ [bn]"
    proof -
      have "nat (lh_n s + 1) = Suc ?n" using nn by simp
      then show ?thesis by (simp add: logblks_def t_def)
    qed
    moreover have "bq t (set (logblks t)) H" unfolding lb using D(1) by (simp add: t_def)
    moreover have "pinned_ok t (set (logblks t))"
    proof -
      have x: "log_dev t = log_dev s" "log_start t = log_start s" "lh_n t = lh_n s + 1" using dk_frame_log [OF D(3)] by (simp_all add: t_def)
      show ?thesis using p 2(1) na bn31 n unfolding pinned_ok_def lb x by auto
    qed
    moreover have "lg_frame s t"
      using lg_frame_trans [OF lg_frame_dk [OF D(3)]] lg_frame_upd(1) unfolding t_def by blast
    moreover have "bview t = (bview s)(bn := d)" "medium t = medium s" "mhist t = mhist s" "others b s t" "b_blockno (bufs t b) = bn" "lh_n t = lh_n s + 1"
      using D(2) by (simp add: t_def, simp_all add: t_def u_def upd_buf_def others_def bn_def)
    ultimately show ?thesis by (intro exI [of _ t]) (simp add: lq_def)
  qed
qed

section \<open>Transactions\<close>

lemma begin_op_eq:
  assumes "held s = {}" "\<not> log_committing s" "lh_n s + (log_outstanding s + 1) * int MAXOPBLOCKS \<le> int LOGSIZE"
  shows "begin_op s = Inr (s\<lparr>log_outstanding := log_outstanding s + 1\<rparr>)"
  using assms by (simp add: begin_op_def held_empty)

lemma lq_log [simp]: "lq (s\<lparr>log_outstanding := k\<rparr>) H = lq s H" "lq (s\<lparr>log_committing := c\<rparr>) H = lq s H"
  by (simp_all add: lq_def logblks_def pinned_ok_def)

lemma bq_procs:
  assumes "bql s P H L" "\<And>i. pcore (Q i) = pcore (procs s i)"
  shows "bql (s\<lparr>procs := Q\<rparr>) P H L"
proof -
  have "p_pid (Q (cur s)) = p_pid (procs s (cur s))" by (rule pcoreD(4) [OF assms(2)])
  moreover have "bview (s\<lparr>procs := Q\<rparr>) = bview s" by (rule bview_cong) simp_all
  ultimately show ?thesis using assms(1) by (simp add: bql_def bc_inv_def vq_idle_def has_sleep_def)
qed

lemma lq_wake: "lq s H \<Longrightarrow> lq (s\<lparr>procs := wake_all c (procs s)\<rparr>) H"
  by (simp add: lq_def logblks_def pinned_ok_def bq_procs)

lemma lq_held: "lq s H \<Longrightarrow> held s = {}"
  using bqD(1) [of s "set (logblks s)" H "{}"] by (simp add: lq_def bc_inv_def)

text \<open>An operation that is not the last one leaves the transaction open.\<close>

lemma end_op_open:
  assumes "lq s {}" "\<not> log_committing s" "log_outstanding s > 1"
  shows "end_op s = Inr (s\<lparr>log_outstanding := log_outstanding s - 1, procs := wake_all ChLog (procs s)\<rparr>)"
  using assms lq_held [OF assms(1)] by (simp add: end_op_def Let_def wakeup_eq no_proc_lock_def held_empty)

lemma commit_nothing: "lq s {} \<Longrightarrow> lh_n s = 0 \<Longrightarrow> hdr_n (dblk (medium s) (log_start s)) = 0 \<Longrightarrow> commit s = Inr s \<and> commit_post s s"
  by (auto simp: commit_def commit_post_def logblks_def lq_def bqD)

lemma end_op_last:
  assumes lq: "lq s {}" and c: "\<not> log_committing s" "log_outstanding s = 1" and h: "hdr_n (dblk (medium s) (log_start s)) = 0"
  shows "\<exists>t u. commit (s\<lparr>log_outstanding := 0, log_committing := True\<rparr>) = Inr t \<and> commit_post (s\<lparr>log_outstanding := 0, log_committing := True\<rparr>) t \<and>
    end_op s = Inr u \<and> u = t\<lparr>log_committing := False, procs := wake_all ChLog (procs t)\<rparr>"
proof -
  let ?s = "s\<lparr>log_outstanding := 0, log_committing := True\<rparr>"
  have l: "lq ?s {}" using lq by simp
  have "0 \<le> lh_n ?s" using lq by (simp add: lq_def pinned_ok_def)
  then obtain t where t: "commit ?s = Inr t" "commit_post ?s t"
    using commit_ok [OF l] commit_nothing [OF l] h by (cases "lh_n ?s > 0") auto
  have ht: "held t = {}" using t(2) lq_held by (auto simp: commit_post_def)
  have "end_op s = Inr (t\<lparr>log_committing := False, procs := wake_all ChLog (procs t)\<rparr>)"
    using lq_held [OF lq] ht c t(1) by (simp add: end_op_def Let_def wakeup_eq no_proc_lock_def held_empty)
  then show ?thesis using t by blast
qed

section \<open>An example\<close>

definition lg_ex :: logst where
  "lg_ex = dkst.extend bc_ex \<lparr>log_start = 2, log_size = 30, log_outstanding = 1, log_committing = False, log_dev = ROOTDEV, lh_n = 0, lh_block = (\<lambda>_. 0)\<rparr>"

lemma bq_extend: "bql (dkst.extend s x) P H L = bql s P H L"
proof -
  have "bview (dkst.extend s x) = bview s" by (rule ext) (simp only: bview_def dkst.defs dkst.select_convs)
  then show ?thesis by (simp add: bql_def bc_inv_def vq_idle_def has_sleep_def dkst.defs)
qed

lemma lg_ex_sel [simp]: "log_start lg_ex = 2" "log_size lg_ex = 30" "log_outstanding lg_ex = 1" "\<not> log_committing lg_ex" "log_dev lg_ex = ROOTDEV" "lh_n lg_ex = 0"
  "medium lg_ex = (\<lambda>_. replicate 512 0)" "log_committing lg_ex = False"
proof -
  have "medium bc_ex = medium dk_ex" by (simp add: bc_ex_def binit_def binit_loop_frame)
  then show "medium lg_ex = (\<lambda>_. replicate 512 0)" by (simp add: lg_ex_def dkst.defs dk_ex_medium)
qed (simp_all add: lg_ex_def dkst.defs)

lemma bc_ex_bq: "bq bc_ex {} {}"
proof -
  have "medium bc_ex = medium dk_ex" by (simp add: bc_ex_def binit_def binit_loop_frame)
  then show ?thesis using bc_ex_ok bc_ex_buf bc_ex_locks by (simp add: bql_def)
qed

lemma lg_ex_lq: "lq lg_ex {}" "bq lg_ex {} {}"
proof -
  show q: "bq lg_ex {} {}" unfolding lg_ex_def bq_extend by (rule bc_ex_bq)
  show "lq lg_ex {}" using q by (simp add: lq_def logblks_def pinned_ok_def)
qed

lemma dblk_zero [simp]: "dblk (\<lambda>_. replicate 512 0) bn = replicate BSIZE 0"
  by (simp add: dblk_def flip: replicate_add)

text \<open>A medium with a committed transaction of one block that was not installed.\<close>

definition lg_crashed :: logst where
  "lg_crashed = lg_ex\<lparr>medium := set_dblk 2 (stw 4 (50 :: u32) (stw 0 (1 :: u32) (replicate BSIZE 0))) (set_dblk 3 (replicate BSIZE 7) (medium lg_ex))\<rparr>"

lemma lg_ex_medium:
  assumes "\<And>sec. length (m sec) = 512"
  shows "bq (lg_ex\<lparr>medium := m\<rparr>) {} {}"
proof -
  have s: "bufs lg_ex = bufs bc_ex" "slocks lg_ex = slocks bc_ex" by (simp_all add: lg_ex_def dkst.defs)
  have v: "bview (lg_ex\<lparr>medium := m\<rparr>) = dblk m" by (rule ext, subst bview_uncached) (use bc_ex_buf in \<open>auto simp: s\<close>)
  have "bc_inv lg_ex" using bqD(1) [OF lg_ex_lq(2)] .
  then have "bc_inv (lg_ex\<lparr>medium := m\<rparr>)" using assms bc_ex_buf by (simp add: bc_inv_def vq_idle_def bc_wf_def buf_ok_def s)
  then show ?thesis using v bc_ex_buf bc_ex_locks by (simp add: bql_def s)
qed

lemma lg_crashed_facts:
  "bq lg_crashed {} {}" "log_dev lg_crashed = ROOTDEV" "log_start lg_crashed = 2" "hdr_n (dblk (medium lg_crashed) 2) = 1" "log_valid 2 (medium lg_crashed)"
  "recovered 2 (medium lg_crashed) 50 = replicate BSIZE 7" "\<not> log_area 2 50"
proof -
  let ?m = "medium lg_crashed"
  show "bq lg_crashed {} {}" unfolding lg_crashed_def by (rule lg_ex_medium) (simp add: set_dblk_def)
  show "log_dev lg_crashed = ROOTDEV" "log_start lg_crashed = 2" by (simp_all add: lg_crashed_def)
  have h: "dblk ?m 2 = stw 4 (50 :: u32) (stw 0 (1 :: u32) (replicate BSIZE 0))" and d: "dblk ?m 3 = replicate BSIZE 7"
    by (simp_all add: lg_crashed_def dblk_set)
  show n: "hdr_n (dblk ?m 2) = 1" unfolding h hdr_n_def by simp
  have b: "hdr_block (dblk ?m 2) 0 = 50" unfolding h hdr_block_def by simp
  show a: "\<not> log_area 2 50" by (simp add: log_area_def)
  show "log_valid 2 ?m" using a by (simp add: log_valid_def n b Let_def)
  show "recovered 2 ?m 50 = replicate BSIZE 7" using d by (simp add: recovered_def logged_def n b Let_def lblk_def)
qed

text \<open>A transaction that has written one block.\<close>

lemma lg_ex_txn:
  "\<exists>s :: logst. lq s {} \<and> \<not> log_committing s \<and> log_outstanding s = 1 \<and> log_start s = 2 \<and> log_size s = 30 \<and> medium s = medium lg_ex \<and>
     bview s = (bview lg_ex)(50 := replicate BSIZE 7) \<and> set (logblks s) = {50}"
proof -
  have q: "bq lg_ex {} {}" and l: "lq lg_ex {}" using lg_ex_lq by auto
  obtain b s where r: "bread ROOTDEV 50 lg_ex = Inr (b, s)" "bq s {} {b}" "buf_has s b 50" "bview s = bview lg_ex" "medium s = medium lg_ex" "dk_frame lg_ex s"
    using bq_bread [OF q, of 50] by auto
  have bl: "logblks s = []" and ls: "lq s {b}" using r(2) dk_frame_log [OF r(6)] pinned_ok_frame [OF r(6), of "{}"] l
    by (auto simp: logblks_def lq_def)
  have k: "b_blockno (bufs s b) = 50" using r(3) by (simp add: buf_has_def bkey_def)
  have na: "\<not> log_area 2 50" by (simp add: log_area_def)
  obtain t where t: "lq t {b}" "bview t = (bview s)(50 := replicate BSIZE 7)" "medium t = medium s" "lg_frame s t" "set (logblks t) = insert 50 (set (logblks s))"
    using log_write_ok [OF ls, of b "replicate BSIZE 7"] dk_frame_log [OF r(6)] na by (auto simp: k)
  have q2: "bq t (set (logblks t)) {b}" using t(1) by (simp add: lq_def)
  obtain u where u: "bq u (set (logblks t)) ({b} - {b})" "bview u = bview t" "medium u = medium t" "dk_frame t u" using bq_brelse [OF q2, of b] by auto
  have "logblks u = logblks t" using dk_frame_log [OF u(4)] by (simp add: logblks_def)
  then have "lq u {}" using u(1) pinned_ok_frame [OF u(4) _ subset_refl] t(1) by (simp add: lq_def)
  then show ?thesis using r t u bl lg_frameD(17-20) [OF t(4)] dk_frame_log [OF u(4)] dk_frame_log [OF r(6)] \<open>logblks u = logblks t\<close>
    by (intro exI [of _ u]) auto
qed

section \<open>Properties\<close>

text \<open>C18. A transaction is atomic with respect to crashes. When the last operation ends it, \<open>end_op\<close> writes the log, the header, the home
  locations and the header again. Whatever contents the medium has had on the way, recovery from it gives, for every block outside the log, either
  the contents before the transaction or all the contents the transaction wrote; at the end the home locations on the
  medium have the new contents, the log is empty, and the cache is unpinned and shows the same blocks as before.\<close>

theorem log_crash_atomic:
  fixes s :: "'a logst_scheme"
  assumes "lq s {}" "\<not> log_committing s" "log_outstanding s = 1" "hdr_n (dblk (medium s) (log_start s)) = 0"
  shows "\<exists>t. end_op s = Inr t \<and> lq t {} \<and> lh_n t = 0 \<and> hdr_n (dblk (medium t) (log_start s)) = 0 \<and> log_outstanding t = 0 \<and> \<not> log_committing t \<and>
    (\<forall>bn. \<not> log_area (log_start s) bn \<longrightarrow> bview t bn = bview s bn \<and> dblk (medium t) bn = bview s bn) \<and>
    (\<forall>m\<in>set (mhist t) - set (mhist s).
       (\<forall>bn. \<not> log_area (log_start s) bn \<longrightarrow> recovered (log_start s) m bn = dblk (medium s) bn) \<or>
       (\<forall>bn. \<not> log_area (log_start s) bn \<longrightarrow> recovered (log_start s) m bn = bview s bn))"
proof -
  let ?s = "s\<lparr>log_outstanding := 0, log_committing := True\<rparr>"
  obtain t u where t: "commit_post ?s t" and u: "end_op s = Inr u" "u = t\<lparr>log_committing := False, procs := wake_all ChLog (procs t)\<rparr>"
    using end_op_last [OF assms] by blast
  have v: "bview u = bview t" unfolding u(2) by (rule bview_cong) simp_all
  have lq: "lq u {}"
  proof -
    have "lq (t\<lparr>log_committing := False\<rparr>) {}" using t by (simp add: commit_post_def)
    from lq_wake [OF this, of ChLog] show ?thesis by (simp add: u(2))
  qed
  have sel: "lh_n u = lh_n t" "medium u = medium t" "mhist u = mhist t" "log_outstanding u = log_outstanding t" "\<not> log_committing u" by (simp_all add: u(2))
  have "log_outstanding t = 0" using t lg_frameD(19) [of ?s t] by (simp add: commit_post_def)
  moreover have "bview ?s = bview s" by (rule bview_cong) simp_all
  ultimately show ?thesis using t u(1) lq v sel by (intro exI [of _ u]) (simp add: commit_post_def)
qed

theorem log_crash_atomic_witness:
  "\<exists>s t :: logst. set (logblks s) = {50} \<and> dblk (medium s) 50 = replicate BSIZE 0 \<and> end_op s = Inr t \<and> dblk (medium t) 50 = replicate BSIZE 7"
proof -
  obtain s :: logst where s: "lq s {}" "\<not> log_committing s" "log_outstanding s = 1" "log_start s = 2" "medium s = medium lg_ex"
    "bview s = (bview lg_ex)(50 := replicate BSIZE 7)" "set (logblks s) = {50}" using lg_ex_txn by blast
  have h: "hdr_n (dblk (medium s) (log_start s)) = 0" by (simp add: s hdr_n_def)
  have na: "\<not> log_area 2 50" by (simp add: log_area_def)
  obtain t where "end_op s = Inr t" "\<And>bn. \<not> log_area (log_start s) bn \<Longrightarrow> dblk (medium t) bn = bview s bn"
    using log_crash_atomic [OF s(1-3) h] by blast
  then have "end_op s = Inr t" "dblk (medium t) 50 = replicate BSIZE 7" using na by (auto simp: s)
  moreover have "dblk (medium s) 50 = replicate BSIZE 0" by (simp add: s)
  ultimately show ?thesis using s(7) by blast
qed

text \<open>C19. Recovery at boot. When the header on the medium is that of a committed transaction, \<open>recover_from_log\<close> installs every logged block in
  its home location, leaves all other blocks outside the log alone and empties the log. A crash during recovery does no harm: every content
  the medium has on the way recovers to the same blocks.\<close>

theorem recover_from_log_correct:
  fixes s :: "'a logst_scheme"
  assumes "bq s {} {}" "log_dev s = ROOTDEV" "unat (log_start s) + 31 < 2 ^ 31" "log_valid (log_start s) (medium s)"
  shows "\<exists>t. recover_from_log s = Inr t \<and> lh_n t = 0 \<and> hdr_n (dblk (medium t) (log_start s)) = 0 \<and>
    (\<forall>bn. \<not> log_area (log_start s) bn \<longrightarrow> dblk (medium t) bn = recovered (log_start s) (medium s) bn \<and> bview t bn = recovered (log_start s) (medium s) bn) \<and>
    (\<forall>m\<in>set (mhist t) - set (mhist s). \<forall>bn. \<not> log_area (log_start s) bn \<longrightarrow> recovered (log_start s) m bn = recovered (log_start s) (medium s) bn)"
proof -
  obtain t L where t: "recover_from_log s = Inr t" "recover_post s t L" using recover_ok [OF assms] by blast
  then have "bview t bn = dblk (medium t) bn" for bn using bqD(8) [of t "{}" "{}" L bn] by (simp add: recover_post_def)
  then show ?thesis using t by (intro exI [of _ t]) (simp add: recover_post_def)
qed

theorem recover_from_log_correct_witness:
  "\<exists>t. recover_from_log lg_crashed = Inr t \<and> dblk (medium t) 50 = replicate BSIZE 7 \<and> hdr_n (dblk (medium t) 2) = 0"
proof -
  obtain t where "recover_from_log lg_crashed = Inr t" "hdr_n (dblk (medium t) 2) = 0"
    "\<And>bn. \<not> log_area 2 bn \<Longrightarrow> dblk (medium t) bn = recovered 2 (medium lg_crashed) bn"
    using recover_from_log_correct [OF lg_crashed_facts(1,2)] lg_crashed_facts(3,5) by auto
  then show ?thesis using lg_crashed_facts(6,7) by (intro exI [of _ t]) simp
qed

text \<open>C24. Recovery leaks buffers. \<open>install_trans\<close> unpins each block although at boot nothing was pinned: after the recovery of \<open>n\<close> blocks exactly \<open>n\<close> of
  the 30 buffers are unused but have a reference count of 2^32 - 1, so that they are never recycled; the next user of such a block
  brings the count to 0 while the buffer is locked.\<close>

theorem recovery_leaks_buffers:
  fixes s :: "'a logst_scheme"
  assumes "bq s {} {}" "log_dev s = ROOTDEV" "unat (log_start s) + 31 < 2 ^ 31" "log_valid (log_start s) (medium s)"
  shows "\<exists>t L. recover_from_log s = Inr t \<and> card L = nat (hdr_n (dblk (medium s) (log_start s))) \<and> L = {i. i < NBUF \<and> b_refcnt (bufs t i) = 2 ^ 32 - 1} \<and>
    (\<forall>i<NBUF. \<not> sl_locked (slocks t (SlBuf i))) \<and> (\<forall>i<NBUF. i \<notin> L \<longrightarrow> b_refcnt (bufs t i) = 0)"
proof -
  obtain t L where t: "recover_from_log s = Inr t" "recover_post s t L" using recover_ok [OF assms] by blast
  then have q: "bql t {} {} L" and c: "card L = nat (hdr_n (dblk (medium s) (log_start s)))" by (auto simp: recover_post_def)
  note D = bqD [OF q]
  have m1: "(2 ^ 32 - 1 :: u32) = - 1" by simp
  have "L = {i. i < NBUF \<and> b_refcnt (bufs t i) = 2 ^ 32 - 1}"
  proof (rule set_eqI)
    fix i show "i \<in> L \<longleftrightarrow> i \<in> {i. i < NBUF \<and> b_refcnt (bufs t i) = 2 ^ 32 - 1}"
      using D(5) [of i] D(10,12) [of i] unfolding m1 by (cases "i \<in> L") auto
  qed
  then show ?thesis using t(1) c D(4,5) by (intro exI [of _ t] exI [of _ L]) auto
qed

theorem recovery_leaks_buffers_witness:
  "\<exists>t i. recover_from_log lg_crashed = Inr t \<and> i < NBUF \<and> b_refcnt (bufs t i) = 2 ^ 32 - 1 \<and> \<not> sl_locked (slocks t (SlBuf i))"
proof -
  obtain t L where t: "recover_from_log lg_crashed = Inr t" "card L = 1" "L = {i. i < NBUF \<and> b_refcnt (bufs t i) = 2 ^ 32 - 1}"
    "\<And>i. i < NBUF \<Longrightarrow> \<not> sl_locked (slocks t (SlBuf i))"
    using recovery_leaks_buffers [OF lg_crashed_facts(1,2)] lg_crashed_facts(3-5) by auto
  then obtain i where "i \<in> L" by (metis card_1_singletonE singletonI)
  then show ?thesis using t by blast
qed



end
