(* ===== verification/Cow.thy ===== *)
theory Cow
  imports Vm
begin

text \<open>
  Copy on write: \<open>uvmcopy\<close> of kernel/vm.c shares the parent's pages with the child, and
  \<open>copy_on_write\<close> of kernel/trap.c gives a process its own page when it writes. \<open>spaces_inv\<close> is the
  invariant of a set of address spaces that share pages: the reference count of a user page is
  the number of its mappings, and a page that some process may write has one mapping. Under it a
  write of one process is invisible to all others.
\<close>

section \<open>Entries\<close>

definition cow_pte :: "u64 \<Rightarrow> u64" where
  "cow_pte e = (e AND NOT PTE_W) OR PTE_COW"

definition child_pte :: "u64 \<Rightarrow> u64" where
  "child_pte e = PA2PTE (PTE2PA e) OR PTE_FLAGS (cow_pte e) OR PTE_V"

definition own_pte :: "u64 \<Rightarrow> u64" where
  "own_pte e = (e AND NOT PTE_COW) OR PTE_W"

lemma bit_consts:
  "bit (PTE_V :: u64) n \<longleftrightarrow> n = 0" "bit (PTE_W :: u64) n \<longleftrightarrow> n = 2" "bit (PTE_COW :: u64) n \<longleftrightarrow> n = 8"
  "bit (PTE_U :: u64) n \<longleftrightarrow> n = 4"
proof -
  have p: "bit (push_bit k 1 :: u64) n \<longleftrightarrow> n = k" if "k < 64" for k
    using that by (auto simp: bit_simps dest: bit_u64)
  show "bit (PTE_V :: u64) n \<longleftrightarrow> n = 0" "bit (PTE_W :: u64) n \<longleftrightarrow> n = 2" "bit (PTE_COW :: u64) n \<longleftrightarrow> n = 8"
    "bit (PTE_U :: u64) n \<longleftrightarrow> n = 4"
    using p [of 0] p [of 2] p [of 8] p [of 4] by (simp_all add: push_bit_eq_mult)
qed

lemma bit_cow_pte: "bit (cow_pte e) n \<longleftrightarrow> n = 8 \<or> n \<noteq> 2 \<and> bit e n"
  unfolding cow_pte_def bit_or_iff bit_and_iff bit_not_iff bit_consts by (auto dest: bit_u64)

lemma bit_own_pte: "bit (own_pte e) n \<longleftrightarrow> n = 2 \<or> n \<noteq> 8 \<and> bit e n"
  unfolding own_pte_def bit_or_iff bit_and_iff bit_not_iff bit_consts by (auto dest: bit_u64)

lemma bit_PTE2PA: "bit (PTE2PA e) n \<longleftrightarrow> 12 \<le> n \<and> n < 64 \<and> bit e (n - 2)"
  unfolding PTE2PA_def by (auto simp: bit_simps dest: bit_u64)

lemma bit_PTE_FLAGS: "bit (PTE_FLAGS e) n \<longleftrightarrow> n < 10 \<and> bit e n"
  unfolding PTE_FLAGS_def by (auto simp: bit_simps bit_mask_numerals dest: bit_u64)

lemma bit_PA2PTE: "bit (PA2PTE pa) n \<longleftrightarrow> 10 \<le> n \<and> n < 64 \<and> bit pa (n + 2)"
  unfolding PA2PTE_def by (auto simp: bit_simps dest: bit_u64)

lemma bit_child_pte: "bit (child_pte e) n \<longleftrightarrow> n = 0 \<or> n < 10 \<and> bit (cow_pte e) n \<or> 10 \<le> n \<and> n < 62 \<and> bit e n"
  unfolding child_pte_def bit_or_iff bit_consts bit_PA2PTE bit_PTE2PA bit_PTE_FLAGS by (auto dest: bit_u64)

lemma PTE2PA_cow [simp]: "PTE2PA (cow_pte e) = PTE2PA e" "PTE2PA (child_pte e) = PTE2PA e" "PTE2PA (own_pte e) = PTE2PA e"
  by (rule bit_word_eqI; auto simp: bit_PTE2PA bit_cow_pte bit_child_pte bit_own_pte)+

lemmas pte_bits = pte_has_bits bit_cow_pte bit_child_pte bit_own_pte

lemma leaf_ok_bit: "bit e 0 \<Longrightarrow> bit e n \<Longrightarrow> 0 < n \<Longrightarrow> n < 10 \<Longrightarrow> leaf_ok e"
proof -
  assume b: "bit e 0" "bit e n" "0 < n" "n < 10"
  have "bit (PTE_FLAGS e) n" using b by (simp add: bit_PTE_FLAGS)
  moreover have "\<not> bit (PTE_V :: u64) n" using b(3) by (simp add: bit_consts)
  ultimately have "PTE_FLAGS e \<noteq> PTE_V" by auto
  then show ?thesis using b(1) by (simp add: leaf_ok_def pte_has_bits)
qed

lemma leaf_ok_cow:
  assumes "pte_has e PTE_V"
  shows "leaf_ok (cow_pte e)" "leaf_ok (child_pte e)" "leaf_ok (own_pte e)"
  using assms leaf_ok_bit [of "cow_pte e" 8] leaf_ok_bit [of "child_pte e" 8] leaf_ok_bit [of "own_pte e" 2]
  by (simp_all add: pte_bits)

section \<open>uvmcopy\<close>

lemma set_leaf_upte:
  assumes "pt_ok s pt" "node (mem s) pt (vpath (uva k)) = Some t" "k < 2 ^ 26" "j < 2 ^ 26"
  shows "upte (set_leaf t (uva k) v s) pt j = (if j = k then v else upte s pt j)"
  using set_leaf_lookup [OF assms(1,2) uva_less [OF assms(3)] uva_less [OF assms(4)]] assms(3,4)
  by (simp add: upte_def PGROUNDDOWN_id pgal_uva uva_inj)

lemma pt_ok_set_ref:
  assumes "pt_ok s pt" "pgal p" "p \<notin> pt_pages (mem s) pt"
  shows "pt_ok (set_ref p n s) pt"
proof -
  have "PAGE2REF a (set_ref p n s) = PAGE2REF a s" if "a \<in> pt_pages (mem s) pt" for a
    using PAGE2REF_set [OF assms(2) pt_okD(5) [OF assms(1) that], of n s] that assms(3) by auto
  then show ?thesis using assms(1) by (simp add: pt_ok_def)
qed

text \<open>
  What \<open>uvmcopy\<close> does to the state apart from the entries it sets: it may take free pages for the child's
  tables and add owners; memory changes only in the tables of the two address spaces.
\<close>

definition sharing :: "addr \<Rightarrow> addr \<Rightarrow> 'a kmst_scheme \<Rightarrow> 'a kmst_scheme \<Rightarrow> bool" where
  "sharing old new s s' \<longleftrightarrow>
     s' = s\<lparr>mem := mem s', freelist := freelist s', pageref := pageref s'\<rparr> \<and> kmem_ok s' \<and>
     pt_ok s' old \<and> pt_ok s' new \<and> pt_pages (mem s') old \<inter> pt_pages (mem s') new = {} \<and>
     pt_pages (mem s') old = pt_pages (mem s) old \<and> pt_pages (mem s) new \<subseteq> pt_pages (mem s') new \<and>
     (\<forall>a. a \<in> pt_pages (mem s') new \<longrightarrow> a \<notin> pt_pages (mem s) new \<longrightarrow> free_page s a) \<and>
     same_off (pt_pages (mem s') old \<union> pt_pages (mem s') new) (mem s) (mem s') \<and>
     (\<forall>p. vpage (kend s) p \<longrightarrow> p \<notin> pt_pages (mem s') new \<longrightarrow> PAGE2REF p s \<le> PAGE2REF p s')"

lemma sharingD:
  assumes "sharing old new s s'"
  shows "s' = s\<lparr>mem := mem s', freelist := freelist s', pageref := pageref s'\<rparr>" "kmem_ok s'" "pt_ok s' old" "pt_ok s' new"
    "pt_pages (mem s') old \<inter> pt_pages (mem s') new = {}" "pt_pages (mem s') old = pt_pages (mem s) old"
    "pt_pages (mem s) new \<subseteq> pt_pages (mem s') new"
    "a \<in> pt_pages (mem s') new \<Longrightarrow> a \<notin> pt_pages (mem s) new \<Longrightarrow> free_page s a"
    "same_off (pt_pages (mem s') old \<union> pt_pages (mem s') new) (mem s) (mem s')"
    "vpage (kend s) p \<Longrightarrow> p \<notin> pt_pages (mem s') new \<Longrightarrow> PAGE2REF p s \<le> PAGE2REF p s'"
    "kend s' = kend s" "held s' = held s"
proof -
  show e: "s' = s\<lparr>mem := mem s', freelist := freelist s', pageref := pageref s'\<rparr>" and "kmem_ok s'" "pt_ok s' old" "pt_ok s' new"
    "pt_pages (mem s') old \<inter> pt_pages (mem s') new = {}" "pt_pages (mem s') old = pt_pages (mem s) old"
    "pt_pages (mem s) new \<subseteq> pt_pages (mem s') new"
    "a \<in> pt_pages (mem s') new \<Longrightarrow> a \<notin> pt_pages (mem s) new \<Longrightarrow> free_page s a"
    "same_off (pt_pages (mem s') old \<union> pt_pages (mem s') new) (mem s) (mem s')"
    "vpage (kend s) p \<Longrightarrow> p \<notin> pt_pages (mem s') new \<Longrightarrow> PAGE2REF p s \<le> PAGE2REF p s'"
    using assms unfolding sharing_def by blast+
  have "kend s' = kend (s\<lparr>mem := mem s', freelist := freelist s', pageref := pageref s'\<rparr>)" by (rule arg_cong [OF e])
  then show "kend s' = kend s" by simp
  have "held s' = held (s\<lparr>mem := mem s', freelist := freelist s', pageref := pageref s'\<rparr>)" by (rule arg_cong [OF e])
  then show "held s' = held s" by simp
qed

lemma sharing_refl:
  "kmem_ok s \<Longrightarrow> pt_ok s old \<Longrightarrow> pt_ok s new \<Longrightarrow> pt_pages (mem s) old \<inter> pt_pages (mem s) new = {} \<Longrightarrow> sharing old new s s"
  by (simp add: sharing_def)

lemma sharing_trans:
  assumes "sharing old new s s1" "sharing old new s1 s2"
  shows "sharing old new s s2"
proof -
  note a = sharingD [OF assms(1)] and b = sharingD [OF assms(2)]
  have "free_page s x" if x: "x \<in> pt_pages (mem s2) new" "x \<notin> pt_pages (mem s) new" for x
  proof (cases "x \<in> pt_pages (mem s1) new")
    case True
    then show ?thesis using a(8) x(2) by blast
  next
    case False
    then have f: "free_page s1 x" using b(8) x(1) by blast
    then have "vpage (kend s) x" "PAGE2REF x s1 \<le> 0" using a(11) by (auto simp: free_page_def)
    then show ?thesis using a(10) [OF _ False] by (auto simp: free_page_def)
  qed
  moreover have "PAGE2REF x s \<le> PAGE2REF x s2" if "vpage (kend s) x" "x \<notin> pt_pages (mem s2) new" for x
    using a(10) [of x] b(10) [of x] a(11) b(7) that by fastforce
  moreover have "same_off (pt_pages (mem s2) old \<union> pt_pages (mem s2) new) (mem s) (mem s2)"
    by (rule same_off_trans [OF a(9) b(9)]) (use b(6,7) in auto)
  ultimately show ?thesis
    unfolding sharing_def using kframe_trans [OF a(1) b(1)] b(2-7) a(6,7) by auto
qed

lemma sharing_old:
  assumes "pt_grow old s s'" "pt_pages (mem s') old = pt_pages (mem s) old" "pt_ok s new"
    "pt_pages (mem s) old \<inter> pt_pages (mem s) new = {}"
    "\<And>p. vpage (kend s) p \<Longrightarrow> PAGE2REF p s' = PAGE2REF p s"
  shows "sharing old new s s'"
proof -
  note g = pt_growD [OF assms(1)] and o = pt_grow_other [OF assms(1,3,4)]
  show ?thesis
    unfolding sharing_def using g(1-3) o(1,2,4) assms(2,5) same_off_mono [OF g(5)] by auto
qed

lemma sharing_new:
  assumes "pt_grow new s s'" "pt_ok s old" "pt_pages (mem s) old \<inter> pt_pages (mem s) new = {}"
  shows "sharing old new s s'"
proof -
  have d: "pt_pages (mem s) new \<inter> pt_pages (mem s) old = {}" using assms(3) by blast
  note g = pt_growD [OF assms(1)] and o = pt_grow_other [OF assms(1,2) d]
  have "same_off (pt_pages (mem s') old \<union> pt_pages (mem s') new) (mem s) (mem s')"
    by (rule same_off_mono [OF g(5)]) simp
  then show ?thesis
    unfolding sharing_def using g(1-4) g(8,9) o(1,2,4) by auto
qed

lemma sharing_ref:
  assumes "kmem_ok s" "pt_ok s old" "pt_ok s new" "pt_pages (mem s) old \<inter> pt_pages (mem s) new = {}"
    "vpage (kend s) p" "p \<notin> pt_pages (mem s) old" "p \<notin> pt_pages (mem s) new" "PAGE2REF p s \<ge> 1"
  shows "sharing old new s (set_ref p (PAGE2REF p s + 1) s)"
proof -
  let ?s = "set_ref p (PAGE2REF p s + 1) s"
  have pg: "pgal p" using assms(5) by (rule vpage_pgal)
  obtain ps where u: "unlocked s" and i: "kmem_inv s ps" using assms(1) by (auto simp: kmem_ok_def)
  have "kmem_ok ?s"
    using kmem_inv_set_ref [OF i assms(5), of "PAGE2REF p s + 1"] assms(8) u unlocked_held [of ?s s]
    by (auto simp: kmem_ok_def)
  moreover have "PAGE2REF a s \<le> PAGE2REF a ?s" if "vpage (kend s) a" for a
    using PAGE2REF_set [OF pg vpage_pgal [OF that], of _ s] by auto
  moreover have "?s = s\<lparr>mem := mem ?s, freelist := freelist ?s, pageref := pageref ?s\<rparr>" by (simp add: set_ref_def)
  ultimately show ?thesis
    unfolding sharing_def using pt_ok_set_ref [OF assms(2) pg assms(6)] pt_ok_set_ref [OF assms(3) pg assms(7)] assms(4)
    by auto
qed

text \<open>What \<open>uvmcopy\<close> needs to copy the first \<open>n\<close> pages.\<close>

definition copyable :: "addr \<Rightarrow> addr \<Rightarrow> nat \<Rightarrow> 'a kmst_scheme \<Rightarrow> bool" where
  "copyable old new n s \<longleftrightarrow> kmem_ok s \<and> pt_ok s old \<and> pt_ok s new \<and>
     pt_pages (mem s) old \<inter> pt_pages (mem s) new = {} \<and> n \<le> 2 ^ 26 \<and>
     (\<forall>j<n. pte_has (upte s old j) PTE_V \<and> vpage (kend s) (upa s old j) \<and> upa s old j \<notin> pt_pages (mem s) old \<and>
        upa s old j \<notin> pt_pages (mem s) new \<and> PAGE2REF (upa s old j) s \<ge> 1 \<and> upte s new j = 0) \<and>
     (\<forall>p. vpage (kend s) p \<longrightarrow> 0 \<le> PAGE2REF p s)"

text \<open>The state when the first \<open>k'\<close> pages of the parent are marked and the first \<open>k\<close> are mapped in the child.\<close>

definition copied :: "addr \<Rightarrow> addr \<Rightarrow> nat \<Rightarrow> nat \<Rightarrow> 'a kmst_scheme \<Rightarrow> 'a kmst_scheme \<Rightarrow> bool" where
  "copied old new k' k s s' \<longleftrightarrow> sharing old new s s' \<and>
     (\<forall>j<2 ^ 26. upte s' old j = (if j < k' then cow_pte (upte s old j) else upte s old j)) \<and>
     (\<forall>j<2 ^ 26. upte s' new j = (if j < k then child_pte (upte s old j) else upte s new j)) \<and>
     (\<forall>p. vpage (kend s) p \<longrightarrow> p \<notin> pt_pages (mem s') new \<longrightarrow> PAGE2REF p s' = PAGE2REF p s + int (dup s old {0..<k} p))"

lemma copyableD:
  assumes "copyable old new n s"
  shows "kmem_ok s" "pt_ok s old" "pt_ok s new" "pt_pages (mem s) old \<inter> pt_pages (mem s) new = {}" "n \<le> 2 ^ 26"
    "j < n \<Longrightarrow> pte_has (upte s old j) PTE_V" "j < n \<Longrightarrow> vpage (kend s) (upa s old j)"
    "j < n \<Longrightarrow> upa s old j \<notin> pt_pages (mem s) old" "j < n \<Longrightarrow> upa s old j \<notin> pt_pages (mem s) new"
    "j < n \<Longrightarrow> PAGE2REF (upa s old j) s \<ge> 1" "j < n \<Longrightarrow> upte s new j = 0"
    "vpage (kend s) p \<Longrightarrow> 0 \<le> PAGE2REF p s"
  using assms unfolding copyable_def by blast+

lemma copiedD:
  assumes "copied old new k' k s s'"
  shows "sharing old new s s'" "j < 2 ^ 26 \<Longrightarrow> upte s' old j = (if j < k' then cow_pte (upte s old j) else upte s old j)"
    "j < 2 ^ 26 \<Longrightarrow> upte s' new j = (if j < k then child_pte (upte s old j) else upte s new j)"
    "vpage (kend s) p \<Longrightarrow> p \<notin> pt_pages (mem s') new \<Longrightarrow> PAGE2REF p s' = PAGE2REF p s + int (dup s old {0..<k} p)"
  using assms unfolding copied_def by blast+

lemma copied_0: "copyable old new n s \<Longrightarrow> copied old new 0 0 s s"
  using copyableD [of old new n s] by (auto simp: copied_def dup_def intro: sharing_refl)

text \<open>A page of the parent is never one of the child's tables: it is not free.\<close>

lemma copied_upa:
  assumes "copyable old new n s" "sharing old new s s'" "j < n"
  shows "upa s old j \<notin> pt_pages (mem s') old" "upa s old j \<notin> pt_pages (mem s') new"
  using copyableD [OF assms(1)] assms(3) sharingD [OF assms(2)] by (fastforce simp: free_page_def)+

lemma copied_mark:
  assumes c: "copyable old new n s0" "copied old new k k s0 s" and k: "k < n"
  obtains t where "node (mem s) old (vpath (uva k)) = Some t" "upte s old k = upte s0 old k"
    "copied old new (Suc k) k s0 (set_leaf t (uva k) (cow_pte (upte s0 old k)) s)"
proof -
  note a = copyableD [OF c(1)] and b = copiedD [OF c(2)]
  note h = sharingD [OF b(1)]
  have k26: "k < 2 ^ 26" using a(5) k by linarith
  have e: "upte s old k = upte s0 old k" using b(2) [OF k26] by simp
  have "pte_has (lookup (mem s) old (uva k)) PTE_V" using a(6) [OF k] e by (simp add: upte_def)
  then obtain t where t: "node (mem s) old (vpath (uva k)) = Some t" by (rule lookup_node)
  let ?s = "set_leaf t (uva k) (cow_pte (upte s0 old k)) s"
  note l = set_leaf_ok(1,2) [OF h(2,3) t, of "cow_pte (upte s0 old k)"]
  have n: "upte ?s new j = upte s new j" "pt_pages (mem ?s) new = pt_pages (mem s) new" for j
    using pt_grow_other(2,3) [OF l(1) h(4,5)] by (simp_all add: upte_def)
  have "sharing old new s ?s" by (rule sharing_old [OF l(1,2) h(4,5)]) simp
  then have "sharing old new s0 ?s" by (rule sharing_trans [OF b(1)])
  moreover have "upte ?s old j = (if j < Suc k then cow_pte (upte s0 old j) else upte s0 old j)" if "j < 2 ^ 26" for j
    using set_leaf_upte [OF h(3) t k26 that] b(2) [OF that] by auto
  ultimately have "copied old new (Suc k) k s0 ?s"
    unfolding copied_def n(2) using b(3,4) n(1) by simp
  then show thesis by (rule that [OF t e])
qed

lemma copied_map:
  assumes c: "copyable old new n s0" "copied old new (Suc k) k s0 s" and k: "k < n"
    and m: "pt_grow new s s'" "\<forall>vb<MAXVA. lookup (mem s') new vb = (if PGROUNDDOWN vb = uva k then v else lookup (mem s) new vb)"
      "v = upte s0 new k \<or> v = child_pte (upte s0 old k)"
  shows "sharing old new s0 s'" "j < 2 ^ 26 \<Longrightarrow> upte s' old j = upte s old j"
    "j < 2 ^ 26 \<Longrightarrow> upte s' new j = (if j = k then v else upte s new j)"
    "vpage (kend s0) p \<Longrightarrow> p \<notin> pt_pages (mem s') new \<Longrightarrow> PAGE2REF p s' = PAGE2REF p s"
proof -
  note a = copyableD [OF c(1)] and b = copiedD [OF c(2)]
  note h = sharingD [OF b(1)]
  have d: "pt_pages (mem s) new \<inter> pt_pages (mem s) old = {}" using h(5) by blast
  show "sharing old new s0 s'" by (rule sharing_trans [OF b(1) sharing_new [OF m(1) h(3,5)]])
  show "upte s' old j = upte s old j" using pt_grow_other(3) [OF m(1) h(3) d] by (simp add: upte_def)
  show "upte s' new j = (if j = k then v else upte s new j)" if j: "j < 2 ^ 26"
    using m(2) [rule_format, OF uva_less [OF j]] j k a(5) by (simp add: upte_def PGROUNDDOWN_id pgal_uva uva_inj)
  show "PAGE2REF p s' = PAGE2REF p s" if "vpage (kend s0) p" "p \<notin> pt_pages (mem s') new"
    using pt_growD(9) [OF m(1)] that h(11) by simp
qed

lemma dup_Suc: "dup s pt {0..<Suc k} p = dup s pt {0..<k} p + (if upa s pt k = p then 1 else 0)"
  using dup_insert [of "{0..<k}" k s pt p] by (simp add: atLeast0_lessThan_Suc)

lemma copied_own:
  assumes c: "copyable old new n s0" and k: "k < n"
    and s: "sharing old new s0 s" "\<And>j. j < 2 ^ 26 \<Longrightarrow> upte s old j = (if j < Suc k then cow_pte (upte s0 old j) else upte s0 old j)"
      "\<And>j. j < 2 ^ 26 \<Longrightarrow> upte s new j = (if j < Suc k then child_pte (upte s0 old j) else upte s0 new j)"
      "\<And>p. vpage (kend s0) p \<Longrightarrow> p \<notin> pt_pages (mem s) new \<Longrightarrow> PAGE2REF p s = PAGE2REF p s0 + int (dup s0 old {0..<k} p)"
  shows "\<exists>s'. pageRef (upa s0 old k) s = Inr s' \<and> copied old new (Suc k) (Suc k) s0 s'"
proof (intro exI conjI)
  let ?p = "upa s0 old k" and ?s = "set_ref (upa s0 old k) (PAGE2REF (upa s0 old k) s + 1) s"
  note a = copyableD [OF c] and h = sharingD [OF s(1)] and u = copied_upa [OF c s(1) k]
  have pg: "vpage (kend s) ?p" "pgal ?p" using a(7) [OF k] h(11) vpage_pgal by auto
  have r: "PAGE2REF ?p s \<ge> 1" using s(4) [OF a(7) [OF k] u(2)] a(10) [OF k] by simp
  show "pageRef ?p s = Inr ?s" by (rule pageRef_eq) (use h(2) in \<open>simp add: kmem_ok_def\<close>)
  have "sharing old new s0 ?s" by (rule sharing_trans [OF s(1) sharing_ref [OF h(2-5) pg(1) u r]])
  moreover have "PAGE2REF p ?s = PAGE2REF p s0 + int (dup s0 old {0..<Suc k} p)"
    if "vpage (kend s0) p" "p \<notin> pt_pages (mem s) new" for p
    using PAGE2REF_set [OF pg(2) vpage_pgal [OF that(1)], of "PAGE2REF ?p s + 1" s] s(4) [OF that] by (auto simp: dup_Suc)
  ultimately show "copied old new (Suc k) (Suc k) s0 ?s"
    unfolding copied_def using s(2,3) by (simp add: upte_def)
qed

text \<open>One round of the loop: the child's mapping is made, or the tables ran out of memory.\<close>

lemma uvmcopy_round:
  assumes c: "copyable old new n s0" "copied old new k k s0 s" and k: "k < n" "uva k < sz"
  obtains s' where "uvmcopy_loop old new (uva k) sz s = uvmcopy_loop old new (uva (Suc k)) sz s'"
      "copied old new (Suc k) (Suc k) s0 s'"
    | s' where "uvmcopy_loop old new (uva k) sz s =
        bnd (uvmunmap new 0 (uva k div PGSIZE) True s') (\<lambda>s. Inr (- 1, s))"
      "copied old new (Suc k) k s0 s'" "\<And>p. \<not> free_page s' p"
proof -
  note a = copyableD [OF c(1)]
  have k26: "k < 2 ^ 26" using a(5) k by linarith
  obtain t where t: "node (mem s) old (vpath (uva k)) = Some t" and e: "upte s old k = upte s0 old k"
    and c1: "copied old new (Suc k) k s0 (set_leaf t (uva k) (cow_pte (upte s0 old k)) s)"
    by (rule copied_mark [OF c k(1)])
  let ?e = "upte s0 old k" let ?s = "set_leaf t (uva k) (cow_pte ?e) s"
  note b = copiedD [OF c1] and h = sharingD [OF copiedD(1) [OF c(2)]]
  note h1 = sharingD [OF b(1)]
  have l: "ld64 (mem s) (pte_at t (PX 0 (uva k))) = ?e" using node_lookup [OF t] e by (simp add: upte_def)
  have l1: "ld64 (st64 (mem s) (pte_at t (PX 0 (uva k))) v) (pte_at t (PX 0 (uva k))) = v" for v by simp
  have w: "walk old (uva k) False s = Inr (pte_at t (PX 0 (uva k)), s)" by (rule walk_present [OF uva_less [OF k26] t])
  have f: "uvmcopy_loop old new (uva k) sz s =
      bnd (mappages new (uva k) PGSIZE (upa s0 old k) (PTE_FLAGS (cow_pte ?e)) ?s) (\<lambda>(r, s).
        if r \<noteq> 0 then bnd (uvmunmap new 0 (uva k div PGSIZE) True s) (\<lambda>s. Inr (- 1, s))
        else bnd (pageRef (upa s0 old k) s) (\<lambda>s. uvmcopy_loop old new (uva (Suc k)) sz s))"
    unfolding uvmcopy_loop.simps [of old new "uva k" sz s] w
    using k(2) a(6) [OF k(1)] pt_ok_slot(1) [OF h(3) t] l
    by (simp add: Let_def l1 set_leaf_def cow_pte_def upa_def uva_Suc [symmetric] cong: if_cong)
  have inv: "\<not> pte_has (lookup (mem ?s) new (uva k)) PTE_V"
    using b(3) [OF k26] a(11) [OF k(1)] by (simp add: upte_def)
  show thesis
  proof (rule mappages_page [OF h1(2,4) pgal_uva uva_less [OF k26] inv, where pa = "upa s0 old k" and perm = "PTE_FLAGS (cow_pte ?e)"])
    show "k \<le> 2 ^ 26" using k26 by simp
    fix s2
    assume m: "mappages new (uva k) PGSIZE (upa s0 old k) (PTE_FLAGS (cow_pte ?e)) ?s = Inr (0, s2)" "pt_grow new ?s s2"
      "\<And>vb. vb < MAXVA \<Longrightarrow> lookup (mem s2) new vb = (if PGROUNDDOWN vb = uva k
         then PA2PTE (upa s0 old k) OR PTE_FLAGS (cow_pte ?e) OR PTE_V else lookup (mem ?s) new vb)"
    have m3: "\<forall>vb<MAXVA. lookup (mem s2) new vb = (if PGROUNDDOWN vb = uva k then child_pte ?e else lookup (mem ?s) new vb)"
      using m(3) by (simp add: child_pte_def upa_def)
    note d = copied_map [OF c(1) c1 k(1) m(2) m3 disjI2 [OF refl]]
    have "\<exists>s'. pageRef (upa s0 old k) s2 = Inr s' \<and> copied old new (Suc k) (Suc k) s0 s'"
    proof (rule copied_own [OF c(1) k(1) d(1)])
      show "PAGE2REF p s2 = PAGE2REF p s0 + int (dup s0 old {0..<k} p)"
        if "vpage (kend s0) p" "p \<notin> pt_pages (mem s2) new" for p
        using d(4) [OF that] b(4) [OF that(1)] pt_growD(4) [OF m(2)] that(2) by auto
    qed (use d(2,3) b(2,3) in auto)
    then show thesis using that(1) f m(1) by auto
  next
    fix s2
    assume m: "mappages new (uva k) PGSIZE (upa s0 old k) (PTE_FLAGS (cow_pte ?e)) ?s = Inr (- 1, s2)" "pt_grow new ?s s2"
      "\<And>p. \<not> free_page s2 p" "\<And>vb. vb < MAXVA \<Longrightarrow> lookup (mem s2) new vb = lookup (mem ?s) new vb"
    have m3: "\<forall>vb<MAXVA. lookup (mem s2) new vb = (if PGROUNDDOWN vb = uva k then upte s0 new k else lookup (mem ?s) new vb)"
      using m(4) b(3) [OF k26] by (auto simp: upte_def) (metis lookup_PGROUNDDOWN)
    note d = copied_map [OF c(1) c1 k(1) m(2) m3 disjI1 [OF refl]]
    have "PAGE2REF p s2 = PAGE2REF p s0 + int (dup s0 old {0..<k} p)"
      if "vpage (kend s0) p" "p \<notin> pt_pages (mem s2) new" for p
      using d(4) [OF that] b(4) [OF that(1)] pt_growD(4) [OF m(2)] that(2) by auto
    then have "copied old new (Suc k) k s0 s2" unfolding copied_def using d(1-3) b(2,3) by auto
    then show thesis using that(2) [OF _ _ m(3)] f m(1) by auto
  qed
qed

lemma uva_div: "k \<le> 2 ^ 26 \<Longrightarrow> uva k div PGSIZE = of_nat k"
  by (simp add: word_unat_eq_iff unat_div unat_uva unat_of_nat_u64)

lemma same_offD: "same_off P m m' \<Longrightarrow> PGROUNDDOWN x \<notin> P \<Longrightarrow> m' x = m x"
  by (simp add: same_off_def)

lemma dup_0: "(\<And>j. j \<in> K \<Longrightarrow> upa s pt j \<noteq> p) \<Longrightarrow> dup s pt K p = 0"
  by (simp add: dup_def Collect_empty_eq) (metis (mono_tags, lifting) card.empty empty_Collect_eq)

lemma pt_ok_frame:
  assumes "pt_ok s pt" "same_off P (mem s) (mem s')" "P \<inter> pt_pages (mem s) pt = {}" "kend s' = kend s"
    "\<And>a. a \<in> pt_pages (mem s) pt \<Longrightarrow> PAGE2REF a s' = PAGE2REF a s"
  shows "pt_ok s' pt" "pt_pages (mem s') pt = pt_pages (mem s) pt" "upte s' pt j = upte s pt j"
proof -
  note k = pt_okD(1) [OF assms(1)]
  note f = pt_pages_frame [OF k assms(2,3)]
  show "pt_pages (mem s') pt = pt_pages (mem s) pt" by (rule f(1))
  show "upte s' pt j = upte s pt j" using lookup_frame [OF k assms(2,3)] by (simp add: upte_def)
  show "pt_ok s' pt" using assms(1,4,5) f by (simp add: pt_ok_def)
qed

lemma copied_unmap:
  assumes c: "copyable old new n s0" "copied old new k' k s0 s" and k: "k \<le> n" and full: "\<And>p. \<not> free_page s p"
  shows "\<exists>s'. uvmunmap new 0 (uva k div PGSIZE) True s = Inr s' \<and> copied old new k' 0 s0 s'"
proof -
  note a = copyableD [OF c(1)] and b = copiedD [OF c(2)]
  note h = sharingD [OF b(1)]
  have k26: "k \<le> 2 ^ 26" using a(5) k by linarith
  have u: "upte s new j = child_pte (upte s0 old j)" "upa s new j = upa s0 old j" if "j < k" for j
    using b(3) [of j] that k26 by (simp_all add: upa_def)
  have d: "dup s new {0..<k} p = dup s0 old {0..<k} p" for p
    using u by (simp add: dup_def cong: conj_cong)
  have "user_pages s new {0..<k}"
    unfolding user_pages_def
  proof (intro conjI ballI allI impI)
    fix j assume "j \<in> {0..<k}"
    then have j: "j < k" "j < n" using k by auto
    then show "j < 2 ^ 26" "leaf_ok (upte s new j)" "vpage (kend s) (upa s new j)" "upa s new j \<notin> pt_pages (mem s) new"
      using u [OF j(1)] leaf_ok_cow(2) [OF a(6) [OF j(2)]] a(7) [OF j(2)] h(11) copied_upa(2) [OF c(1) b(1) j(2)] k26 by auto
  next
    fix p assume p: "vpage (kend s) p"
    show "int (dup s new {0..<k} p) \<le> PAGE2REF p s"
    proof (cases "p \<in> pt_pages (mem s) new")
      case True
      then have "dup s new {0..<k} p = 0" using u copied_upa(2) [OF c(1) b(1)] k by (fastforce simp: dup_def)
      then show ?thesis using pt_okD(3) [OF h(4) True] by simp
    next
      case False
      then show ?thesis using b(4) [of p] a(12) [of p] p d h(11) by simp
    qed
  qed simp
  then obtain s' where s': "uvmunmap new (uva 0) (of_nat k) True s = Inr s'" "kmem_ok s'" "pt_ok s' new"
    "s' = s\<lparr>mem := mem s', freelist := freelist s', pageref := pageref s'\<rparr>" "kend s' = kend s"
    "pt_pages (mem s') new = pt_pages (mem s) new"
    "\<forall>vb<MAXVA. lookup (mem s') new vb = clear_range 0 k (lookup (mem s) new) vb"
    "\<forall>p. vpage (kend s) p \<longrightarrow> PAGE2REF p s' = PAGE2REF p s - int (dup s new {0..<k} p)"
    "same_off (pt_pages (mem s) new \<union> {p. free_page s' p}) (mem s) (mem s')"
    using uvmunmap_free [OF h(2,4), of 0 k] k26 by auto
  have ref: "PAGE2REF p s' = PAGE2REF p s0" if p: "vpage (kend s0) p" "p \<notin> pt_pages (mem s) new" for p
    using s'(8) [rule_format, of p] b(4) [OF p] p d h(11) by simp
  have nf: "\<not> free_page s' p" for p
  proof
    assume f: "free_page s' p"
    then have v: "vpage (kend s0) p" and n: "p \<notin> pt_pages (mem s) new"
      using s'(5) h(11) pt_okD(3) [OF s'(3)] s'(6) by (auto simp: free_page_def)
    then have r0: "PAGE2REF p s0 \<le> 0" using ref [OF v n] f by (simp add: free_page_def)
    have "upa s0 old j \<noteq> p" if "j < k" for j using a(10) [of j] r0 that k by auto
    then have "dup s0 old {0..<k} p = 0" by (intro dup_0) simp
    then show False using full [of p] b(4) [OF v n] r0 v h(11) by (simp add: free_page_def)
  qed
  then have so: "same_off (pt_pages (mem s) new) (mem s) (mem s')" using s'(9) by simp
  have ro: "PAGE2REF x s' = PAGE2REF x s" if x: "x \<in> pt_pages (mem s) old" for x
  proof -
    have "dup s new {0..<k} x = 0" using x u copied_upa(1) [OF c(1) b(1)] k by (fastforce simp: dup_def)
    then show ?thesis using s'(8) pt_okD(2) [OF h(3) x] by simp
  qed
  have dj: "pt_pages (mem s) new \<inter> pt_pages (mem s) old = {}" using h(5) by blast
  note o = pt_ok_frame [OF h(3) so dj s'(5) ro]
  have "sharing old new s0 s'"
    unfolding sharing_def
  proof (intro conjI allI impI)
    show "s' = s0\<lparr>mem := mem s', freelist := freelist s', pageref := pageref s'\<rparr>" by (rule kframe_trans [OF h(1) s'(4)])
    show "same_off (pt_pages (mem s') old \<union> pt_pages (mem s') new) (mem s0) (mem s')"
      by (rule same_off_trans [OF h(9) so]) (use o(2) s'(6) in auto)
  qed (use s'(2,3,6) o(1,2) h(5-8) ref in auto)
  moreover have "upte s' new j = upte s0 new j" if j: "j < 2 ^ 26" for j
    using s'(7) [rule_format, OF uva_less [OF j]] b(3) [OF j] a(11) [of j] k j
    by (auto simp: upte_def clear_range_def unat_uva)
  ultimately have "copied old new k' 0 s0 s'"
    unfolding copied_def using o(3) b(2) ref s'(6) by (simp add: dup_def)
  then show ?thesis using s'(1) uva_div [OF k26] by (simp add: uva_def)
qed

text \<open>The number of pages of a process of \<open>sz\<close> bytes.\<close>

definition npages_of :: "u64 \<Rightarrow> nat" where
  "npages_of sz = (unat sz + 4095) div 4096"

lemma uva_less_iff: "k \<le> 2 ^ 26 \<Longrightarrow> uva k < sz \<longleftrightarrow> k < npages_of sz"
  by (simp add: word_less_nat_alt unat_uva npages_of_def) linarith

lemma uvmcopy_loop_ok:
  assumes "copyable old new (npages_of sz) s0" "copied old new k k s0 s" "k \<le> npages_of sz"
  shows "\<exists>r s'. uvmcopy_loop old new (uva k) sz s = Inr (r, s') \<and>
    (r = 0 \<and> copied old new (npages_of sz) (npages_of sz) s0 s' \<or>
     r = - 1 \<and> (\<exists>k'\<le>npages_of sz. copied old new k' 0 s0 s'))"
  using assms(2,3)
proof (induction "npages_of sz - k" arbitrary: k s)
  case 0
  have "\<not> uva k < sz" using uva_less_iff [of k sz] copyableD(5) [OF assms(1)] 0 by simp
  then show ?case using 0 by (subst uvmcopy_loop.simps) simp
next
  case (Suc d)
  have k: "k < npages_of sz" using Suc.hyps(2) by simp
  have lt: "uva k < sz" using uva_less_iff [of k sz] copyableD(5) [OF assms(1)] k by simp
  show ?case
  proof (rule uvmcopy_round [OF assms(1) Suc.prems(1) k lt])
    fix s' assume r: "uvmcopy_loop old new (uva k) sz s = uvmcopy_loop old new (uva (Suc k)) sz s'"
      "copied old new (Suc k) (Suc k) s0 s'"
    show ?thesis unfolding r(1) by (rule Suc.hyps(1) [OF _ r(2)]) (use Suc.hyps(2) k in auto)
  next
    fix s' assume r: "uvmcopy_loop old new (uva k) sz s =
        bnd (uvmunmap new 0 (uva k div PGSIZE) True s') (\<lambda>s. Inr (- 1, s))"
      "copied old new (Suc k) k s0 s'" "\<And>p. \<not> free_page s' p"
    obtain s2 where "uvmunmap new 0 (uva k div PGSIZE) True s' = Inr s2" "copied old new (Suc k) 0 s0 s2"
      using copied_unmap [OF assms(1) r(2) _ r(3)] k by auto
    then show ?thesis using r(1) k by (auto intro!: exI [of _ "Suc k"])
  qed
qed

lemma uvmcopy_ok:
  assumes "copyable old new (npages_of sz) s"
  shows "\<exists>r s'. uvmcopy old new sz s = Inr (r, s') \<and>
    (r = 0 \<and> copied old new (npages_of sz) (npages_of sz) s s' \<or>
     r = - 1 \<and> (\<exists>k'\<le>npages_of sz. copied old new k' 0 s s'))"
  using uvmcopy_loop_ok [OF assms copied_0 [OF assms]] by (simp add: uvmcopy_def uva_def)

section \<open>Address spaces that share pages\<close>

text \<open>
  \<open>AS\<close> lists the page tables of the processes with their numbers of pages. Each user page is counted once per
  mapping, no user page is a table, and a page that some entry lets its process write has one mapping.
\<close>

definition mappings :: "'a kmst_scheme \<Rightarrow> (addr \<times> nat) list \<Rightarrow> addr \<Rightarrow> (addr \<times> nat) set" where
  "mappings s AS p = (\<Union>x\<in>set AS. {fst x} \<times> {k \<in> {0..<snd x}. upa s (fst x) k = p})"

definition user_entry :: "'a kmst_scheme \<Rightarrow> (addr \<times> nat) list \<Rightarrow> u64 \<Rightarrow> bool" where
  "user_entry s AS e \<longleftrightarrow> leaf_ok e \<and> vpage (kend s) (PTE2PA e) \<and>
     (\<forall>x\<in>set AS. PTE2PA e \<notin> pt_pages (mem s) (fst x)) \<and> (pte_has e PTE_W \<longrightarrow> PAGE2REF (PTE2PA e) s = 1)"

definition spaces_inv :: "'a kmst_scheme \<Rightarrow> (addr \<times> nat) list \<Rightarrow> bool" where
  "spaces_inv s AS \<longleftrightarrow> kmem_ok s \<and> distinct (map fst AS) \<and>
     (\<forall>x\<in>set AS. pt_ok s (fst x) \<and> snd x \<le> 2 ^ 26) \<and>
     (\<forall>x\<in>set AS. \<forall>y\<in>set AS. fst x \<noteq> fst y \<longrightarrow> pt_pages (mem s) (fst x) \<inter> pt_pages (mem s) (fst y) = {}) \<and>
     (\<forall>x\<in>set AS. \<forall>k. k < snd x \<longrightarrow> user_entry s AS (upte s (fst x) k)) \<and>
     (\<forall>p. vpage (kend s) p \<longrightarrow> int (card (mappings s AS p)) \<le> PAGE2REF p s)"

text \<open>The byte a process reads at \<open>va\<close>, and the hardware's store to it.\<close>

definition pgno :: "u64 \<Rightarrow> nat" where
  "pgno va = unat va div 4096"

definition user_pa :: "'a kmst_scheme \<Rightarrow> addr \<Rightarrow> u64 \<Rightarrow> addr" where
  "user_pa s pt va = PTE2PA (lookup (mem s) pt va) + (va - PGROUNDDOWN va)"

definition user_byte :: "'a kmst_scheme \<Rightarrow> addr \<Rightarrow> u64 \<Rightarrow> u8" where
  "user_byte s pt va = mem s (user_pa s pt va)"

definition user_store :: "addr \<Rightarrow> u64 \<Rightarrow> u8 \<Rightarrow> 'a kmst_scheme \<Rightarrow> 'a kmst_scheme" where
  "user_store pt va b s = s\<lparr>mem := (mem s)(user_pa s pt va := b)\<rparr>"

lemma finite_mappings [simp]: "finite (mappings s AS p)"
  by (simp add: mappings_def)

lemma spaces_invD:
  assumes "spaces_inv s AS"
  shows "kmem_ok s" "distinct (map fst AS)" "(pt, n) \<in> set AS \<Longrightarrow> pt_ok s pt" "(pt, n) \<in> set AS \<Longrightarrow> n \<le> 2 ^ 26"
    "(pt, n) \<in> set AS \<Longrightarrow> (pt', n') \<in> set AS \<Longrightarrow> pt \<noteq> pt' \<Longrightarrow> pt_pages (mem s) pt \<inter> pt_pages (mem s) pt' = {}"
    "(pt, n) \<in> set AS \<Longrightarrow> k < n \<Longrightarrow> user_entry s AS (upte s pt k)"
    "vpage (kend s) p \<Longrightarrow> int (card (mappings s AS p)) \<le> PAGE2REF p s"
  using assms unfolding spaces_inv_def by fastforce+

lemma spaces_invI:
  assumes "kmem_ok s" "distinct (map fst AS)" "\<And>pt n. (pt, n) \<in> set AS \<Longrightarrow> pt_ok s pt \<and> n \<le> 2 ^ 26"
    "\<And>pt n pt' n'. (pt, n) \<in> set AS \<Longrightarrow> (pt', n') \<in> set AS \<Longrightarrow> pt \<noteq> pt' \<Longrightarrow>
       pt_pages (mem s) pt \<inter> pt_pages (mem s) pt' = {}"
    "\<And>pt n k. (pt, n) \<in> set AS \<Longrightarrow> k < n \<Longrightarrow> user_entry s AS (upte s pt k)"
    "\<And>p. vpage (kend s) p \<Longrightarrow> int (card (mappings s AS p)) \<le> PAGE2REF p s"
  shows "spaces_inv s AS"
  unfolding spaces_inv_def using assms by (metis prod.collapse)

lemma user_entryD:
  assumes "user_entry s AS (upte s pt k)"
  shows "leaf_ok (upte s pt k)" "vpage (kend s) (upa s pt k)" "(pt', n') \<in> set AS \<Longrightarrow> upa s pt k \<notin> pt_pages (mem s) pt'"
    "pte_has (upte s pt k) PTE_W \<Longrightarrow> PAGE2REF (upa s pt k) s = 1"
  using assms unfolding user_entry_def upa_def by fastforce+

lemma user_entryI:
  assumes "leaf_ok e" "vpage (kend s) (PTE2PA e)" "\<And>pt n. (pt, n) \<in> set AS \<Longrightarrow> PTE2PA e \<notin> pt_pages (mem s) pt"
    "pte_has e PTE_W \<Longrightarrow> PAGE2REF (PTE2PA e) s = 1"
  shows "user_entry s AS e"
  unfolding user_entry_def using assms by (metis prod.collapse)

lemma mappingsI: "(pt, n) \<in> set AS \<Longrightarrow> k < n \<Longrightarrow> upa s pt k = p \<Longrightarrow> (pt, k) \<in> mappings s AS p"
  unfolding mappings_def by (rule UN_I) auto

lemma mappings_iff: "(x, j) \<in> mappings s AS p \<longleftrightarrow> (\<exists>m. (x, m) \<in> set AS \<and> j < m \<and> upa s x j = p)"
  by (force simp: mappings_def)

lemma spaces_ref:
  assumes "spaces_inv s AS" "(pt, n) \<in> set AS" "k < n"
  shows "PAGE2REF (upa s pt k) s \<ge> 1"
proof -
  have "(pt, k) \<in> mappings s AS (upa s pt k)" by (rule mappingsI [OF assms(2,3) refl])
  then have "card (mappings s AS (upa s pt k)) \<ge> 1" by (metis One_nat_def Suc_leI card_gt_0_iff empty_iff finite_mappings)
  then show ?thesis using spaces_invD(7) [OF assms(1) user_entryD(2) [OF spaces_invD(6) [OF assms]]] by linarith
qed

lemma spaces_single:
  assumes "spaces_inv s AS" "(pt, n) \<in> set AS" "k < n" "(pt', n') \<in> set AS" "k' < n'" "upa s pt k = upa s pt' k'"
    "PAGE2REF (upa s pt k) s = 1"
  shows "pt' = pt \<and> k' = k"
proof -
  have m: "(pt, k) \<in> mappings s AS (upa s pt k)" "(pt', k') \<in> mappings s AS (upa s pt k)"
    using mappingsI [OF assms(2,3) refl] mappingsI [OF assms(4,5) assms(6) [symmetric]] by simp_all
  have "card (mappings s AS (upa s pt k)) \<le> 1"
    using spaces_invD(7) [OF assms(1) user_entryD(2) [OF spaces_invD(6) [OF assms(1-3)]]] assms(7) by simp
  then show ?thesis using m by (auto simp: card_le_Suc0_iff_eq)
qed

lemma lookup_upte:
  assumes "pgno va < n" "n \<le> 2 ^ 26"
  shows "va < MAXVA" "lookup (mem s) pt va = upte s pt (pgno va)" "PGROUNDDOWN va = uva (pgno va)"
proof -
  have u: "unat va < 2 ^ 38" using assms by (simp add: pgno_def)
  then show "va < MAXVA" by (simp add: word_less_nat_alt)
  show p: "PGROUNDDOWN va = uva (pgno va)"
    using assms by (subst uva_page) (auto simp: pgno_def)
  show "lookup (mem s) pt va = upte s pt (pgno va)"
    unfolding upte_def p [symmetric] by simp
qed

lemma mappings_cong:
  assumes "\<And>pt n k. (pt, n) \<in> set AS \<Longrightarrow> k < n \<Longrightarrow> upa s' pt k = upa s pt k"
  shows "mappings s' AS p = mappings s AS p"
  using assms unfolding mappings_def by (intro SUP_cong refl) auto

text \<open>Changing user pages and other memory outside the tables and the free list keeps the invariant.\<close>

lemma spaces_inv_mem:
  assumes "spaces_inv s AS" "same_off P (mem s) m" "\<And>p. p \<in> P \<Longrightarrow> \<not> free_page s p"
    "\<And>p pt n. p \<in> P \<Longrightarrow> (pt, n) \<in> set AS \<Longrightarrow> p \<notin> pt_pages (mem s) pt"
  shows "spaces_inv (s\<lparr>mem := m\<rparr>) AS" "(pt, n) \<in> set AS \<Longrightarrow> upte (s\<lparr>mem := m\<rparr>) pt k = upte s pt k"
proof -
  let ?s = "s\<lparr>mem := m\<rparr>"
  note a = spaces_invD [OF assms(1)]
  have f: "pt_ok ?s pt" "pt_pages m pt = pt_pages (mem s) pt" "upte ?s pt k = upte s pt k" if "(pt, n) \<in> set AS" for pt n k
  proof -
    have d: "P \<inter> pt_pages (mem s) pt = {}" using assms(4) that by blast
    have q: "same_off P (mem s) (mem ?s)" using assms(2) by simp
    have r: "kend ?s = kend s" "PAGE2REF a ?s = PAGE2REF a s" for a by simp_all
    show "pt_ok ?s pt" "pt_pages m pt = pt_pages (mem s) pt" "upte ?s pt k = upte s pt k"
      using pt_ok_frame [OF a(3) [OF that] q d r] by simp_all
  qed
  show "upte ?s pt k = upte s pt k" if "(pt, n) \<in> set AS" by (rule f(3) [OF that])
  have "kmem_ok ?s"
    using a(1) kmem_inv_mem [OF _ assms(2,3)] unlocked_held [of ?s s] by (auto simp: kmem_ok_def)
  moreover have "mappings ?s AS p = mappings s AS p" for p
    by (rule mappings_cong) (simp add: upa_def f(3))
  moreover have "user_entry ?s AS e = user_entry s AS e" for e
    using f(2) by (auto simp: user_entry_def)
  ultimately show "spaces_inv ?s AS"
    using a f by (intro spaces_invI) auto
qed

lemma spaces_page:
  assumes "spaces_inv s AS" "(pt, n) \<in> set AS" "pgno va < n"
  shows "PGROUNDDOWN (user_pa s pt va) = upa s pt (pgno va)" "user_pa s pt va = upa s pt (pgno va) + (va - PGROUNDDOWN va)"
proof -
  note e = user_entryD(2) [OF spaces_invD(6) [OF assms]]
  note l = lookup_upte [OF assms(3) spaces_invD(4) [OF assms(1,2)]]
  show u: "user_pa s pt va = upa s pt (pgno va) + (va - PGROUNDDOWN va)" by (simp add: user_pa_def upa_def l(2) [of s pt])
  show "PGROUNDDOWN (user_pa s pt va) = upa s pt (pgno va)"
    unfolding u by (rule PGROUNDDOWN_add [OF vpage_pgal [OF e] off_less_PGSIZE])
qed

lemma user_store_ok:
  assumes "spaces_inv s AS" "(pt, n) \<in> set AS" "pgno va < n" "pte_has (lookup (mem s) pt va) PTE_W"
  shows "spaces_inv (user_store pt va b s) AS"
    "(pt', n') \<in> set AS \<Longrightarrow> pgno vb < n' \<Longrightarrow>
     user_byte (user_store pt va b s) pt' vb = (if pt' = pt \<and> vb = va then b else user_byte s pt' vb)"
proof -
  let ?s = "user_store pt va b s" and ?p = "upa s pt (pgno va)"
  note e = user_entryD [OF spaces_invD(6) [OF assms(1-3)]]
  note l = lookup_upte [OF assms(3) spaces_invD(4) [OF assms(1,2)]]
  note u = spaces_page [OF assms(1-3)]
  have r: "PAGE2REF ?p s = 1" using e(4) assms(4) l(2) [of s pt] by simp
  have so: "same_off {?p} (mem s) ((mem s)(user_pa s pt va := b))"
    using u(1) by (auto simp: same_off_def)
  note m = spaces_inv_mem [OF assms(1) so]
  have nf: "\<not> free_page s p" if "p \<in> {?p}" for p using that r by (simp add: free_page_def)
  have nt: "p \<notin> pt_pages (mem s) x" if "p \<in> {?p}" "(x, y) \<in> set AS" for p x y using that e(3) by blast
  show "spaces_inv ?s AS" unfolding user_store_def by (rule m(1) [OF nf nt])
  assume v: "(pt', n') \<in> set AS" "pgno vb < n'"
  note l' = lookup_upte [OF v(2) spaces_invD(4) [OF assms(1) v(1)]]
  have t: "user_pa ?s pt' vb = user_pa s pt' vb"
    using m(2) [OF nf nt v(1)] l'(2) [of s pt'] l'(2) [of ?s pt'] by (simp add: user_pa_def user_store_def)
  have "user_pa s pt' vb = user_pa s pt va \<longleftrightarrow> pt' = pt \<and> vb = va"
  proof
    assume eq: "user_pa s pt' vb = user_pa s pt va"
    then have "?p = upa s pt' (pgno vb)" using u(1) spaces_page(1) [OF assms(1) v] by simp
    then have s: "pt' = pt \<and> pgno vb = pgno va" using spaces_single [OF assms(1-3) v _ r] by simp
    then have "vb - PGROUNDDOWN vb = va - PGROUNDDOWN va"
      using eq u(2) spaces_page(2) [OF assms(1) v] by simp
    then show "pt' = pt \<and> vb = va" using s l(3) l'(3) by simp
  qed simp
  then show "user_byte ?s pt' vb = (if pt' = pt \<and> vb = va then b else user_byte s pt' vb)"
    unfolding user_byte_def t by (simp add: user_store_def)
qed

section \<open>uvmcopy keeps the invariant\<close>

lemma spaces_copyable:
  assumes "spaces_inv s ((new, 0) # AS)" "(old, n) \<in> set AS" "\<And>j. j < n \<Longrightarrow> upte s new j = 0"
  shows "copyable old new n s"
proof -
  note a = spaces_invD [OF assms(1)]
  have i: "(old, n) \<in> set ((new, 0) # AS)" "(new, 0) \<in> set ((new, 0) # AS)" using assms(2) by auto
  have "old \<noteq> new" using a(2) assms(2) by force
  then have d: "pt_pages (mem s) old \<inter> pt_pages (mem s) new = {}" by (rule a(5) [OF i])
  have "pte_has (upte s old j) PTE_V \<and> vpage (kend s) (upa s old j) \<and> upa s old j \<notin> pt_pages (mem s) old \<and>
      upa s old j \<notin> pt_pages (mem s) new \<and> PAGE2REF (upa s old j) s \<ge> 1 \<and> upte s new j = 0" if j: "j < n" for j
  proof -
    note e = user_entryD [OF a(6) [OF i(1) j]]
    show ?thesis using e(1,2) e(3) [OF i(1)] e(3) [OF i(2)] spaces_ref [OF assms(1) i(1) j] assms(3) [OF j]
      by (simp add: leaf_ok_def)
  qed
  moreover have "0 \<le> PAGE2REF p s" if "vpage (kend s) p" for p using a(7) [OF that] by linarith
  ultimately show ?thesis unfolding copyable_def using a(1,3,4) i d by blast
qed

lemma sharing_other:
  assumes "sharing old new s s'" "pt_ok s pt" "pt_pages (mem s) old \<inter> pt_pages (mem s) pt = {}"
    "pt_pages (mem s) new \<inter> pt_pages (mem s) pt = {}" "\<And>a. a \<in> pt_pages (mem s) pt \<Longrightarrow> PAGE2REF a s' = PAGE2REF a s"
  shows "pt_ok s' pt" "pt_pages (mem s') pt = pt_pages (mem s) pt" "upte s' pt j = upte s pt j"
proof -
  note h = sharingD [OF assms(1)]
  have "(pt_pages (mem s') old \<union> pt_pages (mem s') new) \<inter> pt_pages (mem s) pt = {}"
    using h(6,8) pt_okD(4) [OF assms(2)] assms(3,4) by blast
  note f = pt_ok_frame [OF assms(2) h(9) this h(11) assms(5)]
  show "pt_ok s' pt" "pt_pages (mem s') pt = pt_pages (mem s) pt" "upte s' pt j = upte s pt j" using f by auto
qed

text \<open>
  The shared setting of the next lemmas: the parent \<open>old\<close> is one of the spaces, the child \<open>new\<close> has no user pages
  yet, and the state is \<open>copied\<close> up to \<open>k\<close>.
\<close>

definition forking :: "addr \<Rightarrow> addr \<Rightarrow> nat \<Rightarrow> (addr \<times> nat) list \<Rightarrow> 'a kmst_scheme \<Rightarrow> nat \<Rightarrow> nat \<Rightarrow> 'a kmst_scheme \<Rightarrow> bool" where
  "forking old new n AS s k' k s' \<longleftrightarrow> spaces_inv s ((new, 0) # AS) \<and> (old, n) \<in> set AS \<and>
     copyable old new n s \<and> copied old new k' k s s' \<and> k \<le> k' \<and> k' \<le> n"

lemma forkingD:
  assumes "forking old new n AS s k' k s'"
  shows "spaces_inv s ((new, 0) # AS)" "(old, n) \<in> set AS" "copyable old new n s" "copied old new k' k s s'"
    "sharing old new s s'" "k \<le> k'" "k' \<le> n"
  using assms copiedD(1) unfolding forking_def by blast+

lemma forking_ref:
  assumes "forking old new n AS s k' k s'"
  shows "(pt, m) \<in> set AS \<Longrightarrow> a \<in> pt_pages (mem s) pt \<Longrightarrow> PAGE2REF a s' = PAGE2REF a s"
    "(pt, m) \<in> set AS \<Longrightarrow> j < m \<Longrightarrow> upa s pt j \<notin> pt_pages (mem s') new"
proof -
  note f = forkingD [OF assms]
  note a = spaces_invD [OF f(1)] and h = sharingD [OF f(5)] and c = copiedD [OF f(4)]
  {
    assume pt: "(pt, m) \<in> set AS" and x: "a \<in> pt_pages (mem s) pt"
    have i: "(pt, m) \<in> set ((new, 0) # AS)" "(old, n) \<in> set ((new, 0) # AS)" using pt f(2) by auto
    note o = pt_okD [OF a(3) [OF i(1)]]
    have "pt \<noteq> new" using a(2) pt by force
    then have "a \<notin> pt_pages (mem s) new" using a(5) [OF i(1), of new 0] x by auto
    then have n: "a \<notin> pt_pages (mem s') new" using h(8) [of a] o(4) [OF x] by blast
    have "dup s old {0..<k} a = 0"
      by (rule dup_0) (use user_entryD(3) [OF a(6) [OF i(2)] i(1)] x f(6,7) in auto)
    then show "PAGE2REF a s' = PAGE2REF a s" using c(4) [OF o(2) [OF x] n] by simp
  next
    assume pt: "(pt, m) \<in> set AS" and j: "j < m"
    have i: "(pt, m) \<in> set ((new, 0) # AS)" "(new, 0) \<in> set ((new, 0) # AS)" using pt by auto
    have "\<not> free_page s (upa s pt j)" using spaces_ref [OF f(1) i(1) j] by (simp add: free_page_def)
    then show "upa s pt j \<notin> pt_pages (mem s') new"
      using h(8) [of "upa s pt j"] user_entryD(3) [OF a(6) [OF i(1) j] i(2)] by blast
  }
qed

lemma forking_other:
  assumes "forking old new n AS s k' k s'" "(pt, m) \<in> set AS"
  shows "pt_ok s' pt" "pt_pages (mem s') pt = pt_pages (mem s) pt" "pt_pages (mem s') new \<inter> pt_pages (mem s') pt = {}"
    "j < 2 ^ 26 \<Longrightarrow> upte s' pt j = (if pt = old \<and> j < k' then cow_pte (upte s pt j) else upte s pt j)"
proof -
  note f = forkingD [OF assms(1)]
  note a = spaces_invD [OF f(1)] and h = sharingD [OF f(5)] and c = copiedD [OF f(4)]
  have i: "(pt, m) \<in> set ((new, 0) # AS)" "(old, n) \<in> set ((new, 0) # AS)" "(new, 0) \<in> set ((new, 0) # AS)"
    using assms(2) f(2) by auto
  have ne: "new \<noteq> pt" using a(2) assms(2) by force
  have g: "pt_ok s' pt \<and> pt_pages (mem s') pt = pt_pages (mem s) pt \<and>
    (j < 2 ^ 26 \<longrightarrow> upte s' pt j = (if pt = old \<and> j < k' then cow_pte (upte s pt j) else upte s pt j))"
  proof (cases "pt = old")
    case True
    then show ?thesis using h(3,6) c(2) by simp
  next
    case False
    note o = sharing_other [OF f(5) a(3) [OF i(1)] a(5) [OF i(2,1)] a(5) [OF i(3,1) ne] forking_ref(1) [OF assms]]
    show ?thesis using o False by simp
  qed
  then show "pt_ok s' pt" "pt_pages (mem s') pt = pt_pages (mem s) pt"
    "j < 2 ^ 26 \<Longrightarrow> upte s' pt j = (if pt = old \<and> j < k' then cow_pte (upte s pt j) else upte s pt j)" by blast+
  have "x \<notin> pt_pages (mem s) pt" if x: "x \<in> pt_pages (mem s') new" for x
    using h(8) [OF x] pt_okD(4) [OF a(3) [OF i(1)], of x] a(5) [OF i(3,1) ne] by blast
  then show "pt_pages (mem s') new \<inter> pt_pages (mem s') pt = {}" using g by blast
qed

lemma forking_upa:
  assumes "forking old new n AS s k' k s'"
  shows "(pt, m) \<in> set AS \<Longrightarrow> j < m \<Longrightarrow> upa s' pt j = upa s pt j" "j < k \<Longrightarrow> upa s' new j = upa s old j"
proof -
  note f = forkingD [OF assms]
  note a = spaces_invD [OF f(1)] and c = copiedD [OF f(4)]
  show "upa s' pt j = upa s pt j" if "(pt, m) \<in> set AS" "j < m"
    using forking_other(4) [OF assms that(1), of j] a(4) [of pt m] that by (simp add: upa_def)
  show "upa s' new j = upa s old j" if "j < k"
    using c(3) [of j] a(4) [of old n] that f(2,6,7) by (simp add: upa_def)
qed

lemma forking_card:
  assumes "forking old new n AS s k' k s'"
  shows "card (mappings s' ((new, k) # AS) p) = card (mappings s ((new, 0) # AS) p) + dup s old {0..<k} p"
proof -
  note f = forkingD [OF assms]
  have m: "mappings s' AS p = mappings s AS p" by (rule mappings_cong) (rule forking_upa(1) [OF assms])
  have n: "{j \<in> {0..<k}. upa s' new j = p} = {j \<in> {0..<k}. upa s old j = p}" using forking_upa(2) [OF assms] by auto
  have "new \<notin> fst ` set AS" using spaces_invD(2) [OF f(1)] by simp
  then have "({new} \<times> {j \<in> {0..<k}. upa s old j = p}) \<inter> mappings s AS p = {}" by (force simp: mappings_def)
  moreover have "mappings s' ((new, k) # AS) p = ({new} \<times> {j \<in> {0..<k}. upa s old j = p}) \<union> mappings s AS p"
    unfolding m [symmetric] n [symmetric] by (simp add: mappings_def)
  moreover have "mappings s ((new, 0) # AS) p = mappings s AS p" by (simp add: mappings_def)
  ultimately show ?thesis
    by (simp add: card_Un_disjoint card_cartesian_product dup_def)
qed

lemma forking_tables:
  assumes "forking old new n AS s k' k s'" "(pt, m) \<in> set AS" "j < m" "(pt', m') \<in> set ((new, k) # AS)"
  shows "upa s pt j \<notin> pt_pages (mem s') pt'"
proof (cases "(pt', m') \<in> set AS")
  case True
  note f = forkingD [OF assms(1)]
  have i: "(pt, m) \<in> set ((new, 0) # AS)" "(pt', m') \<in> set ((new, 0) # AS)" using True assms(2) by auto
  show ?thesis
    using user_entryD(3) [OF spaces_invD(6) [OF f(1) i(1) assms(3)] i(2)] forking_other(2) [OF assms(1) True] by simp
next
  case False
  then show ?thesis using assms(4) forking_ref(2) [OF assms(1-3)] by simp
qed

lemma forking_entry:
  assumes "forking old new n AS s k' k s'" "(pt, m) \<in> set ((new, k) # AS)" "j < m"
  shows "user_entry s' ((new, k) # AS) (upte s' pt j)"
proof -
  note f = forkingD [OF assms(1)]
  note a = spaces_invD [OF f(1)] and c = copiedD [OF f(4)] and h = sharingD [OF f(5)]
  have o: "(old, n) \<in> set ((new, 0) # AS)" using f(2) by simp
  have n26: "n \<le> 2 ^ 26" by (rule a(4) [OF o])
  show ?thesis
  proof (cases "(pt, m) \<in> set AS")
    case True
    then have i: "(pt, m) \<in> set ((new, 0) # AS)" by simp
    note e = user_entryD [OF a(6) [OF i assms(3)]]
    have j: "j < 2 ^ 26" using a(4) [OF i] assms(3) by linarith
    note e' = forking_other(4) [OF assms(1) True j]
    have p: "PTE2PA (upte s' pt j) = upa s pt j" using forking_upa(1) [OF assms(1) True assms(3)] by (simp add: upa_def)
    have "leaf_ok (upte s' pt j)" using e' e(1) leaf_ok_cow(1) [of "upte s pt j"] by (auto simp: leaf_ok_def)
    moreover have "PAGE2REF (upa s pt j) s' = 1" if w: "pte_has (upte s' pt j) PTE_W"
    proof -
      have nc: "\<not> (pt = old \<and> j < k')" using w e' by (auto simp: pte_bits)
      then have r: "PAGE2REF (upa s pt j) s = 1" using w e' e(4) by auto
      have "dup s old {0..<k} (upa s pt j) = 0"
      proof (rule dup_0)
        fix i assume "i \<in> {0..<k}"
        then have ik: "i < n" "i < k'" using f(6,7) by auto
        show "upa s old i \<noteq> upa s pt j" using spaces_single [OF f(1) i assms(3) o ik(1) _ r] nc ik(2) by auto
      qed
      then show ?thesis using c(4) [OF e(2) forking_ref(2) [OF assms(1) True assms(3)]] r by simp
    qed
    ultimately show ?thesis
      by (intro user_entryI) (use p e(2) h(11) forking_tables [OF assms(1) True assms(3)] in auto)
  next
    case False
    then have k: "pt = new" "j < k" "j < n" using assms(2,3) f(6,7) by auto
    note e = user_entryD [OF a(6) [OF o k(3)]]
    have e': "upte s' new j = child_pte (upte s old j)" using c(3) [of j] k n26 by simp
    have p: "PTE2PA (upte s' new j) = upa s old j" using e' by (simp add: upa_def)
    show ?thesis
      unfolding k(1)
      by (rule user_entryI)
        (use p e' e(1,2) h(11) leaf_ok_cow(2) [of "upte s old j"] forking_tables [OF assms(1) f(2) k(3)] in
          \<open>auto simp: leaf_ok_def pte_bits\<close>)
  qed
qed

lemma forking_spaces:
  assumes "forking old new n AS s k' k s'"
  shows "spaces_inv s' ((new, k) # AS)"
proof -
  note f = forkingD [OF assms]
  note a = spaces_invD [OF f(1)] and c = copiedD [OF f(4)] and h = sharingD [OF f(5)]
  have n26: "n \<le> 2 ^ 26" using a(4) [of old n] f(2) by simp
  show ?thesis
  proof (rule spaces_invI)
    show "distinct (map fst ((new, k) # AS))" using a(2) by simp
  next
    fix pt m assume i: "(pt, m) \<in> set ((new, k) # AS)"
    then show "pt_ok s' pt \<and> m \<le> 2 ^ 26"
      using forking_other(1) [OF assms] h(4) a(4) [of pt m] n26 f(6,7) by auto
  next
    fix pt m pt' m' assume i: "(pt, m) \<in> set ((new, k) # AS)" "(pt', m') \<in> set ((new, k) # AS)" "pt \<noteq> pt'"
    show "pt_pages (mem s') pt \<inter> pt_pages (mem s') pt' = {}"
    proof (cases "pt = new \<or> pt' = new")
      case True
      then show ?thesis using i forking_other(3) [OF assms] by (auto simp: Int_commute)
    next
      case False
      then have "(pt, m) \<in> set AS" "(pt', m') \<in> set AS" using i by auto
      then show ?thesis using forking_other(2) [OF assms] a(5) [of pt m pt' m'] i(3) by simp
    qed
  next
    fix p assume "vpage (kend s') p"
    then have p: "vpage (kend s) p" using h(11) by simp
    show "int (card (mappings s' ((new, k) # AS) p)) \<le> PAGE2REF p s'"
    proof (cases "p \<in> pt_pages (mem s') new")
      case True
      then have "mappings s' ((new, k) # AS) p = {}"
        using forking_ref(2) [OF assms] forking_ref(2) [OF assms f(2)] forking_upa [OF assms] f(6,7)
        by (fastforce simp: mappings_def)
      then show ?thesis using pt_okD(3) [OF h(4) True] by simp
    next
      case False
      then show ?thesis using c(4) [OF p False] a(7) [OF p] forking_card [OF assms, of p] by simp
    qed
  qed (use h(2) forking_entry [OF assms] in auto)
qed

text \<open>No process sees the copy: the bytes of every space stay, and the child's are the parent's.\<close>

lemma forking_bytes:
  assumes "forking old new n AS s k' k s'"
  shows "(pt, m) \<in> set AS \<Longrightarrow> pgno va < m \<Longrightarrow> user_byte s' pt va = user_byte s pt va"
    "pgno va < k \<Longrightarrow> user_byte s' new va = user_byte s old va"
proof -
  note f = forkingD [OF assms]
  note a = spaces_invD [OF f(1)] and h = sharingD [OF f(5)]
  have m: "mem s' (user_pa s pt va) = mem s (user_pa s pt va)" if v: "(pt, m) \<in> set AS" "pgno va < m" for pt m
  proof -
    have i: "(pt, m) \<in> set ((new, 0) # AS)" using v by simp
    have "PGROUNDDOWN (user_pa s pt va) \<notin> pt_pages (mem s') old \<union> pt_pages (mem s') new"
      using forking_tables [OF assms v, of old n] forking_tables [OF assms v, of new k] f(2)
        spaces_page(1) [OF f(1) i v(2)] by simp
    then show ?thesis using h(9) by (simp add: same_off_def)
  qed
  note sp = forking_spaces [OF assms]
  show "user_byte s' pt va = user_byte s pt va" if v: "(pt, m) \<in> set AS" "pgno va < m"
    using m [OF v] spaces_page(2) [OF f(1) _ v(2), of pt] spaces_page(2) [OF sp _ v(2), of pt] v(1) forking_upa(1) [OF assms v]
    by (simp add: user_byte_def)
  show "user_byte s' new va = user_byte s old va" if v: "pgno va < k"
  proof -
    have n: "pgno va < n" using v f(6,7) by simp
    show ?thesis
      using m [OF f(2) n] spaces_page(2) [OF f(1) _ n, of old] spaces_page(2) [OF sp _ v, of new] f(2) forking_upa(2) [OF assms v]
      by (simp add: user_byte_def)
  qed
qed

section \<open>copy_on_write\<close>

text \<open>A process' entry after \<open>copy_on_write\<close>: the page of the state \<open>s\<close>, or a copy of it.\<close>

lemma st64_twice: "st64 (st64 m a v) a w = st64 m a w"
  by (simp add: st64_def fun_eq_iff)

lemma copy_on_write_own:
  assumes "kmem_ok s" "pt = p_pagetable (procs s (cur s))" "pt_ok s pt" "va < MAXVA"
    "node (mem s) pt (vpath va) = Some t" "PAGE2REF (PTE2PA (lookup (mem s) pt va)) s \<le> 1"
    "PTE2PA (lookup (mem s) pt va) \<noteq> 0"
  shows "copy_on_write va s = Inr (0, set_leaf t va (own_pte (lookup (mem s) pt va)) s)"
proof -
  have "unlocked s" using assms(1) by (simp add: kmem_ok_def)
  then have "cow_kalloc (PTE2PA (lookup (mem s) pt va)) s = Inr (PTE2PA (lookup (mem s) pt va), s)"
    by (rule cow_kalloc_own) (rule assms(6))
  then show ?thesis
    unfolding copy_on_write_def Let_def assms(2) [symmetric] walk_present [OF assms(4,5)]
    using node_lookup [OF assms(5)] assms(7) by (simp add: set_leaf_def own_pte_def)
qed

definition copy_pte :: "addr \<Rightarrow> u64 \<Rightarrow> u64" where
  "copy_pte q e = PA2PTE q OR ((PTE_FLAGS e AND NOT PTE_COW) OR PTE_W) OR PTE_V"

lemma set_leaf_twice: "set_leaf t va w (set_leaf t va v s) = set_leaf t va w s"
  by (simp add: set_leaf_def st64_twice)

lemma cowed_ok:
  assumes "kmem_inv s (q # ps)" "unlocked s" "vpage (kend s) pa" "PAGE2REF pa s > 1"
  shows "kmem_ok (cowed q pa s)" "same_off {q} (mem s) (mem (cowed q pa s))" "kend (cowed q pa s) = kend s"
    "procs (cowed q pa s) = procs s" "cur (cowed q pa s) = cur s" "free_page s q" "q \<noteq> pa" "q \<noteq> 0"
    "vpage (kend s) p \<Longrightarrow> PAGE2REF p (cowed q pa s) = (if p = q then 1 else PAGE2REF p s - (if p = pa then 1 else 0))"
    "off < PGSIZE \<Longrightarrow> mem (cowed q pa s) (q + off) = mem s (pa + off)"
    "cowed q pa s = s\<lparr>mem := mem (cowed q pa s), freelist := freelist (cowed q pa s), pageref := pageref (cowed q pa s)\<rparr>"
proof -
  note k = kmem_invD [OF assms(1)] and c = cow_kalloc_copy [OF assms(2,4,1,3)]
  have q: "free_page s q" "pgal q" "vpage (kend s) q" using k(3,4,5) by auto
  have pa: "pgal pa" using assms(3) by (rule vpage_pgal)
  show qp: "free_page s q" "q \<noteq> pa" "q \<noteq> 0" using q(1) assms(4) k(6) by (auto simp: free_page_def)
  show s: "kend (cowed q pa s) = kend s" "procs (cowed q pa s) = procs s" "cur (cowed q pa s) = cur s"
    by (simp_all add: cowed_def)
  show "kmem_ok (cowed q pa s)"
    using c(2) assms(2) unlocked_held [of "cowed q pa s" s] by (auto simp: kmem_ok_def cowed_def)
  show "PAGE2REF p (cowed q pa s) = (if p = q then 1 else PAGE2REF p s - (if p = pa then 1 else 0))" if "vpage (kend s) p"
    using PAGE2REF_alloced [OF q(2) vpage_pgal [OF that], of s] qp(2) PAGE2REF_alloced [OF q(2) pa, of s]
    by (simp add: cowed_def PAGE2REF_set [OF pa vpage_pgal [OF that]])
  have mv: "mem (cowed q pa s) x = (if PGROUNDDOWN x = q then mem (alloced q s) (pa + (x - q)) else mem (alloced q s) x)" for x
    using memmove_page [OF q(2) pa, of "mem (alloced q s)" x] q(3) assms(3) by (simp add: cowed_def vpage_def)
  show "same_off {q} (mem s) (mem (cowed q pa s))"
    unfolding same_off_def mv using same_off_memset [OF q(2), of "mem s" 5] by (simp add: same_off_def)
  show "mem (cowed q pa s) (q + off) = mem s (pa + off)" if "off < PGSIZE"
    unfolding mv using PGROUNDDOWN_add [OF q(2) that] PGROUNDDOWN_add [OF pa that] qp(2) memset_page [OF q(2), of 5 "mem s" "pa + off"] by simp
  show "cowed q pa s = s\<lparr>mem := mem (cowed q pa s), freelist := freelist (cowed q pa s), pageref := pageref (cowed q pa s)\<rparr>"
    by (simp add: cowed_def alloced_def set_ref_def)
qed

lemma copy_on_write_copy:
  assumes i: "kmem_inv s (q # ps)" "unlocked s" and pt: "pt = p_pagetable (procs s (cur s))" "pt_ok s pt" and va: "va < MAXVA"
    and e: "node (mem s) pt (vpath va) = Some t" "e = lookup (mem s) pt va" "leaf_ok e"
    and pa: "vpage (kend s) (PTE2PA e)" "PAGE2REF (PTE2PA e) s > 1" "PTE2PA e \<notin> pt_pages (mem s) pt"
  shows "copy_on_write va s = Inr (0, set_leaf t va (copy_pte q e) (cowed q (PTE2PA e) s))"
    "pt_ok (cowed q (PTE2PA e) s) pt" "node (mem (cowed q (PTE2PA e) s)) pt (vpath va) = Some t"
proof -
  let ?pa = "PTE2PA e" let ?s = "cowed q (PTE2PA e) s"
  note c = cowed_ok [OF i pa(1,2)] and o = pt_okD [OF pt(2)]
  have d: "{q} \<inter> pt_pages (mem s) pt = {}" using c(6) o(4) by blast
  have r: "PAGE2REF a ?s = PAGE2REF a s" if "a \<in> pt_pages (mem s) pt" for a
    using c(9) [OF o(2) [OF that]] d that pa(3) by auto
  note f = pt_ok_frame [OF pt(2) c(2) d c(3) r]
  show ok: "pt_ok ?s pt" using f(1) by blast
  show n: "node (mem ?s) pt (vpath va) = Some t"
    using node_frame [OF o(1) c(2) d, of "vpath va"] e(1) by simp
  have l: "lookup (mem ?s) pt va = e" using lookup_frame [OF o(1) c(2) d] e(2) by simp
  have va0: "pgal (PGROUNDDOWN va)" "PGROUNDDOWN va < MAXVA" using va by (auto intro: le_less_trans [OF PGROUNDDOWN_le])
  have n0: "node (mem ?s) pt (vpath (PGROUNDDOWN va)) = Some t" using n by simp
  have u: "uvmunmap pt (PGROUNDDOWN va) 1 False ?s = Inr (set_leaf t va 0 ?s)"
    using uvmunmap_page [OF ok va0 n0] l e(3) by (simp add: set_leaf_def)
  note z = set_leaf_ok [OF c(1) ok n]
  have n1: "node (mem (set_leaf t va 0 ?s)) pt (vpath (PGROUNDDOWN va)) = Some t"
    using z(5) [of 0 "vpath va"] n by simp
  have l1: "lookup (mem (set_leaf t va 0 ?s)) pt (PGROUNDDOWN va) = 0"
    using set_leaf_lookup [OF ok n va va] by simp
  have m: "mappages pt (PGROUNDDOWN va) PGSIZE q ((PTE_FLAGS e AND NOT PTE_COW) OR PTE_W) (set_leaf t va 0 ?s) =
      Inr (0, set_leaf t va (copy_pte q e) (set_leaf t va 0 ?s))"
    using mappages_present [OF _ va0 n1, of q] pt_growD(3) [OF z(1)] l1 by (simp add: set_leaf_def copy_pte_def)
  have ld: "ld64 (mem s) (pte_at t (PX 0 va)) = e" "ld64 (mem ?s) (pte_at t (PX 0 va)) = e"
    using node_lookup [OF e(1)] node_lookup [OF n] e(2) l by simp_all
  show "copy_on_write va s = Inr (0, set_leaf t va (copy_pte q e) ?s)"
    unfolding copy_on_write_def Let_def pt(1) [symmetric] walk_present [OF va e(1)]
    using ld c(7,8) cow_kalloc_copy(1) [OF i(2) pa(2) i(1) pa(1)] u m by (simp add: set_leaf_twice)
qed

text \<open>Replacing one entry by an entry for a page of its own.\<close>

lemma spaces_replace:
  assumes inv: "spaces_inv s AS" and pt: "(pt, n) \<in> set AS" "k < n" and ok: "kmem_ok s'" "kend s' = kend s"
    and tab: "\<And>x m. (x, m) \<in> set AS \<Longrightarrow> pt_ok s' x \<and> pt_pages (mem s') x = pt_pages (mem s) x"
    and ent: "\<And>x m j. (x, m) \<in> set AS \<Longrightarrow> j < m \<Longrightarrow> upte s' x j = (if x = pt \<and> j = k then e else upte s x j)"
    and e: "leaf_ok e" "vpage (kend s) (PTE2PA e)" "\<And>x m. (x, m) \<in> set AS \<Longrightarrow> PTE2PA e \<notin> pt_pages (mem s) x"
    and ref: "PAGE2REF (PTE2PA e) s' = 1" "mappings s AS (PTE2PA e) \<subseteq> {(pt, k)}"
      "\<And>p. vpage (kend s) p \<Longrightarrow> p \<noteq> PTE2PA e \<Longrightarrow> PAGE2REF p s' = PAGE2REF p s - (if p = upa s pt k then 1 else 0)"
  shows "spaces_inv s' AS"
proof -
  note a = spaces_invD [OF inv]
  have m: "mappings s' AS p = (if p = PTE2PA e then {(pt, k)} else mappings s AS p - {(pt, k)})" for p
  proof (rule set_eqI)
    fix z :: "addr \<times> nat"
    obtain x j where z: "z = (x, j)" by (cases z)
    have u: "upa s' x j = (if x = pt \<and> j = k then PTE2PA e else upa s x j)" if "(x, m) \<in> set AS" "j < m" for m
      using ent [OF that] by (simp add: upa_def)
    show "z \<in> mappings s' AS p \<longleftrightarrow> z \<in> (if p = PTE2PA e then {(pt, k)} else mappings s AS p - {(pt, k)})"
    proof (cases "x = pt \<and> j = k")
      case True
      then show ?thesis using u pt by (auto simp: z mappings_iff)
    next
      case False
      then have "z \<in> mappings s' AS p \<longleftrightarrow> z \<in> mappings s AS p" using u unfolding z mappings_iff by auto
      then show ?thesis using False ref(2) by (auto simp: z)
    qed
  qed
  show ?thesis
  proof (rule spaces_invI)
    fix x m j assume x: "(x, m) \<in> set AS" "j < m"
    show "user_entry s' AS (upte s' x j)"
    proof (cases "x = pt \<and> j = k")
      case True
      then show ?thesis using ent [OF x] e ref(1) ok(2) tab by (intro user_entryI) auto
    next
      case False
      note u = user_entryD [OF a(6) [OF x]]
      have "PAGE2REF (upa s x j) s' = 1" if w: "PAGE2REF (upa s x j) s = 1"
      proof -
        have "upa s x j \<noteq> PTE2PA e" using mappingsI [OF x] ref(2) False by blast
        moreover have "upa s x j \<noteq> upa s pt k" using spaces_single [OF inv x pt _ w] False by metis
        ultimately show ?thesis using ref(3) [OF u(2)] w by simp
      qed
      moreover have "upte s' x j = upte s x j" using ent [OF x] False by auto
      ultimately show ?thesis using u ok(2) tab by (intro user_entryI) (auto simp: upa_def)
    qed
  next
    fix p assume p: "vpage (kend s') p"
    show "int (card (mappings s' AS p)) \<le> PAGE2REF p s'"
    proof (cases "p = PTE2PA e")
      case True
      then show ?thesis using m ref(1) by simp
    next
      case False
      have "int (card (mappings s AS p - {(pt, k)})) \<le> PAGE2REF p s - (if p = upa s pt k then 1 else 0)"
      proof (cases "p = upa s pt k")
        case True
        then have "(pt, k) \<in> mappings s AS p" using mappingsI [OF pt] by simp
        then have "Suc (card (mappings s AS p - {(pt, k)})) = card (mappings s AS p)" by (rule card_Suc_Diff1 [OF finite_mappings])
        then show ?thesis using a(7) [of p] p ok(2) True by simp
      next
        case F: False
        have "card (mappings s AS p - {(pt, k)}) \<le> card (mappings s AS p)" by (rule card_mono) auto
        then show ?thesis using a(7) [of p] p ok(2) F by simp
      qed
      then show ?thesis using m False ref(3) [of p] p ok(2) by simp
    qed
  qed (use ok(1) a(2,4,5) tab in auto)
qed

text \<open>\<open>PTE2PA\<close> and flags of a copied entry.\<close>

lemma copy_pte_props:
  assumes "vpage (kend s) q"
  shows "PTE2PA (copy_pte q e) = q" "leaf_ok (copy_pte q e)" "pte_has (copy_pte q e) PTE_W"
proof -
  have b: "bit (copy_pte q e) 0" "bit (copy_pte q e) 2" by (simp_all add: copy_pte_def bit_or_iff bit_consts)
  show "pte_has (copy_pte q e) PTE_W" "leaf_ok (copy_pte q e)"
    using b leaf_ok_bit [of "copy_pte q e" 2] by (simp_all add: pte_has_bits)
  have "unat (((PTE_FLAGS e AND NOT PTE_COW) OR PTE_W) OR PTE_V) < 2 ^ 10"
    unfolding less_exp_bits bit_or_iff bit_and_iff bit_PTE_FLAGS bit_consts by auto
  then show "PTE2PA (copy_pte q e) = q"
    using PTE2PA_PA2PTE [OF vpage_pgal [OF assms] vpage_small [OF assms]] by (simp add: copy_pte_def or.assoc)
qed

lemma spaces_table_write:
  assumes "spaces_inv s AS" "(pt, n) \<in> set AS" "(x, m) \<in> set AS" "pt_ok s1 pt" "pt_pages (mem s1) pt = pt_pages (mem s) pt"
    "kmem_ok s1" "node (mem s1) pt (vpath va) = Some t" "va < MAXVA" "PGROUNDDOWN va = uva k" "k < n"
    and o: "pt_ok s1 x" "pt_pages (mem s1) x = pt_pages (mem s) x"
  shows "pt_ok (set_leaf t va v s1) x \<and> pt_pages (mem (set_leaf t va v s1)) x = pt_pages (mem s) x"
    "j < m \<Longrightarrow> upte (set_leaf t va v s1) x j = (if x = pt \<and> j = k then v else upte s1 x j)"
proof -
  note z = set_leaf_ok [OF assms(6,4,7)] and a = spaces_invD [OF assms(1)]
  have n26: "k < 2 ^ 26" using a(4) [OF assms(2)] assms(10) by linarith
  {
    assume ne: "x \<noteq> pt"
    then have d: "pt_pages (mem s1) pt \<inter> pt_pages (mem s1) x = {}" using a(5) [OF assms(2,3)] assms(5) o(2) by simp
    note g = pt_grow_other [OF z(1) o(1) d]
    have "pt_ok (set_leaf t va v s1) x \<and> pt_pages (mem (set_leaf t va v s1)) x = pt_pages (mem s) x \<and>
      upte (set_leaf t va v s1) x j = upte s1 x j"
      using g(1-3) o(2) by (simp add: upte_def)
  } note other = this
  show "pt_ok (set_leaf t va v s1) x \<and> pt_pages (mem (set_leaf t va v s1)) x = pt_pages (mem s) x"
    using other pt_growD(3) [OF z(1)] z(2) assms(5) by (cases "x = pt") auto
  show "upte (set_leaf t va v s1) x j = (if x = pt \<and> j = k then v else upte s1 x j)" if j: "j < m"
  proof (cases "x = pt")
    case True
    have j26: "j < 2 ^ 26" using a(4) [OF assms(3)] j by linarith
    show ?thesis
      using set_leaf_lookup [OF assms(4,7,8) uva_less [OF j26], of v] True assms(9) j26 n26
      by (simp add: upte_def PGROUNDDOWN_id pgal_uva uva_inj)
  qed (use other in auto)
qed

lemma cow_bytes:
  assumes "spaces_inv s AS" "spaces_inv s' AS" "(pt, n) \<in> set AS" "pgno va < n"
    "\<And>off. off < PGSIZE \<Longrightarrow> mem s' (upa s' pt (pgno va) + off) = mem s (upa s pt (pgno va) + off)"
  shows "user_byte s' pt va = user_byte s pt va"
  unfolding user_byte_def spaces_page(2) [OF assms(1,3,4)] spaces_page(2) [OF assms(2,3,4)]
  by (rule assms(5)) (simp add: off_less_PGSIZE)

text \<open>What \<open>copy_on_write\<close> does to the entries of the process when it succeeds.\<close>

definition made_own :: "addr \<Rightarrow> nat \<Rightarrow> u64 \<Rightarrow> 'a kmst_scheme \<Rightarrow> 'a kmst_scheme \<Rightarrow> bool" where
  "made_own pt n va s s' \<longleftrightarrow> pte_has (lookup (mem s') pt va) PTE_W \<and>
     (pte_has (lookup (mem s') pt va) PTE_U \<longleftrightarrow> pte_has (lookup (mem s) pt va) PTE_U) \<and>
     (\<forall>j<n. j \<noteq> pgno va \<longrightarrow> upte s' pt j = upte s pt j) \<and>
     card {p. free_page s p} \<le> Suc (card {p. free_page s' p}) \<and>
     s' = s\<lparr>mem := mem s', freelist := freelist s', pageref := pageref s'\<rparr>"

lemma copy_pte_U: "pte_has (copy_pte q e) PTE_U \<longleftrightarrow> pte_has e PTE_U"
  unfolding copy_pte_def pte_has_bits bit_or_iff bit_and_iff bit_not_iff bit_PTE_FLAGS bit_consts bit_PA2PTE by simp

lemma copy_on_write_ok:
  assumes inv: "spaces_inv s AS" and pt: "pt = p_pagetable (procs s (cur s))" "(pt, n) \<in> set AS" "pgno va < n"
  shows "\<exists>r s'. copy_on_write va s = Inr (r, s') \<and> spaces_inv s' AS \<and>
    (\<forall>(x, m)\<in>set AS. \<forall>vb. pgno vb < m \<longrightarrow> user_byte s' x vb = user_byte s x vb) \<and>
    (r = 0 \<and> made_own pt n va s s' \<or>
     r = - 1 \<and> s' = s \<and> PAGE2REF (PTE2PA (lookup (mem s) pt va)) s > 1 \<and> (\<forall>p. \<not> free_page s p))"
proof -
  let ?e = "lookup (mem s) pt va" and ?k = "pgno va"
  note a = spaces_invD [OF inv] and l = lookup_upte [OF pt(3) a(4) [OF pt(2)]]
  note u = user_entryD [OF a(6) [OF pt(2,3)]] and ok = a(3) [OF pt(2)]
  have e: "?e = upte s pt ?k" "PTE2PA ?e = upa s pt ?k" using l(2) [of s pt] by (simp_all add: upa_def)
  have "pte_has ?e PTE_V" using u(1) e by (simp add: leaf_ok_def)
  then obtain t where t: "node (mem s) pt (vpath va) = Some t" by (rule lookup_node)
  obtain ps where ul: "unlocked s" and i: "kmem_inv s ps" using a(1) by (auto simp: kmem_ok_def)
  have r1: "PAGE2REF (upa s pt ?k) s \<ge> 1" by (rule spaces_ref [OF inv pt(2,3)])
  have fin: ?thesis if c: "copy_on_write va s = Inr (0, set_leaf t va v s1)" and v: "leaf_ok v" "pte_has v PTE_W" "PTE2PA v = q"
    and s1: "kmem_ok s1" "kend s1 = kend s" "node (mem s1) pt (vpath va) = Some t"
      "\<And>x m. (x, m) \<in> set AS \<Longrightarrow> pt_ok s1 x \<and> pt_pages (mem s1) x = pt_pages (mem s) x \<and> (\<forall>j. upte s1 x j = upte s x j)"
    and q: "vpage (kend s) q" "\<And>x m. (x, m) \<in> set AS \<Longrightarrow> q \<notin> pt_pages (mem s) x" "PAGE2REF q s1 = 1"
      "mappings s AS q \<subseteq> {(pt, ?k)}" "\<And>p. vpage (kend s) p \<Longrightarrow> p \<noteq> q \<Longrightarrow> PAGE2REF p s1 = PAGE2REF p s - (if p = upa s pt ?k then 1 else 0)"
    and b: "\<And>off. off < PGSIZE \<Longrightarrow> mem s1 (q + off) = mem s (upa s pt ?k + off)" "same_off {x. x = q \<and> free_page s x} (mem s) (mem s1)"
    and m: "pte_has v PTE_U \<longleftrightarrow> pte_has ?e PTE_U" "{p. free_page s p} \<subseteq> insert q {p. free_page s1 p}"
      "s1 = s\<lparr>mem := mem s1, freelist := freelist s1, pageref := pageref s1\<rparr>"
    for v q s1
  proof -
    let ?s = "set_leaf t va v s1"
    have o: "pt_ok s1 pt" "pt_pages (mem s1) pt = pt_pages (mem s) pt" using s1(4) [OF pt(2)] by auto
    have w: "pt_ok ?s x \<and> pt_pages (mem ?s) x = pt_pages (mem s) x"
      "j < m \<Longrightarrow> upte ?s x j = (if x = pt \<and> j = ?k then v else upte s x j)" if x: "(x, m) \<in> set AS" for x m j
      using spaces_table_write [OF inv pt(2) x o s1(1,3) l(1,3) pt(3)] s1(4) [OF x] by auto
    have km: "kmem_ok ?s" by (rule pt_growD(2) [OF set_leaf_ok(1) [OF s1(1) o(1) s1(3)]])
    have sp: "spaces_inv ?s AS"
      by (rule spaces_replace [OF inv pt(2,3) km _ w]) (use v q s1(2) in auto)
    have tp: "t \<in> pt_pages (mem s) pt" using pt_ok_slot(2) [OF ok t] .
    have so: "same_off {t} (mem s1) (mem ?s)" by (rule set_leaf_ok(3) [OF s1(1) o(1) s1(3)])
    have "user_byte ?s x vb = user_byte s x vb" if x: "(x, m) \<in> set AS" "pgno vb < m" for x m vb
    proof (rule cow_bytes [OF inv sp x])
      fix off :: u64 assume off: "off < PGSIZE"
      note ux = user_entryD [OF a(6) [OF x]]
      show "mem ?s (upa ?s x (pgno vb) + off) = mem s (upa s x (pgno vb) + off)"
      proof (cases "x = pt \<and> pgno vb = ?k")
        case True
        then have "upa ?s x (pgno vb) = q" using w(2) [OF x] v(3) by (simp add: upa_def)
        moreover have "PGROUNDDOWN (q + off) = q" "q \<noteq> t"
          using PGROUNDDOWN_add [OF vpage_pgal [OF q(1)]] off q(2) [OF pt(2)] tp by auto
        ultimately show ?thesis using so b(1) [OF off] True by (simp add: same_off_def)
      next
        case False
        then have p: "upa ?s x (pgno vb) = upa s x (pgno vb)" using w(2) [OF x] by (auto simp: upa_def)
        have g: "PGROUNDDOWN (upa s x (pgno vb) + off) = upa s x (pgno vb)"
          using PGROUNDDOWN_add [OF vpage_pgal [OF ux(2)]] off by simp
        have "upa s x (pgno vb) \<noteq> t" "\<not> free_page s (upa s x (pgno vb))"
          using ux(3) [OF pt(2)] tp spaces_ref [OF inv x] by (auto simp: free_page_def)
        then show ?thesis
          unfolding p using same_offD [OF so, of "upa s x (pgno vb) + off"] same_offD [OF b(2), of "upa s x (pgno vb) + off"] g by auto
      qed
    qed
    moreover have "made_own pt n va s ?s"
      unfolding made_own_def
    proof (intro conjI allI impI)
      show "pte_has (lookup (mem ?s) pt va) PTE_W" "pte_has (lookup (mem ?s) pt va) PTE_U \<longleftrightarrow> pte_has ?e PTE_U"
        using set_leaf_lookup [OF o(1) s1(3) l(1) l(1)] v(2) m(1) by simp_all
      show "upte ?s pt j = upte s pt j" if "j < n" "j \<noteq> ?k" for j using w(2) [OF pt(2) that(1)] that(2) by simp
      have "free_page ?s p = free_page s1 p" for p by (simp add: set_leaf_def)
      then show "card {p. free_page s p} \<le> Suc (card {p. free_page ?s p})"
        using card_mono [OF _ m(2)] card_insert_le_m1 [of "Suc (card {p. free_page s1 p})" "{p. free_page s1 p}" q] by auto
      show "?s = s\<lparr>mem := mem ?s, freelist := freelist ?s, pageref := pageref ?s\<rparr>"
        by (rule kframe_trans [OF m(3)]) (simp add: set_leaf_def)
    qed
    ultimately show ?thesis using c sp by auto
  qed
  show ?thesis
  proof (cases "PAGE2REF (upa s pt ?k) s \<le> 1")
    case True
    then have r: "PAGE2REF (upa s pt ?k) s = 1" using r1 by simp
    have nz: "upa s pt ?k \<noteq> 0" by (rule vpage_nonzero [OF kmem_invD(7) [OF i] u(2)])
    have c: "copy_on_write va s = Inr (0, set_leaf t va (own_pte ?e) s)"
      by (rule copy_on_write_own [OF a(1) pt(1) ok l(1) t]) (use True nz e in auto)
    have "mappings s AS (upa s pt ?k) \<subseteq> {(pt, ?k)}"
      using spaces_single [OF inv pt(2,3) _ _ _ r] by (fastforce simp: mappings_iff)
    then show ?thesis
      by (intro fin [OF c _ _ _ a(1) refl t, where q = "upa s pt ?k"])
        (use leaf_ok_cow(3) [of ?e] u r e a(3) in \<open>auto simp: leaf_ok_def pte_bits\<close>)
  next
    case False
    then have r: "PAGE2REF (PTE2PA ?e) s > 1" using e(2) by simp
    show ?thesis
    proof (cases ps)
      case Nil
      have "cow_kalloc (PTE2PA ?e) s = Inr (0, s)" by (rule cow_kalloc_none [OF ul r]) (use i Nil in simp)
      then have "copy_on_write va s = Inr (- 1, s)"
        unfolding copy_on_write_def Let_def pt(1) [symmetric] walk_present [OF l(1) t] using node_lookup [OF t] by simp
      then show ?thesis using inv r kmem_invD(3) [OF i] Nil by auto
    next
      case (Cons q qs)
      have i': "kmem_inv s (q # qs)" using i Cons by simp
      have pa: "vpage (kend s) (PTE2PA ?e)" "PTE2PA ?e \<notin> pt_pages (mem s) pt" using u(2) u(3) [OF pt(2)] e by simp_all
      note c = copy_on_write_copy [OF i' ul pt(1) ok l(1) t refl _ pa(1) r pa(2)]
      have le: "leaf_ok ?e" using u(1) e by simp
      note k = cowed_ok [OF i' ul pa(1) r]
      have q: "vpage (kend s) q" "PAGE2REF q s \<le> 0" using k(6) by (auto simp: free_page_def)
      have "card (mappings s AS q) = 0" using a(7) [OF q(1)] q(2) by linarith
      then have me: "mappings s AS q = {}" by simp
      have qt: "q \<notin> pt_pages (mem s) x" if "(x, m) \<in> set AS" for x m using pt_okD(4) [OF a(3) [OF that]] k(6) by blast
      have tab: "pt_ok (cowed q (PTE2PA ?e) s) x \<and> pt_pages (mem (cowed q (PTE2PA ?e) s)) x = pt_pages (mem s) x \<and>
          (\<forall>j. upte (cowed q (PTE2PA ?e) s) x j = upte s x j)" if x: "(x, m) \<in> set AS" for x m
      proof -
        have d: "{q} \<inter> pt_pages (mem s) x = {}" using qt [OF x] by blast
        have rr: "PAGE2REF z (cowed q (PTE2PA ?e) s) = PAGE2REF z s" if z: "z \<in> pt_pages (mem s) x" for z
          using k(9) [OF pt_okD(2) [OF a(3) [OF x] z]] z qt [OF x] u(3) [OF x] e(2) by auto
        show ?thesis using pt_ok_frame [OF a(3) [OF x] k(2) d k(3) rr] by blast
      qed
      show ?thesis
      proof (rule fin [OF c(1) [OF le] copy_pte_props(2,3,1) [OF q(1)] k(1,3) c(3) [OF le] tab q(1) qt])
        show "same_off {x. x = q \<and> free_page s x} (mem s) (mem (cowed q (PTE2PA ?e) s))"
          using k(2,6) by (simp add: Collect_conv_if)
        show "pte_has (copy_pte q ?e) PTE_U \<longleftrightarrow> pte_has ?e PTE_U" by (rule copy_pte_U)
        show "{p. free_page s p} \<subseteq> insert q {p. free_page (cowed q (PTE2PA ?e) s) p}"
          using k(3,9) r by (auto simp: free_page_def)
        show "cowed q (PTE2PA ?e) s = s\<lparr>mem := mem (cowed q (PTE2PA ?e) s), freelist := freelist (cowed q (PTE2PA ?e) s),
          pageref := pageref (cowed q (PTE2PA ?e) s)\<rparr>" by (rule k(11))
      qed (use k(9,10) me q(1) e(2) in auto)
    qed
  qed
qed

section \<open>Properties\<close>

text \<open>
  For the witnesses: a process of one page (its root table at 0x87FFC000, its page at 0x87FFF000), an empty root
  table at 0x87FFB000 for a child, and two free pages.
\<close>

definition cw_ex :: kmst where
  "cw_ex = um_ex\<lparr>mem := st64 (mem um_ex) 0x87FF9000 0x87FFA000, freelist := 0x87FF9000,
     pageref := (\<lambda>i. if 0x7FFB \<le> i \<and> i \<le> 0x7FFF then 1 else 0), kend := 0x87FF9000,
     procs := (\<lambda>_. proc0\<lparr>p_pagetable := 0x87FFC000, p_sz := 0x1000\<rparr>)\<rparr>"

lemma vpage_last7:
  "vpage 0x87FF9000 p \<longleftrightarrow> p = 0x87FF9000 \<or> p = 0x87FFA000 \<or>
   p = 0x87FFB000 \<or> p = 0x87FFC000 \<or> p = 0x87FFD000 \<or> p = 0x87FFE000 \<or> p = 0x87FFF000"
proof -
  have "4096 dvd unat p \<Longrightarrow> 0x87FF9000 \<le> unat p \<Longrightarrow> unat p < 0x88000000 \<Longrightarrow>
      unat p = 0x87FF9000 \<or> unat p = 0x87FFA000 \<or> unat p = 0x87FFB000 \<or> unat p = 0x87FFC000 \<or>
      unat p = 0x87FFD000 \<or> unat p = 0x87FFE000 \<or> unat p = 0x87FFF000"
    by (elim dvdE) (simp, linarith)
  moreover have "4096 dvd (0x87FF9000 :: nat)" "4096 dvd (0x87FFA000 :: nat)" "4096 dvd (0x87FFB000 :: nat)"
    "4096 dvd (0x87FFC000 :: nat)" "4096 dvd (0x87FFD000 :: nat)"
    "4096 dvd (0x87FFE000 :: nat)" "4096 dvd (0x87FFF000 :: nat)" by simp_all
  ultimately show ?thesis
    by (auto simp: vpage_def pgal_def word_less_nat_alt word_le_nat_alt word_unat_eq_iff)
qed

lemma cw_ex_sel [simp]:
  "PAGE2REF 0x87FF9000 cw_ex = 0" "PAGE2REF 0x87FFA000 cw_ex = 0" "PAGE2REF 0x87FFB000 cw_ex = 1"
  "PAGE2REF 0x87FFC000 cw_ex = 1" "PAGE2REF 0x87FFD000 cw_ex = 1" "PAGE2REF 0x87FFE000 cw_ex = 1"
  "PAGE2REF 0x87FFF000 cw_ex = 1" "kend cw_ex = 0x87FF9000" "p_pagetable (procs cw_ex (cur cw_ex)) = 0x87FFC000"
  by (simp_all add: cw_ex_def PAGE2REF_def PA2PAGE_ID_def)

lemma cw_ex_mem: "pgal p \<Longrightarrow> i < 512 \<Longrightarrow>
   ld64 (mem cw_ex) (pte_at p i) = (if p = 0x87FF9000 \<and> i = 0 then 0x87FFA000 else ld64 (mem um_ex) (pte_at p i))"
proof -
  assume p: "pgal p" "i < 512"
  have q: "pgal 0x87FF9000" using vpage_last7 vpage_pgal by blast
  have a: "al8 (pte_at p i)" "al8 0x87FF9000" using pte_at_page(2) [OF p] pgal_al8 [OF q] by auto
  have "pte_at p i = 0x87FF9000 \<longleftrightarrow> p = 0x87FF9000 \<and> i = 0" using pte_at_inj [OF p(1) q p(2), of 0] by simp
  then show ?thesis using ld64_st64 [OF a(2,1), of "mem um_ex" "0x87FFA000"] by (auto simp: cw_ex_def)
qed

lemma cw_ex_old: "pt_ok cw_ex 0x87FFC000" "pt_pages (mem cw_ex) 0x87FFC000 = {0x87FFC000, 0x87FFD000, 0x87FFE000}"
  "upte cw_ex 0x87FFC000 0 = PA2PTE 0x87FFF000 OR user_perm OR PTE_V" "upa cw_ex 0x87FFC000 0 = 0x87FFF000"
proof -
  have q: "pgal 0x87FF9000" using vpage_last7 vpage_pgal by blast
  have so: "same_off {0x87FF9000} (mem um_ex) (mem cw_ex)"
    using same_off_st64 [OF pgal_al8 [OF q]] PGROUNDDOWN_id [OF q] by (simp add: cw_ex_def)
  have d: "{0x87FF9000} \<inter> pt_pages (mem um_ex) 0x87FFC000 = {}" by (simp add: um_ex_pages)
  note w = pt_okD(1) [OF um_ex_pt]
  note f = pt_pages_frame [OF w so d]
  show p: "pt_pages (mem cw_ex) 0x87FFC000 = {0x87FFC000, 0x87FFD000, 0x87FFE000}" using f(1) um_ex_pages by simp
  show "pt_ok cw_ex 0x87FFC000" using f(2) p vpage_last7 by (simp add: pt_ok_def)
  show u: "upte cw_ex 0x87FFC000 0 = PA2PTE 0x87FFF000 OR user_perm OR PTE_V"
    using lookup_frame [OF w so d] um_ex_upte(1) by (simp add: upte_def)
  show "upa cw_ex 0x87FFC000 0 = 0x87FFF000" using u um_ex_next(3) by (simp add: upa_def)
qed

lemma cw_ex_new: "pt_ok cw_ex 0x87FFB000" "pt_pages (mem cw_ex) 0x87FFB000 = {0x87FFB000}" "upte cw_ex 0x87FFB000 j = 0"
proof -
  have "ld64 (mem cw_ex) (pte_at 0x87FFB000 i) = 0" if "i < 512" for i
    using cw_ex_mem [OF pgal_tops5(1) that] um_ex_entry [OF pgal_tops5(1) that] by simp
  note e = empty_table [OF pgal_tops5(1) this]
  show "pt_pages (mem cw_ex) 0x87FFB000 = {0x87FFB000}" by (rule e(2))
  then show "pt_ok cw_ex 0x87FFB000" using e(1) vpage_last7 by (simp add: pt_ok_def)
  show "upte cw_ex 0x87FFB000 j = 0" using e(3) by (simp add: upte_def)
qed

lemma cw_ex_kmem: "kmem_ok cw_ex"
proof -
  have q: "pgal 0x87FF9000" "pgal 0x87FFA000" using vpage_last7 vpage_pgal by blast+
  have "ld64 (mem cw_ex) 0x87FF9000 = 0x87FFA000" "ld64 (mem cw_ex) 0x87FFA000 = 0"
    using cw_ex_mem [OF q(1), of 0] cw_ex_mem [OF q(2), of 0] um_ex_entry [OF q(2), of 0] by auto
  then have "chain (mem cw_ex) (freelist cw_ex) [0x87FF9000, 0x87FFA000]" by (simp add: cw_ex_def)
  moreover have "free_page cw_ex p \<longleftrightarrow> p = 0x87FF9000 \<or> p = 0x87FFA000" for p
    unfolding free_page_def cw_ex_sel(8) vpage_last7 by auto
  ultimately have "kmem_inv cw_ex [0x87FF9000, 0x87FFA000]" by (auto simp: kmem_inv_def)
  then show ?thesis by (auto simp: kmem_ok_def unlocked_def cw_ex_def um_ex_def km_ex_def)
qed

lemma cw_ex_spaces: "spaces_inv cw_ex [(0x87FFB000, 0), (0x87FFC000, 1)]"
proof (rule spaces_invI)
  fix p assume v: "vpage (kend cw_ex) p"
  have "mappings cw_ex [(0x87FFB000, 0), (0x87FFC000, 1)] p = (if p = 0x87FFF000 then {(0x87FFC000, 0)} else {})"
    using cw_ex_old(4) by (auto simp: mappings_def)
  then show "int (card (mappings cw_ex [(0x87FFB000, 0), (0x87FFC000, 1)] p)) \<le> PAGE2REF p cw_ex"
    using v vpage_last7 [of p] by auto
next
  fix pt n k assume i: "(pt, n) \<in> set [(0x87FFB000, 0), (0x87FFC000 :: addr, 1 :: nat)]" "k < n"
  then have "pt = 0x87FFC000" "k = 0" by auto
  then show "user_entry cw_ex [(0x87FFB000, 0), (0x87FFC000, 1)] (upte cw_ex pt k)"
    using cw_ex_old cw_ex_new leaf_ok_user_perm vpage_last7 by (intro user_entryI) (auto simp: upa_def)
qed (use cw_ex_kmem cw_ex_old cw_ex_new in auto)

lemma uvmcopy_reads:
  assumes "spaces_inv s ((new, 0) # AS)" "(old, npages_of sz) \<in> set AS" "\<forall>j<npages_of sz. upte s new j = 0"
  shows "\<exists>r s'. uvmcopy old new sz s = Inr (r, s') \<and>
    (r = 0 \<and> spaces_inv s' ((new, npages_of sz) # AS) \<and>
       (\<forall>va. pgno va < npages_of sz \<longrightarrow> user_byte s' new va = user_byte s old va) \<or>
     r = - 1 \<and> spaces_inv s' ((new, 0) # AS)) \<and>
    (\<forall>(x, m)\<in>set AS. \<forall>va. pgno va < m \<longrightarrow> user_byte s' x va = user_byte s x va)"
proof -
  have c: "copyable old new (npages_of sz) s" using spaces_copyable [OF assms(1,2)] assms(3) by blast
  obtain r s' where r: "uvmcopy old new sz s = Inr (r, s')"
    "r = 0 \<and> copied old new (npages_of sz) (npages_of sz) s s' \<or> r = - 1 \<and> (\<exists>k'\<le>npages_of sz. copied old new k' 0 s s')"
    using uvmcopy_ok [OF c] by blast
  from r(2) show ?thesis
  proof (elim disjE conjE exE)
    assume "r = 0" "copied old new (npages_of sz) (npages_of sz) s s'"
    then have f: "forking old new (npages_of sz) AS s (npages_of sz) (npages_of sz) s'"
      using assms(1,2) c by (simp add: forking_def)
    show ?thesis using r(1) \<open>r = 0\<close> forking_spaces [OF f] forking_bytes [OF f] by auto
  next
    fix k' assume "r = - 1" "k' \<le> npages_of sz" "copied old new k' 0 s s'"
    then have f: "forking old new (npages_of sz) AS s k' 0 s'" using assms(1,2) c by (simp add: forking_def)
    show ?thesis using r(1) \<open>r = - 1\<close> forking_spaces [OF f] forking_bytes [OF f] by auto
  qed
qed



lemma spaces_inv_procs: "spaces_inv (s\<lparr>procs := P, cur := c\<rparr>) AS = spaces_inv s AS"
proof -
  let ?s = "s\<lparr>procs := P, cur := c\<rparr>"
  have r: "PAGE2REF p ?s = PAGE2REF p s" for p by (simp add: PAGE2REF_def)
  have f: "free_page ?s = free_page s" by (rule ext) (simp add: free_page_def r)
  have "kmem_inv ?s = kmem_inv s" unfolding fun_eq_iff kmem_inv_def f by simp
  then have k: "kmem_ok ?s = kmem_ok s" unfolding kmem_ok_def unlocked_def by simp
  have p: "pt_ok ?s pt = pt_ok s pt" for pt by (simp add: pt_ok_def r)
  have u: "upte ?s pt j = upte s pt j" "upa ?s pt j = upa s pt j" for pt j by (simp_all add: upte_def upa_def)
  have m: "mappings ?s AS q = mappings s AS q" for q by (simp add: mappings_def u)
  have e: "user_entry ?s AS x = user_entry s AS x" for x by (simp add: user_entry_def r)
  show ?thesis unfolding spaces_inv_def k p m u e r by simp
qed

lemma cow_store:
  assumes "spaces_inv s AS" "pt = p_pagetable (procs s (cur s))" "(pt, n) \<in> set AS" "pgno va < n"
  shows "\<exists>r t. copy_on_write va s = Inr (r, t) \<and>
    (r = - 1 \<and> t = s \<and> (\<forall>p. \<not> free_page s p) \<or>
     r = 0 \<and> spaces_inv (user_store pt va b t) AS \<and>
     (\<forall>(x, m)\<in>set AS. \<forall>vb. pgno vb < m \<longrightarrow>
        user_byte (user_store pt va b t) x vb = (if x = pt \<and> vb = va then b else user_byte s x vb)))"
proof -
  obtain r t where t: "copy_on_write va s = Inr (r, t)" "spaces_inv t AS"
    "\<forall>(x, m)\<in>set AS. \<forall>vb. pgno vb < m \<longrightarrow> user_byte t x vb = user_byte s x vb"
    "r = 0 \<and> made_own pt n va s t \<or> r = - 1 \<and> t = s \<and> (\<forall>p. \<not> free_page s p)" using copy_on_write_ok [OF assms] by blast
  have "pte_has (lookup (mem t) pt va) PTE_W" if "made_own pt n va s t" using that by (simp add: made_own_def)
  then show ?thesis using t user_store_ok [OF t(2) assms(3,4)] by (auto split: prod.splits)
qed





end
