(* ===== verification/Uvm.thy ===== *)
theory Uvm
  imports Cow
begin

text \<open>
  Freeing, growing and shrinking an address space (\<open>freewalk\<close>, \<open>uvmfree\<close>, \<open>uvmdealloc\<close>, \<open>uvmalloc\<close> of
  kernel/vm.c). A table tree without leaves is freed completely: three levels of recursion are enough, no page of
  it is freed twice, and nothing else changes.
\<close>

section \<open>Trees of tables\<close>

definition tentry :: "memory \<Rightarrow> addr \<Rightarrow> nat \<Rightarrow> u64" where
  "tentry m t i = ld64 m (pte_at t (of_nat i))"

definition tchild :: "memory \<Rightarrow> addr \<Rightarrow> nat \<Rightarrow> addr" where
  "tchild m t i = PTE2PA (tentry m t i)"

definition tkids :: "memory \<Rightarrow> addr \<Rightarrow> nat set" where
  "tkids m t = {i. i < 512 \<and> pte_has (tentry m t i) PTE_V}"

fun tpages :: "nat \<Rightarrow> memory \<Rightarrow> addr \<Rightarrow> addr set" where
  "tpages 0 m t = {t}"
| "tpages (Suc d) m t = insert t (\<Union>i\<in>tkids m t. tpages d m (tchild m t i))"

fun tree_ok :: "nat \<Rightarrow> memory \<Rightarrow> addr \<Rightarrow> bool" where
  "tree_ok 0 m t \<longleftrightarrow> pgal t \<and> tkids m t = {}"
| "tree_ok (Suc d) m t \<longleftrightarrow> pgal t \<and>
     (\<forall>i\<in>tkids m t. \<not> pte_has (tentry m t i) (PTE_R OR PTE_W OR PTE_X) \<and> tree_ok d m (tchild m t i) \<and>
        t \<notin> tpages d m (tchild m t i)) \<and>
     (\<forall>i\<in>tkids m t. \<forall>j\<in>tkids m t. i \<noteq> j \<longrightarrow> tpages d m (tchild m t i) \<inter> tpages d m (tchild m t j) = {})"

lemma of_nat_512: "i < 512 \<Longrightarrow> (of_nat i :: u64) < 512"
  by (simp add: word_less_nat_alt unat_of_nat_u64)

lemma of_nat_inj_512: "i < 512 \<Longrightarrow> j < 512 \<Longrightarrow> (of_nat i :: u64) = of_nat j \<longleftrightarrow> i = j"
  by (simp add: word_unat_eq_iff unat_of_nat_u64)

lemma tentry_frame:
  assumes "same_off P m m'" "pgal t" "t \<notin> P" "i < 512"
  shows "tentry m' t i = tentry m t i"
  unfolding tentry_def
  by (rule same_off_ld64 [OF assms(1)]) (use pte_at_page [OF assms(2) of_nat_512 [OF assms(4)]] assms(3) in auto)

lemma tree_root: "t \<in> tpages d m t"
  by (cases d) auto

lemma tree_frame:
  assumes "same_off P m m'" "tree_ok d m t" "P \<inter> tpages d m t = {}"
  shows "tree_ok d m' t \<and> tpages d m' t = tpages d m t"
  using assms(2,3)
proof (induction d arbitrary: t)
  case 0
  have "tentry m' t i = tentry m t i" if "i < 512" for i
    using tentry_frame [OF assms(1) _ _ that] 0 by auto
  then have "tkids m' t = tkids m t" by (auto simp: tkids_def)
  then show ?case using 0 by simp
next
  case (Suc d)
  have e: "tentry m' t i = tentry m t i" if "i < 512" for i
    using tentry_frame [OF assms(1) _ _ that] Suc.prems by auto
  then have k: "tkids m' t = tkids m t" by (auto simp: tkids_def)
  have c: "tchild m' t i = tchild m t i" "tentry m' t i = tentry m t i" if "i \<in> tkids m t" for i
    using that e by (auto simp: tkids_def tchild_def)
  have IH: "tree_ok d m' (tchild m t i) \<and> tpages d m' (tchild m t i) = tpages d m (tchild m t i)" if "i \<in> tkids m t" for i
    using Suc.prems that by (intro Suc.IH) auto
  show ?case using Suc.prems k c IH by simp
qed

text \<open>A tree whose pages are allocated once each.\<close>

definition tree_owned :: "nat \<Rightarrow> 'a kmst_scheme \<Rightarrow> addr \<Rightarrow> bool" where
  "tree_owned d s t \<longleftrightarrow> tree_ok d (mem s) t \<and> (\<forall>a\<in>tpages d (mem s) t. vpage (kend s) a \<and> PAGE2REF a s = 1)"

text \<open>Freeing the pages \<open>P\<close>: one reference less for each, and no other memory changes.\<close>

definition frees :: "addr set \<Rightarrow> 'a kmst_scheme \<Rightarrow> 'a kmst_scheme \<Rightarrow> bool" where
  "frees P s s' \<longleftrightarrow> kmem_ok s' \<and> s' = s\<lparr>mem := mem s', freelist := freelist s', pageref := pageref s'\<rparr> \<and>
     (\<forall>a. vpage (kend s) a \<longrightarrow> PAGE2REF a s' = PAGE2REF a s - (if a \<in> P then 1 else 0))"

lemma freesD:
  assumes "frees P s s'"
  shows "kmem_ok s'" "s' = s\<lparr>mem := mem s', freelist := freelist s', pageref := pageref s'\<rparr>" "kend s' = kend s"
    "vpage (kend s) a \<Longrightarrow> PAGE2REF a s' = PAGE2REF a s - (if a \<in> P then 1 else 0)"
proof -
  show "kmem_ok s'" and e: "s' = s\<lparr>mem := mem s', freelist := freelist s', pageref := pageref s'\<rparr>"
    and "vpage (kend s) a \<Longrightarrow> PAGE2REF a s' = PAGE2REF a s - (if a \<in> P then 1 else 0)"
    using assms unfolding frees_def by blast+
  show "kend s' = kend s" by (subst e) simp
qed

lemma frees_trans:
  assumes "frees P s s1" "frees Q s1 s2" "P \<inter> Q = {}"
  shows "frees (P \<union> Q) s s2"
  unfolding frees_def
  using freesD [OF assms(1)] freesD [OF assms(2)] kframe_trans [OF freesD(2) [OF assms(1)] freesD(2) [OF assms(2)]] assms(3)
  by auto

lemma tree_owned_frame:
  assumes "tree_owned d s t" "same_off Q (mem s) (mem s')" "Q \<inter> tpages d (mem s) t = {}" "frees P s s'"
    "P \<inter> tpages d (mem s) t = {}"
  shows "tree_owned d s' t" "tpages d (mem s') t = tpages d (mem s) t"
proof -
  have t: "tree_ok d (mem s') t \<and> tpages d (mem s') t = tpages d (mem s) t"
    using tree_frame [OF assms(2) _ assms(3)] assms(1) by (simp add: tree_owned_def)
  then show "tpages d (mem s') t = tpages d (mem s) t" ..
  show "tree_owned d s' t"
    using t assms(1,5) freesD(3,4) [OF assms(4)] unfolding tree_owned_def by auto
qed

lemma kfree_frees:
  assumes "kmem_ok s" "vpage (kend s) p" "PAGE2REF p s = 1"
  obtains s' where "kfree p s = Inr s'" "frees {p} s s'" "same_off {p} (mem s) (mem s')"
proof (rule kfree_step [OF assms(1,2)])
  show "PAGE2REF p s \<ge> 1" using assms(3) by simp
  fix s' assume k: "kfree p s = Inr s'" "kmem_ok s'" "s' = s\<lparr>mem := mem s', freelist := freelist s', pageref := pageref s'\<rparr>"
    "\<And>a. vpage (kend s) a \<Longrightarrow> PAGE2REF a s' = PAGE2REF a s - (if a = p then 1 else 0)"
    "same_off {x. x = p \<and> free_page s' x} (mem s) (mem s')"
  have "frees {p} s s'" using k by (simp add: frees_def)
  moreover have "same_off {p} (mem s) (mem s')" by (rule same_off_mono [OF k(5)]) auto
  ultimately show thesis by (rule that [OF k(1)])
qed

text \<open>One table: the loop over its entries, given that the recursive call frees a subtree.\<close>

lemma freewalk_loop_ok:
  assumes rec: "\<And>c s. kmem_ok s \<Longrightarrow> tree_owned d s c \<Longrightarrow>
      \<exists>s'. rec c s = Inr s' \<and> frees (tpages d (mem s) c) s s' \<and> same_off (tpages d (mem s) c) (mem s) (mem s')"
    and s: "kmem_ok s" "pgal t" "\<not> free_page s t" "distinct ix" "set ix \<subseteq> {0..<512}"
      "\<And>i. i \<in> set ix \<inter> tkids (mem s) t \<Longrightarrow> \<not> pte_has (tentry (mem s) t i) (PTE_R OR PTE_W OR PTE_X) \<and>
         tree_owned d s (tchild (mem s) t i) \<and> t \<notin> tpages d (mem s) (tchild (mem s) t i)"
      "\<And>i j. i \<in> set ix \<inter> tkids (mem s) t \<Longrightarrow> j \<in> set ix \<inter> tkids (mem s) t \<Longrightarrow> i \<noteq> j \<Longrightarrow>
         tpages d (mem s) (tchild (mem s) t i) \<inter> tpages d (mem s) (tchild (mem s) t j) = {}"
  shows "\<exists>s'. freewalk_loop rec t ix s = Inr s' \<and>
    frees (\<Union>i\<in>set ix \<inter> tkids (mem s) t. tpages d (mem s) (tchild (mem s) t i)) s s' \<and>
    same_off (insert t (\<Union>i\<in>set ix \<inter> tkids (mem s) t. tpages d (mem s) (tchild (mem s) t i))) (mem s) (mem s')"
  using s
proof (induction ix arbitrary: s)
  case Nil
  then show ?case by (simp add: frees_def)
next
  case (Cons i ix)
  have i: "i < 512" "i \<notin> set ix" using Cons.prems by auto
  let ?e = "tentry (mem s) t i" and ?c = "tchild (mem s) t i"
  show ?case
  proof (cases "i \<in> tkids (mem s) t")
    case False
    then have "\<not> pte_has ?e PTE_V" using i by (simp add: tkids_def)
    then have f: "freewalk_loop rec t (i # ix) s = freewalk_loop rec t ix s" by (simp add: tentry_def Let_def)
    have "set (i # ix) \<inter> tkids (mem s) t = set ix \<inter> tkids (mem s) t" using False by auto
    then show ?thesis unfolding f
      using Cons.IH [OF Cons.prems(1-3) _ _ Cons.prems(6) Cons.prems(7)] Cons.prems(4,5) by simp
  next
    case True
    have c: "\<not> pte_has ?e (PTE_R OR PTE_W OR PTE_X)" "tree_owned d s ?c" "t \<notin> tpages d (mem s) ?c"
      using Cons.prems(6) [of i] True by simp_all
    obtain s1 where s1: "rec ?c s = Inr s1" "frees (tpages d (mem s) ?c) s s1" "same_off (tpages d (mem s) ?c) (mem s) (mem s1)"
      using rec [OF Cons.prems(1) c(2)] by blast
    let ?s = "s1\<lparr>mem := st64 (mem s1) (pte_at t (of_nat i)) 0\<rparr>"
    have f: "freewalk_loop rec t (i # ix) s = freewalk_loop rec t ix ?s"
      using True c(1) s1(1) by (simp add: tkids_def tentry_def tchild_def Let_def)
    note p = pte_at_page [OF Cons.prems(2) of_nat_512 [OF i(1)]]
    have so: "same_off {t} (mem s1) (mem ?s)" using same_off_st64 [OF p(2), of "mem s1" 0] p(1) by simp
    have so2: "same_off (insert t (tpages d (mem s) ?c)) (mem s) (mem ?s)" by (rule same_off_trans [OF s1(3) so]) auto
    have nf1: "\<not> free_page s1 t"
      using Cons.prems(3) freesD(3) [OF s1(2)] freesD(4) [OF s1(2), of t] c(3) by (auto simp: free_page_def)
    have fr: "frees (tpages d (mem s) ?c) s ?s"
    proof -
      obtain ps where "unlocked s1" "kmem_inv s1 ps" using freesD(1) [OF s1(2)] by (auto simp: kmem_ok_def)
      then have "kmem_ok ?s"
        using kmem_inv_mem [of s1 ps "{t}" "mem ?s"] so nf1 unlocked_held [of ?s s1] by (auto simp: kmem_ok_def)
      moreover have "?s = s\<lparr>mem := mem ?s, freelist := freelist ?s, pageref := pageref ?s\<rparr>"
        by (rule kframe_trans [OF freesD(2) [OF s1(2)]]) simp
      moreover have "PAGE2REF a ?s = PAGE2REF a s1" for a by simp
      ultimately show ?thesis using freesD(4) [OF s1(2)] unfolding frees_def by metis
    qed
    have en: "tentry (mem ?s) t j = tentry (mem s) t j" if "j < 512" "j \<noteq> i" for j
    proof -
      have "(of_nat j :: u64) \<noteq> of_nat i" using of_nat_inj_512 [OF that(1) i(1)] that(2) by simp
      then have "pte_at t (of_nat i) \<noteq> pte_at t (of_nat j)"
        using pte_at_inj [OF Cons.prems(2,2) of_nat_512 [OF i(1)] of_nat_512 [OF that(1)]] by auto
      then show ?thesis
        using ld64_st64 [OF p(2) pte_at_page(2) [OF Cons.prems(2) of_nat_512 [OF that(1)]], of "mem s1" 0]
          tentry_frame [OF s1(3) Cons.prems(2) c(3) that(1)] by (simp add: tentry_def)
    qed
    have ji: "j < 512 \<and> j \<noteq> i" if "j \<in> set ix" for j using that Cons.prems(5) i(2) by auto
    have k: "set ix \<inter> tkids (mem ?s) t = set ix \<inter> tkids (mem s) t"
      using en ji unfolding tkids_def by auto
    have ch: "tchild (mem ?s) t j = tchild (mem s) t j \<and> tentry (mem ?s) t j = tentry (mem s) t j" if "j \<in> set ix" for j
      using en ji [OF that] by (simp add: tchild_def)
    have own: "tree_owned d ?s (tchild (mem s) t j)" "tpages d (mem ?s) (tchild (mem s) t j) = tpages d (mem s) (tchild (mem s) t j)"
      if j: "j \<in> set ix \<inter> tkids (mem s) t" for j
    proof -
      have d: "tpages d (mem s) ?c \<inter> tpages d (mem s) (tchild (mem s) t j) = {}" "t \<notin> tpages d (mem s) (tchild (mem s) t j)"
        "tree_owned d s (tchild (mem s) t j)"
        using Cons.prems(7) [of i j] Cons.prems(6) [of j] j True ji [of j] by auto
      show "tree_owned d ?s (tchild (mem s) t j)" "tpages d (mem ?s) (tchild (mem s) t j) = tpages d (mem s) (tchild (mem s) t j)"
        using tree_owned_frame [OF d(3) so2 _ fr d(1)] d(1,2) by blast+
    qed
    let ?U = "\<Union>j\<in>set ix \<inter> tkids (mem s) t. tpages d (mem s) (tchild (mem s) t j)"
    have u: "(\<Union>j\<in>set ix \<inter> tkids (mem ?s) t. tpages d (mem ?s) (tchild (mem ?s) t j)) = ?U"
      unfolding k using ch own(2) by (intro SUP_cong) auto
    have "\<exists>s'. freewalk_loop rec t ix ?s = Inr s' \<and> frees ?U ?s s' \<and> same_off (insert t ?U) (mem ?s) (mem s')"
      unfolding u [symmetric]
    proof (rule Cons.IH [OF freesD(1) [OF fr] Cons.prems(2)])
      show "\<not> free_page ?s t" using nf1 by simp
      show "distinct ix" "set ix \<subseteq> {0..<512}" using Cons.prems(4,5) by auto
    next
      fix j assume "j \<in> set ix \<inter> tkids (mem ?s) t"
      then have j: "j \<in> set ix \<inter> tkids (mem s) t" "j \<in> set (i # ix) \<inter> tkids (mem s) t" using k by auto
      then show "\<not> pte_has (tentry (mem ?s) t j) (PTE_R OR PTE_W OR PTE_X) \<and>
         tree_owned d ?s (tchild (mem ?s) t j) \<and> t \<notin> tpages d (mem ?s) (tchild (mem ?s) t j)"
        using Cons.prems(6) [OF j(2)] own [OF j(1)] ch [of j] by simp
    next
      fix j j' assume "j \<in> set ix \<inter> tkids (mem ?s) t" "j' \<in> set ix \<inter> tkids (mem ?s) t" "j \<noteq> j'"
      then have j: "j \<in> set ix \<inter> tkids (mem s) t" "j' \<in> set ix \<inter> tkids (mem s) t" "j \<noteq> j'" using k by auto
      then show "tpages d (mem ?s) (tchild (mem ?s) t j) \<inter> tpages d (mem ?s) (tchild (mem ?s) t j') = {}"
        using Cons.prems(7) [of j j'] own(2) [OF j(1)] own(2) [OF j(2)] ch [of j] ch [of j'] by simp
    qed
    then obtain s' where s': "freewalk_loop rec t ix ?s = Inr s'" "frees ?U ?s s'" "same_off (insert t ?U) (mem ?s) (mem s')" by blast
    have all: "(\<Union>j\<in>set (i # ix) \<inter> tkids (mem s) t. tpages d (mem s) (tchild (mem s) t j)) = tpages d (mem s) ?c \<union> ?U"
      using True by auto
    have dj: "tpages d (mem s) ?c \<inter> ?U = {}" using Cons.prems(7) [of i] True ji by auto
    have "same_off (insert t (tpages d (mem s) ?c \<union> ?U)) (mem s) (mem s')" by (rule same_off_trans [OF so2 s'(3)]) auto
    then show ?thesis unfolding all f using s'(1) frees_trans [OF fr s'(2) dj] by blast
  qed
qed

lemma freewalk_loop_none:
  "tkids (mem s) t = {} \<Longrightarrow> set ix \<subseteq> {0..<512} \<Longrightarrow> freewalk_loop rec t ix s = Inr s"
  by (induction ix) (auto simp: tkids_def tentry_def Let_def)

lemma freewalk_ok:
  assumes "kmem_ok s" "tree_owned d s t"
  shows "\<exists>s'. freewalk (Suc d) t s = Inr s' \<and> frees (tpages d (mem s) t) s s' \<and> same_off (tpages d (mem s) t) (mem s) (mem s')"
  using assms
proof (induction d arbitrary: s t)
  case 0
  have e: "tkids (mem s) t = {}" "vpage (kend s) t" "PAGE2REF t s = 1" using 0 by (auto simp: tree_owned_def)
  obtain s' where "kfree t s = Inr s'" "frees {t} s s'" "same_off {t} (mem s) (mem s')"
    by (rule kfree_frees [OF 0(1) e(2,3)])
  then show ?case using freewalk_loop_none [OF e(1)] by simp
next
  case (Suc d)
  have o: "pgal t" "vpage (kend s) t" "PAGE2REF t s = 1" using Suc.prems by (auto simp: tree_owned_def)
  let ?U = "\<Union>i\<in>tkids (mem s) t. tpages d (mem s) (tchild (mem s) t i)"
  have in512: "set [0..<512] \<inter> tkids (mem s) t = tkids (mem s) t" by (auto simp: tkids_def)
  have "\<exists>s'. freewalk_loop (freewalk (Suc d)) t [0..<512] s = Inr s' \<and>
    frees (\<Union>i\<in>set [0..<512] \<inter> tkids (mem s) t. tpages d (mem s) (tchild (mem s) t i)) s s' \<and>
    same_off (insert t (\<Union>i\<in>set [0..<512] \<inter> tkids (mem s) t. tpages d (mem s) (tchild (mem s) t i))) (mem s) (mem s')"
  proof (rule freewalk_loop_ok [OF Suc.IH Suc.prems(1) o(1)])
    show "\<not> free_page s t" using o(3) by (simp add: free_page_def)
  qed (use Suc.prems(2) in \<open>auto simp: tree_owned_def simp del: upt.simps upt_rec_numeral\<close>)
  then obtain s1 where s1: "freewalk_loop (freewalk (Suc d)) t [0..<512] s = Inr s1" "frees ?U s s1" "same_off (insert t ?U) (mem s) (mem s1)"
    unfolding in512 by blast
  have t: "t \<notin> ?U" using Suc.prems(2) by (auto simp: tree_owned_def)
  then have "vpage (kend s1) t" "PAGE2REF t s1 = 1" using freesD(3) [OF s1(2)] freesD(4) [OF s1(2), of t] o by auto
  then obtain s' where s': "kfree t s1 = Inr s'" "frees {t} s1 s'" "same_off {t} (mem s1) (mem s')"
    by (rule kfree_frees [OF freesD(1) [OF s1(2)]])
  have "frees (?U \<union> {t}) s s'" by (rule frees_trans [OF s1(2) s'(2)]) (use t in blast)
  moreover have "same_off (insert t ?U) (mem s) (mem s')" by (rule same_off_trans [OF s1(3) s'(3)]) auto
  moreover have "freewalk (Suc (Suc d)) t s = Inr s'" using s1(1) s'(1) by (subst freewalk.simps) simp
  ultimately show ?case by simp
qed

text \<open>A page table all of whose leaves have been removed is such a tree.\<close>

definition no_leaves :: "memory \<Rightarrow> addr \<Rightarrow> bool" where
  "no_leaves m pt \<longleftrightarrow> (\<forall>p\<in>paths. \<forall>t i. node m pt p = Some t \<longrightarrow> i < 512 \<longrightarrow>
     pte_has (tentry m t i) PTE_V \<longrightarrow> length p < 2 \<and> \<not> pte_has (tentry m t i) (PTE_R OR PTE_W OR PTE_X))"

definition below :: "memory \<Rightarrow> addr \<Rightarrow> u64 list \<Rightarrow> addr set" where
  "below m pt p = {a. \<exists>q. p @ q \<in> paths \<and> node m pt (p @ q) = Some a}"

lemma paths_snoc: "p @ [i] \<in> paths \<longleftrightarrow> length p < 2 \<and> i < 512 \<and> p \<in> paths"
  by (auto simp: paths_def)

lemma node_snoc:
  "node m pt p = Some t \<Longrightarrow> node m pt (p @ [i]) = (let e = ld64 m (pte_at t i) in if pte_has e PTE_V then Some (PTE2PA e) else None)"
  by (simp add: node_append Let_def)

lemma tkids_node:
  assumes "node m pt p = Some t" "i \<in> tkids m t"
  shows "node m pt (p @ [of_nat i]) = Some (tchild m t i)"
  using assms node_snoc [OF assms(1), of "of_nat i"] by (simp add: tkids_def tentry_def tchild_def)

lemma below_step:
  assumes "node m pt p = Some t" "p \<in> paths" "length p < 2"
  shows "below m pt p = insert t (\<Union>i\<in>tkids m t. below m pt (p @ [of_nat i]))"
proof (rule set_eqI)
  fix a
  have "(\<exists>i\<in>tkids m t. a \<in> below m pt (p @ [of_nat i]))" if q: "p @ j # q \<in> paths" "node m pt (p @ j # q) = Some a" for j q
  proof
    have j: "p @ [j] \<in> paths" using paths_append [of "p @ [j]" q] q(1) by simp
    then have j512: "unat j < 512" "of_nat (unat j) = j" by (simp_all add: paths_snoc word_less_nat_alt)
    have "node m pt ((p @ [j]) @ q) = Some a" using q(2) by simp
    then have "node m pt (p @ [j]) \<noteq> None" unfolding node_append [of m pt "p @ [j]"] by (auto split: option.splits)
    then show "unat j \<in> tkids m t" using j512 node_snoc [OF assms(1), of j] by (auto simp: tkids_def tentry_def Let_def split: if_splits)
    show "a \<in> below m pt (p @ [of_nat (unat j)])" using q j512 by (auto simp: below_def)
  qed
  moreover have "a \<in> below m pt p" if "a \<in> below m pt (p @ [j])" for j using that by (auto simp: below_def)
  moreover have "t \<in> below m pt p" using assms by (auto simp: below_def intro: exI [of _ "[]"])
  moreover have "a = t \<or> (\<exists>j q. p @ j # q \<in> paths \<and> node m pt (p @ j # q) = Some a)" if a: "a \<in> below m pt p"
  proof -
    obtain q where q: "p @ q \<in> paths" "node m pt (p @ q) = Some a" using a by (auto simp: below_def)
    show ?thesis using q assms(1) by (cases q) auto
  qed
  ultimately show "a \<in> below m pt p \<longleftrightarrow> a \<in> insert t (\<Union>i\<in>tkids m t. below m pt (p @ [of_nat i]))" by blast
qed

lemma no_leaves_tree:
  assumes "wf_pt m pt" "no_leaves m pt" "p \<in> paths" "length p + d = 2" "node m pt p = Some t"
  shows "tree_ok d m t \<and> tpages d m t = below m pt p"
  using assms(3-5)
proof (induction d arbitrary: p t)
  case 0
  have k: "tkids m t = {}" using assms(2) 0 by (fastforce simp: tkids_def no_leaves_def)
  have "p @ q \<in> paths \<longleftrightarrow> q = []" for q using 0 by (auto simp: paths_def)
  then have "below m pt p = {t}" using 0 by (auto simp: below_def)
  then show ?case using k wf_ptD(1) [OF assms(1)] 0 by simp
next
  case (Suc d)
  have l: "length p < 2" using Suc.prems(2) by simp
  have c: "tree_ok d m (tchild m t i) \<and> tpages d m (tchild m t i) = below m pt (p @ [of_nat i])" if i: "i \<in> tkids m t" for i
    using i Suc.prems l of_nat_512 [of i] by (intro Suc.IH tkids_node) (auto simp: paths_snoc tkids_def)
  have nl: "\<not> pte_has (tentry m t i) (PTE_R OR PTE_W OR PTE_X)" if "i \<in> tkids m t" for i
    using assms(2) Suc.prems that unfolding no_leaves_def tkids_def by blast
  have inj: "p @ q = r" if "p @ q \<in> paths" "r \<in> paths" "node m pt (p @ q) = Some a" "node m pt r = Some a" for q r a
    using wf_ptD(2) [OF assms(1)] that by blast
  have t: "t \<notin> below m pt (p @ [of_nat i])" for i
    using inj [of _ p t] Suc.prems by (auto simp: below_def)
  have d: "below m pt (p @ [of_nat i]) \<inter> below m pt (p @ [of_nat j]) = {}"
    if "i \<in> tkids m t" "j \<in> tkids m t" "i \<noteq> j" for i j
  proof -
    have "(of_nat i :: u64) \<noteq> of_nat j" using of_nat_inj_512 that by (auto simp: tkids_def)
    then show ?thesis using inj [of "of_nat i # _" "p @ of_nat j # _"] by (auto simp: below_def)
  qed
  show ?case
    using c nl t d wf_ptD(1) [OF assms(1) Suc.prems(1,3)] below_step [OF Suc.prems(3,1) l] by simp
qed

lemma freewalk_table:
  assumes "kmem_ok s" "pt_ok s pt" "no_leaves (mem s) pt"
  shows "\<exists>s'. freewalk 3 pt s = Inr s' \<and> frees (pt_pages (mem s) pt) s s' \<and> same_off (pt_pages (mem s) pt) (mem s) (mem s')"
proof -
  have "tree_ok 2 (mem s) pt \<and> tpages 2 (mem s) pt = below (mem s) pt []"
    by (rule no_leaves_tree [OF pt_okD(1) [OF assms(2)] assms(3)]) simp_all
  moreover have "below (mem s) pt [] = pt_pages (mem s) pt" by (auto simp: below_def pt_pages_def)
  ultimately have t: "tree_owned 2 s pt" "tpages 2 (mem s) pt = pt_pages (mem s) pt"
    using pt_okD(2,3) [OF assms(2)] by (simp_all add: tree_owned_def)
  show ?thesis using freewalk_ok [OF assms(1) t(1)] unfolding t(2) by (simp only: Suc_numeral add_num_simps One_nat_def numeral_3_eq_3 numeral_2_eq_2)
qed

section \<open>Shrinking\<close>

lemma spaces_inv_perm: "spaces_inv s AS \<Longrightarrow> set BS = set AS \<Longrightarrow> distinct (map fst BS) \<Longrightarrow> spaces_inv s BS"
  by (simp add: spaces_inv_def user_entry_def mappings_def)

lemma spaces_user_pages:
  assumes "spaces_inv s ((pt, n) # AS)" "k + d \<le> n"
  shows "user_pages s pt {k..<k + d}"
proof -
  note a = spaces_invD [OF assms(1)]
  have i: "(pt, n) \<in> set ((pt, n) # AS)" by simp
  have "int (dup s pt {k..<k + d} p) \<le> PAGE2REF p s" if p: "vpage (kend s) p" for p
  proof -
    have "{pt} \<times> {j \<in> {k..<k + d}. upa s pt j = p} \<subseteq> mappings s ((pt, n) # AS) p"
      using assms(2) by (auto simp: mappings_def)
    then have "card ({pt} \<times> {j \<in> {k..<k + d}. upa s pt j = p}) \<le> card (mappings s ((pt, n) # AS) p)"
      by (rule card_mono [OF finite_mappings])
    then show ?thesis using a(7) [OF p] by (simp add: dup_def card_cartesian_product)
  qed
  moreover have "j < 2 ^ 26 \<and> leaf_ok (upte s pt j) \<and> vpage (kend s) (upa s pt j) \<and> upa s pt j \<notin> pt_pages (mem s) pt"
    if "j \<in> {k..<k + d}" for j
    using user_entryD [OF a(6) [OF i, of j]] a(4) [OF i] assms(2) that i by auto
  ultimately show ?thesis unfolding user_pages_def by blast
qed

lemma shrink_mappings:
  assumes "k \<le> n" "pt \<notin> fst ` set AS" "\<And>x m j. (x, m) \<in> set ((pt, k) # AS) \<Longrightarrow> j < m \<Longrightarrow> upa s' x j = upa s x j"
  shows "card (mappings s ((pt, n) # AS) p) = card (mappings s' ((pt, k) # AS) p) + dup s pt {k..<n} p"
proof -
  have m: "mappings s' ((pt, k) # AS) p = mappings s ((pt, k) # AS) p" by (rule mappings_cong) (rule assms(3))
  have "mappings s ((pt, n) # AS) p = mappings s ((pt, k) # AS) p \<union> {pt} \<times> {j \<in> {k..<n}. upa s pt j = p}"
    using assms(1) by (auto simp: mappings_def)
  moreover have "mappings s ((pt, k) # AS) p \<inter> {pt} \<times> {j \<in> {k..<n}. upa s pt j = p} = {}"
    using assms(2) by (fastforce simp: mappings_def)
  ultimately show ?thesis
    unfolding m using card_Un_disjoint [OF finite_mappings, of "{pt} \<times> {j \<in> {k..<n}. upa s pt j = p}"]
    by (simp add: card_cartesian_product dup_def)
qed

lemma space_widen:
  fixes m k n :: nat
  assumes "(x, m) \<in> set ((pt, k) # AS)" "k \<le> n"
  obtains m' where "(x, m') \<in> set ((pt, n) # AS)" "m \<le> m'"
  using assms that [of n] that [of m] by auto

lemma uvmunmap_spaces:
  assumes inv: "spaces_inv s ((pt, n) # AS)" and k: "k \<le> n"
  shows "\<exists>s'. uvmunmap pt (uva k) (of_nat (n - k)) True s = Inr s' \<and> spaces_inv s' ((pt, k) # AS) \<and>
    s' = s\<lparr>mem := mem s', freelist := freelist s', pageref := pageref s'\<rparr> \<and>
    (\<forall>(x, m)\<in>set ((pt, k) # AS). \<forall>va. pgno va < m \<longrightarrow> user_byte s' x va = user_byte s x va) \<and>
    (\<forall>vb<MAXVA. lookup (mem s') pt vb = clear_range k (n - k) (lookup (mem s) pt) vb)"
proof -
  note a = spaces_invD [OF inv]
  have i: "(pt, n) \<in> set ((pt, n) # AS)" by simp
  have n26: "n \<le> 2 ^ 26" by (rule a(4) [OF i])
  have up: "user_pages s pt {k..<k + (n - k)}" by (rule spaces_user_pages [OF inv]) (use k in simp)
  obtain s' where s': "uvmunmap pt (uva k) (of_nat (n - k)) True s = Inr s'" "kmem_ok s'" "pt_ok s' pt"
    "s' = s\<lparr>mem := mem s', freelist := freelist s', pageref := pageref s'\<rparr>" "kend s' = kend s"
    "pt_pages (mem s') pt = pt_pages (mem s) pt"
    "\<forall>vb<MAXVA. lookup (mem s') pt vb = clear_range k (n - k) (lookup (mem s) pt) vb"
    "\<forall>p. vpage (kend s) p \<longrightarrow> PAGE2REF p s' = PAGE2REF p s - int (dup s pt {k..<k + (n - k)} p)"
    "same_off (pt_pages (mem s) pt \<union> {p. free_page s' p}) (mem s) (mem s')"
    using uvmunmap_free [OF a(1) a(3) [OF i] up] n26 k by auto
  have kn: "{k..<k + (n - k)} = {k..<n}" using k by simp
  have pe: "upte s' pt j = upte s pt j" if "j < k" for j
    using s'(7) [rule_format, OF uva_less [of j]] that k n26 by (simp add: upte_def clear_range_def unat_uva)
  have ptn: "pt \<notin> fst ` set AS" using a(2) by simp
  have other: "pt_ok s' x \<and> pt_pages (mem s') x = pt_pages (mem s) x \<and> (\<forall>j. upte s' x j = upte s x j)" if x: "(x, m) \<in> set AS" for x m
  proof -
    have ix: "(x, m) \<in> set ((pt, n) # AS)" using x by simp
    have ne: "pt \<noteq> x" using ptn x by force
    have r: "PAGE2REF y s' = PAGE2REF y s" if y: "y \<in> pt_pages (mem s) x" for y
    proof -
      have "dup s pt {k..<n} y = 0"
        by (rule dup_0) (use user_entryD(3) [OF a(6) [OF i] ix] y in auto)
      then show ?thesis using s'(8) pt_okD(2) [OF a(3) [OF ix] y] kn by simp
    qed
    then have "\<not> free_page s' y" if "y \<in> pt_pages (mem s) x" for y
      using that pt_okD(3) [OF a(3) [OF ix] that] by (simp add: free_page_def)
    then have "(pt_pages (mem s) pt \<union> {p. free_page s' p}) \<inter> pt_pages (mem s) x = {}" using a(5) [OF i ix ne] by blast
    from pt_ok_frame [OF a(3) [OF ix] s'(9) this s'(5) r] show ?thesis by blast
  qed
  have ent: "upte s' x j = upte s x j" "upa s' x j = upa s x j" if "(x, m) \<in> set ((pt, k) # AS)" "j < m" for x m j
    using pe other that by (auto simp: upa_def)
  have tb: "pt_ok s' x \<and> pt_pages (mem s') x = pt_pages (mem s) x" if "(x, m) \<in> set ((pt, k) # AS)" for x m
    using that s'(3,6) other [of x m] by auto
  have card: "card (mappings s ((pt, n) # AS) p) = card (mappings s' ((pt, k) # AS) p) + dup s pt {k..<n} p" for p
    by (rule shrink_mappings [OF k ptn ent(2)])
  have bnd: "int (card (mappings s' ((pt, k) # AS) p)) \<le> PAGE2REF p s'" if "vpage (kend s) p" for p
    using a(7) [OF that] card [of p] s'(8) [rule_format, OF that] kn by simp
  have sp: "spaces_inv s' ((pt, k) # AS)"
  proof (rule spaces_invI)
    fix x m j assume x: "(x, m) \<in> set ((pt, k) # AS)" "j < m"
    obtain m' where m': "(x, m') \<in> set ((pt, n) # AS)" "j < m'"
      by (rule space_widen [OF x(1) k]) (use x(2) that in auto)
    note u = user_entryD [OF a(6) [OF m']]
    have "PAGE2REF (upa s x j) s' = 1" if "PAGE2REF (upa s x j) s = 1"
    proof -
      have "(x, j) \<in> mappings s' ((pt, k) # AS) (upa s x j)" using mappingsI [OF x ent(2) [OF x]] .
      then have "card (mappings s' ((pt, k) # AS) (upa s x j)) \<ge> 1"
        by (metis One_nat_def Suc_leI card_gt_0_iff empty_iff finite_mappings)
      then show ?thesis using bnd [OF u(2)] s'(8) [rule_format, OF u(2)] that by linarith
    qed
    moreover have "upa s x j \<notin> pt_pages (mem s') y" if "(y, l) \<in> set ((pt, k) # AS)" for y l
      using that u(3) [OF i] u(3) [of y l] tb [OF that] by auto
    ultimately show "user_entry s' ((pt, k) # AS) (upte s' x j)"
      using ent [OF x] u(1,2,4) s'(5) by (intro user_entryI) (auto simp: upa_def)
  next
    fix x m y l assume x: "(x, m) \<in> set ((pt, k) # AS)" "(y, l) \<in> set ((pt, k) # AS)" "x \<noteq> y"
    obtain m' l' where "(x, m') \<in> set ((pt, n) # AS)" "(y, l') \<in> set ((pt, n) # AS)"
      using space_widen [OF x(1) k] space_widen [OF x(2) k] by metis
    from a(5) [OF this x(3)] show "pt_pages (mem s') x \<inter> pt_pages (mem s') y = {}"
      using tb [OF x(1)] tb [OF x(2)] by simp
  next
    fix x m assume x: "(x, m) \<in> set ((pt, k) # AS)"
    show "pt_ok s' x \<and> m \<le> 2 ^ 26" using tb [OF x] a(4) [of x m] x n26 k by auto
  qed (use s'(2,5) a(2) bnd in auto)
  have "user_byte s' x va = user_byte s x va" if x: "(x, m) \<in> set ((pt, k) # AS)" "pgno va < m" for x m va
  proof -
    obtain m' where m': "(x, m') \<in> set ((pt, n) # AS)" "pgno va < m'"
      by (rule space_widen [OF x(1) k]) (use x(2) that in auto)
    note u = user_entryD [OF a(6) [OF m']]
    have "\<not> free_page s' (upa s x (pgno va))" using spaces_ref [OF sp x] ent(2) [OF x] by (simp add: free_page_def)
    then have "PGROUNDDOWN (user_pa s x va) \<notin> pt_pages (mem s) pt \<union> {p. free_page s' p}"
      using spaces_page(1) [OF inv m'] u(3) [OF i] by simp
    then have "mem s' (user_pa s x va) = mem s (user_pa s x va)" by (rule same_offD [OF s'(9)])
    moreover have "user_pa s' x va = user_pa s x va"
      using spaces_page(2) [OF inv m'] spaces_page(2) [OF sp x] ent(2) [OF x] by simp
    ultimately show ?thesis by (simp add: user_byte_def)
  qed
  then show ?thesis using s'(1,4,7) sp by blast
qed

text \<open>The memory that the processes see is the same.\<close>

definition same_view :: "(addr \<times> nat) list \<Rightarrow> 'a kmst_scheme \<Rightarrow> 'a kmst_scheme \<Rightarrow> bool" where
  "same_view AS s s' \<longleftrightarrow> (\<forall>(x, m)\<in>set AS. \<forall>va. pgno va < m \<longrightarrow> user_byte s' x va = user_byte s x va)"

lemma same_viewD: "same_view AS s s' \<Longrightarrow> (x, m) \<in> set AS \<Longrightarrow> pgno va < m \<Longrightarrow> user_byte s' x va = user_byte s x va"
  by (auto simp: same_view_def)

lemma same_view_refl [simp]: "same_view AS s s"
  by (auto simp: same_view_def)

lemma same_view_trans: "same_view AS s s1 \<Longrightarrow> same_view AS s1 s2 \<Longrightarrow> same_view AS s s2"
  by (fastforce simp: same_view_def)

lemma same_view_less:
  fixes k n :: nat
  assumes "same_view ((pt, n) # AS) s s'" "k \<le> n"
  shows "same_view ((pt, k) # AS) s s'"
  using assms less_le_trans [of _ k n] by (fastforce simp: same_view_def)

lemma PGROUNDUP_uva: "npages_of sz \<le> 2 ^ 26 \<Longrightarrow> PGROUNDUP sz = uva (npages_of sz)"
proof -
  assume n: "npages_of sz \<le> 2 ^ 26"
  then have "unat sz + 4095 < 2 ^ 39" by (simp add: npages_of_def)
  then have "unat (PGROUNDUP sz) = npages_of sz * 4096" by (subst unat_PGROUNDUP) (simp_all add: npages_of_def)
  then show ?thesis using unat_uva [OF n] by (simp add: word_unat_eq_iff)
qed

lemma npages_mono: "a \<le> b \<Longrightarrow> npages_of a \<le> npages_of b"
  unfolding npages_of_def word_le_nat_alt by (intro div_le_mono) simp

lemma npages_cast:
  assumes "k \<le> n" "n \<le> 2 ^ 26"
  shows "(scast (ucast ((uva n - uva k) div PGSIZE) :: 32 word) :: u64) = of_nat (n - k)"
proof -
  have le: "uva k \<le> uva n" using assms by (simp add: word_le_nat_alt unat_uva)
  have "unat ((uva n - uva k) div PGSIZE) = n - k"
    using unat_sub [OF le] assms by (simp add: unat_div unat_uva diff_mult_distrib2 [symmetric])
  moreover have "unat (of_nat (n - k) :: u64) = n - k" by (rule unat_of_nat_u64) (use assms in simp)
  ultimately have e: "(uva n - uva k) div PGSIZE = of_nat (n - k)" by (simp add: word_unat_eq_iff)
  have d: "n - k < 2 ^ 31" using assms by simp
  then have "ucast (of_nat (n - k) :: u64) = (of_nat (n - k) :: 32 word)"
    by (simp only: unsigned_of_nat) (simp add: take_bit_nat_eq_self)
  moreover have "scast (of_nat (n - k) :: 32 word) = (of_nat (n - k) :: u64)"
    using d by (simp only: signed_of_nat) (simp add: signed_take_bit_int_eq_self)
  ultimately show ?thesis unfolding e by simp
qed

lemma uvmdealloc_spaces:
  assumes "spaces_inv s ((pt, npages_of oldsz) # AS)"
  shows "\<exists>s'. uvmdealloc pt oldsz newsz s = Inr (min oldsz newsz, s') \<and> spaces_inv s' ((pt, npages_of (min oldsz newsz)) # AS) \<and>
    s' = s\<lparr>mem := mem s', freelist := freelist s', pageref := pageref s'\<rparr> \<and>
    same_view ((pt, npages_of (min oldsz newsz)) # AS) s s'"
proof (cases "newsz \<ge> oldsz")
  case True
  then show ?thesis using assms by (simp add: uvmdealloc_def min_def)
next
  case False
  then have m: "min oldsz newsz = newsz" by (simp add: min_def)
  have le: "npages_of newsz \<le> npages_of oldsz" using False by (intro npages_mono) simp
  have n26: "npages_of oldsz \<le> 2 ^ 26" using spaces_invD(4) [OF assms, of pt] by simp
  have u: "PGROUNDUP newsz = uva (npages_of newsz)" "PGROUNDUP oldsz = uva (npages_of oldsz)"
    using PGROUNDUP_uva le n26 by auto
  obtain s' where s': "uvmunmap pt (uva (npages_of newsz)) (of_nat (npages_of oldsz - npages_of newsz)) True s = Inr s'"
    "spaces_inv s' ((pt, npages_of newsz) # AS)" "s' = s\<lparr>mem := mem s', freelist := freelist s', pageref := pageref s'\<rparr>"
    "same_view ((pt, npages_of newsz) # AS) s s'"
    using uvmunmap_spaces [OF assms le] unfolding same_view_def by blast
  show ?thesis
  proof (cases "uva (npages_of newsz) < uva (npages_of oldsz)")
    case True
    then show ?thesis
      unfolding m using False s' npages_cast [OF le n26] by (simp add: uvmdealloc_def u Let_def)
  next
    case F: False
    then have "npages_of newsz = npages_of oldsz" using le n26 by (simp add: word_less_nat_alt unat_uva)
    then show ?thesis using assms False u by (simp add: uvmdealloc_def m)
  qed
qed

section \<open>Growing\<close>

lemma spaces_frame:
  assumes inv: "spaces_inv s AS" and ok: "kmem_ok s'" "kend s' = kend s"
    and tab: "\<And>x m. (x, m) \<in> set AS \<Longrightarrow> pt_ok s' x"
      "\<And>x m y l. (x, m) \<in> set AS \<Longrightarrow> (y, l) \<in> set AS \<Longrightarrow> x \<noteq> y \<Longrightarrow> pt_pages (mem s') x \<inter> pt_pages (mem s') y = {}"
    and ent: "\<And>x m j. (x, m) \<in> set AS \<Longrightarrow> j < m \<Longrightarrow> upte s' x j = upte s x j"
      "\<And>x m j y l. (x, m) \<in> set AS \<Longrightarrow> j < m \<Longrightarrow> (y, l) \<in> set AS \<Longrightarrow> upa s x j \<notin> pt_pages (mem s') y"
    and ref: "\<And>x m j. (x, m) \<in> set AS \<Longrightarrow> j < m \<Longrightarrow> PAGE2REF (upa s x j) s' = PAGE2REF (upa s x j) s"
      "\<And>p. vpage (kend s) p \<Longrightarrow> 0 \<le> PAGE2REF p s'"
  shows "spaces_inv s' AS"
proof -
  note a = spaces_invD [OF inv]
  have m: "mappings s' AS p = mappings s AS p" for p by (rule mappings_cong) (simp add: upa_def ent(1))
  show ?thesis
  proof (rule spaces_invI)
    fix x m j assume x: "(x, m) \<in> set AS" "j < m"
    show "user_entry s' AS (upte s' x j)"
      using ent [OF x] ref(1) [OF x] user_entryD [OF a(6) [OF x]] ok(2) by (intro user_entryI) (auto simp: upa_def)
  next
    fix p assume "vpage (kend s') p"
    then have p: "vpage (kend s) p" using ok(2) by simp
    show "int (card (mappings s' AS p)) \<le> PAGE2REF p s'"
    proof (cases "mappings s AS p = {}")
      case True
      then show ?thesis using ref(2) [OF p] m by simp
    next
      case False
      then obtain x j m where "(x, m) \<in> set AS" "j < m" "upa s x j = p"
        by (metis all_not_in_conv mappings_iff surj_pair)
      then show ?thesis using ref(1) a(7) [OF p] m by auto
    qed
  qed (use ok(1) a(2,4) tab in auto)
qed

lemma same_view_frame:
  assumes "spaces_inv s AS" "spaces_inv s' AS" "\<And>x m j. (x, m) \<in> set AS \<Longrightarrow> j < m \<Longrightarrow> upte s' x j = upte s x j"
    "same_off P (mem s) (mem s')" "\<And>x m j. (x, m) \<in> set AS \<Longrightarrow> j < m \<Longrightarrow> upa s x j \<notin> P"
  shows "same_view AS s s'"
  unfolding same_view_def
proof (intro ballI allI impI, clarify)
  fix x m va assume x: "(x, m) \<in> set AS" "pgno va < m"
  have "user_pa s' x va = user_pa s x va"
    using spaces_page(2) [OF assms(1) x] spaces_page(2) [OF assms(2) x] assms(3) [OF x] by (simp add: upa_def)
  then show "user_byte s' x va = user_byte s x va"
    using same_offD [OF assms(4)] assms(5) [OF x] spaces_page(1) [OF assms(1) x] by (simp add: user_byte_def)
qed

lemma spaces_extend:
  assumes inv: "spaces_inv s ((pt, k) # AS)" and k: "k < 2 ^ 26"
    and e: "leaf_ok (upte s pt k)" "vpage (kend s) (upa s pt k)" "PAGE2REF (upa s pt k) s = 1"
      "\<And>x m. (x, m) \<in> set ((pt, k) # AS) \<Longrightarrow> upa s pt k \<notin> pt_pages (mem s) x" "mappings s ((pt, k) # AS) (upa s pt k) = {}"
  shows "spaces_inv s ((pt, Suc k) # AS)"
proof -
  note a = spaces_invD [OF inv]
  have bk: "\<exists>m'. (x, m') \<in> set ((pt, k) # AS)" if "(x, m) \<in> set ((pt, Suc k) # AS)" for x m using that by auto
  have ue: "user_entry s ((pt, Suc k) # AS) z" if z: "user_entry s ((pt, k) # AS) z" for z
    using z by (simp add: user_entry_def)
  have m: "mappings s ((pt, Suc k) # AS) p = (if p = upa s pt k then {(pt, k)} else mappings s ((pt, k) # AS) p)" for p
    using e(5) by (auto simp: mappings_def less_Suc_eq)
  show ?thesis
  proof (rule spaces_invI)
    fix x m j assume x: "(x, m) \<in> set ((pt, Suc k) # AS)" "j < m"
    show "user_entry s ((pt, Suc k) # AS) (upte s x j)"
    proof (cases "x = pt \<and> j = k")
      case True
      then show ?thesis using e(1-4) by (intro ue user_entryI) (auto simp: upa_def)
    next
      case False
      then have "(x, m) \<in> set ((pt, k) # AS) \<or> x = pt \<and> j < k" using x by auto
      then show ?thesis using a(6) [of x m j] a(6) [of pt k j] x(2) by (intro ue) auto
    qed
  next
    fix p assume p: "vpage (kend s) p"
    show "int (card (mappings s ((pt, Suc k) # AS) p)) \<le> PAGE2REF p s" using a(7) [OF p] m e(3) by simp
  next
    fix x n y l assume x: "(x, n) \<in> set ((pt, Suc k) # AS)" "(y, l) \<in> set ((pt, Suc k) # AS)" "x \<noteq> y"
    show "pt_pages (mem s) x \<inter> pt_pages (mem s) y = {}" using bk [OF x(1)] bk [OF x(2)] a(5) x(3) by blast
  next
    fix x n assume x: "(x, n) \<in> set ((pt, Suc k) # AS)"
    show "pt_ok s x \<and> n \<le> 2 ^ 26" using x a(3) [of x] a(4) [of x n] k by auto
  qed (use a(1,2) in auto)
qed

lemma spaces_pt_grow:
  assumes inv: "spaces_inv s AS" and pt: "(pt, k) \<in> set AS" and g: "pt_grow pt s s'" "\<forall>j<k. upte s' pt j = upte s pt j"
  shows "spaces_inv s' AS" "same_view AS s s'" "(x, m) \<in> set AS \<Longrightarrow> x \<noteq> pt \<Longrightarrow> pt_pages (mem s') x = pt_pages (mem s) x"
    "\<And>p. \<not> free_page s p \<Longrightarrow> (\<And>x m. (x, m) \<in> set AS \<Longrightarrow> p \<notin> pt_pages (mem s) x) \<Longrightarrow> (x, m) \<in> set AS \<Longrightarrow> p \<notin> pt_pages (mem s') x"
    "mappings s' AS p = mappings s AS p"
proof -
  note a = spaces_invD [OF inv] and d = pt_growD [OF g(1)]
  have o: "pt_ok s' x" "pt_pages (mem s') x = pt_pages (mem s) x" "upte s' x j = upte s x j" "pt_pages (mem s') pt \<inter> pt_pages (mem s') x = {}"
    if x: "(x, m) \<in> set AS" "x \<noteq> pt" for x m j
    using pt_grow_other [OF g(1) a(3) [OF x(1)]] a(5) [OF pt x(1)] x(2) by (auto simp: upte_def)
  show "pt_pages (mem s') x = pt_pages (mem s) x" if "(x, m) \<in> set AS" "x \<noteq> pt" by (rule o(2) [OF that])
  have nt: "p \<notin> pt_pages (mem s') x"
    if "\<not> free_page s p" "\<And>x m. (x, m) \<in> set AS \<Longrightarrow> p \<notin> pt_pages (mem s) x" "(x, m) \<in> set AS" for p x m
    using d(8) [of p] that o(2) [OF that(3)] pt by (cases "x = pt") blast+
  then show "\<And>p. \<not> free_page s p \<Longrightarrow> (\<And>x m. (x, m) \<in> set AS \<Longrightarrow> p \<notin> pt_pages (mem s) x) \<Longrightarrow> (x, m) \<in> set AS \<Longrightarrow> p \<notin> pt_pages (mem s') x" .
  have nf: "\<not> free_page s (upa s x j)" if "(x, m) \<in> set AS" "j < m" for x m j
    using spaces_ref [OF inv that] by (simp add: free_page_def)
  have tb: "upa s x j \<notin> pt_pages (mem s') y" if "(x, m) \<in> set AS" "j < m" "(y, l) \<in> set AS" for x m j y l
    using nt [OF nf [OF that(1,2)] _ that(3)] user_entryD(3) [OF a(6) [OF that(1,2)]] by blast
  have kx: "m = k" if "(pt, m) \<in> set AS" for m using a(2) pt that eq_key_imp_eq_value by fastforce
  have ent: "upte s' x j = upte s x j" if "(x, m) \<in> set AS" "j < m" for x m j
    using o(3) [OF that(1)] g(2) kx that by (cases "x = pt") auto
  show "mappings s' AS p = mappings s AS p" by (rule mappings_cong) (simp add: upa_def ent)
  have ref0: "0 \<le> PAGE2REF p s'" if p: "vpage (kend s) p" for p
  proof (cases "p \<in> pt_pages (mem s') pt")
    case True
    then show ?thesis using pt_okD(3) [OF d(3)] by simp
  next
    case False
    then show ?thesis using d(9) [OF p] a(7) [OF p] by linarith
  qed
  show sp: "spaces_inv s' AS"
  proof (rule spaces_frame [OF inv d(2,6) _ _ ent tb])
    show "pt_ok s' x" if "(x, m) \<in> set AS" for x m using o(1) [OF that] d(3) by (cases "x = pt") auto
    show "pt_pages (mem s') x \<inter> pt_pages (mem s') y = {}" if "(x, m) \<in> set AS" "(y, l) \<in> set AS" "x \<noteq> y" for x m y l
    proof (cases "x = pt \<or> y = pt")
      case True
      then show ?thesis using o(4) [OF that(1)] o(4) [OF that(2)] that(3) by blast
    next
      case False
      then show ?thesis using o(2) [OF that(1)] o(2) [OF that(2)] a(5) [OF that] by blast
    qed
    show "PAGE2REF (upa s x j) s' = PAGE2REF (upa s x j) s" if "(x, m) \<in> set AS" "j < m" for x m j
      using d(9) user_entryD(2) [OF a(6) [OF that]] tb [OF that pt] by blast
  qed (use ref0 in auto)
  show "same_view AS s s'" by (rule same_view_frame [OF inv sp ent d(5) tb [OF _ _ pt]])
qed

text \<open>A page that belongs to no address space may change, and may be taken or given back.\<close>

lemma spaces_page_change:
  assumes inv: "spaces_inv s AS" and ok: "kmem_ok s'" "kend s' = kend s" "same_off {p} (mem s) (mem s')"
    and p: "\<And>x m. (x, m) \<in> set AS \<Longrightarrow> p \<notin> pt_pages (mem s) x" "mappings s AS p = {}"
    and ref: "\<And>q. vpage (kend s) q \<Longrightarrow> q \<noteq> p \<Longrightarrow> PAGE2REF q s' = PAGE2REF q s" "PAGE2REF p s' \<ge> 0"
  shows "spaces_inv s' AS" "same_view AS s s'" "(x, m) \<in> set AS \<Longrightarrow> pt_pages (mem s') x = pt_pages (mem s) x \<and> upte s' x j = upte s x j"
proof -
  note a = spaces_invD [OF inv]
  have o: "pt_ok s' x \<and> pt_pages (mem s') x = pt_pages (mem s) x \<and> (\<forall>j. upte s' x j = upte s x j)" if x: "(x, m) \<in> set AS" for x m
  proof -
    have d: "{p} \<inter> pt_pages (mem s) x = {}" using p(1) [OF x] by blast
    have "PAGE2REF y s' = PAGE2REF y s" if "y \<in> pt_pages (mem s) x" for y
      using ref(1) [OF pt_okD(2) [OF a(3) [OF x] that]] p(1) [OF x] that by blast
    from pt_ok_frame [OF a(3) [OF x] ok(3) d ok(2) this] show ?thesis by blast
  qed
  then show "(x, m) \<in> set AS \<Longrightarrow> pt_pages (mem s') x = pt_pages (mem s) x \<and> upte s' x j = upte s x j" by blast
  have np: "upa s x j \<noteq> p" if "(x, m) \<in> set AS" "j < m" for x m j using mappingsI [OF that] p(2) by blast
  show sp: "spaces_inv s' AS"
  proof (rule spaces_frame [OF inv ok(1,2)])
    show "upa s x j \<notin> pt_pages (mem s') y" if "(x, m) \<in> set AS" "j < m" "(y, l) \<in> set AS" for x m j y l
      using user_entryD(3) [OF a(6) [OF that(1,2)] that(3)] o [OF that(3)] by simp
    show "PAGE2REF (upa s x j) s' = PAGE2REF (upa s x j) s" if "(x, m) \<in> set AS" "j < m" for x m j
      using ref(1) user_entryD(2) [OF a(6) [OF that]] np [OF that] by blast
    show "0 \<le> PAGE2REF q s'" if "vpage (kend s) q" for q
      using ref(1) [OF that] ref(2) a(7) [OF that] by (cases "q = p") auto
  qed (use o a(5) in auto)
  show "same_view AS s s'" by (rule same_view_frame [OF inv sp _ ok(3)]) (use o np in auto)
qed

text \<open>One round of \<open>uvmalloc\<close>: a zeroed page at the end of the address space, or the memory has run out.\<close>

definition zeroed :: "addr \<Rightarrow> 'a kmst_scheme \<Rightarrow> 'a kmst_scheme" where
  "zeroed p s = (alloced p s)\<lparr>mem := memset p 0 4096 (mem (alloced p s))\<rparr>"

lemma spaces_zeroed:
  assumes inv: "spaces_inv s AS" and k: "kalloc s = Inr (p, s1)" "p \<noteq> 0"
  shows "s1 = alloced p s" "spaces_inv (zeroed p s) AS" "same_view AS s (zeroed p s)" "vpage (kend s) p"
    "PAGE2REF p (zeroed p s) = 1" "mappings (zeroed p s) AS p = {}" "kend (zeroed p s) = kend s"
    "\<And>x m. (x, m) \<in> set AS \<Longrightarrow> p \<notin> pt_pages (mem (zeroed p s)) x \<and> upte (zeroed p s) x j = upte s x j"
    "off < PGSIZE \<Longrightarrow> mem (zeroed p s) (p + off) = 0"
proof -
  note a = spaces_invD [OF inv]
  obtain ps where u: "unlocked s" and i: "kmem_inv s ps" using a(1) by (auto simp: kmem_ok_def)
  obtain qs where ps: "ps = p # qs" "s1 = alloced p s"
    using kalloc_empty [of s] kmem_inv_kalloc(1) [of s] i k u by (cases ps) auto
  show "s1 = alloced p s" by (rule ps(2))
  have i': "kmem_inv s (p # qs)" using i ps(1) by simp
  have p: "vpage (kend s) p" "PAGE2REF p s \<le> 0" "free_page s p" using kmem_invD(3,5) [OF i', of p] by (auto simp: free_page_def)
  have pg: "pgal p" using p(1) by (rule vpage_pgal)
  show "vpage (kend s) p" by (rule p(1))
  show ke: "kend (zeroed p s) = kend s" by (simp add: zeroed_def)
  have so: "same_off {p} (mem s) (mem (zeroed p s))"
    unfolding zeroed_def by (simp add: same_off_def memset_page [OF pg])
  have ref: "PAGE2REF q (zeroed p s) = (if q = p then 1 else PAGE2REF q s)" if "vpage (kend s) q" for q
    using PAGE2REF_alloced [OF pg vpage_pgal [OF that], of s] by (simp add: zeroed_def)
  show r1: "PAGE2REF p (zeroed p s) = 1" using ref [OF p(1)] by simp
  have nf: "\<not> free_page (alloced p s) q" if "q \<in> {p}" for q using that by (simp add: free_page_def)
  have so1: "same_off {p} (mem (alloced p s)) (memset p 0 4096 (mem (alloced p s)))" by (rule same_off_memset [OF pg])
  have "kmem_inv (zeroed p s) qs" unfolding zeroed_def
    by (rule kmem_inv_mem [OF kmem_inv_kalloc(2) [OF i'] so1 nf]) (use u in \<open>simp_all\<close>)
  then have km: "kmem_ok (zeroed p s)" using u unlocked_held [of "zeroed p s" s] by (auto simp: kmem_ok_def zeroed_def)
  have nt: "p \<notin> pt_pages (mem s) x" if "(x, m) \<in> set AS" for x m using pt_okD(4) [OF a(3) [OF that]] p(3) by blast
  have "card (mappings s AS p) = 0" using a(7) [OF p(1)] p(2) by linarith
  then have me: "mappings s AS p = {}" by simp
  have rf: "PAGE2REF q (zeroed p s) = PAGE2REF q s" if "vpage (kend s) q" "q \<noteq> p" for q using ref [OF that(1)] that(2) by simp
  have r0: "0 \<le> PAGE2REF p (zeroed p s)" using r1 by simp
  show "spaces_inv (zeroed p s) AS" by (rule spaces_page_change(1) [OF inv km ke so _ me _ r0]) (use nt rf in auto)
  show "same_view AS s (zeroed p s)" by (rule spaces_page_change(2) [OF inv km ke so _ me _ r0]) (use nt rf in auto)
  show e: "p \<notin> pt_pages (mem (zeroed p s)) x \<and> upte (zeroed p s) x j = upte s x j" if x: "(x, m) \<in> set AS" for x m j
  proof -
    have "pt_pages (mem (zeroed p s)) x = pt_pages (mem s) x \<and> upte (zeroed p s) x j = upte s x j"
      by (rule spaces_page_change(3) [OF inv km ke so _ me _ r0 x]) (use nt rf in auto)
    then show ?thesis using nt [OF x] by simp
  qed
  show "mappings (zeroed p s) AS p = {}"
    using mappings_cong [of AS "zeroed p s" s p] e me by (simp add: upa_def)
  show "mem (zeroed p s) (p + off) = 0" if "off < PGSIZE"
    using PGROUNDDOWN_add [OF pg that] by (simp add: zeroed_def memset_page [OF pg])
qed

lemma npages_uva: "k \<le> 2 ^ 26 \<Longrightarrow> npages_of (uva k) = k"
  by (simp add: npages_of_def unat_uva)

lemma min_uva: "k \<le> n \<Longrightarrow> n \<le> 2 ^ 26 \<Longrightarrow> min (uva n) (uva k) = uva k"
  by (simp add: min_def word_le_nat_alt unat_uva)

text \<open>Going back to \<open>n0\<close> pages after a failure.\<close>

lemma uvmalloc_undo:
  assumes "spaces_inv s ((pt, k) # AS)" "n0 \<le> k"
  shows "\<exists>s'. uvmdealloc pt (uva k) (uva n0) s = Inr (uva n0, s') \<and> spaces_inv s' ((pt, n0) # AS) \<and> same_view ((pt, n0) # AS) s s'"
proof -
  have k: "k \<le> 2 ^ 26" using spaces_invD(4) [OF assms(1), of pt] by simp
  show ?thesis
    using uvmdealloc_spaces [of s pt "uva k" AS "uva n0"] assms npages_uva [OF k] npages_uva [of n0] min_uva [OF assms(2) k] k by auto
qed

lemma uvmalloc_round:
  assumes inv: "spaces_inv s ((pt, k) # AS)" and k: "n0 \<le> k" "k < 2 ^ 26" "uva k < newsz" "\<not> pte_has (upte s pt k) PTE_V"
  obtains s' where "uvmalloc_loop pt (uva n0) (uva k) newsz s = Inr (0, s')" "spaces_inv s' ((pt, n0) # AS)" "same_view ((pt, n0) # AS) s s'"
    | s' where "uvmalloc_loop pt (uva n0) (uva k) newsz s = uvmalloc_loop pt (uva n0) (uva (Suc k)) newsz s'"
      "spaces_inv s' ((pt, Suc k) # AS)" "same_view ((pt, k) # AS) s s'" "\<And>va. pgno va = k \<Longrightarrow> user_byte s' pt va = 0"
      "\<And>j. j < 2 ^ 26 \<Longrightarrow> j \<noteq> k \<Longrightarrow> upte s' pt j = upte s pt j"
proof -
  note a = spaces_invD [OF inv]
  have i: "(pt, k) \<in> set ((pt, k) # AS)" by simp
  show thesis
  proof (rule kalloc_cases [OF a(1)])
    assume f: "kalloc s = Inr (0, s)"
    obtain s' where s': "uvmdealloc pt (uva k) (uva n0) s = Inr (uva n0, s')" "spaces_inv s' ((pt, n0) # AS)" "same_view ((pt, n0) # AS) s s'"
      using uvmalloc_undo [OF inv k(1)] by blast
    have "uvmalloc_loop pt (uva n0) (uva k) newsz s = Inr (0, s')" by (subst uvmalloc_loop.simps) (simp add: k(3) f s'(1))
    then show thesis by (rule that(1) [OF _ s'(2,3)])
  next
    fix p s1 assume p: "kalloc s = Inr (p, s1)" "p \<noteq> 0"
    note z = spaces_zeroed [OF inv p]
    note za = spaces_invD [OF z(2)]
    have inv': "\<not> pte_has (lookup (mem (zeroed p s)) pt (uva k)) PTE_V" using z(8) [OF i, of k] k(4) by (simp add: upte_def)
    have k26: "k \<le> 2 ^ 26" using k(2) by simp
    have sz: "(alloced p s)\<lparr>mem := memset p 0 4096 (mem (alloced p s))\<rparr> = zeroed p s" by (simp add: zeroed_def)
    have nfz: "\<not> free_page (zeroed p s) p" using z(5) by (simp add: free_page_def)
    have loop: "uvmalloc_loop pt (uva n0) (uva k) newsz s =
        bnd (mappages pt (uva k) PGSIZE p user_perm (zeroed p s)) (\<lambda>(r, s).
          if r \<noteq> 0 then bnd (kfree p s) (\<lambda>s. bnd (uvmdealloc pt (uva k) (uva n0) s) (\<lambda>(_, s). Inr (0, s)))
          else uvmalloc_loop pt (uva n0) (uva (Suc k)) newsz s)"
      by (subst uvmalloc_loop.simps) (simp only: k(3) if_True p(1) z(1) bnd_Inr prod.case Let_def sz p(2) if_False user_perm_def uva_Suc)
    show thesis
    proof (rule mappages_page [OF za(1) za(3) [OF i] pgal_uva [OF k26] uva_less [OF k(2)] inv', where pa = p and perm = user_perm])
      fix s2 assume m: "mappages pt (uva k) PGSIZE p user_perm (zeroed p s) = Inr (- 1, s2)" "pt_grow pt (zeroed p s) s2"
        "\<And>vb. vb < MAXVA \<Longrightarrow> lookup (mem s2) pt vb = lookup (mem (zeroed p s)) pt vb"
      have same: "\<forall>j<k. upte s2 pt j = upte (zeroed p s) pt j" using m(3) [OF uva_less] k(2) by (simp add: upte_def)
      note g = spaces_pt_grow [OF z(2) i m(2) same]
      have p2: "vpage (kend s2) p" "PAGE2REF p s2 = 1"
        using z(4,5,7) pt_growD(6) [OF m(2)] pt_growD(9) [OF m(2), of p] g(4) [OF nfz _ i] z(8) by auto
      obtain s3 where s3: "kfree p s2 = Inr s3" "frees {p} s2 s3" "same_off {p} (mem s2) (mem s3)"
        by (rule kfree_frees [OF spaces_invD(1) [OF g(1)] p2])
      note c = spaces_page_change [OF g(1) freesD(1,3) [OF s3(2)] s3(3)]
      have me: "mappings s2 ((pt, k) # AS) p = {}" using g(5) [of p] z(6) by simp
      have nt: "p \<notin> pt_pages (mem s2) x" if "(x, m) \<in> set ((pt, k) # AS)" for x m using g(4) [OF nfz _ that] z(8) by blast
      have rf: "PAGE2REF q s3 = PAGE2REF q s2" if "vpage (kend s2) q" "q \<noteq> p" for q using freesD(4) [OF s3(2) that(1)] that(2) by simp
      have r0: "0 \<le> PAGE2REF p s3" using freesD(4) [OF s3(2) p2(1)] p2(2) by simp
      have sp3: "spaces_inv s3 ((pt, k) # AS)" by (rule c(1)) (use nt me rf r0 in auto)
      have v3: "same_view ((pt, k) # AS) s2 s3" by (rule c(2)) (use nt me rf r0 in auto)
      obtain s' where s': "uvmdealloc pt (uva k) (uva n0) s3 = Inr (uva n0, s')" "spaces_inv s' ((pt, n0) # AS)" "same_view ((pt, n0) # AS) s3 s'"
        using uvmalloc_undo [OF sp3 k(1)] by blast
      have "same_view ((pt, k) # AS) s s3" by (rule same_view_trans [OF same_view_trans [OF z(3) g(2)] v3])
      then have "same_view ((pt, n0) # AS) s s'" by (rule same_view_trans [OF same_view_less [OF _ k(1)] s'(3)])
      then show thesis by (intro that(1) [OF _ s'(2)]) (simp_all add: loop m(1) s3(1) s'(1))
    next
      fix s2 assume m: "mappages pt (uva k) PGSIZE p user_perm (zeroed p s) = Inr (0, s2)" "pt_grow pt (zeroed p s) s2"
        "\<And>vb. vb < MAXVA \<Longrightarrow> lookup (mem s2) pt vb = (if PGROUNDDOWN vb = uva k then PA2PTE p OR user_perm OR PTE_V else lookup (mem (zeroed p s)) pt vb)"
      have ent: "upte s2 pt j = (if j = k then PA2PTE p OR user_perm OR PTE_V else upte s pt j)" if "j < 2 ^ 26" for j
        using m(3) [OF uva_less [OF that]] that k26 z(8) [OF i, of j] by (simp add: upte_def PGROUNDDOWN_id pgal_uva uva_inj)
      have same: "\<forall>j<k. upte s2 pt j = upte (zeroed p s) pt j" using ent k(2) z(8) [OF i] by simp
      note g = spaces_pt_grow [OF z(2) i m(2) same]
      have nt: "p \<notin> pt_pages (mem s2) x" if "(x, m) \<in> set ((pt, k) # AS)" for x m using g(4) [OF nfz _ that] z(8) by blast
      have p2: "vpage (kend s2) p" "PAGE2REF p s2 = 1"
        using z(4,5,7) pt_growD(6) [OF m(2)] pt_growD(9) [OF m(2), of p] nt [OF i] by auto
      have me: "mappings s2 ((pt, k) # AS) p = {}" using g(5) [of p] z(6) by simp
      have up: "upa s2 pt k = p"
        using ent [OF k(2)] PTE2PA_PA2PTE [OF vpage_pgal [OF z(4)] vpage_small [OF z(4)], of "user_perm OR PTE_V"]
        by (simp add: upa_def user_perm_def or.assoc)
      have ext: "spaces_inv s2 ((pt, Suc k) # AS)"
        by (rule spaces_extend [OF g(1) k(2)]) (use ent [OF k(2)] leaf_ok_user_perm up p2 nt me in auto)
      have "user_byte s2 pt va = 0" if va: "pgno va = k" for va
      proof -
        have "user_pa s2 pt va = p + (va - PGROUNDDOWN va)" using spaces_page(2) [OF ext, of pt "Suc k" va] up va by simp
        moreover have "PGROUNDDOWN (p + (va - PGROUNDDOWN va)) = p" by (rule PGROUNDDOWN_add [OF vpage_pgal [OF z(4)] off_less_PGSIZE])
        ultimately show ?thesis
          using same_offD [OF pt_growD(5) [OF m(2)], of "p + (va - PGROUNDDOWN va)"] nt [OF i] z(9) [OF off_less_PGSIZE] by (simp add: user_byte_def)
      qed
      then show thesis
        using ent by (intro that(2) [OF _ ext same_view_trans [OF z(3) g(2)]]) (simp_all add: loop m(1))
    qed
  qed
qed

lemma uvmalloc_loop_ok:
  assumes "spaces_inv s ((pt, k) # AS)" "n0 \<le> k" "k \<le> npages_of newsz" "npages_of newsz \<le> 2 ^ 26"
    "\<forall>j. k \<le> j \<longrightarrow> j < npages_of newsz \<longrightarrow> \<not> pte_has (upte s pt j) PTE_V"
  shows "\<exists>r s'. uvmalloc_loop pt (uva n0) (uva k) newsz s = Inr (r, s') \<and> same_view ((pt, n0) # AS) s s' \<and>
    (r = newsz \<and> spaces_inv s' ((pt, npages_of newsz) # AS) \<and>
       (\<forall>va. n0 \<le> pgno va \<longrightarrow> pgno va < k \<longrightarrow> user_byte s' pt va = user_byte s pt va) \<and>
       (\<forall>va. k \<le> pgno va \<longrightarrow> pgno va < npages_of newsz \<longrightarrow> user_byte s' pt va = 0) \<or>
     r = 0 \<and> spaces_inv s' ((pt, n0) # AS))"
  using assms
proof (induction "npages_of newsz - k" arbitrary: k s)
  case 0
  have "\<not> uva k < newsz" using uva_less_iff [of k newsz] 0 by simp
  then show ?case using 0 by (subst uvmalloc_loop.simps) auto
next
  case (Suc d)
  have k: "k < npages_of newsz" "k < 2 ^ 26" using Suc.hyps(2) Suc.prems(4) by auto
  have lt: "uva k < newsz" using uva_less_iff [of k newsz] k by simp
  have nv: "\<not> pte_has (upte s pt k) PTE_V" using Suc.prems(5) k by simp
  show ?case
  proof (rule uvmalloc_round [OF Suc.prems(1,2) k(2) lt nv])
    fix s' assume "uvmalloc_loop pt (uva n0) (uva k) newsz s = Inr (0, s')" "spaces_inv s' ((pt, n0) # AS)" "same_view ((pt, n0) # AS) s s'"
    then show ?thesis by blast
  next
    fix s1 assume r: "uvmalloc_loop pt (uva n0) (uva k) newsz s = uvmalloc_loop pt (uva n0) (uva (Suc k)) newsz s1"
      "spaces_inv s1 ((pt, Suc k) # AS)" "same_view ((pt, k) # AS) s s1" "\<And>va. pgno va = k \<Longrightarrow> user_byte s1 pt va = 0"
      "\<And>j. j < 2 ^ 26 \<Longrightarrow> j \<noteq> k \<Longrightarrow> upte s1 pt j = upte s pt j"
    have "\<exists>r s'. uvmalloc_loop pt (uva n0) (uva (Suc k)) newsz s1 = Inr (r, s') \<and> same_view ((pt, n0) # AS) s1 s' \<and>
      (r = newsz \<and> spaces_inv s' ((pt, npages_of newsz) # AS) \<and>
         (\<forall>va. n0 \<le> pgno va \<longrightarrow> pgno va < Suc k \<longrightarrow> user_byte s' pt va = user_byte s1 pt va) \<and>
         (\<forall>va. Suc k \<le> pgno va \<longrightarrow> pgno va < npages_of newsz \<longrightarrow> user_byte s' pt va = 0) \<or>
       r = 0 \<and> spaces_inv s' ((pt, n0) # AS))"
      by (rule Suc.hyps(1) [OF _ r(2)]) (use Suc.hyps(2) Suc.prems r(5) k in auto)
    then obtain q s' where q: "uvmalloc_loop pt (uva n0) (uva (Suc k)) newsz s1 = Inr (q, s')" "same_view ((pt, n0) # AS) s1 s'"
      "q = newsz \<and> spaces_inv s' ((pt, npages_of newsz) # AS) \<and>
         (\<forall>va. n0 \<le> pgno va \<longrightarrow> pgno va < Suc k \<longrightarrow> user_byte s' pt va = user_byte s1 pt va) \<and>
         (\<forall>va. Suc k \<le> pgno va \<longrightarrow> pgno va < npages_of newsz \<longrightarrow> user_byte s' pt va = 0) \<or>
       q = 0 \<and> spaces_inv s' ((pt, n0) # AS)" by blast
    have v: "same_view ((pt, n0) # AS) s s'" by (rule same_view_trans [OF same_view_less [OF r(3) Suc.prems(2)] q(2)])
    have s1: "user_byte s1 pt va = user_byte s pt va" if "pgno va < k" for va using same_viewD [OF r(3), of pt k] that by simp
    from q(3) show ?thesis
    proof (elim disjE conjE)
      assume *: "q = newsz" "spaces_inv s' ((pt, npages_of newsz) # AS)"
        "\<forall>va. n0 \<le> pgno va \<longrightarrow> pgno va < Suc k \<longrightarrow> user_byte s' pt va = user_byte s1 pt va"
        "\<forall>va. Suc k \<le> pgno va \<longrightarrow> pgno va < npages_of newsz \<longrightarrow> user_byte s' pt va = 0"
      have "user_byte s' pt va = 0" if "k \<le> pgno va" "pgno va < npages_of newsz" for va
        using * r(4) [of va] that Suc.prems(2) by (cases "pgno va = k") auto
      then show ?thesis unfolding r(1) q(1) using v * s1 by auto
    next
      assume "q = 0" "spaces_inv s' ((pt, n0) # AS)"
      then show ?thesis unfolding r(1) q(1) using v by auto
    qed
  qed
qed

section \<open>Properties\<close>

text \<open>C8. Freeing a page table whose leaves are gone: the recursion of \<open>freewalk\<close> ends within the three levels of the
  table, every page of the table loses its one reference (so it is free afterwards and no page is freed twice), all
  other reference counts and the memory outside the table stay.\<close>

theorem freewalk_frees_tables:
  assumes "kmem_ok s" "pt_ok s pt" "no_leaves (mem s) pt"
  shows "\<exists>s'. freewalk 3 pt s = Inr s' \<and> kmem_ok s' \<and> same_off (pt_pages (mem s) pt) (mem s) (mem s') \<and>
    (\<forall>a. vpage (kend s) a \<longrightarrow> PAGE2REF a s' = (if a \<in> pt_pages (mem s) pt then 0 else PAGE2REF a s))"
proof -
  obtain s' where s': "freewalk 3 pt s = Inr s'" "frees (pt_pages (mem s) pt) s s'" "same_off (pt_pages (mem s) pt) (mem s) (mem s')"
    using freewalk_table [OF assms] by blast
  show ?thesis using s' freesD [OF s'(2)] pt_okD(3) [OF assms(2)] by auto
qed

theorem freewalk_frees_tables_witness:
  "\<exists>s'. freewalk 3 0x87FFD000 pt_ex = Inr s' \<and> PAGE2REF 0x87FFD000 s' = 0"
proof -
  have z: "ld64 (mem pt_ex) (pte_at 0x87FFD000 i) = 0" if "i < 512" for i
  proof -
    have "pte_at 0x87FFD000 i \<noteq> 0x87FFE000" using pte_at_page(1) [OF pgal_tops(1) that] PGROUNDDOWN_id [OF pgal_tops(2)] by auto
    then show ?thesis
      using ld64_st64 [OF pgal_al8 [OF pgal_tops(2)] pte_at_page(2) [OF pgal_tops(1) that], of "\<lambda>_. 0" "0x87FFF000"]
      by (simp add: pt_ex_def ld64_zero)
  qed
  note e = empty_table(2) [OF pgal_tops(1) z]
  have "no_leaves (mem pt_ex) 0x87FFD000"
    unfolding no_leaves_def
  proof (intro ballI allI impI)
    fix p t i assume p: "p \<in> paths" "node (mem pt_ex) 0x87FFD000 p = Some t" "i < (512 :: nat)" "pte_has (tentry (mem pt_ex) t i) PTE_V"
    have "t = 0x87FFD000" using pt_pagesI [OF p(1,2)] e by simp
    then show "length p < 2 \<and> \<not> pte_has (tentry (mem pt_ex) t i) (PTE_R OR PTE_W OR PTE_X)"
      using p(4) z [OF of_nat_512 [OF p(3)]] by (simp add: tentry_def)
  qed
  then show ?thesis
    using freewalk_frees_tables [OF pt_ex_kmem pt_ex_pt(1)] e vpage_last3 by auto
qed



text \<open>\<open>uvmdealloc\<close> shrinks the address space to \<open>newsz\<close> bytes and returns the size it has afterwards: the pages above
  are gone and their references dropped, all other pages of all processes read as before, and the invariant holds.\<close>

theorem uvmdealloc_correct:
  assumes "spaces_inv s ((pt, npages_of oldsz) # AS)"
  shows "\<exists>s'. uvmdealloc pt oldsz newsz s = Inr (min oldsz newsz, s') \<and>
    spaces_inv s' ((pt, npages_of (min oldsz newsz)) # AS) \<and> same_view ((pt, npages_of (min oldsz newsz)) # AS) s s'"
  using uvmdealloc_spaces [OF assms] by blast

theorem uvmdealloc_correct_witness:
  "\<exists>s'. uvmdealloc 0x87FFC000 0x1000 0x800 cw_ex = Inr (0x800, s') \<and> user_byte s' 0x87FFC000 5 = user_byte cw_ex 0x87FFC000 5"
proof -
  have n: "npages_of 0x800 = 1" "npages_of 0x1000 = 1" "pgno 5 = 0" by (simp_all add: npages_of_def pgno_def)
  have "spaces_inv cw_ex [(0x87FFC000, 1), (0x87FFB000, 0)]" by (rule spaces_inv_perm [OF cw_ex_spaces]) auto
  then show ?thesis
    using uvmdealloc_correct [of cw_ex "0x87FFC000" "0x1000" "[(0x87FFB000, 0)]" "0x800"] n by (auto simp: same_view_def)
qed

end
