(* ===== verification/Copyio.thy ===== *)
theory Copyio
  imports Uvm
begin

text \<open>
  Moving bytes between the kernel and user memory (\<open>copyin\<close>, \<open>copyinstr\<close>, \<open>copyout\<close> of kernel/vm.c). Reading
  never changes the state and never panics; it returns the bytes of the address range or -1 when a page of the
  range is not the user's. Writing goes through copy on write, so it is invisible to every other process.
\<close>

section \<open>Reading\<close>

definition acc :: "'a kmst_scheme \<Rightarrow> addr \<Rightarrow> u64 \<Rightarrow> bool" where
  "acc s pt va \<longleftrightarrow> va < MAXVA \<and> pte_has (lookup (mem s) pt va) PTE_V \<and> pte_has (lookup (mem s) pt va) PTE_U \<and>
     PTE2PA (lookup (mem s) pt va) \<noteq> 0"

lemma walkaddr_eq:
  assumes "pt_ok s pt"
  shows "walkaddr pt va s = Inr (if acc s pt va then PTE2PA (lookup (mem s) pt va) else 0, s)"
proof (cases "va < MAXVA")
  case True
  show ?thesis
  proof (cases "node (mem s) pt (vpath va)")
    case None
    then show ?thesis using True walk_False [OF True, of pt s] by (simp add: walkaddr_def acc_def lookup_def)
  next
    case (Some t)
    then show ?thesis
      using True walk_present [OF True Some] pt_ok_slot(1) [OF assms Some] node_lookup [OF Some]
      by (auto simp: walkaddr_def acc_def)
  qed
next
  case False
  then show ?thesis by (simp add: walkaddr_def acc_def not_less)
qed

lemma acc_page:
  assumes "PGROUNDDOWN vb = PGROUNDDOWN va"
  shows "acc s pt vb \<longleftrightarrow> acc s pt va"
proof -
  have "unat vb div 4096 = unat va div 4096" using assms by (simp add: word_unat_eq_iff unat_PGROUNDDOWN)
  moreover have "x < MAXVA \<longleftrightarrow> unat x div 4096 < 2 ^ 26" for x :: u64
    by (simp add: word_less_nat_alt div_less_iff_less_mult)
  ultimately have "vb < MAXVA \<longleftrightarrow> va < MAXVA" by simp
  moreover have "lookup (mem s) pt vb = lookup (mem s) pt va" using assms by (metis lookup_PGROUNDDOWN)
  ultimately show ?thesis by (simp add: acc_def)
qed

definition user_bytes :: "'a kmst_scheme \<Rightarrow> addr \<Rightarrow> u64 \<Rightarrow> nat \<Rightarrow> u8 list" where
  "user_bytes s pt va n = map (\<lambda>i. user_byte s pt (va + of_nat i)) [0..<n]"

lemma same_page_add:
  assumes "unat (va - PGROUNDDOWN va) + i < 4096"
  shows "PGROUNDDOWN (va + of_nat i) = PGROUNDDOWN va"
proof -
  have "va + of_nat i = PGROUNDDOWN va + ((va - PGROUNDDOWN va) + of_nat i)" by simp
  moreover have "unat ((va - PGROUNDDOWN va) + of_nat i :: u64) < 4096"
    using assms by (subst unat_word_ariths) (simp add: unat_of_nat_u64)
  then have "(va - PGROUNDDOWN va) + of_nat i < (4096 :: u64)" by (simp add: word_less_nat_alt)
  ultimately show ?thesis using PGROUNDDOWN_add [OF pgal_PGROUNDDOWN] by metis
qed

lemma step_len_page:
  assumes "0 < len" "i < unat (step_len va len)"
  shows "unat (va - PGROUNDDOWN va) + i < 4096"
proof -
  have "unat (va - PGROUNDDOWN va) < 4096" using off_less_PGSIZE [of va] by (simp add: word_less_nat_alt)
  moreover have "unat (step_len va len) \<le> 4096 - unat (va - PGROUNDDOWN va)"
    using calculation by (auto simp: step_len_def Let_def word_less_nat_alt unat_sub_if_size)
  ultimately show ?thesis using assms by linarith
qed

lemma step_addr: "PGROUNDDOWN va + PGSIZE = va + step_len va len \<or> step_len va len = len"
  by (auto simp: step_len_def Let_def)

lemma get_user_bytes:
  assumes "0 < len"
  shows "get_bytes (PTE2PA (lookup (mem s) pt va) + (va - PGROUNDDOWN va)) (unat (step_len va len)) (mem s) =
    user_bytes s pt va (unat (step_len va len))"
  unfolding get_bytes_def user_bytes_def
proof (rule map_cong [OF refl])
  fix i assume "i \<in> set [0..<unat (step_len va len)]"
  then have p: "PGROUNDDOWN (va + of_nat i) = PGROUNDDOWN va" using same_page_add [OF step_len_page [OF assms]] by simp
  have "lookup (mem s) pt (va + of_nat i) = lookup (mem s) pt va" by (metis lookup_PGROUNDDOWN p)
  then show "mem s (PTE2PA (lookup (mem s) pt va) + (va - PGROUNDDOWN va) + of_nat i) = user_byte s pt (va + of_nat i)"
    by (simp add: user_byte_def user_pa_def p algebra_simps)
qed

lemma user_bytes_append: "user_bytes s pt va m @ user_bytes s pt (va + of_nat m) n = user_bytes s pt va (m + n)"
proof -
  have "user_bytes s pt (va + of_nat m) n = map (\<lambda>i. user_byte s pt (va + of_nat i)) [m..<m + n]"
    unfolding user_bytes_def by (rule nth_equalityI) (simp_all add: algebra_simps)
  then show ?thesis using upt_add_eq_append [of 0 m n] by (simp add: user_bytes_def)
qed

lemma all_less_add: "(\<forall>i<m + n. P i) \<longleftrightarrow> (\<forall>i<m. P i) \<and> (\<forall>i<n. P (m + i))" for m n :: nat
  by (metis add.commute less_diff_conv2 le_add_diff_inverse linorder_not_le nat_add_left_cancel_less trans_less_add1)

text \<open>Either all bytes of a range are the user's, or \<open>n\<close> is the first that is not.\<close>

definition readable :: "'a kmst_scheme \<Rightarrow> addr \<Rightarrow> u64 \<Rightarrow> nat \<Rightarrow> int \<Rightarrow> nat \<Rightarrow> bool" where
  "readable s pt va len r n \<longleftrightarrow> (\<forall>i<n. acc s pt (va + of_nat i)) \<and>
     (r = 0 \<and> n = len \<or> r = - 1 \<and> n < len \<and> \<not> acc s pt (va + of_nat n))"

lemma readable_step:
  assumes "0 < len" "acc s pt va" "readable s pt (va + step_len va len) (unat (len - step_len va len)) r n"
  shows "readable s pt va (unat len) r (unat (step_len va len) + n)"
proof -
  note b = step_len_bounds [OF assms(1), of va]
  have l: "unat (len - step_len va len) = unat len - unat (step_len va len)" "unat (step_len va len) \<le> unat len"
    using b(2) by (simp_all add: unat_sub word_le_nat_alt)
  have "acc s pt (va + of_nat i)" if i: "i < unat (step_len va len) + n" for i
  proof (cases "i < unat (step_len va len)")
    case True
    then show ?thesis using acc_page [OF same_page_add [OF step_len_page [OF assms(1) True]], of s pt] assms(2) by simp
  next
    case False
    then have "acc s pt (va + step_len va len + of_nat (i - unat (step_len va len)))"
      using assms(3) i unfolding readable_def by (metis False add_diff_inverse_nat nat_add_left_cancel_less)
    then show ?thesis using False by (simp add: of_nat_diff algebra_simps)
  qed
  then show ?thesis using assms(3) l by (auto simp: readable_def algebra_simps)
qed

lemma copyin_0 [simp]: "copyin pt va 0 s = Inr (0, [], s)"
  by (subst copyin.simps) simp

lemma copyin_ok:
  assumes "pt_ok s pt"
  shows "\<exists>r n. copyin pt va len s = Inr (r, user_bytes s pt va n, s) \<and> readable s pt va (unat len) r n"
  using assms
proof (induction "unat len" arbitrary: va len rule: less_induct)
  case less
  show ?case
  proof (cases "0 < len")
    case False
    then have "len = 0" by (simp add: word_gt_0)
    then show ?thesis by (auto simp: readable_def user_bytes_def)
  next
    case True
    let ?n = "step_len va len"
    have w: "walkaddr pt (PGROUNDDOWN va) s = Inr (if acc s pt va then PTE2PA (lookup (mem s) pt va) else 0, s)"
      using walkaddr_eq [OF less.prems, of "PGROUNDDOWN va"] acc_page [of "PGROUNDDOWN va" va s pt] by simp
    show ?thesis
    proof (cases "acc s pt va")
      case False
      then have "copyin pt va len s = Inr (- 1, [], s)" using True w by (subst copyin.simps) (simp add: Let_def)
      then show ?thesis using False True by (auto simp: readable_def user_bytes_def unat_gt_0)
    next
      case acc: True
      obtain r n where r: "copyin pt (va + ?n) (len - ?n) s = Inr (r, user_bytes s pt (va + ?n) n, s)"
        "readable s pt (va + ?n) (unat (len - ?n)) r n"
        using less.hyps [OF step_len_dec [OF True] less.prems] by blast
      have r': "copyin pt (PGROUNDDOWN va + PGSIZE) (len - ?n) s = Inr (r, user_bytes s pt (va + ?n) n, s)"
        using step_addr [of va len] r by auto
      have "copyin pt va len s = Inr (r, user_bytes s pt va (unat ?n) @ user_bytes s pt (va + of_nat (unat ?n)) n, s)"
        using True acc w r' get_user_bytes [OF True, of s pt va]
        by (subst copyin.simps) (simp add: Let_def acc_def)
      then show ?thesis using readable_step [OF True acc r(2)] unfolding user_bytes_append by blast
    qed
  qed
qed

section \<open>Reading a string\<close>

lemma upt_0_Suc: "[0..<Suc n] = 0 # map Suc [0..<n]"
  by (simp add: map_Suc_upt upt_conv_Cons del: upt_Suc)

lemma copyinstr_page_eq:
  "copyinstr_page m p n = (let k = length (takeWhile (\<lambda>i. m (p + of_nat i) \<noteq> 0) [0..<n])
     in (get_bytes p (if k < n then Suc k else n) m, k < n))"
proof (induction n arbitrary: p)
  case (Suc n)
  have t: "takeWhile (\<lambda>i. m (p + of_nat i) \<noteq> 0) [0..<Suc n] =
      (if m p = 0 then [] else 0 # map Suc (takeWhile (\<lambda>i. m (p + 1 + of_nat i) \<noteq> 0) [0..<n]))"
    unfolding upt_0_Suc by (simp add: takeWhile_map o_def algebra_simps)
  have g: "get_bytes p (Suc k) m = m p # get_bytes (p + 1) k m" for k
    unfolding get_bytes_def upt_0_Suc by (simp add: o_def algebra_simps)
  show ?case unfolding t using Suc.IH [of "p + 1"] by (auto simp: Let_def g get_bytes_def [of _ 0])
qed (simp add: get_bytes_def)

text \<open>\<open>n\<close> bytes of a string: they end with the first zero byte, or there is none before the end or a foreign page.\<close>

definition string_read :: "'a kmst_scheme \<Rightarrow> addr \<Rightarrow> u64 \<Rightarrow> nat \<Rightarrow> int \<Rightarrow> nat \<Rightarrow> bool" where
  "string_read s pt va mx r n \<longleftrightarrow> (\<forall>i<n. acc s pt (va + of_nat i)) \<and>
     (r = 0 \<and> n \<le> mx \<and> (\<exists>k. n = Suc k \<and> user_byte s pt (va + of_nat k) = 0 \<and> (\<forall>i<k. user_byte s pt (va + of_nat i) \<noteq> 0)) \<or>
      r = - 1 \<and> (\<forall>i<n. user_byte s pt (va + of_nat i) \<noteq> 0) \<and> (n = mx \<or> n < mx \<and> \<not> acc s pt (va + of_nat n)))"

lemma string_read_step:
  assumes "\<forall>i<m. acc s pt (va + of_nat i) \<and> user_byte s pt (va + of_nat i) \<noteq> 0" "m \<le> mx"
    "string_read s pt (va + of_nat m) (mx - m) r n"
  shows "string_read s pt va mx r (m + n)"
proof -
  have e: "va + of_nat m + of_nat i = va + of_nat (m + i)" for i by simp
  from assms(3) consider k where "r = 0" "n = Suc k" "n \<le> mx - m" "user_byte s pt (va + of_nat (m + k)) = 0"
      "\<forall>i<k. user_byte s pt (va + of_nat (m + i)) \<noteq> 0" "\<forall>i<n. acc s pt (va + of_nat (m + i))"
    | "r = - 1" "\<forall>i<n. user_byte s pt (va + of_nat (m + i)) \<noteq> 0" "\<forall>i<n. acc s pt (va + of_nat (m + i))"
      "n = mx - m \<or> n < mx - m \<and> \<not> acc s pt (va + of_nat (m + n))"
    unfolding string_read_def e by blast
  then show ?thesis
  proof cases
    case (1 k)
    have "\<forall>i<m + k. user_byte s pt (va + of_nat i) \<noteq> 0" "\<forall>i<m + n. acc s pt (va + of_nat i)"
      unfolding all_less_add using 1 assms(1) by blast+
    then show ?thesis unfolding string_read_def using 1 assms(2) by (auto intro!: exI [of _ "m + k"])
  next
    case 2
    have "\<forall>i<m + n. user_byte s pt (va + of_nat i) \<noteq> 0" "\<forall>i<m + n. acc s pt (va + of_nat i)"
      unfolding all_less_add using 2 assms(1) by blast+
    then show ?thesis unfolding string_read_def using 2 assms(2) by auto
  qed
qed

lemma copyinstr_0 [simp]: "copyinstr pt va 0 s = Inr (- 1, [], s)"
  by (subst copyinstr.simps) simp

lemma copyinstr_page_user:
  assumes "0 < mx"
  shows "copyinstr_page (mem s) (PTE2PA (lookup (mem s) pt va) + (va - PGROUNDDOWN va)) (unat (step_len va mx)) =
    (let k = length (takeWhile (\<lambda>i. user_byte s pt (va + of_nat i) \<noteq> 0) [0..<unat (step_len va mx)])
     in (user_bytes s pt va (if k < unat (step_len va mx) then Suc k else unat (step_len va mx)), k < unat (step_len va mx)))"
proof -
  let ?p = "PTE2PA (lookup (mem s) pt va) + (va - PGROUNDDOWN va)" and ?n = "unat (step_len va mx)"
  have b: "mem s (?p + of_nat i) = user_byte s pt (va + of_nat i)" if "i < ?n" for i
    using get_user_bytes [OF assms, of s pt va] that unfolding get_bytes_def user_bytes_def by (simp add: list_eq_iff_nth_eq)
  then have "takeWhile (\<lambda>i. mem s (?p + of_nat i) \<noteq> 0) [0..<?n] = takeWhile (\<lambda>i. user_byte s pt (va + of_nat i) \<noteq> 0) [0..<?n]"
    by (intro takeWhile_cong) auto
  moreover have "get_bytes ?p j (mem s) = user_bytes s pt va j" if "j \<le> ?n" for j
    using b that by (simp add: get_bytes_def user_bytes_def)
  ultimately show ?thesis unfolding copyinstr_page_eq by (simp add: Let_def)
qed

lemma takeWhile_upt:
  fixes P :: "nat \<Rightarrow> bool" and n :: nat
  defines "k \<equiv> length (takeWhile P [0..<n])"
  shows "k \<le> n" "i < k \<Longrightarrow> P i" "k < n \<Longrightarrow> \<not> P k"
proof -
  show l: "k \<le> n" unfolding k_def using length_takeWhile_le [of P "[0..<n]"] by simp
  show "P i" if "i < k"
    using nth_mem [of i "takeWhile P [0..<n]"] set_takeWhileD [of _ P] takeWhile_nth [of i P "[0..<n]"] that l unfolding k_def by fastforce
  show "\<not> P k" if "k < n" using nth_length_takeWhile [of P "[0..<n]"] that unfolding k_def by simp
qed

lemma copyinstr_ok:
  assumes "pt_ok s pt"
  shows "\<exists>r n. copyinstr pt va mx s = Inr (r, user_bytes s pt va n, s) \<and> string_read s pt va (unat mx) r n"
  using assms
proof (induction "unat mx" arbitrary: va mx rule: less_induct)
  case less
  show ?case
  proof (cases "0 < mx")
    case False
    then have "mx = 0" by (simp add: word_gt_0)
    then show ?thesis by (auto simp: string_read_def user_bytes_def)
  next
    case True
    let ?n = "step_len va mx" and ?k = "length (takeWhile (\<lambda>i. user_byte s pt (va + of_nat i) \<noteq> 0) [0..<unat (step_len va mx)])"
    have w: "walkaddr pt (PGROUNDDOWN va) s = Inr (if acc s pt va then PTE2PA (lookup (mem s) pt va) else 0, s)"
      using walkaddr_eq [OF less.prems, of "PGROUNDDOWN va"] acc_page [of "PGROUNDDOWN va" va s pt] by simp
    note b = step_len_bounds [OF True, of va] and tw = takeWhile_upt [where P = "\<lambda>i. user_byte s pt (va + of_nat i) \<noteq> 0" and n = "unat (step_len va mx)"]
    have l: "unat (mx - ?n) = unat mx - unat ?n" "unat ?n \<le> unat mx" using b(2) by (simp_all add: unat_sub word_le_nat_alt)
    show ?thesis
    proof (cases "acc s pt va")
      case False
      then have "copyinstr pt va mx s = Inr (- 1, [], s)" using True w by (subst copyinstr.simps) (simp add: Let_def)
      then show ?thesis using False True by (auto simp: string_read_def user_bytes_def unat_gt_0 intro!: exI [of _ 0])
    next
      case acc: True
      have pg: "acc s pt (va + of_nat i)" if "i < unat ?n" for i
        using acc_page [OF same_page_add [OF step_len_page [OF True that]], of s pt] acc by simp
      show ?thesis
      proof (cases "?k < unat ?n")
        case k: True
        then have "copyinstr pt va mx s = Inr (0, user_bytes s pt va (Suc ?k), s)"
          using True acc w copyinstr_page_user [OF True, of s pt va] by (subst copyinstr.simps) (simp add: Let_def acc_def)
        moreover have "string_read s pt va (unat mx) 0 (Suc ?k)"
          unfolding string_read_def using pg k l tw by auto
        ultimately show ?thesis by blast
      next
        case False
        obtain r n where r: "copyinstr pt (va + ?n) (mx - ?n) s = Inr (r, user_bytes s pt (va + ?n) n, s)"
          "string_read s pt (va + ?n) (unat (mx - ?n)) r n"
          using less.hyps [OF step_len_dec [OF True] less.prems] by blast
        have r': "copyinstr pt (PGROUNDDOWN va + PGSIZE) (mx - ?n) s = Inr (r, user_bytes s pt (va + ?n) n, s)"
          using step_addr [of va mx] r by auto
        have "copyinstr pt va mx s = Inr (r, user_bytes s pt va (unat ?n) @ user_bytes s pt (va + of_nat (unat ?n)) n, s)"
          using True acc w r' False copyinstr_page_user [OF True, of s pt va]
          by (subst copyinstr.simps) (simp add: Let_def acc_def)
        moreover have "string_read s pt va (unat mx) r (unat ?n + n)"
          by (rule string_read_step) (use pg tw False r(2) l in auto)
        ultimately show ?thesis unfolding user_bytes_append by blast
      qed
    qed
  qed
qed

section \<open>Writing\<close>

lemma word_add_sub: "va + of_nat (unat (vb - va)) = (vb :: u64)"
  by simp

lemma user_put_ok:
  fixes f :: "nat \<Rightarrow> u8"
  assumes "spaces_inv s AS" "(pt, n) \<in> set AS" "pgno va < n" "PAGE2REF (upa s pt (pgno va)) s = 1"
    "unat (va - PGROUNDDOWN va) + l \<le> 4096"
  defines "s' \<equiv> s\<lparr>mem := put_bytes (user_pa s pt va) f l (mem s)\<rparr>"
  shows "spaces_inv s' AS" "(x, m) \<in> set AS \<Longrightarrow> upte s' x j = upte s x j"
    "(x, m) \<in> set AS \<Longrightarrow> pgno vb < m \<Longrightarrow>
     user_byte s' x vb = (if x = pt \<and> unat (vb - va) < l then f (unat (vb - va)) else user_byte s x vb)"
proof -
  let ?p = "upa s pt (pgno va)" and ?off = "va - PGROUNDDOWN va"
  note e = user_entryD [OF spaces_invD(6) [OF assms(1-3)]] and u = spaces_page [OF assms(1-3)]
  have pg: "pgal ?p" using e(2) by (rule vpage_pgal)
  have in_page: "PGROUNDDOWN x = ?p" if "unat (x - user_pa s pt va) < l" for x
  proof -
    have "unat (x - ?p) = unat (x - user_pa s pt va) + unat ?off"
    proof -
      have "x - ?p = (x - user_pa s pt va) + ?off" using u(2) by simp
      then show ?thesis using that assms(5) by (simp only: unat_word_ariths) simp
    qed
    then have "x - ?p < 4096" using that assms(5) by (simp add: word_less_nat_alt)
    then show ?thesis using page_off_iff [OF pg, of x] by simp
  qed
  have so: "same_off {?p} (mem s) (put_bytes (user_pa s pt va) f l (mem s))"
    unfolding same_off_def put_bytes_def using in_page by auto
  have nf: "\<not> free_page s p" if "p \<in> {?p}" for p using that assms(4) by (simp add: free_page_def)
  have nt: "p \<notin> pt_pages (mem s) x" if "p \<in> {?p}" "(x, y) \<in> set AS" for p x y using that e(3) by blast
  show sp: "spaces_inv s' AS" unfolding s'_def by (rule spaces_inv_mem(1) [OF assms(1) so nf nt])
  have up: "upte s' x j = upte s x j" if "(x, m) \<in> set AS" for x m j
    unfolding s'_def by (rule spaces_inv_mem(2) [OF assms(1) so nf nt that])
  then show "(x, m) \<in> set AS \<Longrightarrow> upte s' x j = upte s x j" .
  assume v: "(x, m) \<in> set AS" "pgno vb < m"
  note ux = spaces_page [OF assms(1) v] and ux' = spaces_page [OF sp v]
  have t: "user_pa s' x vb = user_pa s x vb" using ux(2) ux'(2) up [OF v(1)] by (simp add: upa_def)
  have l: "PGROUNDDOWN vb = uva (pgno vb)" "PGROUNDDOWN va = uva (pgno va)"
    using lookup_upte(3) [OF v(2) spaces_invD(4) [OF assms(1) v(1)]] lookup_upte(3) [OF assms(3) spaces_invD(4) [OF assms(1,2)]] by auto
  have "unat (user_pa s x vb - user_pa s pt va) < l \<longleftrightarrow> x = pt \<and> unat (vb - va) < l"
    and d: "x = pt \<Longrightarrow> unat (vb - va) < l \<Longrightarrow> user_pa s x vb - user_pa s pt va = vb - va"
  proof -
    have diff: "user_pa s x vb - user_pa s pt va = vb - va" if "x = pt" "pgno vb = pgno va"
      unfolding ux(2) u(2) using l that by simp
    have k: "pgno vb = pgno va" if "unat (vb - va) < l"
    proof -
      have "PGROUNDDOWN (va + of_nat (unat (vb - va))) = PGROUNDDOWN va" by (rule same_page_add) (use that assms(5) in simp)
      then have "uva (pgno vb) = uva (pgno va)" using l by (simp only: word_add_sub)
      then show ?thesis using uva_inj v(2) assms(3) spaces_invD(4) [OF assms(1,2)] spaces_invD(4) [OF assms(1) v(1)] by simp
    qed
    show "user_pa s x vb - user_pa s pt va = vb - va" if "x = pt" "unat (vb - va) < l" by (rule diff [OF that(1) k [OF that(2)]])
    show "unat (user_pa s x vb - user_pa s pt va) < l \<longleftrightarrow> x = pt \<and> unat (vb - va) < l"
    proof
      assume a: "unat (user_pa s x vb - user_pa s pt va) < l"
      then have "?p = upa s x (pgno vb)" using in_page ux(1) by simp
      then have "x = pt \<and> pgno vb = pgno va" using spaces_single [OF assms(1-3) v _ assms(4)] by simp
      then show "x = pt \<and> unat (vb - va) < l" using a diff by simp
    qed (use k diff in auto)
  qed
  then show "user_byte s' x vb = (if x = pt \<and> unat (vb - va) < l then f (unat (vb - va)) else user_byte s x vb)"
    unfolding user_byte_def t by (auto simp: s'_def put_bytes_def)
qed

definition user_writable :: "'a kmst_scheme \<Rightarrow> addr \<Rightarrow> nat \<Rightarrow> bool" where
  "user_writable s pt k \<longleftrightarrow> pte_has (upte s pt k) PTE_U \<and> (pte_has (upte s pt k) PTE_W \<or> pte_has (upte s pt k) PTE_COW)"

lemma should_copyon_write_eq:
  assumes "pt = p_pagetable (procs s (cur s))" "pt_ok s pt" "va < MAXVA"
  shows "should_copyon_write va s = Inr (PGROUNDDOWN va < p_sz (procs s (cur s)) \<and>
    pte_has (lookup (mem s) pt va) PTE_V \<and> pte_has (lookup (mem s) pt va) PTE_COW, s)"
proof (cases "node (mem s) pt (vpath va)")
  case None
  then show ?thesis
    unfolding should_copyon_write_def Let_def assms(1) [symmetric] using walk_False [OF assms(3), of pt s] by (simp add: lookup_def)
next
  case (Some t)
  then show ?thesis
    unfolding should_copyon_write_def Let_def assms(1) [symmetric] walk_present [OF assms(3) Some]
    using node_lookup [OF Some] pt_ok_slot(1) [OF assms(2) Some] by simp
qed

text \<open>The first part of a round of \<open>copyout\<close>: after it the page belongs to the process alone.\<close>

definition own_first :: "u64 \<Rightarrow> 'a kmst_scheme \<Rightarrow> 'a kmst_scheme kres" where
  "own_first va s = bnd (should_copyon_write va s) (\<lambda>(c, s). if c then bnd (copy_on_write va s) (\<lambda>(_, s). Inr s) else Inr s)"

lemma own_first_ok:
  assumes inv: "spaces_inv s AS" and pt: "pt = p_pagetable (procs s (cur s))" "(pt, n) \<in> set AS" "pgno va < n"
    and sz: "n = npages_of (p_sz (procs s (cur s)))" and w: "user_writable s pt (pgno va)"
    and free: "pte_has (upte s pt (pgno va)) PTE_W \<or> 0 < card {p. free_page s p}"
  obtains s1 where "own_first va s = Inr s1" "spaces_inv s1 AS" "same_view AS s s1" "PAGE2REF (upa s1 pt (pgno va)) s1 = 1"
    "acc s1 pt va" "\<forall>j<n. j \<noteq> pgno va \<longrightarrow> upte s1 pt j = upte s pt j" "procs s1 = procs s" "cur s1 = cur s"
    "card {p. free_page s p} \<le> Suc (card {p. free_page s1 p})"
proof -
  note a = spaces_invD [OF inv] and l = lookup_upte [OF pt(3) a(4) [OF pt(2)]]
  have accI: "acc s' pt va" if s': "spaces_inv s' AS" "pte_has (lookup (mem s') pt va) PTE_U" for s'
  proof -
    note u = user_entryD [OF spaces_invD(6) [OF s'(1) pt(2,3)]]
    obtain ps where "kmem_inv s' ps" using spaces_invD(1) [OF s'(1)] by (auto simp: kmem_ok_def)
    from vpage_nonzero [OF kmem_invD(7) [OF this] u(2)]
    show ?thesis using u(1) s'(2) l(1) l(2) [of s' pt] by (simp add: acc_def upa_def leaf_ok_def)
  qed
  have V: "pte_has (lookup (mem s) pt va) PTE_V" using user_entryD(1) [OF a(6) [OF pt(2,3)]] l(2) [of s pt] by (simp add: leaf_ok_def)
  have U: "pte_has (lookup (mem s) pt va) PTE_U" using w l(2) [of s pt] by (simp add: user_writable_def)
  have "PGROUNDDOWN va < p_sz (procs s (cur s))" using l(3) uva_less_iff [of "pgno va" "p_sz (procs s (cur s))"] pt(3) sz a(4) [OF pt(2)] by simp
  then have sc: "should_copyon_write va s = Inr (pte_has (lookup (mem s) pt va) PTE_COW, s)"
    using should_copyon_write_eq [OF pt(1) a(3) [OF pt(2)] l(1)] V by simp
  show thesis
  proof (cases "pte_has (lookup (mem s) pt va) PTE_COW")
    case False
    then have W: "pte_has (upte s pt (pgno va)) PTE_W" using w l(2) [of s pt] by (simp add: user_writable_def)
    then have "PAGE2REF (upa s pt (pgno va)) s = 1" by (rule user_entryD(4) [OF a(6) [OF pt(2,3)]])
    then show thesis using False sc inv accI [OF inv U] by (intro that [of s]) (auto simp: own_first_def)
  next
    case True
    obtain r s' where c: "copy_on_write va s = Inr (r, s')" "spaces_inv s' AS" "same_view AS s s'"
      "r = 0 \<and> made_own pt n va s s' \<or> r = - 1 \<and> s' = s \<and> PAGE2REF (PTE2PA (lookup (mem s) pt va)) s > 1 \<and> (\<forall>p. \<not> free_page s p)"
      using copy_on_write_ok [OF inv pt] unfolding same_view_def by blast
    have "r \<noteq> - 1"
    proof
      assume r: "r = - 1"
      then have nf: "\<forall>p. \<not> free_page s p" "PAGE2REF (upa s pt (pgno va)) s > 1" using c(4) l(2) [of s pt] by (auto simp: upa_def)
      then have "pte_has (upte s pt (pgno va)) PTE_W" using free by simp
      then show False using user_entryD(4) [OF a(6) [OF pt(2,3)]] nf(2) by simp
    qed
    then have m: "made_own pt n va s s'" using c(4) by blast
    note d = m [unfolded made_own_def]
    have fr: "s' = s\<lparr>mem := mem s', freelist := freelist s', pageref := pageref s'\<rparr>" using d by blast
    have "procs s' = procs s" "cur s' = cur s" by (subst fr, simp)+
    moreover have "pte_has (upte s' pt (pgno va)) PTE_W" using d l(2) [of s' pt] by simp
    then have "PAGE2REF (upa s' pt (pgno va)) s' = 1" by (rule user_entryD(4) [OF spaces_invD(6) [OF c(2) pt(2,3)]])
    moreover have "acc s' pt va" using accI [OF c(2)] d U by blast
    ultimately show thesis using True sc c d by (intro that [of s']) (auto simp: own_first_def)
  qed
qed

lemma copyout_own_first:
  "copyout pt va src len s =
     (if len > 0
      then bnd (own_first va s) (\<lambda>s. bnd (walkaddr pt (PGROUNDDOWN va) s) (\<lambda>(pa0, s).
           if pa0 = 0 then Inr (- 1, s)
           else copyout pt (PGROUNDDOWN va + PGSIZE) (\<lambda>i. src (i + unat (step_len va len))) (len - step_len va len)
                  (s\<lparr>mem := put_bytes (pa0 + (va - PGROUNDDOWN va)) src (unat (step_len va len)) (mem s)\<rparr>)))
      else Inr (0, s))"
  by (subst copyout.simps) (simp add: own_first_def bnd_assoc case_prod_unfold Let_def cong: if_cong)

lemma copyout_0 [simp]: "copyout pt va src 0 s = Inr (0, s)"
  by (subst copyout.simps) simp

text \<open>\<open>wrote\<close>: the bytes \<open>src\<close> are at \<open>va\<close> of the process, everything else reads as before.\<close>

definition wrote :: "(addr \<times> nat) list \<Rightarrow> addr \<Rightarrow> u64 \<Rightarrow> (nat \<Rightarrow> u8) \<Rightarrow> nat \<Rightarrow> 'a kmst_scheme \<Rightarrow> 'a kmst_scheme \<Rightarrow> bool" where
  "wrote AS pt va src len s s' \<longleftrightarrow> (\<forall>(x, m)\<in>set AS. \<forall>vb. pgno vb < m \<longrightarrow>
     user_byte s' x vb = (if x = pt \<and> unat (vb - va) < len then src (unat (vb - va)) else user_byte s x vb))"

lemma wroteD:
  "wrote AS pt va src len s s' \<Longrightarrow> (x, m) \<in> set AS \<Longrightarrow> pgno vb < m \<Longrightarrow>
   user_byte s' x vb = (if x = pt \<and> unat (vb - va) < len then src (unat (vb - va)) else user_byte s x vb)"
  by (auto simp: wrote_def)

lemma wrote_trans:
  assumes "wrote AS pt va src n s s1" "wrote AS pt (va + of_nat n) (\<lambda>i. src (i + n)) k s1 s2" "n + k < 2 ^ 64"
  shows "wrote AS pt va src (n + k) s s2"
  unfolding wrote_def
proof (intro ballI allI impI, clarify)
  fix x m vb assume x: "(x, m) \<in> set AS" "pgno vb < m"
  have u: "unat (of_nat n :: u64) = n" by (rule unat_of_nat_u64) (use assms(3) in simp)
  have d: "vb - (va + of_nat n) = (vb - va) - of_nat n" by simp
  have "unat (vb - (va + of_nat n)) = (if n \<le> unat (vb - va) then unat (vb - va) - n else unat (vb - va) + 2 ^ 64 - n)"
    unfolding d unat_sub_if_size using u by (simp add: word_size)
  then show "user_byte s2 x vb = (if x = pt \<and> unat (vb - va) < n + k then src (unat (vb - va)) else user_byte s x vb)"
    using wroteD [OF assms(1) x] wroteD [OF assms(2) x] assms(3) by (auto split: if_splits)
qed

lemma copyout_ok:
  assumes "spaces_inv s AS" "pt = p_pagetable (procs s (cur s))" "(pt, n) \<in> set AS" "n = npages_of (p_sz (procs s (cur s)))"
    "unat va + unat len \<le> 4096 * n" "\<forall>j. pgno va \<le> j \<longrightarrow> 4096 * j < unat va + unat len \<longrightarrow> user_writable s pt j"
    "len = 0 \<or> page_count va len \<le> card {p. free_page s p}"
  shows "\<exists>s'. copyout pt va src len s = Inr (0, s') \<and> spaces_inv s' AS \<and> wrote AS pt va src (unat len) s s'"
  using assms
proof (induction "unat len" arbitrary: va len src s rule: less_induct)
  case less
  show ?case
  proof (cases "0 < len")
    case False
    then have "len = 0" by (simp add: word_gt_0)
    then show ?thesis using less.prems(1) by (auto simp: wrote_def)
  next
    case True
    let ?n = "step_len va len"
    note inv = less.prems(1) and pt = less.prems(2,3) and sz = less.prems(4)
    have n26: "n \<le> 2 ^ 26" by (rule spaces_invD(4) [OF inv pt(2)])
    have len: "unat len \<noteq> 0" using True by (simp add: unat_gt_0)
    have pg: "pgno va < n" unfolding pgno_def using less.prems(5) len by (simp add: div_less_iff_less_mult)
    have w: "user_writable s pt (pgno va)"
      using less.prems(6) [rule_format, of "pgno va"] len div_mult_mod_eq [of "unat va" 4096] by (simp add: pgno_def)
    have "page_count va len \<le> card {p. free_page s p}" "0 < page_count va len" using less.prems(7) True by (auto simp: page_count_def)
    then have free: "pte_has (upte s pt (pgno va)) PTE_W \<or> 0 < card {p. free_page s p}" by linarith
    obtain s1 where s1: "own_first va s = Inr s1" "spaces_inv s1 AS" "same_view AS s s1" "PAGE2REF (upa s1 pt (pgno va)) s1 = 1"
      "acc s1 pt va" "\<forall>j<n. j \<noteq> pgno va \<longrightarrow> upte s1 pt j = upte s pt j" "procs s1 = procs s" "cur s1 = cur s"
      "card {p. free_page s p} \<le> Suc (card {p. free_page s1 p})"
      by (rule own_first_ok [OF inv pt pg sz w free])
    let ?s = "s1\<lparr>mem := put_bytes (user_pa s1 pt va) src (unat ?n) (mem s1)\<rparr>"
    have off: "unat (va - PGROUNDDOWN va) + unat ?n \<le> 4096"
      using step_len_page [OF True, of "unat ?n - 1" va] step_len_bounds(1) [OF True, of va] by (simp add: word_less_nat_alt)
    note p = user_put_ok [OF s1(2) pt(2) pg s1(4) off, where f = src]
    have wr: "wrote AS pt va src (unat ?n) s ?s"
      unfolding wrote_def using p(3) same_viewD [OF s1(3)] by fastforce
    have wa: "walkaddr pt (PGROUNDDOWN va) s1 = Inr (PTE2PA (lookup (mem s1) pt va), s1)"
      using walkaddr_eq [OF spaces_invD(3) [OF s1(2) pt(2)], of "PGROUNDDOWN va"] acc_page [of "PGROUNDDOWN va" va s1 pt] s1(5) by simp
    have c: "copyout pt va src len s =
        copyout pt (PGROUNDDOWN va + PGSIZE) (\<lambda>i. src (i + unat ?n)) (len - ?n) ?s"
      using True s1(1,5) wa by (subst copyout_own_first) (simp add: acc_def user_pa_def)
    show ?thesis
    proof (cases "?n = len")
      case True
      then show ?thesis unfolding c using p(1) wr by simp
    next
      case False
      have nx: "PGROUNDDOWN va + PGSIZE = va + ?n" using step_addr [of va len] False by simp
      have l: "unat (len - ?n) = unat len - unat ?n" "unat ?n < unat len"
        using step_len_bounds(2) [OF True, of va] False by (auto simp: unat_sub word_le_nat_alt word_unat_eq_iff)
      have l64: "unat va + unat len < 2 ^ 64" using less.prems(5) n26 by simp
      have va': "unat (va + ?n) = unat va + unat ?n" using l64 l(2) by (simp add: unat_word_ariths)
      have pn: "pgno (va + ?n) = Suc (pgno va)"
      proof -
        have "unat va div 4096 * 4096 \<le> unat va" by (rule div_times_less_eq_dividend)
        then have "unat (PGROUNDDOWN va + PGSIZE) = unat va div 4096 * 4096 + 4096"
          using l64 less.prems(5) n26 by (subst unat_word_ariths) (simp add: unat_PGROUNDDOWN)
        then show ?thesis unfolding nx [symmetric] by (simp add: pgno_def)
      qed
      have "\<exists>s'. copyout pt (va + ?n) (\<lambda>i. src (i + unat ?n)) (len - ?n) ?s = Inr (0, s') \<and> spaces_inv s' AS \<and>
          wrote AS pt (va + ?n) (\<lambda>i. src (i + unat ?n)) (unat (len - ?n)) ?s s'"
      proof (rule less.hyps [OF step_len_dec [OF True] p(1) _ pt(2)])
        show "\<forall>j. pgno (va + ?n) \<le> j \<longrightarrow> 4096 * j < unat (va + ?n) + unat (len - ?n) \<longrightarrow> user_writable ?s pt j"
        proof (intro allI impI)
          fix j assume j: "pgno (va + ?n) \<le> j" "4096 * j < unat (va + ?n) + unat (len - ?n)"
          then have "j < n" "j \<noteq> pgno va" "user_writable s pt j" using va' l pn less.prems(5,6) by auto
          then show "user_writable ?s pt j" using s1(6) p(2) [OF pt(2)] by (simp add: user_writable_def)
        qed
        show "len - ?n = 0 \<or> page_count (va + ?n) (len - ?n) \<le> card {p. free_page ?s p}"
        proof -
          have "page_count va len \<le> Suc (card {p. free_page s1 p})" using less.prems(7) True s1(9) by auto
          moreover have "page_count (va + ?n) (len - ?n) = (unat va + unat len - 1) div 4096 - Suc (pgno va) + 1"
            using va' l pn by (simp add: page_count_def pgno_def)
          moreover have "Suc (pgno va) \<le> (unat va + unat len - 1) div 4096"
          proof -
            have "Suc (pgno va) = (unat va + unat ?n) div 4096" using pn va' by (simp add: pgno_def)
            also have "\<dots> \<le> (unat va + unat len - 1) div 4096" using l(2) by (intro div_le_mono) simp
            finally show ?thesis .
          qed
          moreover have "card {p. free_page ?s p} = card {p. free_page s1 p}" by simp
          moreover have "page_count va len = (unat va + unat len - 1) div 4096 - pgno va + 1" by (simp add: page_count_def pgno_def)
          ultimately have "page_count (va + ?n) (len - ?n) \<le> card {p. free_page ?s p}" by linarith
          then show ?thesis ..
        qed
      qed (use pt(1) s1(7,8) sz va' l less.prems(5) in auto)
      then show ?thesis unfolding c nx using wrote_trans [OF wr, of "unat (len - ?n)"] l l64 by auto
    qed
  qed
qed

section \<open>Properties\<close>

text \<open>C5. \<open>copyin\<close> never fails to return and changes nothing: it returns 0 with the \<open>len\<close> bytes at \<open>va\<close> when all of them are
  in pages of the user, and -1, with the bytes before the first foreign page, otherwise; also at and above MAXVA.\<close>

theorem copyin_correct:
  assumes "pt_ok s pt"
  shows "\<exists>r n. copyin pt va len s = Inr (r, user_bytes s pt va n, s) \<and> (\<forall>i<n. acc s pt (va + of_nat i)) \<and>
    (r = 0 \<and> n = unat len \<or> r = - 1 \<and> n < unat len \<and> \<not> acc s pt (va + of_nat n))"
  using copyin_ok [OF assms] unfolding readable_def by blast

theorem copyin_correct_witness:
  "\<exists>r n. copyin 0x87FFC000 5 10 cw_ex = Inr (r, user_bytes cw_ex 0x87FFC000 5 n, cw_ex)"
  using copyin_correct [OF cw_ex_old(1)] by blast

text \<open>C6. \<open>copyinstr\<close> returns 0 exactly when a zero byte comes within \<open>mx\<close> bytes before any foreign page, with the bytes up
  to and including the first zero; otherwise -1. It changes nothing.\<close>

theorem copyinstr_correct:
  assumes "pt_ok s pt"
  shows "\<exists>r n. copyinstr pt va mx s = Inr (r, user_bytes s pt va n, s) \<and> (\<forall>i<n. acc s pt (va + of_nat i)) \<and>
    (r = 0 \<and> n \<le> unat mx \<and> (\<exists>k. n = Suc k \<and> user_byte s pt (va + of_nat k) = 0 \<and>
        (\<forall>i<k. user_byte s pt (va + of_nat i) \<noteq> 0)) \<or>
     r = - 1 \<and> (\<forall>i<n. user_byte s pt (va + of_nat i) \<noteq> 0) \<and>
       (n = unat mx \<or> n < unat mx \<and> \<not> acc s pt (va + of_nat n)))"
  using copyinstr_ok [OF assms] unfolding string_read_def by blast

theorem copyinstr_correct_witness:
  "\<exists>r n. copyinstr 0x87FFC000 5 10 cw_ex = Inr (r, user_bytes cw_ex 0x87FFC000 5 n, cw_ex)"
  using copyinstr_correct [OF cw_ex_old(1)] by blast


lemma cw_ex_free: "{p. free_page cw_ex p} = {0x87FF9000, 0x87FFA000}"
  unfolding free_page_def cw_ex_sel(8) vpage_last7 by auto


end
