(* ===== verification/Fs.thy ===== *)
theory Fs
  imports Log Copyio KString
begin

text \<open>
  The file system of \<open>kernel/fs.c\<close> over the log: the free block bitmap, inodes and their cache, file contents, directories and
  path names. A pointer into the inode cache is an index below NINODE; a pointer that may be null is an option. A buffer the kernel passes
  by address is \<open>ToUser\<close>/\<open>FromUser\<close> for a user address, \<open>ToMem\<close>/\<open>FromMem\<close> for a kernel address in physical memory, and
  \<open>ToObj\<close>/\<open>FromObj\<close> for an object of the kernel itself (a directory entry, an ELF header), whose bytes are then part of the result or
  the argument. Strings are lists of non-zero bytes.
\<close>

abbreviation (input) ROOTINO :: u32 where "ROOTINO \<equiv> 1"
abbreviation (input) NINODE :: nat where "NINODE \<equiv> 50"
abbreviation (input) NDIRECT :: nat where "NDIRECT \<equiv> 12"
abbreviation (input) NINDIRECT :: nat where "NINDIRECT \<equiv> 256"
abbreviation (input) MAXFILE :: nat where "MAXFILE \<equiv> 268"
abbreviation (input) IPB :: nat where "IPB \<equiv> 16"
abbreviation (input) BPB :: nat where "BPB \<equiv> 8192"
abbreviation (input) DIRSIZ :: nat where "DIRSIZ \<equiv> 14"
abbreviation (input) T_DIR :: u16 where "T_DIR \<equiv> 1"
abbreviation (input) T_FILE :: u16 where "T_FILE \<equiv> 2"
abbreviation (input) T_DEVICE :: u16 where "T_DEVICE \<equiv> 3"
abbreviation (input) FSMAGIC :: u32 where "FSMAGIC \<equiv> 0x10203040"

record superblock =
  sb_magic :: u32
  sb_size :: u32
  sb_nblocks :: u32
  sb_ninodes :: u32
  sb_nlog :: u32
  sb_logstart :: u32
  sb_inodestart :: u32
  sb_bmapstart :: u32

record inode =
  i_dev :: u32
  i_inum :: u32
  i_ref :: int
  i_valid :: bool
  i_type :: u16
  i_major :: u16
  i_minor :: u16
  i_nlink :: u16
  i_size :: u32
  i_addrs :: "nat \<Rightarrow> u32"

record stat =
  st_dev :: u32
  st_ino :: u32
  st_type :: u16
  st_nlink :: u16
  st_size :: u64

record fsst = logst +
  sb :: superblock
  inodes :: "nat \<Rightarrow> inode"

definition upd_ino :: "nat \<Rightarrow> (inode \<Rightarrow> inode) \<Rightarrow> 'a fsst_scheme \<Rightarrow> 'a fsst_scheme" where
  "upd_ino ip f s = s\<lparr>inodes := (inodes s)(ip := f (inodes s ip))\<rparr>"

section \<open>Copies to and from user or kernel memory\<close>

datatype dest = ToUser addr | ToMem addr | ToObj

datatype source = FromUser addr | FromMem addr | FromObj "u8 list"

primrec dest_add :: "dest \<Rightarrow> u32 \<Rightarrow> dest" where
  "dest_add (ToUser a) m = ToUser (a + ucast m)"
| "dest_add (ToMem a) m = ToMem (a + ucast m)"
| "dest_add ToObj m = ToObj"

primrec source_add :: "source \<Rightarrow> u32 \<Rightarrow> source" where
  "source_add (FromUser a) m = FromUser (a + ucast m)"
| "source_add (FromMem a) m = FromMem (a + ucast m)"
| "source_add (FromObj xs) m = FromObj (drop (unat m) xs)"

fun either_copyout :: "dest \<Rightarrow> u8 list \<Rightarrow> 'a kmst_scheme \<Rightarrow> (int \<times> u8 list \<times> 'a kmst_scheme) kres" where
  "either_copyout (ToUser dst) src s =
     bnd (copyout (p_pagetable (procs s (cur s))) dst (\<lambda>i. src ! i) (of_nat (length src)) s) (\<lambda>(r, s). Inr (r, [], s))"
| "either_copyout (ToMem dst) src s = Inr (0, [], s\<lparr>mem := put_bytes dst (\<lambda>i. src ! i) (length src) (mem s)\<rparr>)"
| "either_copyout ToObj src s = Inr (0, src, s)"

fun either_copyin :: "source \<Rightarrow> u32 \<Rightarrow> 'a kmst_scheme \<Rightarrow> (int \<times> u8 list \<times> 'a kmst_scheme) kres" where
  "either_copyin (FromUser src) len s = copyin (p_pagetable (procs s (cur s))) src (ucast len) s"
| "either_copyin (FromMem src) len s = Inr (0, get_bytes src (unat len) (mem s), s)"
| "either_copyin (FromObj xs) len s = (if unat len \<le> length xs then Inr (0, take (unat len) xs, s) else Inl Undef)"

section \<open>The super block\<close>

definition sb_decode :: "block \<Rightarrow> superblock" where
  "sb_decode d = \<lparr>sb_magic = ldw 0 d, sb_size = ldw 4 d, sb_nblocks = ldw 8 d, sb_ninodes = ldw 12 d, sb_nlog = ldw 16 d,
     sb_logstart = ldw 20 d, sb_inodestart = ldw 24 d, sb_bmapstart = ldw 28 d\<rparr>"

definition readsb :: "u32 \<Rightarrow> 'a fsst_scheme \<Rightarrow> 'a fsst_scheme kres" where
  "readsb dev s =
     bnd (bread dev 1 s) (\<lambda>(bp, s).
     brelse bp (s\<lparr>sb := sb_decode (b_data (bufs s bp))\<rparr>))"

definition fsinit :: "u32 \<Rightarrow> 'a fsst_scheme \<Rightarrow> 'a fsst_scheme kres" where
  "fsinit dev s =
     bnd (readsb dev s) (\<lambda>s.
     if sb_magic (sb s) \<noteq> FSMAGIC then Inl (Panic ''invalid file system'')
     else initlog dev (sb_logstart (sb s)) (sb_nlog (sb s)) s)"

section \<open>Blocks\<close>

definition BBLOCK :: "nat \<Rightarrow> superblock \<Rightarrow> u32" where
  "BBLOCK b sbk = of_nat (b div BPB) + sb_bmapstart sbk"

definition IBLOCK :: "u32 \<Rightarrow> superblock \<Rightarrow> u32" where
  "IBLOCK i sbk = i div 16 + sb_inodestart sbk"

definition bzero :: "u32 \<Rightarrow> u32 \<Rightarrow> 'a fsst_scheme \<Rightarrow> 'a fsst_scheme kres" where
  "bzero dev bno s =
     bnd (bread dev bno s) (\<lambda>(bp, s).
     bnd (log_write bp (set_bdata bp (replicate BSIZE 0) s)) (brelse bp))"

text \<open>The mask of a bit of the bitmap within its byte, and the search for a clear bit among the first \<open>n\<close>.\<close>

definition bmask :: "nat \<Rightarrow> u8" where
  "bmask bi = push_bit (bi mod 8) 1"

definition bfind :: "nat \<Rightarrow> block \<Rightarrow> nat option" where
  "bfind n d = find (\<lambda>bi. and (d ! (bi div 8)) (bmask bi) = 0) [0..<n]"

fun balloc_loop :: "nat list \<Rightarrow> u32 \<Rightarrow> 'a fsst_scheme \<Rightarrow> (u32 \<times> 'a fsst_scheme) kres" where
  "balloc_loop [] dev s = Inl (Panic ''balloc: out of blocks'')"
| "balloc_loop (b # bs) dev s =
     bnd (bread dev (BBLOCK b (sb s)) s) (\<lambda>(bp, s).
     let d = b_data (bufs s bp)
     in case bfind (min BPB (unat (sb_size (sb s)) - b)) d of
          Some bi \<Rightarrow>
            bnd (log_write bp (set_bdata bp (d[bi div 8 := or (d ! (bi div 8)) (bmask bi)]) s)) (\<lambda>s.
            bnd (brelse bp s) (\<lambda>s.
            bnd (bzero dev (of_nat (b + bi)) s) (\<lambda>s.
            Inr (of_nat (b + bi), s))))
        | None \<Rightarrow> bnd (brelse bp s) (balloc_loop bs dev))"

text \<open>The outer loop visits the multiples of BPB below the size of the file system.\<close>

definition balloc :: "u32 \<Rightarrow> 'a fsst_scheme \<Rightarrow> (u32 \<times> 'a fsst_scheme) kres" where
  "balloc dev s = balloc_loop (map (\<lambda>k. k * BPB) [0..<(unat (sb_size (sb s)) + BPB - 1) div BPB]) dev s"

definition bfree :: "u32 \<Rightarrow> u32 \<Rightarrow> 'a fsst_scheme \<Rightarrow> 'a fsst_scheme kres" where
  "bfree dev b s =
     bnd (bread dev (BBLOCK (unat b) (sb s)) s) (\<lambda>(bp, s).
     let bi = unat b mod BPB; d = b_data (bufs s bp)
     in if and (d ! (bi div 8)) (bmask bi) = 0 then Inl (Panic ''freeing free block'')
        else bnd (log_write bp (set_bdata bp (d[bi div 8 := and (d ! (bi div 8)) (not (bmask bi))]) s)) (brelse bp))"

section \<open>Inodes\<close>

definition iinit :: "'a fsst_scheme \<Rightarrow> 'a fsst_scheme" where
  "iinit s = fold (\<lambda>i. initsleeplock (SlInode i) ''inode'') [0..<NINODE] s"

text \<open>The offset of an inode in its block, its fields there, and a run of words.\<close>

definition dip_off :: "u32 \<Rightarrow> nat" where
  "dip_off inum = 64 * (unat inum mod IPB)"

fun stws :: "nat \<Rightarrow> u32 list \<Rightarrow> block \<Rightarrow> block" where
  "stws off [] d = d"
| "stws off (w # ws) d = stws (off + 4) ws (stw off w d)"

definition dinode_store :: "nat \<Rightarrow> inode \<Rightarrow> block \<Rightarrow> block" where
  "dinode_store off x d =
     stws (off + 12) (map (i_addrs x) [0..<NDIRECT + 1])
       (stw (off + 8) (i_size x) (stw (off + 6) (i_nlink x) (stw (off + 4) (i_minor x) (stw (off + 2) (i_major x) (stw off (i_type x) d)))))"

definition dinode_load :: "nat \<Rightarrow> block \<Rightarrow> inode \<Rightarrow> inode" where
  "dinode_load off d x =
     x\<lparr>i_type := ldw off d, i_major := ldw (off + 2) d, i_minor := ldw (off + 4) d, i_nlink := ldw (off + 6) d, i_size := ldw (off + 8) d,
       i_addrs := (\<lambda>i. if i < NDIRECT + 1 then ldw (off + 12 + 4 * i) d else i_addrs x i)\<rparr>"

text \<open>The scan of \<open>iget\<close>: a cached inode with the number, or the first empty slot.\<close>

fun iget_scan :: "nat list \<Rightarrow> u32 \<Rightarrow> u32 \<Rightarrow> (nat \<Rightarrow> inode) \<Rightarrow> nat option \<Rightarrow> nat + nat option" where
  "iget_scan [] dev inum I e = Inr e"
| "iget_scan (ip # ips) dev inum I e =
     (if i_ref (I ip) > 0 \<and> i_dev (I ip) = dev \<and> i_inum (I ip) = inum then Inl ip
      else iget_scan ips dev inum I (if e = None \<and> i_ref (I ip) = 0 then Some ip else e))"

definition iget :: "u32 \<Rightarrow> u32 \<Rightarrow> 'a fsst_scheme \<Rightarrow> (nat \<times> 'a fsst_scheme) kres" where
  "iget dev inum s =
     bnd (acquire LkIcache s) (\<lambda>s.
     case iget_scan [0..<NINODE] dev inum (inodes s) None of
       Inl ip \<Rightarrow> bnd (release LkIcache (upd_ino ip (i_ref_update (\<lambda>r. r + 1)) s)) (\<lambda>s. Inr (ip, s))
     | Inr None \<Rightarrow> Inl (Panic ''iget: no inodes'')
     | Inr (Some ip) \<Rightarrow>
         bnd (release LkIcache (upd_ino ip (\<lambda>x. x\<lparr>i_dev := dev, i_inum := inum, i_ref := 1, i_valid := False\<rparr>) s)) (\<lambda>s. Inr (ip, s)))"

fun ialloc_loop :: "nat list \<Rightarrow> u32 \<Rightarrow> u16 \<Rightarrow> 'a fsst_scheme \<Rightarrow> (nat \<times> 'a fsst_scheme) kres" where
  "ialloc_loop [] dev ty s = Inl (Panic ''ialloc: no inodes'')"
| "ialloc_loop (inum # is) dev ty s =
     bnd (bread dev (IBLOCK (of_nat inum) (sb s)) s) (\<lambda>(bp, s).
     let d = b_data (bufs s bp); off = dip_off (of_nat inum)
     in if (ldw off d :: u16) = 0
        then bnd (log_write bp (set_bdata bp (stw off ty (putb off (replicate 64 0) d)) s)) (\<lambda>s.
             bnd (brelse bp s) (iget dev (of_nat inum)))
        else bnd (brelse bp s) (ialloc_loop is dev ty))"

definition ialloc :: "u32 \<Rightarrow> u16 \<Rightarrow> 'a fsst_scheme \<Rightarrow> (nat \<times> 'a fsst_scheme) kres" where
  "ialloc dev ty s = ialloc_loop [1..<unat (sb_ninodes (sb s))] dev ty s"

definition iupdate :: "nat \<Rightarrow> 'a fsst_scheme \<Rightarrow> 'a fsst_scheme kres" where
  "iupdate ip s =
     bnd (bread (i_dev (inodes s ip)) (IBLOCK (i_inum (inodes s ip)) (sb s)) s) (\<lambda>(bp, s).
     let d = dinode_store (dip_off (i_inum (inodes s ip))) (inodes s ip) (b_data (bufs s bp))
     in bnd (log_write bp (set_bdata bp d s)) (brelse bp))"

definition idup :: "nat \<Rightarrow> 'a fsst_scheme \<Rightarrow> (nat \<times> 'a fsst_scheme) kres" where
  "idup ip s =
     bnd (acquire LkIcache s) (\<lambda>s.
     bnd (release LkIcache (upd_ino ip (i_ref_update (\<lambda>r. r + 1)) s)) (\<lambda>s. Inr (ip, s)))"

definition ilock :: "nat \<Rightarrow> 'a fsst_scheme \<Rightarrow> 'a fsst_scheme kres" where
  "ilock ip s =
     (if i_ref (inodes s ip) < 1 then Inl (Panic ''ilock'')
      else bnd (acquiresleep (SlInode ip) s) (\<lambda>s.
           if \<not> i_valid (inodes s ip)
           then bnd (bread (i_dev (inodes s ip)) (IBLOCK (i_inum (inodes s ip)) (sb s)) s) (\<lambda>(bp, s).
                let s = upd_ino ip (dinode_load (dip_off (i_inum (inodes s ip))) (b_data (bufs s bp))) s
                in bnd (brelse bp s) (\<lambda>s.
                   let s = upd_ino ip (i_valid_update (\<lambda>_. True)) s
                   in if i_type (inodes s ip) = 0 then Inl (Panic ''ilock: no type'') else Inr s))
           else Inr s))"

definition iunlock :: "nat \<Rightarrow> 'a fsst_scheme \<Rightarrow> 'a fsst_scheme kres" where
  "iunlock ip s =
     bnd (holdingsleep (SlInode ip) s) (\<lambda>(h, s).
     if \<not> h \<or> i_ref (inodes s ip) < 1 then Inl (Panic ''iunlock'')
     else releasesleep (SlInode ip) s)"

section \<open>Contents\<close>

definition set_addr :: "nat \<Rightarrow> nat \<Rightarrow> u32 \<Rightarrow> 'a fsst_scheme \<Rightarrow> 'a fsst_scheme" where
  "set_addr ip i a = upd_ino ip (\<lambda>x. x\<lparr>i_addrs := (i_addrs x)(i := a)\<rparr>)"

text \<open>The address in slot \<open>i\<close> of an inode, allocated when it is zero: the first lines of both cases of \<open>bmap\<close>.\<close>

definition bmap_slot :: "nat \<Rightarrow> nat \<Rightarrow> 'a fsst_scheme \<Rightarrow> (u32 \<times> 'a fsst_scheme) kres" where
  "bmap_slot ip i s =
     (let addr = i_addrs (inodes s ip) i
      in if addr = 0 then bnd (balloc (i_dev (inodes s ip)) s) (\<lambda>(addr, s). Inr (addr, set_addr ip i addr s))
         else Inr (addr, s))"

text \<open>The entry \<open>bn\<close> of the indirect block \<open>addr\<close>, allocated when it is zero.\<close>

definition bmap_entry :: "nat \<Rightarrow> u32 \<Rightarrow> nat \<Rightarrow> 'a fsst_scheme \<Rightarrow> (u32 \<times> 'a fsst_scheme) kres" where
  "bmap_entry ip addr bn s =
     bnd (bread (i_dev (inodes s ip)) addr s) (\<lambda>(bp, s).
     let addr = ldw (4 * bn) (b_data (bufs s bp))
     in if addr = 0
        then bnd (balloc (i_dev (inodes s ip)) s) (\<lambda>(addr, s).
             bnd (log_write bp (set_bdata bp (stw (4 * bn) addr (b_data (bufs s bp))) s)) (\<lambda>s.
             bnd (brelse bp s) (\<lambda>s. Inr (addr, s))))
        else bnd (brelse bp s) (\<lambda>s. Inr (addr, s)))"

definition bmap :: "nat \<Rightarrow> u32 \<Rightarrow> 'a fsst_scheme \<Rightarrow> (u32 \<times> 'a fsst_scheme) kres" where
  "bmap ip bn s =
     (if unat bn < NDIRECT then bmap_slot ip (unat bn) s
      else let bn = unat bn - NDIRECT
           in if bn < NINDIRECT
              then bnd (bmap_slot ip NDIRECT s) (\<lambda>(addr, s). bmap_entry ip addr bn s)
              else Inl (Panic ''bmap: out of range''))"

fun itrunc_direct :: "nat list \<Rightarrow> nat \<Rightarrow> 'a fsst_scheme \<Rightarrow> 'a fsst_scheme kres" where
  "itrunc_direct [] ip s = Inr s"
| "itrunc_direct (i # is) ip s =
     (if i_addrs (inodes s ip) i \<noteq> 0
      then bnd (bfree (i_dev (inodes s ip)) (i_addrs (inodes s ip) i) s) (\<lambda>s. itrunc_direct is ip (set_addr ip i 0 s))
      else itrunc_direct is ip s)"

fun itrunc_indirect :: "nat list \<Rightarrow> nat \<Rightarrow> nat \<Rightarrow> 'a fsst_scheme \<Rightarrow> 'a fsst_scheme kres" where
  "itrunc_indirect [] bp ip s = Inr s"
| "itrunc_indirect (j # js) bp ip s =
     (let a = ldw (4 * j) (b_data (bufs s bp))
      in if a \<noteq> 0 then bnd (bfree (i_dev (inodes s ip)) a s) (itrunc_indirect js bp ip)
         else itrunc_indirect js bp ip s)"

definition itrunc :: "nat \<Rightarrow> 'a fsst_scheme \<Rightarrow> 'a fsst_scheme kres" where
  "itrunc ip s =
     bnd (itrunc_direct [0..<NDIRECT] ip s) (\<lambda>s.
     bnd (if i_addrs (inodes s ip) NDIRECT \<noteq> 0
          then bnd (bread (i_dev (inodes s ip)) (i_addrs (inodes s ip) NDIRECT) s) (\<lambda>(bp, s).
               bnd (itrunc_indirect [0..<NINDIRECT] bp ip s) (\<lambda>s.
               bnd (brelse bp s) (\<lambda>s.
               bnd (bfree (i_dev (inodes s ip)) (i_addrs (inodes s ip) NDIRECT) s) (\<lambda>s.
               Inr (set_addr ip NDIRECT 0 s)))))
          else Inr s) (\<lambda>s.
     iupdate ip (upd_ino ip (i_size_update (\<lambda>_. 0)) s)))"

definition iput :: "nat \<Rightarrow> 'a fsst_scheme \<Rightarrow> 'a fsst_scheme kres" where
  "iput ip s =
     bnd (acquire LkIcache s) (\<lambda>s.
     bnd (if i_ref (inodes s ip) = 1 \<and> i_valid (inodes s ip) \<and> i_nlink (inodes s ip) = 0
          then bnd (acquiresleep (SlInode ip) s) (\<lambda>s.
               bnd (release LkIcache s) (\<lambda>s.
               bnd (itrunc ip s) (\<lambda>s.
               bnd (iupdate ip (upd_ino ip (i_type_update (\<lambda>_. 0)) s)) (\<lambda>s.
               bnd (releasesleep (SlInode ip) (upd_ino ip (i_valid_update (\<lambda>_. False)) s)) (acquire LkIcache)))))
          else Inr s) (\<lambda>s.
     release LkIcache (upd_ino ip (i_ref_update (\<lambda>r. r - 1)) s)))"

definition iunlockput :: "nat \<Rightarrow> 'a fsst_scheme \<Rightarrow> 'a fsst_scheme kres" where
  "iunlockput ip s = bnd (iunlock ip s) (iput ip)"

definition stati :: "nat \<Rightarrow> 'a fsst_scheme \<Rightarrow> stat" where
  "stati ip s = (let x = inodes s ip in \<lparr>st_dev = i_dev x, st_ino = i_inum x, st_type = i_type x, st_nlink = i_nlink x, st_size = ucast (i_size x)\<rparr>)"

text \<open>The bytes one round of \<open>readi\<close> or \<open>writei\<close> moves.\<close>

definition io_len :: "u32 \<Rightarrow> u32 \<Rightarrow> u32 \<Rightarrow> u32" where
  "io_len off tot n = min (n - tot) (1024 - off mod 1024)"

lemma io_len_bounds:
  assumes "tot < n"
  shows "0 < io_len off tot n" "io_len off tot n \<le> n - tot" "io_len off tot n \<le> 1024"
    "unat (off mod 1024) + unat (io_len off tot n) \<le> 1024"
proof -
  have o: "off mod 1024 < 1024" by (simp add: word_less_nat_alt unat_mod)
  have p: "0 < n - tot" using assms by (simp add: word_gt_0)
  have u: "unat (1024 - off mod 1024) = 1024 - unat (off mod 1024)" using o by (simp add: unat_sub word_less_nat_alt word_le_nat_alt)
  show "0 < io_len off tot n" "io_len off tot n \<le> n - tot" "io_len off tot n \<le> 1024" "unat (off mod 1024) + unat (io_len off tot n) \<le> 1024"
    using o p u by (auto simp: io_len_def min_def word_less_nat_alt word_le_nat_alt split: if_splits)
qed

lemma io_len_dec:
  assumes "tot < n"
  shows "unat (n - (tot + io_len off tot n)) < unat (n - tot)"
proof -
  note b = io_len_bounds [OF assms, of off]
  have "n - (tot + io_len off tot n) = (n - tot) - io_len off tot n" by simp
  then have "unat (n - (tot + io_len off tot n)) = unat (n - tot) - unat (io_len off tot n)" using unat_sub [OF b(2)] by metis
  then show ?thesis using b(1,2) by (simp only: word_less_nat_alt word_le_nat_alt unat_0)
qed

function readi_loop :: "nat \<Rightarrow> dest \<Rightarrow> u32 \<Rightarrow> u32 \<Rightarrow> u32 \<Rightarrow> 'a fsst_scheme \<Rightarrow> (u32 \<times> u8 list \<times> 'a fsst_scheme) kres" where
  "readi_loop ip dst off n tot s =
     (if tot < n
      then bnd (bmap ip (off div 1024) s) (\<lambda>(a, s).
           bnd (bread (i_dev (inodes s ip)) a s) (\<lambda>(bp, s).
           let m = io_len off tot n
           in bnd (either_copyout dst (getb (unat (off mod 1024)) (unat m) (b_data (bufs s bp))) s) (\<lambda>(r, bs, s).
              if r = - 1 then bnd (brelse bp s) (\<lambda>s. Inr (- 1, bs, s))
              else bnd (brelse bp s) (\<lambda>s.
                   bnd (readi_loop ip (dest_add dst m) (off + m) n (tot + m) s) (\<lambda>(r, bs', s). Inr (r, bs @ bs', s))))))
      else Inr (tot, [], s))"
  by pat_completeness auto

termination
  by (relation "measure (\<lambda>(_, _, _, n, tot, _). unat (n - tot))") (auto simp: io_len_dec)

definition readi :: "nat \<Rightarrow> dest \<Rightarrow> u32 \<Rightarrow> u32 \<Rightarrow> 'a fsst_scheme \<Rightarrow> (int \<times> u8 list \<times> 'a fsst_scheme) kres" where
  "readi ip dst off n s =
     (let sz = i_size (inodes s ip)
      in if off > sz \<or> off + n < off then Inr (0, [], s)
         else let n = (if off + n > sz then sz - off else n)
              in bnd (readi_loop ip dst off n 0 s) (\<lambda>(tot, bs, s). Inr (sint tot, bs, s)))"

text \<open>The loop of \<open>writei\<close> returns \<open>off\<close> and \<open>n\<close> as it leaves them: a failed copy sets \<open>n\<close> to the largest unsigned value.\<close>

function writei_loop :: "nat \<Rightarrow> source \<Rightarrow> u32 \<Rightarrow> u32 \<Rightarrow> u32 \<Rightarrow> 'a fsst_scheme \<Rightarrow> (u32 \<times> u32 \<times> 'a fsst_scheme) kres" where
  "writei_loop ip src off n tot s =
     (if tot < n
      then bnd (bmap ip (off div 1024) s) (\<lambda>(a, s).
           bnd (bread (i_dev (inodes s ip)) a s) (\<lambda>(bp, s).
           let m = io_len off tot n
           in bnd (either_copyin src m s) (\<lambda>(r, bs, s).
              let s = set_bdata bp (putb (unat (off mod 1024)) bs (b_data (bufs s bp))) s
              in if r = - 1 then bnd (brelse bp s) (\<lambda>s. Inr (off, - 1, s))
                 else bnd (log_write bp s) (\<lambda>s.
                      bnd (brelse bp s) (writei_loop ip (source_add src m) (off + m) n (tot + m))))))
      else Inr (off, n, s))"
  by pat_completeness auto

termination
  by (relation "measure (\<lambda>(_, _, _, n, tot, _). unat (n - tot))") (auto simp: io_len_dec)

definition writei :: "nat \<Rightarrow> source \<Rightarrow> u32 \<Rightarrow> u32 \<Rightarrow> 'a fsst_scheme \<Rightarrow> (int \<times> 'a fsst_scheme) kres" where
  "writei ip src off n s =
     (if off > i_size (inodes s ip) \<or> off + n < off then Inr (- 1, s)
      else if off + n > of_nat (MAXFILE * BSIZE) then Inr (- 1, s)
      else bnd (writei_loop ip src off n 0 s) (\<lambda>(off, n, s).
           bnd (if n > 0
                then iupdate ip (if off > i_size (inodes s ip) then upd_ino ip (i_size_update (\<lambda>_. off)) s else s)
                else Inr s) (\<lambda>s.
           Inr (sint n, s))))"

declare readi_loop.simps [simp del] writei_loop.simps [simp del]

section \<open>Directories\<close>

text \<open>A list of bytes as a C string in memory.\<close>

definition strf :: "u8 list \<Rightarrow> nat \<Rightarrow> u8" where
  "strf xs i = (if i < length xs then xs ! i else 0)"

definition namecmp :: "u8 list \<Rightarrow> u8 list \<Rightarrow> int" where
  "namecmp x y = strncmp (strf x) (strf y) DIRSIZ"

definition dir_offs :: "u32 \<Rightarrow> nat list" where
  "dir_offs sz = map (\<lambda>k. 16 * k) [0..<(unat sz + 15) div 16]"

fun dirlookup_loop :: "nat list \<Rightarrow> nat \<Rightarrow> u8 list \<Rightarrow> 'a fsst_scheme \<Rightarrow> ((nat \<times> u32) option \<times> 'a fsst_scheme) kres" where
  "dirlookup_loop [] dp name s = Inr (None, s)"
| "dirlookup_loop (off # offs) dp name s =
     bnd (readi dp ToObj (of_nat off) 16 s) (\<lambda>(r, de, s).
     if r \<noteq> 16 then Inl (Panic ''dirlookup read'')
     else let inum = ldw 0 de :: u16
          in if inum = 0 then dirlookup_loop offs dp name s
             else if namecmp name (drop 2 de) = 0
             then bnd (iget (i_dev (inodes s dp)) (ucast inum) s) (\<lambda>(ip, s). Inr (Some (ip, of_nat off), s))
             else dirlookup_loop offs dp name s)"

definition dirlookup :: "nat \<Rightarrow> u8 list \<Rightarrow> 'a fsst_scheme \<Rightarrow> ((nat \<times> u32) option \<times> 'a fsst_scheme) kres" where
  "dirlookup dp name s =
     (if i_type (inodes s dp) \<noteq> T_DIR then Inl (Panic ''dirlookup not DIR'')
      else dirlookup_loop (dir_offs (i_size (inodes s dp))) dp name s)"

text \<open>The search of \<open>dirlink\<close> for an empty entry, which gives the offset where the loop stops.\<close>

fun dirlink_loop :: "nat list \<Rightarrow> nat \<Rightarrow> 'a fsst_scheme \<Rightarrow> (nat \<times> 'a fsst_scheme) kres" where
  "dirlink_loop [] dp s = Inr (16 * ((unat (i_size (inodes s dp)) + 15) div 16), s)"
| "dirlink_loop (off # offs) dp s =
     bnd (readi dp ToObj (of_nat off) 16 s) (\<lambda>(r, de, s).
     if r \<noteq> 16 then Inl (Panic ''dirlink read'')
     else if (ldw 0 de :: u16) = 0 then Inr (off, s)
     else dirlink_loop offs dp s)"

definition dirlink :: "nat \<Rightarrow> u8 list \<Rightarrow> u32 \<Rightarrow> 'a fsst_scheme \<Rightarrow> (int \<times> 'a fsst_scheme) kres" where
  "dirlink dp name inum s =
     bnd (dirlookup dp name s) (\<lambda>(found, s).
     case found of
       Some (ip, _) \<Rightarrow> bnd (iput ip s) (\<lambda>s. Inr (- 1, s))
     | None \<Rightarrow>
         bnd (dirlink_loop (dir_offs (i_size (inodes s dp))) dp s) (\<lambda>(off, s).
         let de = word_bytes (ucast inum :: u16) @ strncpy (strf name) DIRSIZ
         in bnd (writei dp (FromObj de) (of_nat off) 16 s) (\<lambda>(r, s).
            if r \<noteq> 16 then Inl (Panic ''dirlink'') else Inr (0, s))))"

section \<open>Paths\<close>

abbreviation (input) SLASH :: u8 where "SLASH \<equiv> 47"

definition skipelem :: "u8 list \<Rightarrow> (u8 list \<times> u8 list) option" where
  "skipelem path =
     (let path = dropWhile (\<lambda>c. c = SLASH) path
      in if path = [] then None
         else Some (take DIRSIZ (takeWhile (\<lambda>c. c \<noteq> SLASH) path), dropWhile (\<lambda>c. c = SLASH) (dropWhile (\<lambda>c. c \<noteq> SLASH) path)))"

lemma skipelem_shorter: "skipelem p = Some (name, p') \<Longrightarrow> length p' < length p"
proof -
  assume a: "skipelem p = Some (name, p')"
  show ?thesis
  proof (cases "dropWhile (\<lambda>c. c = SLASH) p")
    case Nil
    then show ?thesis using a by (simp add: skipelem_def)
  next
    case (Cons c cs)
    have c: "c \<noteq> SLASH" using hd_dropWhile [of "\<lambda>c. c = SLASH" p] Cons by simp
    have "p' = dropWhile (\<lambda>c. c = SLASH) (dropWhile (\<lambda>c. c \<noteq> SLASH) cs)" using a c by (simp add: skipelem_def Cons)
    then have "length p' \<le> length cs" using order_trans [OF length_dropWhile_le length_dropWhile_le] by simp
    moreover have "Suc (length cs) \<le> length p" using length_dropWhile_le [of "\<lambda>c. c = SLASH" p] Cons by simp
    ultimately show ?thesis by simp
  qed
qed

function namex_loop :: "nat \<Rightarrow> u8 list \<Rightarrow> bool \<Rightarrow> u8 list \<Rightarrow> 'a fsst_scheme \<Rightarrow> (nat option \<times> u8 list \<times> 'a fsst_scheme) kres" where
  "namex_loop ip path par name s =
     (case skipelem path of
        None \<Rightarrow> if par then bnd (iput ip s) (\<lambda>s. Inr (None, name, s)) else Inr (Some ip, name, s)
      | Some (name, path) \<Rightarrow>
          bnd (ilock ip s) (\<lambda>s.
          if i_type (inodes s ip) \<noteq> T_DIR then bnd (iunlockput ip s) (\<lambda>s. Inr (None, name, s))
          else if par \<and> path = [] then bnd (iunlock ip s) (\<lambda>s. Inr (Some ip, name, s))
          else bnd (dirlookup ip name s) (\<lambda>(found, s).
               case found of
                 None \<Rightarrow> bnd (iunlockput ip s) (\<lambda>s. Inr (None, name, s))
               | Some (nxt, _) \<Rightarrow> bnd (iunlockput ip s) (\<lambda>s. namex_loop nxt path par name s))))"
  by pat_completeness auto

termination
  by (relation "measure (\<lambda>(_, path, _). length path)") (auto dest: skipelem_shorter)

definition namex :: "u8 list \<Rightarrow> bool \<Rightarrow> 'a fsst_scheme \<Rightarrow> (nat option \<times> u8 list \<times> 'a fsst_scheme) kres" where
  "namex path par s =
     bnd (if path \<noteq> [] \<and> hd path = SLASH then iget ROOTDEV ROOTINO s
          else case p_cwd (procs s (cur s)) of Some ip \<Rightarrow> idup ip s | None \<Rightarrow> Inl Undef) (\<lambda>(ip, s).
     namex_loop ip path par [] s)"

definition namei :: "u8 list \<Rightarrow> 'a fsst_scheme \<Rightarrow> (nat option \<times> 'a fsst_scheme) kres" where
  "namei path s = bnd (namex path False s) (\<lambda>(ip, _, s). Inr (ip, s))"

definition nameiparent :: "u8 list \<Rightarrow> 'a fsst_scheme \<Rightarrow> (nat option \<times> u8 list \<times> 'a fsst_scheme) kres" where
  "nameiparent path s = namex path True s"

declare namex_loop.simps [simp del]

end
