(* ===== verification/Uart.thy ===== *)
theory Uart
  imports Fs
begin

text \<open>
  The UART driver of \<open>kernel/uart.c\<close>. The device is part of the state: \<open>uart_rx\<close> holds the bytes it has received and the driver has
  not yet read (bit 0 of LSR says whether there is one, RHR gives the first), \<open>uart_idle\<close> the bit TX_IDLE of LSR at the successive times the
  transmit path reads it, \<open>uart_tx\<close> the bytes written to THR, \<open>uart_regs\<close> the other registers. The state of the console and of
  \<open>printf\<close> is declared here as well.
\<close>

abbreviation (input) UART_TX_BUF_SIZE :: nat where "UART_TX_BUF_SIZE \<equiv> 32"
abbreviation (input) INPUT_BUF :: nat where "INPUT_BUF \<equiv> 128"

record consst = fsst +
  uart_rx :: "u8 list"
  uart_idle :: "nat \<Rightarrow> bool"
  uart_tx :: "u8 list"
  uart_regs :: "nat \<Rightarrow> u8"
  uart_tx_buf :: "nat \<Rightarrow> u8"
  uart_tx_w :: nat
  uart_tx_r :: nat
  panicked :: bool
  pr_locking :: bool
  cons_buf :: "nat \<Rightarrow> u8"
  cons_r :: u32
  cons_w :: u32
  cons_e :: u32

definition WriteReg :: "nat \<Rightarrow> u8 \<Rightarrow> 'a consst_scheme \<Rightarrow> 'a consst_scheme" where
  "WriteReg r v s = s\<lparr>uart_regs := (uart_regs s)(r := v)\<rparr>"

definition write_thr :: "u8 \<Rightarrow> 'a consst_scheme \<Rightarrow> 'a consst_scheme" where
  "write_thr c s = s\<lparr>uart_tx := uart_tx s @ [c]\<rparr>"

text \<open>Reading TX_IDLE of LSR.\<close>

definition read_idle :: "'a consst_scheme \<Rightarrow> bool \<times> 'a consst_scheme" where
  "read_idle s = (uart_idle s 0, s\<lparr>uart_idle := (\<lambda>i. uart_idle s (Suc i))\<rparr>)"

definition uartinit :: "'a consst_scheme \<Rightarrow> 'a consst_scheme" where
  "uartinit s =
     (let s = WriteReg 1 0x00 s;
          s = WriteReg 3 (push_bit 7 1) s;
          s = WriteReg 0 0x03 s;
          s = WriteReg 1 0x00 s;
          s = WriteReg 3 (push_bit 0 3) s;
          s = WriteReg 2 (or (push_bit 0 1) (push_bit 1 3)) s
      in WriteReg 1 (or (push_bit 0 1) (push_bit 1 1)) s)"

text \<open>
  The loop of \<open>uartstart\<close> with a bound on its rounds. Every round takes a byte out of the buffer, so UART_TX_BUF_SIZE rounds are
  enough.
\<close>

fun uartstart_loop :: "nat \<Rightarrow> 'a consst_scheme \<Rightarrow> 'a consst_scheme kres" where
  "uartstart_loop 0 s = Inl NoFuel"
| "uartstart_loop (Suc k) s =
     (if uart_tx_w s = uart_tx_r s then Inr s
      else let (idle, s) = read_idle s
           in if \<not> idle then Inr s
              else let c = uart_tx_buf s (uart_tx_r s);
                       s = s\<lparr>uart_tx_r := (uart_tx_r s + 1) mod UART_TX_BUF_SIZE\<rparr>
                   in bnd (wakeup ChUartTx s) (\<lambda>s. uartstart_loop k (write_thr c s)))"

definition uartstart :: "'a consst_scheme \<Rightarrow> 'a consst_scheme kres" where
  "uartstart s = uartstart_loop UART_TX_BUF_SIZE s"

definition uartputc :: "u8 \<Rightarrow> 'a consst_scheme \<Rightarrow> 'a consst_scheme kres" where
  "uartputc c s =
     bnd (acquire LkUart s) (\<lambda>s.
     if panicked s then Inl NoFuel
     else if (uart_tx_w s + 1) mod UART_TX_BUF_SIZE = uart_tx_r s then sleep ChUartTx LkUart s
     else let s = s\<lparr>uart_tx_buf := (uart_tx_buf s)(uart_tx_w s := c)\<rparr>;
              s = s\<lparr>uart_tx_w := (uart_tx_w s + 1) mod UART_TX_BUF_SIZE\<rparr>
          in bnd (uartstart s) (release LkUart))"

text \<open>The wait for TX_IDLE: \<open>None\<close> when the device never becomes idle.\<close>

partial_function (option) uart_wait :: "(nat \<Rightarrow> bool) \<Rightarrow> (nat \<Rightarrow> bool) option" where
  "uart_wait f = (if f 0 then Some (\<lambda>i. f (Suc i)) else uart_wait (\<lambda>i. f (Suc i)))"

definition uartputc_sync :: "u8 \<Rightarrow> 'a consst_scheme \<Rightarrow> 'a consst_scheme kres" where
  "uartputc_sync c s =
     (if panicked s then Inl NoFuel
      else case uart_wait (uart_idle s) of
             None \<Rightarrow> Inl NoFuel
           | Some f \<Rightarrow> Inr (write_thr c (s\<lparr>uart_idle := f\<rparr>)))"

text \<open>\<open>None\<close> stands for the result \<open>-1\<close>.\<close>

definition uartgetc :: "'a consst_scheme \<Rightarrow> u8 option \<times> 'a consst_scheme" where
  "uartgetc s = (case uart_rx s of [] \<Rightarrow> (None, s) | c # cs \<Rightarrow> (Some c, s\<lparr>uart_rx := cs\<rparr>))"

end
