(* ===== verification/Printf.thy ===== *)
theory Printf
  imports Uart
begin

text \<open>
  \<open>printf\<close> of the kernel (\<open>kernel/printf.c\<close>), the character output of the console (\<open>consputc\<close> of \<open>kernel/console.c\<close>) and the process
  listing \<open>procdump\<close> of \<open>kernel/proc.c\<close>. The arguments of \<open>printf\<close> are a list of values with the type the format reads them at.
\<close>

datatype putch = Ch u8 | BACKSPACE

fun consputc :: "putch \<Rightarrow> 'a consst_scheme \<Rightarrow> 'a consst_scheme kres" where
  "consputc BACKSPACE s = bnd (uartputc_sync 8 s) (\<lambda>s. bnd (uartputc_sync 32 s) (uartputc_sync 8))"
| "consputc (Ch c) s = uartputc_sync c s"

fun consputs :: "u8 list \<Rightarrow> 'a consst_scheme \<Rightarrow> 'a consst_scheme kres" where
  "consputs [] s = Inr s"
| "consputs (c # cs) s = bnd (consputc (Ch c) s) (consputs cs)"

definition ascii :: "string \<Rightarrow> u8 list" where
  "ascii xs = map (\<lambda>c. of_nat (of_char c)) xs"

definition digits :: "u8 list" where
  "digits = ascii ''0123456789abcdef''"

text \<open>The do-while loop of \<open>printint\<close>: the digits it stores, least significant first.\<close>

function print_digits :: "nat \<Rightarrow> nat \<Rightarrow> u8 list" where
  "print_digits base x =
     digits ! (x mod base) # (if x div base \<noteq> 0 \<and> 2 \<le> base then print_digits base (x div base) else [])"
  by pat_completeness auto

termination
  by (relation "measure snd") (auto simp: div_greater_zero_iff)

declare print_digits.simps [simp del]

definition printint :: "u32 \<Rightarrow> nat \<Rightarrow> bool \<Rightarrow> 'a consst_scheme \<Rightarrow> 'a consst_scheme kres" where
  "printint xx base sign s =
     (let neg = (sign \<and> sint xx < 0);
          x = (if neg then - xx else xx);
          buf = print_digits base (unat x);
          buf = (if neg then buf @ [45] else buf)
      in consputs (rev buf) s)"

fun printptr_loop :: "nat \<Rightarrow> u64 \<Rightarrow> u8 list" where
  "printptr_loop 0 x = []"
| "printptr_loop (Suc k) x = digits ! unat (drop_bit 60 x) # printptr_loop k (push_bit 4 x)"

definition printptr :: "u64 \<Rightarrow> 'a consst_scheme \<Rightarrow> 'a consst_scheme kres" where
  "printptr x s = consputs (ascii ''0x'' @ printptr_loop 16 x) s"

datatype prarg = ArgInt u32 | ArgPtr u64 | ArgStr "u8 list option"

text \<open>A format that asks for an argument of another type, or for one too many, has undefined behaviour.\<close>

fun printf_loop :: "u8 list \<Rightarrow> prarg list \<Rightarrow> 'a consst_scheme \<Rightarrow> 'a consst_scheme kres" where
  "printf_loop [] args s = Inr s"
| "printf_loop (c # cs) args s =
     (if c \<noteq> 37 then bnd (consputc (Ch c) s) (printf_loop cs args)
      else case cs of
             [] \<Rightarrow> Inr s
           | d # ds \<Rightarrow>
               if d = 100 then (case args of ArgInt x # as \<Rightarrow> bnd (printint x 10 True s) (printf_loop ds as) | _ \<Rightarrow> Inl Undef)
               else if d = 120 then (case args of ArgInt x # as \<Rightarrow> bnd (printint x 16 True s) (printf_loop ds as) | _ \<Rightarrow> Inl Undef)
               else if d = 112 then (case args of ArgPtr x # as \<Rightarrow> bnd (printptr x s) (printf_loop ds as) | _ \<Rightarrow> Inl Undef)
               else if d = 115
               then (case args of
                       ArgStr x # as \<Rightarrow> bnd (consputs (case x of Some str \<Rightarrow> str | None \<Rightarrow> ascii ''(null)'') s) (printf_loop ds as)
                     | _ \<Rightarrow> Inl Undef)
               else if d = 37 then bnd (consputc (Ch 37) s) (printf_loop ds args)
               else bnd (consputc (Ch 37) s) (\<lambda>s. bnd (consputc (Ch d) s) (printf_loop ds args)))"

definition printf :: "string \<Rightarrow> prarg list \<Rightarrow> 'a consst_scheme \<Rightarrow> 'a consst_scheme kres" where
  "printf fmt args s =
     (let locking = pr_locking s
      in bnd (if locking then acquire LkPr s else Inr s) (\<lambda>s.
         bnd (printf_loop (ascii fmt) args s) (\<lambda>s.
         if locking then release LkPr s else Inr s)))"

text \<open>What \<open>panic\<close> does before it loops forever.\<close>

definition panic :: "string \<Rightarrow> 'a consst_scheme \<Rightarrow> 'a consst_scheme kres" where
  "panic msg s =
     (let s = s\<lparr>pr_locking := False\<rparr>
      in bnd (printf ''panic: '' [] s) (\<lambda>s.
         bnd (printf msg [] s) (\<lambda>s.
         bnd (printf [CHR 0x0A] [] s) (\<lambda>s.
         Inr (s\<lparr>panicked := True\<rparr>)))))"

definition printfinit :: "'a consst_scheme \<Rightarrow> 'a consst_scheme" where
  "printfinit s = s\<lparr>pr_locking := True\<rparr>"

primrec state_name :: "procstate \<Rightarrow> string" where
  "state_name UNUSED = ''unused''"
| "state_name SLEEPING = ''sleep ''"
| "state_name RUNNABLE = ''runble''"
| "state_name RUNNING = ''run   ''"
| "state_name ZOMBIE = ''zombie''"

fun procdump_loop :: "nat list \<Rightarrow> 'a consst_scheme \<Rightarrow> 'a consst_scheme kres" where
  "procdump_loop [] s = Inr s"
| "procdump_loop (i # is) s =
     (let p = procs s i
      in if p_state p = UNUSED then procdump_loop is s
         else bnd (printf ''%d %s %s'' [ArgInt (p_pid p), ArgStr (Some (ascii (state_name (p_state p)))),
                     ArgStr (Some (takeWhile (\<lambda>c. c \<noteq> 0) (p_name p)))] s) (\<lambda>s.
              bnd (printf [CHR 0x0A] [] s) (procdump_loop is)))"

definition procdump :: "'a consst_scheme \<Rightarrow> 'a consst_scheme kres" where
  "procdump s = bnd (printf [CHR 0x0A] [] s) (procdump_loop [0..<NPROC])"

end
