(* ===== verification/Console.thy ===== *)
theory Console
  imports Printf
begin

text \<open>
  The console of \<open>kernel/console.c\<close>: the line discipline that turns input bytes into lines, and the device operations. Indices
  into the input buffer are the free running 32-bit counters of the source, taken modulo INPUT_BUF.
\<close>

abbreviation (input) NL :: u8 where "NL \<equiv> 10"
abbreviation (input) CTRL_D :: u8 where "CTRL_D \<equiv> 4"

definition cons_at :: "u32 \<Rightarrow> 'a consst_scheme \<Rightarrow> u8" where
  "cons_at i s = cons_buf s (unat (i mod 128))"

fun consolewrite_loop :: "nat \<Rightarrow> int \<Rightarrow> source \<Rightarrow> 'a consst_scheme \<Rightarrow> (int \<times> 'a consst_scheme) kres" where
  "consolewrite_loop 0 i src s = Inr (i, s)"
| "consolewrite_loop (Suc k) i src s =
     bnd (either_copyin src 1 s) (\<lambda>(r, c, s).
     if r = - 1 then Inr (i, s)
     else bnd (uartputc (hd c) s) (consolewrite_loop k (i + 1) (source_add src 1)))"

definition consolewrite :: "source \<Rightarrow> int \<Rightarrow> 'a consst_scheme \<Rightarrow> (int \<times> 'a consst_scheme) kres" where
  "consolewrite src n s =
     bnd (acquire LkCons s) (\<lambda>s.
     bnd (consolewrite_loop (nat n) 0 src s) (\<lambda>(i, s).
     bnd (release LkCons s) (\<lambda>s. Inr (i, s))))"

text \<open>
  The loop of \<open>consoleread\<close> runs until it returns or has to wait for input. \<open>Waits n\<close>: the line buffer is empty, \<open>n\<close> bytes are
  still wanted and the process goes to sleep with the lock. \<open>Returns r\<close>: the value of the call.
\<close>

datatype outcome = Waits int | Returns int

fun consoleread_loop :: "nat \<Rightarrow> nat \<Rightarrow> dest \<Rightarrow> 'a consst_scheme \<Rightarrow> (outcome \<times> u8 list \<times> 'a consst_scheme) kres" where
  "consoleread_loop target 0 dst s = bnd (release LkCons s) (\<lambda>s. Inr (Returns (int target), [], s))"
| "consoleread_loop target (Suc n) dst s =
     (if cons_r s = cons_w s
      then if p_killed (procs s (cur s)) then bnd (release LkCons s) (\<lambda>s. Inr (Returns (- 1), [], s))
           else Inr (Waits (int (Suc n)), [], s)
      else let c = cons_at (cons_r s) s;
               s = s\<lparr>cons_r := cons_r s + 1\<rparr>
           in if c = CTRL_D
              then let s = (if Suc n < target then s\<lparr>cons_r := cons_r s - 1\<rparr> else s)
                   in bnd (release LkCons s) (\<lambda>s. Inr (Returns (int (target - Suc n)), [], s))
              else bnd (either_copyout dst [c] s) (\<lambda>(r, bs, s).
                   if r = - 1 then bnd (release LkCons s) (\<lambda>s. Inr (Returns (int (target - Suc n)), bs, s))
                   else if c = NL then bnd (release LkCons s) (\<lambda>s. Inr (Returns (int (target - n)), bs, s))
                   else bnd (consoleread_loop target n (dest_add dst 1) s) (\<lambda>(r, bs', s). Inr (r, bs @ bs', s))))"

definition consoleread :: "dest \<Rightarrow> int \<Rightarrow> 'a consst_scheme \<Rightarrow> (int \<times> u8 list \<times> 'a consst_scheme) kres" where
  "consoleread dst n s =
     bnd (acquire LkCons s) (\<lambda>s.
     if n \<le> 0 then bnd (release LkCons s) (\<lambda>s. Inr (0, [], s))
     else bnd (consoleread_loop (nat n) (nat n) dst s) (\<lambda>(r, bs, s).
     case r of Returns r \<Rightarrow> Inr (r, bs, s) | Waits _ \<Rightarrow> sleep ChConsR LkCons s))"

text \<open>The loop of the kill-line key, with the number \<open>e - w\<close> of bytes of the line as its bound.\<close>

fun cons_kill :: "nat \<Rightarrow> 'a consst_scheme \<Rightarrow> 'a consst_scheme kres" where
  "cons_kill 0 s = Inr s"
| "cons_kill (Suc k) s =
     (if cons_at (cons_e s - 1) s \<noteq> NL then bnd (consputc BACKSPACE (s\<lparr>cons_e := cons_e s - 1\<rparr>)) (cons_kill k) else Inr s)"

definition cons_store :: "u8 \<Rightarrow> 'a consst_scheme \<Rightarrow> 'a consst_scheme" where
  "cons_store c s = s\<lparr>cons_buf := (cons_buf s)(unat (cons_e s mod 128) := c), cons_e := cons_e s + 1\<rparr>"

definition consoleintr :: "u8 \<Rightarrow> 'a consst_scheme \<Rightarrow> 'a consst_scheme kres" where
  "consoleintr c s =
     bnd (acquire LkCons s) (\<lambda>s.
     bnd (if c = 16 then procdump s
          else if c = 21 then cons_kill (unat (cons_e s - cons_w s)) s
          else if c = 8 \<or> c = 127
          then if cons_e s \<noteq> cons_w s then consputc BACKSPACE (s\<lparr>cons_e := cons_e s - 1\<rparr>) else Inr s
          else if c \<noteq> 0 \<and> cons_e s - cons_r s < 128
          then let c = (if c = 13 then NL else c)
               in bnd (consputc (Ch c) s) (\<lambda>s.
                  let s = cons_store c s
                  in if c = NL \<or> c = CTRL_D \<or> cons_e s = cons_r s + 128
                     then wakeup ChConsR (s\<lparr>cons_w := cons_e s\<rparr>)
                     else Inr s)
          else Inr s) (\<lambda>s.
     release LkCons s))"

text \<open>The interrupt handler of the UART processes every byte the device has received, then sends what is buffered.\<close>

fun uartintr_loop :: "nat \<Rightarrow> 'a consst_scheme \<Rightarrow> 'a consst_scheme kres" where
  "uartintr_loop 0 s = Inr s"
| "uartintr_loop (Suc k) s =
     (case uartgetc s of
        (None, s) \<Rightarrow> Inr s
      | (Some c, s) \<Rightarrow> bnd (consoleintr c s) (uartintr_loop k))"

definition uartintr :: "'a consst_scheme \<Rightarrow> 'a consst_scheme kres" where
  "uartintr s =
     bnd (uartintr_loop (length (uart_rx s)) s) (\<lambda>s.
     bnd (acquire LkUart s) (\<lambda>s.
     bnd (uartstart s) (release LkUart)))"

end
