(* ===== verification/Pipe.thy ===== *)
theory Pipe
  imports Console
begin

text \<open>
  The state of open files and the pipes of \<open>kernel/pipe.c\<close>. A pipe is named by the address of the page that holds it; its fields are kept
  beside the memory, in \<open>pipes\<close>. \<open>nread\<close> and \<open>nwrite\<close> are the free running 32-bit counters of the source.
\<close>

abbreviation (input) PIPESIZE :: nat where "PIPESIZE \<equiv> 512"
abbreviation (input) NFILE :: nat where "NFILE \<equiv> 100"
abbreviation (input) NOFILE :: nat where "NOFILE \<equiv> 16"
abbreviation (input) NDEV :: nat where "NDEV \<equiv> 10"

record pipe =
  pi_data :: "nat \<Rightarrow> u8"
  nread :: u32
  nwrite :: u32
  readopen :: bool
  writeopen :: bool

datatype ftype = FD_NONE | FD_PIPE | FD_INODE | FD_DEVICE

record kfile =
  f_type :: ftype
  f_ref :: int
  f_readable :: bool
  f_writable :: bool
  f_pipe :: addr
  f_ip :: nat
  f_off :: u32
  f_major :: u16

text \<open>
  The functions in an entry of the device switch are null or those of the console. \<open>st_pad\<close> holds the four bytes of padding in a
  \<open>struct stat\<close> on the kernel stack, which nothing sets.
\<close>

datatype devfn = NoDev | ConsoleDev

record filest = consst +
  pipes :: "addr \<Rightarrow> pipe"
  ftable :: "nat \<Rightarrow> kfile"
  devsw :: "nat \<Rightarrow> devfn"
  st_pad :: "u8 list"

definition upd_pipe :: "addr \<Rightarrow> (pipe \<Rightarrow> pipe) \<Rightarrow> 'a filest_scheme \<Rightarrow> 'a filest_scheme" where
  "upd_pipe pi f s = s\<lparr>pipes := (pipes s)(pi := f (pipes s pi))\<rparr>"

definition consoleinit :: "'a filest_scheme \<Rightarrow> 'a filest_scheme" where
  "consoleinit s = (let s = uartinit s in s\<lparr>devsw := (devsw s)(1 := ConsoleDev)\<rparr>)"

section \<open>The ring buffer\<close>

definition pipe_full :: "pipe \<Rightarrow> bool" where
  "pipe_full p \<longleftrightarrow> nwrite p = nread p + 512"

definition pipe_put :: "u8 \<Rightarrow> pipe \<Rightarrow> pipe" where
  "pipe_put c p = p\<lparr>pi_data := (pi_data p)(unat (nwrite p mod 512) := c), nwrite := nwrite p + 1\<rparr>"

definition pipe_get :: "pipe \<Rightarrow> u8 \<times> pipe" where
  "pipe_get p = (pi_data p (unat (nread p mod 512)), p\<lparr>nread := nread p + 1\<rparr>)"

section \<open>Operations\<close>

definition pipeclose :: "addr \<Rightarrow> bool \<Rightarrow> 'a filest_scheme \<Rightarrow> 'a filest_scheme kres" where
  "pipeclose pi wr s =
     bnd (acquire (LkPipe pi) s) (\<lambda>s.
     bnd (if wr then wakeup (ChPipeRead pi) (upd_pipe pi (writeopen_update (\<lambda>_. False)) s)
          else wakeup (ChPipeWrite pi) (upd_pipe pi (readopen_update (\<lambda>_. False)) s)) (\<lambda>s.
     if \<not> readopen (pipes s pi) \<and> \<not> writeopen (pipes s pi)
     then bnd (release (LkPipe pi) s) (kfree pi)
     else release (LkPipe pi) s))"

text \<open>
  The loop of \<open>pipewrite\<close> from index \<open>i\<close>, with \<open>k\<close> bytes left, until it returns or has to wait for room. \<open>Waits i\<close>: the process goes to
  sleep with the lock and continues at index \<open>i\<close>.
\<close>

fun pipewrite_loop :: "nat \<Rightarrow> addr \<Rightarrow> u64 \<Rightarrow> int \<Rightarrow> 'a filest_scheme \<Rightarrow> (outcome \<times> 'a filest_scheme) kres" where
  "pipewrite_loop 0 pi addr i s =
     bnd (wakeup (ChPipeRead pi) s) (\<lambda>s.
     bnd (release (LkPipe pi) s) (\<lambda>s. Inr (Returns i, s)))"
| "pipewrite_loop (Suc k) pi addr i s =
     (if pipe_full (pipes s pi)
      then if \<not> readopen (pipes s pi) \<or> p_killed (procs s (cur s))
           then bnd (release (LkPipe pi) s) (\<lambda>s. Inr (Returns (- 1), s))
           else bnd (wakeup (ChPipeRead pi) s) (\<lambda>s. Inr (Waits i, s))
      else bnd (copyin (p_pagetable (procs s (cur s))) (addr + word_of_int i) 1 s) (\<lambda>(r, ch, s).
           if r = - 1 then pipewrite_loop 0 pi addr i s
           else pipewrite_loop k pi addr (i + 1) (upd_pipe pi (pipe_put (hd ch)) s)))"

definition pipewrite :: "addr \<Rightarrow> u64 \<Rightarrow> int \<Rightarrow> 'a filest_scheme \<Rightarrow> (int \<times> 'a filest_scheme) kres" where
  "pipewrite pi addr n s =
     bnd (acquire (LkPipe pi) s) (\<lambda>s.
     bnd (pipewrite_loop (nat n) pi addr 0 s) (\<lambda>(r, s).
     case r of Returns i \<Rightarrow> Inr (i, s) | Waits _ \<Rightarrow> sleep (ChPipeWrite pi) (LkPipe pi) s))"

fun piperead_loop :: "nat \<Rightarrow> addr \<Rightarrow> u64 \<Rightarrow> int \<Rightarrow> 'a filest_scheme \<Rightarrow> (int \<times> 'a filest_scheme) kres" where
  "piperead_loop 0 pi addr i s = Inr (i, s)"
| "piperead_loop (Suc k) pi addr i s =
     (if nread (pipes s pi) = nwrite (pipes s pi) then Inr (i, s)
      else let (ch, p) = pipe_get (pipes s pi);
               s = upd_pipe pi (\<lambda>_. p) s
           in bnd (copyout (p_pagetable (procs s (cur s))) (addr + word_of_int i) (\<lambda>_. ch) 1 s) (\<lambda>(r, s).
              if r = - 1 then Inr (i, s) else piperead_loop k pi addr (i + 1) s))"

definition piperead :: "addr \<Rightarrow> u64 \<Rightarrow> int \<Rightarrow> 'a filest_scheme \<Rightarrow> (int \<times> 'a filest_scheme) kres" where
  "piperead pi addr n s =
     bnd (acquire (LkPipe pi) s) (\<lambda>s.
     if nread (pipes s pi) = nwrite (pipes s pi) \<and> writeopen (pipes s pi)
     then if p_killed (procs s (cur s)) then bnd (release (LkPipe pi) s) (\<lambda>s. Inr (- 1, s))
          else sleep (ChPipeRead pi) (LkPipe pi) s
     else bnd (piperead_loop (nat n) pi addr 0 s) (\<lambda>(i, s).
          bnd (wakeup (ChPipeWrite pi) s) (\<lambda>s.
          bnd (release (LkPipe pi) s) (\<lambda>s. Inr (i, s)))))"

end
