(* ===== verification/File.thy ===== *)
theory File
  imports Pipe
begin

text \<open>
  The table of open files of \<open>kernel/file.c\<close>, with \<open>pipealloc\<close> of \<open>kernel/pipe.c\<close>. A pointer to an open file is an index below NFILE.
\<close>

definition upd_file :: "nat \<Rightarrow> (kfile \<Rightarrow> kfile) \<Rightarrow> 'a filest_scheme \<Rightarrow> 'a filest_scheme" where
  "upd_file f g s = s\<lparr>ftable := (ftable s)(f := g (ftable s f))\<rparr>"

definition filealloc :: "'a filest_scheme \<Rightarrow> (nat option \<times> 'a filest_scheme) kres" where
  "filealloc s =
     bnd (acquire LkFtable s) (\<lambda>s.
     case find (\<lambda>f. f_ref (ftable s f) = 0) [0..<NFILE] of
       Some f \<Rightarrow> bnd (release LkFtable (upd_file f (f_ref_update (\<lambda>_. 1)) s)) (\<lambda>s. Inr (Some f, s))
     | None \<Rightarrow> bnd (release LkFtable s) (\<lambda>s. Inr (None, s)))"

definition filedup :: "nat \<Rightarrow> 'a filest_scheme \<Rightarrow> (nat \<times> 'a filest_scheme) kres" where
  "filedup f s =
     bnd (acquire LkFtable s) (\<lambda>s.
     if f_ref (ftable s f) < 1 then Inl (Panic ''filedup'')
     else bnd (release LkFtable (upd_file f (f_ref_update (\<lambda>r. r + 1)) s)) (\<lambda>s. Inr (f, s)))"

definition fileclose :: "nat \<Rightarrow> 'a filest_scheme \<Rightarrow> 'a filest_scheme kres" where
  "fileclose f s =
     bnd (acquire LkFtable s) (\<lambda>s.
     if f_ref (ftable s f) < 1 then Inl (Panic ''fileclose'')
     else let s = upd_file f (f_ref_update (\<lambda>r. r - 1)) s
          in if f_ref (ftable s f) > 0 then release LkFtable s
             else let ff = ftable s f;
                      s = upd_file f (\<lambda>x. x\<lparr>f_ref := 0, f_type := FD_NONE\<rparr>) s
                  in bnd (release LkFtable s) (\<lambda>s.
                     if f_type ff = FD_PIPE then pipeclose (f_pipe ff) (f_writable ff) s
                     else if f_type ff = FD_INODE \<or> f_type ff = FD_DEVICE
                     then bnd (begin_op s) (\<lambda>s. bnd (iput (f_ip ff) s) end_op)
                     else Inr s))"

definition pipealloc :: "'a filest_scheme \<Rightarrow> ((nat \<times> nat) option \<times> 'a filest_scheme) kres" where
  "pipealloc s =
     bnd (filealloc s) (\<lambda>(f0, s).
     case f0 of
       None \<Rightarrow> Inr (None, s)
     | Some f0 \<Rightarrow>
         bnd (filealloc s) (\<lambda>(f1, s).
         case f1 of
           None \<Rightarrow> bnd (fileclose f0 s) (\<lambda>s. Inr (None, s))
         | Some f1 \<Rightarrow>
             bnd (kalloc s) (\<lambda>(pi, s).
             if pi = 0 then bnd (fileclose f0 s) (\<lambda>s. bnd (fileclose f1 s) (\<lambda>s. Inr (None, s)))
             else let s = upd_pipe pi (\<lambda>p. p\<lparr>readopen := True, writeopen := True, nwrite := 0, nread := 0\<rparr>) s;
                      s = upd_file f0 (\<lambda>x. x\<lparr>f_type := FD_PIPE, f_readable := True, f_writable := False, f_pipe := pi\<rparr>) s;
                      s = upd_file f1 (\<lambda>x. x\<lparr>f_type := FD_PIPE, f_readable := False, f_writable := True, f_pipe := pi\<rparr>) s
                  in Inr (Some (f0, f1), s))))"

text \<open>The bytes of a \<open>struct stat\<close>; four bytes of padding precede the size.\<close>

definition stat_bytes :: "u8 list \<Rightarrow> stat \<Rightarrow> u8 list" where
  "stat_bytes pad st = word_bytes (st_dev st) @ word_bytes (st_ino st) @ word_bytes (st_type st) @ word_bytes (st_nlink st) @ pad @ word_bytes (st_size st)"

definition filestat :: "nat \<Rightarrow> u64 \<Rightarrow> 'a filest_scheme \<Rightarrow> (int \<times> 'a filest_scheme) kres" where
  "filestat f addr s =
     (let ff = ftable s f
      in if f_type ff = FD_INODE \<or> f_type ff = FD_DEVICE
         then bnd (ilock (f_ip ff) s) (\<lambda>s.
              let st = stati (f_ip ff) s
              in bnd (iunlock (f_ip ff) s) (\<lambda>s.
                 bnd (copyout (p_pagetable (procs s (cur s))) addr (\<lambda>i. stat_bytes (st_pad s) st ! i) 24 s) (\<lambda>(r, s).
                 Inr (if r < 0 then - 1 else 0, s))))
         else Inr (- 1, s))"

text \<open>The device numbered \<open>major\<close>, when there is one.\<close>

definition dev_of :: "u16 \<Rightarrow> 'a filest_scheme \<Rightarrow> devfn" where
  "dev_of major s = (if sint major < 0 \<or> sint major \<ge> int NDEV then NoDev else devsw s (nat (sint major)))"

definition fileread :: "nat \<Rightarrow> u64 \<Rightarrow> int \<Rightarrow> 'a filest_scheme \<Rightarrow> (int \<times> 'a filest_scheme) kres" where
  "fileread f addr n s =
     (let ff = ftable s f
      in if \<not> f_readable ff then Inr (- 1, s)
         else case f_type ff of
           FD_PIPE \<Rightarrow> piperead (f_pipe ff) addr n s
         | FD_DEVICE \<Rightarrow>
             (case dev_of (f_major ff) s of
                NoDev \<Rightarrow> Inr (- 1, s)
              | ConsoleDev \<Rightarrow> bnd (consoleread (ToUser addr) n s) (\<lambda>(r, _, s). Inr (r, s)))
         | FD_INODE \<Rightarrow>
             bnd (ilock (f_ip ff) s) (\<lambda>s.
             bnd (readi (f_ip ff) (ToUser addr) (f_off ff) (word_of_int n) s) (\<lambda>(r, _, s).
             let s = (if r > 0 then upd_file f (\<lambda>x. x\<lparr>f_off := f_off x + word_of_int r\<rparr>) s else s)
             in bnd (iunlock (f_ip ff) s) (\<lambda>s. Inr (r, s))))
         | FD_NONE \<Rightarrow> Inl (Panic ''fileread''))"

text \<open>One transaction of \<open>filewrite\<close>, and the loop over the transactions, which gives the index where it stops.\<close>

abbreviation (input) WRITEMAX :: int where "WRITEMAX \<equiv> 3072"

definition filewrite_op :: "nat \<Rightarrow> u64 \<Rightarrow> int \<Rightarrow> 'a filest_scheme \<Rightarrow> (int \<times> 'a filest_scheme) kres" where
  "filewrite_op f addr n1 s =
     (let ip = f_ip (ftable s f)
      in bnd (begin_op s) (\<lambda>s.
         bnd (ilock ip s) (\<lambda>s.
         bnd (writei ip (FromUser addr) (f_off (ftable s f)) (word_of_int n1) s) (\<lambda>(r, s).
         let s = (if r > 0 then upd_file f (\<lambda>x. x\<lparr>f_off := f_off x + word_of_int r\<rparr>) s else s)
         in bnd (iunlock ip s) (\<lambda>s.
            bnd (end_op s) (\<lambda>s. Inr (r, s)))))))"

function filewrite_loop :: "nat \<Rightarrow> u64 \<Rightarrow> int \<Rightarrow> int \<Rightarrow> 'a filest_scheme \<Rightarrow> (int \<times> 'a filest_scheme) kres" where
  "filewrite_loop f addr i n s =
     (if i < n
      then let n1 = min (n - i) WRITEMAX
           in bnd (filewrite_op f (addr + word_of_int i) n1 s) (\<lambda>(r, s).
              if r < 0 then Inr (i, s)
              else if r \<noteq> n1 then Inl (Panic ''short filewrite'')
              else filewrite_loop f addr (i + n1) n s)
      else Inr (i, s))"
  by pat_completeness auto

termination
  by (relation "measure (\<lambda>(_, _, i, n, _). nat (n - i))") (auto simp: min_def)

definition filewrite :: "nat \<Rightarrow> u64 \<Rightarrow> int \<Rightarrow> 'a filest_scheme \<Rightarrow> (int \<times> 'a filest_scheme) kres" where
  "filewrite f addr n s =
     (let ff = ftable s f
      in if \<not> f_writable ff then Inr (- 1, s)
         else case f_type ff of
           FD_PIPE \<Rightarrow> pipewrite (f_pipe ff) addr n s
         | FD_DEVICE \<Rightarrow> (case dev_of (f_major ff) s of NoDev \<Rightarrow> Inr (- 1, s) | ConsoleDev \<Rightarrow> consolewrite (FromUser addr) n s)
         | FD_INODE \<Rightarrow> bnd (filewrite_loop f addr 0 n s) (\<lambda>(i, s). Inr (if i = n then n else - 1, s))
         | FD_NONE \<Rightarrow> Inl (Panic ''filewrite''))"

declare filewrite_loop.simps [simp del]

end
