(* ===== verification/Process.thy ===== *)
theory Process
  imports File
begin

text \<open>
  The life of a process (\<open>kernel/proc.c\<close>): allocating and freeing entries of the table, their page tables and trapframes, \<open>fork\<close>,
  \<open>exit\<close>, \<open>wait\<close>, \<open>growproc\<close>, the first process, and the scheduler. A trapframe is read and written in physical memory at the
  offsets of \<open>struct trapframe\<close>. \<open>hart\<close> holds the registers of the CPU the kernel runs on; the addresses of functions that the
  code stores or jumps to are symbols of the linker and part of the state.
\<close>

record kst = filest +
  hart :: hart
  first :: bool
  sym_forkret :: u64
  sym_usertrap :: u64
  sym_kernelvec :: u64
  sym_uservec :: u64
  sym_userret :: u64

definition on_hart :: "(hart \<Rightarrow> hart) \<Rightarrow> 'a kst_scheme \<Rightarrow> 'a kst_scheme" where
  "on_hart f s = s\<lparr>hart := f (hart s)\<rparr>"

abbreviation myproc :: "'a procst_scheme \<Rightarrow> proc" where
  "myproc s \<equiv> procs s (cur s)"

section \<open>Trapframes\<close>

abbreviation (input) TF_kernel_satp :: u64 where "TF_kernel_satp \<equiv> 0"
abbreviation (input) TF_kernel_sp :: u64 where "TF_kernel_sp \<equiv> 8"
abbreviation (input) TF_kernel_trap :: u64 where "TF_kernel_trap \<equiv> 16"
abbreviation (input) TF_epc :: u64 where "TF_epc \<equiv> 24"
abbreviation (input) TF_kernel_hartid :: u64 where "TF_kernel_hartid \<equiv> 32"
abbreviation (input) TF_sp :: u64 where "TF_sp \<equiv> 48"
abbreviation (input) TF_a0 :: u64 where "TF_a0 \<equiv> 112"
abbreviation (input) TF_a1 :: u64 where "TF_a1 \<equiv> 120"
abbreviation (input) TF_a2 :: u64 where "TF_a2 \<equiv> 128"
abbreviation (input) TF_a3 :: u64 where "TF_a3 \<equiv> 136"
abbreviation (input) TF_a4 :: u64 where "TF_a4 \<equiv> 144"
abbreviation (input) TF_a5 :: u64 where "TF_a5 \<equiv> 152"
abbreviation (input) TF_a7 :: u64 where "TF_a7 \<equiv> 168"

definition tf_get :: "nat \<Rightarrow> u64 \<Rightarrow> 'a kmst_scheme \<Rightarrow> u64" where
  "tf_get p off s = ld64 (mem s) (p_trapframe (procs s p) + off)"

definition tf_set :: "nat \<Rightarrow> u64 \<Rightarrow> u64 \<Rightarrow> 'a kmst_scheme \<Rightarrow> 'a kmst_scheme" where
  "tf_set p off v s = s\<lparr>mem := st64 (mem s) (p_trapframe (procs s p) + off) v\<rparr>"

section \<open>Boot\<close>

fun procinit_loop :: "nat list \<Rightarrow> 'a vmst_scheme \<Rightarrow> 'a vmst_scheme kres" where
  "procinit_loop [] s = Inr s"
| "procinit_loop (p # ps) s =
     bnd (kalloc s) (\<lambda>(pa, s).
     if pa = 0 then Inl (Panic ''kalloc'')
     else let va = KSTACK p
          in bnd (kvmmap va pa PGSIZE (or PTE_R PTE_W) s) (\<lambda>s.
             procinit_loop ps (upd_proc p (p_kstack_update (\<lambda>_. va)) s)))"

definition procinit :: "'a kst_scheme \<Rightarrow> 'a kst_scheme kres" where
  "procinit s = bnd (procinit_loop [0..<NPROC] s) (\<lambda>s. Inr (on_hart (kvminithart s) s))"

definition cpuid :: "'a kst_scheme \<Rightarrow> int" where
  "cpuid s = sint (ucast (r_tp (hart s)) :: u32)"

section \<open>Page tables of processes\<close>

definition proc_pagetable :: "nat \<Rightarrow> 'a vmst_scheme \<Rightarrow> (addr \<times> 'a vmst_scheme) kres" where
  "proc_pagetable p s =
     bnd (uvmcreate s) (\<lambda>(pt, s).
     if pt = 0 then Inr (0, s)
     else bnd (mappages pt TRAMPOLINE PGSIZE (trampoline s) (or PTE_R PTE_X) s) (\<lambda>(r, s).
          if r < 0 then bnd (uvmfree pt 0 s) (\<lambda>s. Inr (0, s))
          else bnd (mappages pt TRAPFRAME PGSIZE (p_trapframe (procs s p)) (or PTE_R PTE_W) s) (\<lambda>(r, s).
               if r < 0 then bnd (uvmunmap pt TRAMPOLINE 1 False s) (\<lambda>s. bnd (uvmfree pt 0 s) (\<lambda>s. Inr (0, s)))
               else Inr (pt, s))))"

definition proc_freepagetable :: "addr \<Rightarrow> u64 \<Rightarrow> 'a vmst_scheme \<Rightarrow> 'a vmst_scheme kres" where
  "proc_freepagetable pt sz s =
     bnd (uvmunmap pt TRAMPOLINE 1 False s) (\<lambda>s.
     bnd (uvmunmap pt TRAPFRAME 1 False s) (uvmfree pt sz))"

section \<open>Entries of the table\<close>

definition freeproc :: "nat \<Rightarrow> 'a vmst_scheme \<Rightarrow> 'a vmst_scheme kres" where
  "freeproc p s =
     bnd (if p_trapframe (procs s p) \<noteq> 0 then kfree (p_trapframe (procs s p)) s else Inr s) (\<lambda>s.
     let s = upd_proc p (p_trapframe_update (\<lambda>_. 0)) s
     in bnd (if p_pagetable (procs s p) \<noteq> 0 then proc_freepagetable (p_pagetable (procs s p)) (p_sz (procs s p)) s else Inr s) (\<lambda>s.
        Inr (upd_proc p (\<lambda>x. x\<lparr>p_pagetable := 0, p_sz := 0, p_pid := 0, p_parent := None, p_name := (p_name x)[0 := 0],
               p_chan := ChNone, p_killed := False, p_xstate := 0, p_state := UNUSED\<rparr>) s)))"

text \<open>The search of \<open>allocproc\<close>; the lock of the entry it finds stays held.\<close>

fun allocproc_scan :: "nat list \<Rightarrow> 'a procst_scheme \<Rightarrow> (nat option \<times> 'a procst_scheme) kres" where
  "allocproc_scan [] s = Inr (None, s)"
| "allocproc_scan (p # ps) s =
     bnd (acquire (LkProc p) s) (\<lambda>s.
     if p_state (procs s p) = UNUSED then Inr (Some p, s)
     else bnd (release (LkProc p) s) (allocproc_scan ps))"

definition allocproc :: "'a kst_scheme \<Rightarrow> (nat option \<times> 'a kst_scheme) kres" where
  "allocproc s =
     bnd (allocproc_scan [0..<NPROC] s) (\<lambda>(found, s).
     case found of
       None \<Rightarrow> Inr (None, s)
     | Some p \<Rightarrow>
         bnd (allocpid s) (\<lambda>(pid, s).
         let s = upd_proc p (p_pid_update (\<lambda>_. pid)) s
         in bnd (kalloc s) (\<lambda>(tf, s).
            let s = upd_proc p (p_trapframe_update (\<lambda>_. tf)) s
            in if tf = 0 then bnd (release (LkProc p) s) (\<lambda>s. Inr (None, s))
               else bnd (proc_pagetable p s) (\<lambda>(pt, s).
                    let s = upd_proc p (p_pagetable_update (\<lambda>_. pt)) s
                    in if pt = 0 then bnd (freeproc p s) (\<lambda>s. bnd (release (LkProc p) s) (\<lambda>s. Inr (None, s)))
                       else Inr (Some p, upd_proc p (\<lambda>x. x\<lparr>p_context :=
                              \<lparr>ctx_ra = sym_forkret s, ctx_sp = p_kstack x + PGSIZE, ctx_s = (\<lambda>_. 0)\<rparr>\<rparr>) s)))))"

definition set_name :: "nat \<Rightarrow> u8 list \<Rightarrow> 'a procst_scheme \<Rightarrow> 'a procst_scheme" where
  "set_name p xs = upd_proc p (\<lambda>x. x\<lparr>p_name := putb 0 (safestrcpy (strf xs) 16) (p_name x)\<rparr>)"

definition initcode :: "u8 list" where
  "initcode =
    [0x17, 0x05, 0x00, 0x00, 0x13, 0x05, 0x45, 0x02,
     0x97, 0x05, 0x00, 0x00, 0x93, 0x85, 0x35, 0x02,
     0x93, 0x08, 0x70, 0x00, 0x73, 0x00, 0x00, 0x00,
     0x93, 0x08, 0x20, 0x00, 0x73, 0x00, 0x00, 0x00,
     0xef, 0xf0, 0x9f, 0xff, 0x2f, 0x69, 0x6e, 0x69,
     0x74, 0x00, 0x00, 0x24, 0x00, 0x00, 0x00, 0x00,
     0x00, 0x00, 0x00, 0x00]"

definition userinit :: "'a kst_scheme \<Rightarrow> 'a kst_scheme kres" where
  "userinit s =
     bnd (allocproc s) (\<lambda>(np, s).
     case np of
       None \<Rightarrow> Inl Undef
     | Some p \<Rightarrow>
         let s = s\<lparr>initproc := p\<rparr>
         in bnd (uvminit (p_pagetable (procs s p)) initcode s) (\<lambda>s.
            let s = upd_proc p (p_sz_update (\<lambda>_. PGSIZE)) s;
                s = tf_set p TF_epc 0 s;
                s = tf_set p TF_sp PGSIZE s;
                s = set_name p (ascii ''initcode'') s
            in bnd (namei [SLASH] s) (\<lambda>(ip, s).
               let s = upd_proc p (\<lambda>x. x\<lparr>p_cwd := ip, p_state := RUNNABLE\<rparr>) s
               in release (LkProc p) s)))"

section \<open>Memory of a process\<close>

text \<open>The local variable \<open>sz\<close> of \<open>growproc\<close> has 32 bits.\<close>

definition growproc :: "u32 \<Rightarrow> 'a kst_scheme \<Rightarrow> (int \<times> 'a kst_scheme) kres" where
  "growproc n s =
     (let p = myproc s; sz = ucast (p_sz p) :: u32
      in if sint n > 0
         then bnd (uvmalloc (p_pagetable p) (ucast sz) (ucast (sz + n)) s) (\<lambda>(sz, s).
              if (ucast sz :: u32) = 0 then Inr (- 1, s)
              else Inr (0, upd_proc (cur s) (p_sz_update (\<lambda>_. ucast (ucast sz :: u32))) s))
         else if sint n < 0
         then bnd (uvmdealloc (p_pagetable p) (ucast sz) (ucast (sz + n)) s) (\<lambda>(sz, s).
              Inr (0, upd_proc (cur s) (p_sz_update (\<lambda>_. ucast (ucast sz :: u32))) s))
         else Inr (0, upd_proc (cur s) (p_sz_update (\<lambda>_. ucast sz)) s))"

section \<open>fork\<close>

fun fork_files :: "nat list \<Rightarrow> nat \<Rightarrow> 'a kst_scheme \<Rightarrow> 'a kst_scheme kres" where
  "fork_files [] np s = Inr s"
| "fork_files (i # is) np s =
     (case p_ofile (myproc s) i of
        None \<Rightarrow> fork_files is np s
      | Some f \<Rightarrow> bnd (filedup f s) (\<lambda>(f, s). fork_files is np (upd_proc np (\<lambda>x. x\<lparr>p_ofile := (p_ofile x)(i := Some f)\<rparr>) s)))"

definition fork :: "'a kst_scheme \<Rightarrow> (int \<times> 'a kst_scheme) kres" where
  "fork s =
     bnd (allocproc s) (\<lambda>(np, s).
     case np of
       None \<Rightarrow> Inr (- 1, s)
     | Some np \<Rightarrow>
         bnd (uvmcopy (p_pagetable (myproc s)) (p_pagetable (procs s np)) (p_sz (myproc s)) s) (\<lambda>(r, s).
         if r < 0 then bnd (freeproc np s) (\<lambda>s. bnd (release (LkProc np) s) (\<lambda>s. Inr (- 1, s)))
         else let s = upd_proc np (\<lambda>x. x\<lparr>p_sz := p_sz (myproc s), p_parent := Some (cur s)\<rparr>) s;
                  tf = get_bytes (p_trapframe (myproc s)) 288 (mem s);
                  s = s\<lparr>mem := put_bytes (p_trapframe (procs s np)) (\<lambda>i. tf ! i) 288 (mem s)\<rparr>;
                  s = tf_set np TF_a0 0 s
              in bnd (fork_files [0..<NOFILE] np s) (\<lambda>s.
                 bnd (case p_cwd (myproc s) of Some ip \<Rightarrow> idup ip s | None \<Rightarrow> Inl Undef) (\<lambda>(ip, s).
                 let s = upd_proc np (p_cwd_update (\<lambda>_. Some ip)) s;
                     s = set_name np (p_name (myproc s)) s;
                     pid = p_pid (procs s np);
                     s = upd_proc np (p_state_update (\<lambda>_. RUNNABLE)) s
                 in bnd (release (LkProc np) s) (\<lambda>s. Inr (sint pid, s))))))"

section \<open>exit and wait\<close>

fun exit_files :: "nat list \<Rightarrow> 'a kst_scheme \<Rightarrow> 'a kst_scheme kres" where
  "exit_files [] s = Inr s"
| "exit_files (fd # fds) s =
     (case p_ofile (myproc s) fd of
        None \<Rightarrow> exit_files fds s
      | Some f \<Rightarrow> bnd (fileclose f s) (\<lambda>s. exit_files fds (upd_proc (cur s) (\<lambda>x. x\<lparr>p_ofile := (p_ofile x)(fd := None)\<rparr>) s)))"

text \<open>
  The second half of \<open>exit\<close>, from the wakeup of init. The result is the state in which the process enters the scheduler for the last
  time.
\<close>

definition exit_zombie :: "nat \<Rightarrow> u32 \<Rightarrow> 'a procst_scheme \<Rightarrow> 'a procst_scheme kres" where
  "exit_zombie p status s =
     bnd (acquire (LkProc (initproc s)) s) (\<lambda>s.
     bnd (wakeup1 (initproc s) s) (\<lambda>s.
     bnd (release (LkProc (initproc s)) s) (\<lambda>s.
     bnd (acquire (LkProc p) s) (\<lambda>s.
     let original_parent = p_parent (procs s p)
     in bnd (release (LkProc p) s) (\<lambda>s.
        case original_parent of
          None \<Rightarrow> Inl Undef
        | Some par \<Rightarrow>
            bnd (acquire (LkProc par) s) (\<lambda>s.
            bnd (acquire (LkProc p) s) (\<lambda>s.
            bnd (reparent p s) (\<lambda>s.
            bnd (wakeup1 par s) (\<lambda>s.
            let s = upd_proc p (\<lambda>x. x\<lparr>p_xstate := status, p_state := ZOMBIE\<rparr>) s
            in bnd (release (LkProc par) s) sched)))))))))"

definition exit :: "u32 \<Rightarrow> 'a kst_scheme \<Rightarrow> 'a kst_scheme kres" where
  "exit status s =
     (let p = cur s
      in if p = initproc s then Inl (Panic ''init exiting'')
         else bnd (exit_files [0..<NOFILE] s) (\<lambda>s.
              bnd (begin_op s) (\<lambda>s.
              bnd (case p_cwd (procs s p) of Some ip \<Rightarrow> iput ip s | None \<Rightarrow> Inl Undef) (\<lambda>s.
              bnd (end_op s) (\<lambda>s.
              exit_zombie p status (upd_proc p (p_cwd_update (\<lambda>_. None)) s))))))"

text \<open>One scan of \<open>wait\<close>: the result of the call when a zombie was found, and whether there are children.\<close>

fun wait_scan :: "nat list \<Rightarrow> u64 \<Rightarrow> bool \<Rightarrow> 'a kst_scheme \<Rightarrow> (int option \<times> bool \<times> 'a kst_scheme) kres" where
  "wait_scan [] addr kids s = Inr (None, kids, s)"
| "wait_scan (np # ps) addr kids s =
     (if p_parent (procs s np) = Some (cur s)
      then bnd (acquire (LkProc np) s) (\<lambda>s.
           if p_state (procs s np) = ZOMBIE
           then let pid = p_pid (procs s np)
                in bnd (if addr \<noteq> 0
                        then copyout (p_pagetable (myproc s)) addr (le_bytes (p_xstate (procs s np))) 4 s
                        else Inr (0, s)) (\<lambda>(r, s).
                   if r < 0
                   then bnd (release (LkProc np) s) (\<lambda>s. bnd (release (LkProc (cur s)) s) (\<lambda>s. Inr (Some (- 1), True, s)))
                   else bnd (freeproc np s) (\<lambda>s.
                        bnd (release (LkProc np) s) (\<lambda>s.
                        bnd (release (LkProc (cur s)) s) (\<lambda>s. Inr (Some (sint pid), True, s)))))
           else bnd (release (LkProc np) s) (wait_scan ps addr True))
      else wait_scan ps addr kids s)"

definition wait :: "u64 \<Rightarrow> 'a kst_scheme \<Rightarrow> (int \<times> 'a kst_scheme) kres" where
  "wait addr s =
     bnd (acquire (LkProc (cur s)) s) (\<lambda>s.
     bnd (wait_scan [0..<NPROC] addr False s) (\<lambda>(r, kids, s).
     case r of
       Some r \<Rightarrow> Inr (r, s)
     | None \<Rightarrow>
         if \<not> kids \<or> p_killed (myproc s) then bnd (release (LkProc (cur s)) s) (\<lambda>s. Inr (- 1, s))
         else sleep (ChProc (cur s)) (LkProc (cur s)) s))"

section \<open>The scheduler\<close>

text \<open>
  One pass of the scheduler over the table. \<open>run p\<close> is what happens from the switch to process \<open>p\<close> until it switches back. The result
  counts the entries in use and lists the processes that ran.
\<close>

fun scheduler_pass :: "(nat \<Rightarrow> 'a kst_scheme \<Rightarrow> 'a kst_scheme kres) \<Rightarrow> nat list \<Rightarrow> 'a kst_scheme \<Rightarrow> (nat \<times> nat list \<times> 'a kst_scheme) kres" where
  "scheduler_pass run [] s = Inr (0, [], s)"
| "scheduler_pass run (p # ps) s =
     bnd (acquire (LkProc p) s) (\<lambda>s.
     let n = (if p_state (procs s p) \<noteq> UNUSED then 1 else 0)
     in bnd (if p_state (procs s p) = RUNNABLE
             then bnd (run p (upd_proc p (p_state_update (\<lambda>_. RUNNING)) s\<lparr>cur := p\<rparr>)) (\<lambda>s. Inr ([p], s))
             else Inr ([], s)) (\<lambda>(ran, s).
        bnd (release (LkProc p) s) (\<lambda>s.
        bnd (scheduler_pass run ps s) (\<lambda>(m, rs, s). Inr (n + m, ran @ rs, s)))))"

text \<open>One round of the scheduler's endless loop; the CPU waits for an interrupt when at most two processes exist.\<close>

definition scheduler_round :: "(nat \<Rightarrow> 'a kst_scheme \<Rightarrow> 'a kst_scheme kres) \<Rightarrow> 'a kst_scheme \<Rightarrow> (bool \<times> nat list \<times> 'a kst_scheme) kres" where
  "scheduler_round run s =
     bnd (scheduler_pass run [0..<NPROC] (on_hart intr_on s)) (\<lambda>(n, ran, s).
     Inr (n \<le> 2, ran, if n \<le> 2 then on_hart intr_on s else s))"

end
