(* ===== verification/Exec.thy ===== *)
theory Exec
  imports Process
begin

text \<open>
  \<open>exec\<close> of \<open>kernel/exec.c\<close> over the file system and the page tables. The headers of the ELF format are read from the bytes
  of the file at the offsets of \<open>struct elfhdr\<close> and \<open>struct proghdr\<close>. The argument strings are values.
\<close>

abbreviation (input) ELF_MAGIC :: u32 where "ELF_MAGIC \<equiv> 0x464C457F"
abbreviation (input) ELF_PROG_LOAD :: u32 where "ELF_PROG_LOAD \<equiv> 1"
abbreviation (input) MAXARG :: nat where "MAXARG \<equiv> 32"
abbreviation (input) MAXPATH :: nat where "MAXPATH \<equiv> 128"

record proghdr =
  ph_type :: u32
  ph_off :: u64
  ph_vaddr :: u64
  ph_filesz :: u64
  ph_memsz :: u64

definition ph_decode :: "u8 list \<Rightarrow> proghdr" where
  "ph_decode d = \<lparr>ph_type = ldw 0 d, ph_off = ldw 8 d, ph_vaddr = ldw 16 d, ph_filesz = ldw 32 d, ph_memsz = ldw 40 d\<rparr>"

section \<open>Loading a segment\<close>

fun loadseg_loop :: "nat list \<Rightarrow> addr \<Rightarrow> u64 \<Rightarrow> nat \<Rightarrow> u32 \<Rightarrow> u32 \<Rightarrow> 'a kst_scheme \<Rightarrow> (int \<times> 'a kst_scheme) kres" where
  "loadseg_loop [] pt va ip off sz s = Inr (0, s)"
| "loadseg_loop (i # is) pt va ip off sz s =
     bnd (walkaddr pt (va + of_nat i) s) (\<lambda>(pa, s).
     if pa = 0 then Inl (Panic ''loadseg: address should exist'')
     else let n = (if sz - of_nat i < 4096 then sz - of_nat i else 4096)
          in bnd (readi ip (ToMem pa) (off + of_nat i) n s) (\<lambda>(r, _, s).
             if word_of_int r \<noteq> n then Inr (- 1, s) else loadseg_loop is pt va ip off sz s))"

definition loadseg :: "addr \<Rightarrow> u64 \<Rightarrow> nat \<Rightarrow> u32 \<Rightarrow> u32 \<Rightarrow> 'a kst_scheme \<Rightarrow> (int \<times> 'a kst_scheme) kres" where
  "loadseg pt va ip off sz s =
     (if va mod PGSIZE \<noteq> 0 then Inl (Panic ''loadseg: va must be page aligned'')
      else loadseg_loop (map (\<lambda>k. 4096 * k) [0..<(unat sz + 4095) div 4096]) pt va ip off sz s)"

text \<open>One program header: whether it was accepted, and the new size.\<close>

definition exec_ph :: "addr \<Rightarrow> nat \<Rightarrow> u32 \<Rightarrow> u64 \<Rightarrow> 'a kst_scheme \<Rightarrow> (bool \<times> u64 \<times> 'a kst_scheme) kres" where
  "exec_ph pt ip off sz s =
     bnd (readi ip ToObj off 56 s) (\<lambda>(r, d, s).
     if r \<noteq> 56 then Inr (False, sz, s)
     else let ph = ph_decode d
          in if ph_type ph \<noteq> ELF_PROG_LOAD then Inr (True, sz, s)
             else if ph_memsz ph < ph_filesz ph then Inr (False, sz, s)
             else if ph_vaddr ph + ph_memsz ph < ph_vaddr ph then Inr (False, sz, s)
             else bnd (uvmalloc pt sz (ph_vaddr ph + ph_memsz ph) s) (\<lambda>(sz1, s).
                  if sz1 = 0 then Inr (False, sz, s)
                  else if ph_vaddr ph mod PGSIZE \<noteq> 0 then Inr (False, sz1, s)
                  else bnd (loadseg pt (ph_vaddr ph) ip (ucast (ph_off ph)) (ucast (ph_filesz ph)) s) (\<lambda>(r, s).
                       Inr (\<not> r < 0, sz1, s))))"

fun exec_load :: "nat \<Rightarrow> addr \<Rightarrow> nat \<Rightarrow> u32 \<Rightarrow> u64 \<Rightarrow> 'a kst_scheme \<Rightarrow> (bool \<times> u64 \<times> 'a kst_scheme) kres" where
  "exec_load 0 pt ip off sz s = Inr (True, sz, s)"
| "exec_load (Suc k) pt ip off sz s =
     bnd (exec_ph pt ip off sz s) (\<lambda>(ok, sz, s).
     if \<not> ok then Inr (False, sz, s) else exec_load k pt ip (off + 56) sz s)"

section \<open>The user stack\<close>

text \<open>Pushing the argument strings: the stack pointer and the addresses of the strings, or \<open>None\<close> when a check fails.\<close>

definition align16 :: "u64 \<Rightarrow> u64" where
  "align16 sp = sp - sp mod 16"

fun push_args :: "u8 list list \<Rightarrow> nat \<Rightarrow> addr \<Rightarrow> u64 \<Rightarrow> u64 \<Rightarrow> 'a kst_scheme \<Rightarrow> ((u64 \<times> u64 list) option \<times> 'a kst_scheme) kres" where
  "push_args [] argc pt sp stackbase s = Inr (Some (sp, []), s)"
| "push_args (a # as) argc pt sp stackbase s =
     (if argc \<ge> MAXARG then Inr (None, s)
      else let sp = align16 (sp - of_nat (length a + 1))
           in if sp < stackbase then Inr (None, s)
              else bnd (copyout pt sp (strf a) (of_nat (length a + 1)) s) (\<lambda>(r, s).
                   if r < 0 then Inr (None, s)
                   else bnd (push_args as (argc + 1) pt sp stackbase s) (\<lambda>(res, s).
                        case res of None \<Rightarrow> Inr (None, s) | Some (sp', us) \<Rightarrow> Inr (Some (sp', sp # us), s))))"

definition push_argv :: "u8 list list \<Rightarrow> addr \<Rightarrow> u64 \<Rightarrow> u64 \<Rightarrow> 'a kst_scheme \<Rightarrow> (u64 option \<times> 'a kst_scheme) kres" where
  "push_argv argv pt sp stackbase s =
     bnd (push_args argv 0 pt sp stackbase s) (\<lambda>(res, s).
     case res of
       None \<Rightarrow> Inr (None, s)
     | Some (sp, us) \<Rightarrow>
         let ustack = concat (map word_bytes (us @ [0])); sp = align16 (sp - of_nat ((length us + 1) * 8))
         in if sp < stackbase then Inr (None, s)
            else bnd (copyout pt sp (\<lambda>i. ustack ! i) (of_nat (length ustack)) s) (\<lambda>(r, s).
                 Inr (if r < 0 then None else Some sp, s)))"

text \<open>The last component of a path, which becomes the name of the process.\<close>

definition last_elem :: "u8 list \<Rightarrow> u8 list" where
  "last_elem path = rev (takeWhile (\<lambda>c. c \<noteq> SLASH) (rev path))"

section \<open>exec\<close>

definition exec_bad :: "addr \<Rightarrow> u64 \<Rightarrow> nat option \<Rightarrow> 'a kst_scheme \<Rightarrow> (int \<times> 'a kst_scheme) kres" where
  "exec_bad pt sz ip s =
     bnd (if pt \<noteq> 0 then proc_freepagetable pt sz s else Inr s) (\<lambda>s.
     bnd (case ip of Some ip \<Rightarrow> bnd (iunlockput ip s) end_op | None \<Rightarrow> Inr s) (\<lambda>s.
     Inr (- 1, s)))"

text \<open>The part of \<open>exec\<close> after the program has been loaded.\<close>

definition exec_stack :: "u8 list \<Rightarrow> u8 list list \<Rightarrow> u64 \<Rightarrow> addr \<Rightarrow> u64 \<Rightarrow> 'a kst_scheme \<Rightarrow> (int \<times> 'a kst_scheme) kres" where
  "exec_stack path argv entry pt sz s =
     (let p = cur s; oldsz = p_sz (myproc s); sz = PGROUNDUP sz
      in bnd (uvmalloc pt sz (sz + 2 * PGSIZE) s) (\<lambda>(sz1, s).
         if sz1 = 0 then exec_bad pt sz None s
         else let sz = sz1
              in bnd (uvmclear pt (sz - 2 * PGSIZE) s) (\<lambda>s.
                 bnd (push_argv argv pt sz (sz - PGSIZE) s) (\<lambda>(res, s).
                 case res of
                   None \<Rightarrow> exec_bad pt sz None s
                 | Some sp \<Rightarrow>
                     let s = tf_set p TF_a1 sp s;
                         s = set_name p (last_elem path) s;
                         oldpt = p_pagetable (procs s p);
                         s = upd_proc p (\<lambda>x. x\<lparr>p_pagetable := pt, p_sz := sz\<rparr>) s;
                         s = tf_set p TF_epc entry s;
                         s = tf_set p TF_sp sp s
                     in bnd (proc_freepagetable oldpt oldsz s) (\<lambda>s. Inr (int (length argv), s))))))"

definition exec :: "u8 list \<Rightarrow> u8 list list \<Rightarrow> 'a kst_scheme \<Rightarrow> (int \<times> 'a kst_scheme) kres" where
  "exec path argv s =
     bnd (begin_op s) (\<lambda>s.
     bnd (namei path s) (\<lambda>(ip, s).
     case ip of
       None \<Rightarrow> bnd (end_op s) (\<lambda>s. Inr (- 1, s))
     | Some ip \<Rightarrow>
         bnd (ilock ip s) (\<lambda>s.
         bnd (readi ip ToObj 0 64 s) (\<lambda>(r, elf, s).
         if r \<noteq> 64 then exec_bad 0 0 (Some ip) s
         else if (ldw 0 elf :: u32) \<noteq> ELF_MAGIC then exec_bad 0 0 (Some ip) s
         else bnd (proc_pagetable (cur s) s) (\<lambda>(pt, s).
              if pt = 0 then exec_bad 0 0 (Some ip) s
              else bnd (exec_load (unat (ldw 56 elf :: u16)) pt ip (ucast (ldw 32 elf :: u64)) 0 s) (\<lambda>(ok, sz, s).
                   if \<not> ok then exec_bad pt sz (Some ip) s
                   else bnd (iunlockput ip s) (\<lambda>s.
                        bnd (end_op s) (exec_stack path argv (ldw 24 elf) pt sz))))))))"

end
