(* ===== verification/Sysproc.thy ===== *)
theory Sysproc
  imports Exec
begin

text \<open>
  The arguments of system calls (\<open>kernel/syscall.c\<close>) and the calls about processes (\<open>kernel/sysproc.c\<close>). A call returns the 64-bit value
  that goes to register a0; a C function of type \<open>int\<close> is converted with its sign. \<open>fetchstr\<close> and \<open>argstr\<close> return the string, or
  \<open>None\<close> for a negative result.
\<close>

section \<open>Arguments\<close>

definition fetchaddr :: "u64 \<Rightarrow> 'a kst_scheme \<Rightarrow> (u64 option \<times> 'a kst_scheme) kres" where
  "fetchaddr addr s =
     (let p = myproc s
      in if addr \<ge> p_sz p \<or> addr + 8 > p_sz p then Inr (None, s)
         else bnd (copyin (p_pagetable p) addr 8 s) (\<lambda>(r, bs, s).
              if r \<noteq> 0 then Inr (None, s) else Inr (Some (ldw 0 bs), s)))"

definition fetchstr :: "u64 \<Rightarrow> nat \<Rightarrow> 'a kst_scheme \<Rightarrow> (u8 list option \<times> 'a kst_scheme) kres" where
  "fetchstr addr mx s =
     bnd (copyinstr (p_pagetable (myproc s)) addr (of_nat mx) s) (\<lambda>(err, bs, s).
     if err < 0 then Inr (None, s) else Inr (Some (takeWhile (\<lambda>c. c \<noteq> 0) bs), s))"

definition argraw :: "nat \<Rightarrow> 'a kst_scheme \<Rightarrow> u64 kres" where
  "argraw n s =
     (if n = 0 then Inr (tf_get (cur s) TF_a0 s)
      else if n = 1 then Inr (tf_get (cur s) TF_a1 s)
      else if n = 2 then Inr (tf_get (cur s) TF_a2 s)
      else if n = 3 then Inr (tf_get (cur s) TF_a3 s)
      else if n = 4 then Inr (tf_get (cur s) TF_a4 s)
      else if n = 5 then Inr (tf_get (cur s) TF_a5 s)
      else Inl (Panic ''argraw''))"

definition argint :: "nat \<Rightarrow> 'a kst_scheme \<Rightarrow> u32 kres" where
  "argint n s = bnd (argraw n s) (\<lambda>v. Inr (ucast v))"

definition argaddr :: "nat \<Rightarrow> 'a kst_scheme \<Rightarrow> u64 kres" where
  "argaddr n s = argraw n s"

definition argstr :: "nat \<Rightarrow> nat \<Rightarrow> 'a kst_scheme \<Rightarrow> (u8 list option \<times> 'a kst_scheme) kres" where
  "argstr n mx s = bnd (argaddr n s) (\<lambda>addr. fetchstr addr mx s)"

section \<open>Calls about processes\<close>

text \<open>The result \<open>None\<close>: the process has left the kernel for the scheduler and does not come back.\<close>

definition sys_exit :: "'a kst_scheme \<Rightarrow> (u64 option \<times> 'a kst_scheme) kres" where
  "sys_exit s = bnd (argint 0 s) (\<lambda>n. bnd (exit n s) (\<lambda>s. Inr (None, s)))"

definition sys_getpid :: "'a kst_scheme \<Rightarrow> (u64 \<times> 'a kst_scheme) kres" where
  "sys_getpid s = Inr (scast (p_pid (myproc s)), s)"

definition sys_fork :: "'a kst_scheme \<Rightarrow> (u64 \<times> 'a kst_scheme) kres" where
  "sys_fork s = bnd (fork s) (\<lambda>(r, s). Inr (word_of_int r, s))"

definition sys_wait :: "'a kst_scheme \<Rightarrow> (u64 \<times> 'a kst_scheme) kres" where
  "sys_wait s = bnd (argaddr 0 s) (\<lambda>p. bnd (wait p s) (\<lambda>(r, s). Inr (word_of_int r, s)))"

definition sys_sbrk :: "'a kst_scheme \<Rightarrow> (u64 \<times> 'a kst_scheme) kres" where
  "sys_sbrk s =
     bnd (argint 0 s) (\<lambda>n.
     let addr = ucast (p_sz (myproc s)) :: u32
     in bnd (growproc n s) (\<lambda>(r, s).
        if r < 0 then Inr (- 1, s) else Inr (scast addr, s)))"

definition sys_sleep :: "'a kst_scheme \<Rightarrow> (u64 \<times> 'a kst_scheme) kres" where
  "sys_sleep s =
     bnd (argint 0 s) (\<lambda>n.
     bnd (acquire LkTicks s) (\<lambda>s.
     let ticks0 = ticks s
     in if ticks s - ticks0 < n
        then if p_killed (myproc s) then bnd (release LkTicks s) (\<lambda>s. Inr (- 1, s))
             else sleep ChTicks LkTicks s
        else bnd (release LkTicks s) (\<lambda>s. Inr (0, s))))"

definition sys_kill :: "'a kst_scheme \<Rightarrow> (u64 \<times> 'a kst_scheme) kres" where
  "sys_kill s = bnd (argint 0 s) (\<lambda>pid. bnd (kill pid s) (\<lambda>(r, s). Inr (word_of_int r, s)))"

definition sys_uptime :: "'a kst_scheme \<Rightarrow> (u64 \<times> 'a kst_scheme) kres" where
  "sys_uptime s =
     bnd (acquire LkTicks s) (\<lambda>s.
     let xticks = ticks s
     in bnd (release LkTicks s) (\<lambda>s. Inr (ucast xticks, s)))"

end
