(* ===== verification/Sysfile.thy ===== *)
theory Sysfile
  imports Sysproc
begin

text \<open>
  The system calls about files (\<open>kernel/sysfile.c\<close>). The calls check their arguments, since they come from user code, and work on the
  file table and the file system.
\<close>

abbreviation (input) O_RDONLY :: u32 where "O_RDONLY \<equiv> 0"
abbreviation (input) O_WRONLY :: u32 where "O_WRONLY \<equiv> 1"
abbreviation (input) O_RDWR :: u32 where "O_RDWR \<equiv> 2"
abbreviation (input) O_CREATE :: u32 where "O_CREATE \<equiv> 0x200"
abbreviation (input) O_TRUNC :: u32 where "O_TRUNC \<equiv> 0x400"

section \<open>File descriptors\<close>

definition argfd :: "nat \<Rightarrow> 'a kst_scheme \<Rightarrow> (nat \<times> nat) option kres" where
  "argfd n s =
     bnd (argint n s) (\<lambda>fd.
     if sint fd < 0 \<or> sint fd \<ge> int NOFILE then Inr None
     else case p_ofile (myproc s) (unat fd) of None \<Rightarrow> Inr None | Some f \<Rightarrow> Inr (Some (unat fd, f)))"

definition set_ofile :: "nat \<Rightarrow> nat option \<Rightarrow> 'a kst_scheme \<Rightarrow> 'a kst_scheme" where
  "set_ofile fd f s = upd_proc (cur s) (\<lambda>x. x\<lparr>p_ofile := (p_ofile x)(fd := f)\<rparr>) s"

definition fdalloc :: "nat \<Rightarrow> 'a kst_scheme \<Rightarrow> nat option \<times> 'a kst_scheme" where
  "fdalloc f s =
     (case find (\<lambda>fd. p_ofile (myproc s) fd = None) [0..<NOFILE] of
        Some fd \<Rightarrow> (Some fd, set_ofile fd (Some f) s)
      | None \<Rightarrow> (None, s))"

definition sys_dup :: "'a kst_scheme \<Rightarrow> (u64 \<times> 'a kst_scheme) kres" where
  "sys_dup s =
     bnd (argfd 0 s) (\<lambda>a.
     case a of
       None \<Rightarrow> Inr (- 1, s)
     | Some (_, f) \<Rightarrow>
         (case fdalloc f s of
            (None, s) \<Rightarrow> Inr (- 1, s)
          | (Some fd, s) \<Rightarrow> bnd (filedup f s) (\<lambda>(_, s). Inr (of_nat fd, s))))"

definition sys_read :: "'a kst_scheme \<Rightarrow> (u64 \<times> 'a kst_scheme) kres" where
  "sys_read s =
     bnd (argfd 0 s) (\<lambda>a.
     case a of
       None \<Rightarrow> Inr (- 1, s)
     | Some (_, f) \<Rightarrow>
         bnd (argint 2 s) (\<lambda>n.
         bnd (argaddr 1 s) (\<lambda>p.
         bnd (fileread f p (sint n) s) (\<lambda>(r, s). Inr (word_of_int r, s)))))"

definition sys_write :: "'a kst_scheme \<Rightarrow> (u64 \<times> 'a kst_scheme) kres" where
  "sys_write s =
     bnd (argfd 0 s) (\<lambda>a.
     case a of
       None \<Rightarrow> Inr (- 1, s)
     | Some (_, f) \<Rightarrow>
         bnd (argint 2 s) (\<lambda>n.
         bnd (argaddr 1 s) (\<lambda>p.
         bnd (filewrite f p (sint n) s) (\<lambda>(r, s). Inr (word_of_int r, s)))))"

definition sys_close :: "'a kst_scheme \<Rightarrow> (u64 \<times> 'a kst_scheme) kres" where
  "sys_close s =
     bnd (argfd 0 s) (\<lambda>a.
     case a of
       None \<Rightarrow> Inr (- 1, s)
     | Some (fd, f) \<Rightarrow> bnd (fileclose f (set_ofile fd None s)) (\<lambda>s. Inr (0, s)))"

definition sys_fstat :: "'a kst_scheme \<Rightarrow> (u64 \<times> 'a kst_scheme) kres" where
  "sys_fstat s =
     bnd (argfd 0 s) (\<lambda>a.
     case a of
       None \<Rightarrow> Inr (- 1, s)
     | Some (_, f) \<Rightarrow>
         bnd (argaddr 1 s) (\<lambda>st.
         bnd (filestat f st s) (\<lambda>(r, s). Inr (word_of_int r, s))))"

section \<open>Links\<close>

definition set_nlink :: "nat \<Rightarrow> (u16 \<Rightarrow> u16) \<Rightarrow> 'a fsst_scheme \<Rightarrow> 'a fsst_scheme" where
  "set_nlink ip f = upd_ino ip (i_nlink_update f)"

text \<open>The label \<open>bad\<close> of \<open>sys_link\<close>.\<close>

definition link_bad :: "nat \<Rightarrow> 'a kst_scheme \<Rightarrow> (u64 \<times> 'a kst_scheme) kres" where
  "link_bad ip s =
     bnd (ilock ip s) (\<lambda>s.
     bnd (iupdate ip (set_nlink ip (\<lambda>n. n - 1) s)) (\<lambda>s.
     bnd (iunlockput ip s) (\<lambda>s.
     bnd (end_op s) (\<lambda>s. Inr (- 1, s)))))"

definition link_new :: "nat \<Rightarrow> u8 list \<Rightarrow> 'a kst_scheme \<Rightarrow> (u64 \<times> 'a kst_scheme) kres" where
  "link_new ip new s =
     bnd (nameiparent new s) (\<lambda>(dp, name, s).
     case dp of
       None \<Rightarrow> link_bad ip s
     | Some dp \<Rightarrow>
         bnd (ilock dp s) (\<lambda>s.
         bnd (if i_dev (inodes s dp) \<noteq> i_dev (inodes s ip) then Inr (- 1, s)
              else dirlink dp name (i_inum (inodes s ip)) s) (\<lambda>(r, s).
         if r < 0 then bnd (iunlockput dp s) (link_bad ip)
         else bnd (iunlockput dp s) (\<lambda>s.
              bnd (iput ip s) (\<lambda>s.
              bnd (end_op s) (\<lambda>s. Inr (0, s)))))))"

definition sys_link :: "'a kst_scheme \<Rightarrow> (u64 \<times> 'a kst_scheme) kres" where
  "sys_link s =
     bnd (argstr 0 MAXPATH s) (\<lambda>(old, s).
     case old of None \<Rightarrow> Inr (- 1, s) | Some old \<Rightarrow>
     bnd (argstr 1 MAXPATH s) (\<lambda>(new, s).
     case new of None \<Rightarrow> Inr (- 1, s) | Some new \<Rightarrow>
     bnd (begin_op s) (\<lambda>s.
     bnd (namei old s) (\<lambda>(ip, s).
     case ip of
       None \<Rightarrow> bnd (end_op s) (\<lambda>s. Inr (- 1, s))
     | Some ip \<Rightarrow>
         bnd (ilock ip s) (\<lambda>s.
         if i_type (inodes s ip) = T_DIR
         then bnd (iunlockput ip s) (\<lambda>s. bnd (end_op s) (\<lambda>s. Inr (- 1, s)))
         else bnd (iupdate ip (set_nlink ip (\<lambda>n. n + 1) s)) (\<lambda>s.
              bnd (iunlock ip s) (link_new ip new)))))))"

fun isdirempty_loop :: "nat list \<Rightarrow> nat \<Rightarrow> 'a fsst_scheme \<Rightarrow> (bool \<times> 'a fsst_scheme) kres" where
  "isdirempty_loop [] dp s = Inr (True, s)"
| "isdirempty_loop (off # offs) dp s =
     bnd (readi dp ToObj (of_nat off) 16 s) (\<lambda>(r, de, s).
     if r \<noteq> 16 then Inl (Panic ''isdirempty: readi'')
     else if (ldw 0 de :: u16) \<noteq> 0 then Inr (False, s)
     else isdirempty_loop offs dp s)"

definition isdirempty :: "nat \<Rightarrow> 'a fsst_scheme \<Rightarrow> (bool \<times> 'a fsst_scheme) kres" where
  "isdirempty dp s = isdirempty_loop (drop 2 (dir_offs (i_size (inodes s dp)))) dp s"

definition unlink_bad :: "nat \<Rightarrow> 'a kst_scheme \<Rightarrow> (u64 \<times> 'a kst_scheme) kres" where
  "unlink_bad dp s = bnd (iunlockput dp s) (\<lambda>s. bnd (end_op s) (\<lambda>s. Inr (- 1, s)))"

text \<open>The part of \<open>sys_unlink\<close> that removes the entry at offset \<open>off\<close> of \<open>dp\<close> and drops a link of \<open>ip\<close>.\<close>

definition unlink_entry :: "nat \<Rightarrow> nat \<Rightarrow> u32 \<Rightarrow> 'a kst_scheme \<Rightarrow> (u64 \<times> 'a kst_scheme) kres" where
  "unlink_entry dp ip off s =
     bnd (writei dp (FromObj (replicate 16 0)) off 16 s) (\<lambda>(r, s).
     if r \<noteq> 16 then Inl (Panic ''unlink: writei'')
     else bnd (if i_type (inodes s ip) = T_DIR then iupdate dp (set_nlink dp (\<lambda>n. n - 1) s) else Inr s) (\<lambda>s.
          bnd (iunlockput dp s) (\<lambda>s.
          bnd (iupdate ip (set_nlink ip (\<lambda>n. n - 1) s)) (\<lambda>s.
          bnd (iunlockput ip s) (\<lambda>s.
          bnd (end_op s) (\<lambda>s. Inr (0, s)))))))"

definition sys_unlink :: "'a kst_scheme \<Rightarrow> (u64 \<times> 'a kst_scheme) kres" where
  "sys_unlink s =
     bnd (argstr 0 MAXPATH s) (\<lambda>(path, s).
     case path of None \<Rightarrow> Inr (- 1, s) | Some path \<Rightarrow>
     bnd (begin_op s) (\<lambda>s.
     bnd (nameiparent path s) (\<lambda>(dp, name, s).
     case dp of
       None \<Rightarrow> bnd (end_op s) (\<lambda>s. Inr (- 1, s))
     | Some dp \<Rightarrow>
         bnd (ilock dp s) (\<lambda>s.
         if namecmp name (ascii ''.'') = 0 \<or> namecmp name (ascii ''..'') = 0 then unlink_bad dp s
         else bnd (dirlookup dp name s) (\<lambda>(found, s).
              case found of
                None \<Rightarrow> unlink_bad dp s
              | Some (ip, off) \<Rightarrow>
                  bnd (ilock ip s) (\<lambda>s.
                  if sint (i_nlink (inodes s ip)) < 1 then Inl (Panic ''unlink: nlink < 1'')
                  else bnd (if i_type (inodes s ip) = T_DIR then isdirempty ip s else Inr (True, s)) (\<lambda>(empty, s).
                       if \<not> empty then bnd (iunlockput ip s) (unlink_bad dp)
                       else unlink_entry dp ip off s)))))))"

section \<open>Creating and opening\<close>

text \<open>The part of \<open>create\<close> that makes a new inode and enters it into the directory.\<close>

definition create_new :: "nat \<Rightarrow> u8 list \<Rightarrow> u16 \<Rightarrow> u16 \<Rightarrow> u16 \<Rightarrow> 'a fsst_scheme \<Rightarrow> (nat option \<times> 'a fsst_scheme) kres" where
  "create_new dp name ty major minor s =
     bnd (ialloc (i_dev (inodes s dp)) ty s) (\<lambda>(ip, s).
     bnd (ilock ip s) (\<lambda>s.
     bnd (iupdate ip (upd_ino ip (\<lambda>x. x\<lparr>i_major := major, i_minor := minor, i_nlink := 1\<rparr>) s)) (\<lambda>s.
     bnd (if ty = T_DIR
          then bnd (iupdate dp (set_nlink dp (\<lambda>n. n + 1) s)) (\<lambda>s.
               bnd (dirlink ip (ascii ''.'') (i_inum (inodes s ip)) s) (\<lambda>(r, s).
               if r < 0 then Inl (Panic ''create dots'')
               else bnd (dirlink ip (ascii ''..'') (i_inum (inodes s dp)) s) (\<lambda>(r, s).
                    if r < 0 then Inl (Panic ''create dots'') else Inr s)))
          else Inr s) (\<lambda>s.
     bnd (dirlink dp name (i_inum (inodes s ip)) s) (\<lambda>(r, s).
     if r < 0 then Inl (Panic ''create: dirlink'')
     else bnd (iunlockput dp s) (\<lambda>s. Inr (Some ip, s)))))))"

definition create :: "u8 list \<Rightarrow> u16 \<Rightarrow> u16 \<Rightarrow> u16 \<Rightarrow> 'a fsst_scheme \<Rightarrow> (nat option \<times> 'a fsst_scheme) kres" where
  "create path ty major minor s =
     bnd (nameiparent path s) (\<lambda>(dp, name, s).
     case dp of
       None \<Rightarrow> Inr (None, s)
     | Some dp \<Rightarrow>
         bnd (ilock dp s) (\<lambda>s.
         bnd (dirlookup dp name s) (\<lambda>(found, s).
         case found of
           Some (ip, _) \<Rightarrow>
             bnd (iunlockput dp s) (\<lambda>s.
             bnd (ilock ip s) (\<lambda>s.
             if ty = T_FILE \<and> (i_type (inodes s ip) = T_FILE \<or> i_type (inodes s ip) = T_DEVICE) then Inr (Some ip, s)
             else bnd (iunlockput ip s) (\<lambda>s. Inr (None, s))))
         | None \<Rightarrow> create_new dp name ty major minor s)))"

definition open_fail :: "nat \<Rightarrow> 'a kst_scheme \<Rightarrow> (u64 \<times> 'a kst_scheme) kres" where
  "open_fail ip s = bnd (iunlockput ip s) (\<lambda>s. bnd (end_op s) (\<lambda>s. Inr (- 1, s)))"

text \<open>The part of \<open>sys_open\<close> that has the inode locked and makes the open file.\<close>

definition open_file :: "nat \<Rightarrow> u32 \<Rightarrow> 'a kst_scheme \<Rightarrow> (u64 \<times> 'a kst_scheme) kres" where
  "open_file ip omode s =
     (let x = inodes s ip
      in if i_type x = T_DEVICE \<and> (sint (i_major x) < 0 \<or> sint (i_major x) \<ge> int NDEV) then open_fail ip s
         else bnd (filealloc s) (\<lambda>(f, s).
              case f of
                None \<Rightarrow> open_fail ip s
              | Some f \<Rightarrow>
                  (case fdalloc f s of
                     (None, s) \<Rightarrow> bnd (fileclose f s) (open_fail ip)
                   | (Some fd, s) \<Rightarrow>
                       let s = upd_file f (\<lambda>y. if i_type x = T_DEVICE then y\<lparr>f_type := FD_DEVICE, f_major := i_major x\<rparr>
                                                else y\<lparr>f_type := FD_INODE, f_off := 0\<rparr>) s;
                           s = upd_file f (\<lambda>y. y\<lparr>f_ip := ip, f_readable := (and omode O_WRONLY = 0),
                                 f_writable := (and omode O_WRONLY \<noteq> 0 \<or> and omode O_RDWR \<noteq> 0)\<rparr>) s
                       in bnd (if and omode O_TRUNC \<noteq> 0 \<and> i_type (inodes s ip) = T_FILE then itrunc ip s else Inr s) (\<lambda>s.
                          bnd (iunlock ip s) (\<lambda>s.
                          bnd (end_op s) (\<lambda>s. Inr (of_nat fd, s)))))))"

definition sys_open :: "'a kst_scheme \<Rightarrow> (u64 \<times> 'a kst_scheme) kres" where
  "sys_open s =
     bnd (argstr 0 MAXPATH s) (\<lambda>(path, s).
     case path of None \<Rightarrow> Inr (- 1, s) | Some path \<Rightarrow>
     bnd (argint 1 s) (\<lambda>omode.
     bnd (begin_op s) (\<lambda>s.
     if and omode O_CREATE \<noteq> 0
     then bnd (create path T_FILE 0 0 s) (\<lambda>(ip, s).
          case ip of None \<Rightarrow> bnd (end_op s) (\<lambda>s. Inr (- 1, s)) | Some ip \<Rightarrow> open_file ip omode s)
     else bnd (namei path s) (\<lambda>(ip, s).
          case ip of
            None \<Rightarrow> bnd (end_op s) (\<lambda>s. Inr (- 1, s))
          | Some ip \<Rightarrow>
              bnd (ilock ip s) (\<lambda>s.
              if i_type (inodes s ip) = T_DIR \<and> omode \<noteq> O_RDONLY then open_fail ip s
              else open_file ip omode s)))))"

text \<open>The end of \<open>sys_mkdir\<close> and \<open>sys_mknod\<close>.\<close>

definition mk_finish :: "nat option \<Rightarrow> 'a kst_scheme \<Rightarrow> (u64 \<times> 'a kst_scheme) kres" where
  "mk_finish ip s =
     (case ip of
        None \<Rightarrow> bnd (end_op s) (\<lambda>s. Inr (- 1, s))
      | Some ip \<Rightarrow> bnd (iunlockput ip s) (\<lambda>s. bnd (end_op s) (\<lambda>s. Inr (0, s))))"

definition sys_mkdir :: "'a kst_scheme \<Rightarrow> (u64 \<times> 'a kst_scheme) kres" where
  "sys_mkdir s =
     bnd (begin_op s) (\<lambda>s.
     bnd (argstr 0 MAXPATH s) (\<lambda>(path, s).
     case path of
       None \<Rightarrow> mk_finish None s
     | Some path \<Rightarrow> bnd (create path T_DIR 0 0 s) (\<lambda>(ip, s). mk_finish ip s)))"

definition sys_mknod :: "'a kst_scheme \<Rightarrow> (u64 \<times> 'a kst_scheme) kres" where
  "sys_mknod s =
     bnd (begin_op s) (\<lambda>s.
     bnd (argstr 0 MAXPATH s) (\<lambda>(path, s).
     case path of
       None \<Rightarrow> mk_finish None s
     | Some path \<Rightarrow>
         bnd (argint 1 s) (\<lambda>major.
         bnd (argint 2 s) (\<lambda>minor.
         bnd (create path T_DEVICE (ucast major) (ucast minor) s) (\<lambda>(ip, s). mk_finish ip s)))))"

definition sys_chdir :: "'a kst_scheme \<Rightarrow> (u64 \<times> 'a kst_scheme) kres" where
  "sys_chdir s =
     bnd (begin_op s) (\<lambda>s.
     bnd (argstr 0 MAXPATH s) (\<lambda>(path, s).
     bnd (case path of None \<Rightarrow> Inr (None, s) | Some path \<Rightarrow> namei path s) (\<lambda>(ip, s).
     case ip of
       None \<Rightarrow> bnd (end_op s) (\<lambda>s. Inr (- 1, s))
     | Some ip \<Rightarrow>
         bnd (ilock ip s) (\<lambda>s.
         if i_type (inodes s ip) \<noteq> T_DIR
         then bnd (iunlockput ip s) (\<lambda>s. bnd (end_op s) (\<lambda>s. Inr (- 1, s)))
         else bnd (iunlock ip s) (\<lambda>s.
              bnd (case p_cwd (myproc s) of Some old \<Rightarrow> iput old s | None \<Rightarrow> Inl Undef) (\<lambda>s.
              bnd (end_op s) (\<lambda>s.
              Inr (0, upd_proc (cur s) (p_cwd_update (\<lambda>_. Some ip)) s))))))))"

section \<open>exec and pipe\<close>

text \<open>
  The loop of \<open>sys_exec\<close> over the argument vector: the pages allocated for the strings, and the strings when all could be fetched.
  A string is copied into its page.
\<close>

fun exec_args :: "nat \<Rightarrow> nat \<Rightarrow> u64 \<Rightarrow> 'a kst_scheme \<Rightarrow> (addr list \<times> u8 list list option \<times> 'a kst_scheme) kres" where
  "exec_args 0 i uargv s = Inr ([], None, s)"
| "exec_args (Suc k) i uargv s =
     bnd (fetchaddr (uargv + 8 * of_nat i) s) (\<lambda>(uarg, s).
     case uarg of
       None \<Rightarrow> Inr ([], None, s)
     | Some uarg \<Rightarrow>
         if uarg = 0 then Inr ([], Some [], s)
         else bnd (kalloc s) (\<lambda>(pg, s).
              if pg = 0 then Inr ([], None, s)
              else bnd (fetchstr uarg 4096 s) (\<lambda>(str, s).
                   case str of
                     None \<Rightarrow> Inr ([pg], None, s)
                   | Some str \<Rightarrow>
                       let s = s\<lparr>mem := put_bytes pg (strf str) (length str + 1) (mem s)\<rparr>
                       in bnd (exec_args k (Suc i) uargv s) (\<lambda>(pgs, strs, s).
                          Inr (pg # pgs, map_option (\<lambda>ss. str # ss) strs, s)))))"

fun kfree_all :: "addr list \<Rightarrow> 'a kmst_scheme \<Rightarrow> 'a kmst_scheme kres" where
  "kfree_all [] s = Inr s"
| "kfree_all (pg # pgs) s = bnd (kfree pg s) (kfree_all pgs)"

definition sys_exec :: "'a kst_scheme \<Rightarrow> (u64 \<times> 'a kst_scheme) kres" where
  "sys_exec s =
     bnd (argstr 0 MAXPATH s) (\<lambda>(path, s).
     case path of None \<Rightarrow> Inr (- 1, s) | Some path \<Rightarrow>
     bnd (argaddr 1 s) (\<lambda>uargv.
     bnd (exec_args MAXARG 0 uargv s) (\<lambda>(pgs, argv, s).
     case argv of
       None \<Rightarrow> bnd (kfree_all pgs s) (\<lambda>s. Inr (- 1, s))
     | Some argv \<Rightarrow> bnd (exec path argv s) (\<lambda>(ret, s). bnd (kfree_all pgs s) (\<lambda>s. Inr (word_of_int ret, s))))))"

definition sys_pipe :: "'a kst_scheme \<Rightarrow> (u64 \<times> 'a kst_scheme) kres" where
  "sys_pipe s =
     bnd (argaddr 0 s) (\<lambda>fdarray.
     bnd (pipealloc s) (\<lambda>(fs, s).
     case fs of
       None \<Rightarrow> Inr (- 1, s)
     | Some (rf, wrf) \<Rightarrow>
         (case fdalloc rf s of
            (None, s) \<Rightarrow> bnd (fileclose rf s) (\<lambda>s. bnd (fileclose wrf s) (\<lambda>s. Inr (- 1, s)))
          | (Some fd0, s) \<Rightarrow>
              (case fdalloc wrf s of
                 (None, s) \<Rightarrow> bnd (fileclose rf (set_ofile fd0 None s)) (\<lambda>s. bnd (fileclose wrf s) (\<lambda>s. Inr (- 1, s)))
               | (Some fd1, s) \<Rightarrow>
                   bnd (copyout (p_pagetable (myproc s)) fdarray (le_bytes (of_nat fd0 :: u32)) 4 s) (\<lambda>(r0, s).
                   bnd (if r0 < 0 then Inr (- 1, s)
                        else copyout (p_pagetable (myproc s)) (fdarray + 4) (le_bytes (of_nat fd1 :: u32)) 4 s) (\<lambda>(r1, s).
                   if r1 < 0
                   then bnd (fileclose rf (set_ofile fd1 None (set_ofile fd0 None s))) (\<lambda>s.
                        bnd (fileclose wrf s) (\<lambda>s. Inr (- 1, s)))
                   else Inr (0, s)))))))"

end
