(* ===== verification/Trap.thy ===== *)
theory Trap
  imports Sysfile
begin

text \<open>
  The system call table of \<open>kernel/syscall.c\<close>, the interrupt controller (\<open>kernel/plic.c\<close>), the trap handlers of \<open>kernel/trap.c\<close>
  and the entry of a new process (\<open>forkret\<close> of \<open>kernel/proc.c\<close>). A function that does not return to its caller because the process
  has exited gives the flag \<open>True\<close>.
\<close>

section \<open>The system call table\<close>

definition some_ret :: "(u64 \<times> 'a kst_scheme) kres \<Rightarrow> (u64 option \<times> 'a kst_scheme) kres" where
  "some_ret m = bnd m (\<lambda>(r, s). Inr (Some r, s))"

definition syscalls :: "nat \<Rightarrow> ('a kst_scheme \<Rightarrow> (u64 option \<times> 'a kst_scheme) kres) option" where
  "syscalls n =
     (if n = 1 then Some (\<lambda>s. some_ret (sys_fork s))
      else if n = 2 then Some sys_exit
      else if n = 3 then Some (\<lambda>s. some_ret (sys_wait s))
      else if n = 4 then Some (\<lambda>s. some_ret (sys_pipe s))
      else if n = 5 then Some (\<lambda>s. some_ret (sys_read s))
      else if n = 6 then Some (\<lambda>s. some_ret (sys_kill s))
      else if n = 7 then Some (\<lambda>s. some_ret (sys_exec s))
      else if n = 8 then Some (\<lambda>s. some_ret (sys_fstat s))
      else if n = 9 then Some (\<lambda>s. some_ret (sys_chdir s))
      else if n = 10 then Some (\<lambda>s. some_ret (sys_dup s))
      else if n = 11 then Some (\<lambda>s. some_ret (sys_getpid s))
      else if n = 12 then Some (\<lambda>s. some_ret (sys_sbrk s))
      else if n = 13 then Some (\<lambda>s. some_ret (sys_sleep s))
      else if n = 14 then Some (\<lambda>s. some_ret (sys_uptime s))
      else if n = 15 then Some (\<lambda>s. some_ret (sys_open s))
      else if n = 16 then Some (\<lambda>s. some_ret (sys_write s))
      else if n = 17 then Some (\<lambda>s. some_ret (sys_mknod s))
      else if n = 18 then Some (\<lambda>s. some_ret (sys_unlink s))
      else if n = 19 then Some (\<lambda>s. some_ret (sys_link s))
      else if n = 20 then Some (\<lambda>s. some_ret (sys_mkdir s))
      else if n = 21 then Some (\<lambda>s. some_ret (sys_close s))
      else None)"

definition syscall :: "'a kst_scheme \<Rightarrow> (bool \<times> 'a kst_scheme) kres" where
  "syscall s =
     (let p = cur s; num = ucast (tf_get p TF_a7 s) :: u32
      in case (if sint num > 0 then syscalls (nat (sint num)) else None) of
           Some f \<Rightarrow>
             bnd (f s) (\<lambda>(r, s). case r of Some v \<Rightarrow> Inr (False, tf_set p TF_a0 v s) | None \<Rightarrow> Inr (True, s))
         | None \<Rightarrow>
             bnd (printf (''%d %s: unknown sys call %d'' @ [CHR 0x0A])
                    [ArgInt (p_pid (procs s p)), ArgStr (Some (takeWhile (\<lambda>c. c \<noteq> 0) (p_name (procs s p)))), ArgInt num] s) (\<lambda>s.
             Inr (False, tf_set p TF_a0 (- 1) s)))"

section \<open>The interrupt controller\<close>

text \<open>
  \<open>plic_pend\<close> are the interrupts that successive reads of the claim register give, \<open>plic_w\<close> the writes to the controller's registers.
\<close>

record trapst = kst +
  plic_pend :: "u32 list"
  plic_w :: "(u64 \<times> u32) list"

abbreviation (input) UART0_IRQ :: u32 where "UART0_IRQ \<equiv> 10"
abbreviation (input) VIRTIO0_IRQ :: u32 where "VIRTIO0_IRQ \<equiv> 1"

definition PLIC_SENABLE :: "int \<Rightarrow> u64" where "PLIC_SENABLE h = PLIC + 0x2080 + word_of_int h * 0x100"
definition PLIC_SPRIORITY :: "int \<Rightarrow> u64" where "PLIC_SPRIORITY h = PLIC + 0x201000 + word_of_int h * 0x2000"
definition PLIC_SCLAIM :: "int \<Rightarrow> u64" where "PLIC_SCLAIM h = PLIC + 0x201004 + word_of_int h * 0x2000"

definition plic_write :: "u64 \<Rightarrow> u32 \<Rightarrow> 'a trapst_scheme \<Rightarrow> 'a trapst_scheme" where
  "plic_write r v s = s\<lparr>plic_w := plic_w s @ [(r, v)]\<rparr>"

definition plicinit :: "'a trapst_scheme \<Rightarrow> 'a trapst_scheme" where
  "plicinit s = plic_write (PLIC + ucast VIRTIO0_IRQ * 4) 1 (plic_write (PLIC + ucast UART0_IRQ * 4) 1 s)"

definition plicinithart :: "'a trapst_scheme \<Rightarrow> 'a trapst_scheme" where
  "plicinithart s =
     (let h = cpuid s
      in plic_write (PLIC_SPRIORITY h) 0 (plic_write (PLIC_SENABLE h) (or (push_bit 10 1) (push_bit 1 1)) s))"

definition plic_claim :: "'a trapst_scheme \<Rightarrow> u32 \<times> 'a trapst_scheme" where
  "plic_claim s = (case plic_pend s of [] \<Rightarrow> (0, s) | irq # is \<Rightarrow> (irq, s\<lparr>plic_pend := is\<rparr>))"

definition plic_complete :: "u32 \<Rightarrow> 'a trapst_scheme \<Rightarrow> 'a trapst_scheme" where
  "plic_complete irq s = plic_write (PLIC_SCLAIM (cpuid s)) irq s"

section \<open>Interrupts\<close>

definition trapinithart :: "'a kst_scheme \<Rightarrow> 'a kst_scheme" where
  "trapinithart s = on_hart (w_stvec (sym_kernelvec s)) s"

definition clockintr :: "'a procst_scheme \<Rightarrow> 'a procst_scheme kres" where
  "clockintr s =
     bnd (acquire LkTicks s) (\<lambda>s.
     bnd (wakeup ChTicks (s\<lparr>ticks := ticks s + 1\<rparr>)) (release LkTicks))"

definition devintr :: "'a trapst_scheme \<Rightarrow> (int \<times> 'a trapst_scheme) kres" where
  "devintr s =
     (let scause = r_scause (hart s)
      in if and scause 0x8000000000000000 \<noteq> 0 \<and> and scause 0xff = 9
         then let (irq, s) = plic_claim s
              in bnd (if irq = UART0_IRQ then uartintr s
                      else if irq = VIRTIO0_IRQ then virtio_disk_intr s
                      else if irq \<noteq> 0 then printf (''unexpected interrupt irq=%d'' @ [CHR 0x0A]) [ArgInt irq] s
                      else Inr s) (\<lambda>s.
                 Inr (1, if irq \<noteq> 0 then plic_complete irq s else s))
         else if scause = 0x8000000000000001
         then bnd (if cpuid s = 0 then clockintr s else Inr s) (\<lambda>s.
              Inr (2, on_hart (\<lambda>h. w_sip (and (r_sip h) (not 2)) h) s))
         else Inr (0, s))"

section \<open>Traps from user space\<close>

text \<open>The jump to \<open>userret\<close> in the trampoline at the end of \<open>usertrapret\<close>: its address and arguments.\<close>

definition usertrapret :: "'a kst_scheme \<Rightarrow> (u64 \<times> u64 \<times> u64) \<times> 'a kst_scheme" where
  "usertrapret s =
     (let p = cur s;
          s = on_hart intr_off s;
          s = on_hart (w_stvec (TRAMPOLINE + (sym_uservec s - trampoline s))) s;
          s = tf_set p TF_kernel_satp (r_satp (hart s)) s;
          s = tf_set p TF_kernel_sp (p_kstack (procs s p) + PGSIZE) s;
          s = tf_set p TF_kernel_trap (sym_usertrap s) s;
          s = tf_set p TF_kernel_hartid (r_tp (hart s)) s;
          x = or (and (r_sstatus (hart s)) (not SSTATUS_SPP)) SSTATUS_SPIE;
          s = on_hart (w_sstatus x) s;
          s = on_hart (w_sepc (tf_get p TF_epc s)) s;
          satp = MAKE_SATP (p_pagetable (procs s p));
          fn = TRAMPOLINE + (sym_userret s - trampoline s)
      in ((fn, TRAPFRAME, satp), s))"

text \<open>
  Where a trap from user space leads: back to user space, with the jump of \<open>usertrapret\<close>, or to the scheduler for good.
\<close>

datatype trap_end = ToUserSpace "u64 \<times> u64 \<times> u64" | Exited

definition exit_trap :: "'a trapst_scheme \<Rightarrow> (trap_end \<times> 'a trapst_scheme) kres" where
  "exit_trap s = bnd (exit (- 1) s) (\<lambda>s. Inr (Exited, s))"

text \<open>The cases of \<open>usertrap\<close> on the cause; the result is the device number and whether the process has exited.\<close>

definition usertrap_cause :: "'a trapst_scheme \<Rightarrow> (int \<times> bool \<times> 'a trapst_scheme) kres" where
  "usertrap_cause s =
     (let p = cur s; scause = r_scause (hart s)
      in if scause = 8
         then if p_killed (procs s p) then bnd (exit (- 1) s) (\<lambda>s. Inr (0, True, s))
              else let s = tf_set p TF_epc (tf_get p TF_epc s + 4) s
                   in bnd (syscall (on_hart intr_on s)) (\<lambda>(gone, s). Inr (0, gone, s))
         else bnd (devintr s) (\<lambda>(which_dev, s).
              if which_dev \<noteq> 0 then Inr (which_dev, False, s)
              else if scause = 13 \<or> scause = 15
              then let va = r_stval (hart s)
                   in bnd (should_copyon_write va s) (\<lambda>(c, s).
                      if c then bnd (copy_on_write va s) (\<lambda>(r, s).
                                Inr (0, False, if r \<noteq> 0 then upd_proc p (p_killed_update (\<lambda>_. True)) s else s))
                      else Inr (0, False, s))
              else bnd (printf (''usertrap(): unexpected scause %p pid=%d'' @ [CHR 0x0A]) [ArgPtr scause, ArgInt (p_pid (procs s p))] s) (\<lambda>s.
                   bnd (printf (''            sepc=%p stval=%p'' @ [CHR 0x0A]) [ArgPtr (r_sepc (hart s)), ArgPtr (r_stval (hart s))] s) (\<lambda>s.
                   Inr (0, False, upd_proc p (p_killed_update (\<lambda>_. True)) s)))))"

definition usertrap :: "'a trapst_scheme \<Rightarrow> (trap_end \<times> 'a trapst_scheme) kres" where
  "usertrap s =
     (if and (r_sstatus (hart s)) SSTATUS_SPP \<noteq> 0 then Inl (Panic ''usertrap: not from user mode'')
      else let s = on_hart (w_stvec (sym_kernelvec s)) s;
               p = cur s;
               s = tf_set p TF_epc (r_sepc (hart s)) s
           in bnd (usertrap_cause s) (\<lambda>(which_dev, gone, s).
              if gone then Inr (Exited, s)
              else if p_killed (procs s p) then exit_trap s
              else bnd (if which_dev = 2 then yield s else Inr s) (\<lambda>s.
                   let (jump, s) = usertrapret s in Inr (ToUserSpace jump, s))))"

section \<open>Traps from the kernel\<close>

text \<open>\<open>has_proc\<close>: whether a process runs on the CPU, \<open>myproc() != 0\<close>.\<close>

definition kerneltrap :: "bool \<Rightarrow> 'a trapst_scheme \<Rightarrow> 'a trapst_scheme kres" where
  "kerneltrap has_proc s =
     (let sepc = r_sepc (hart s); sstatus = r_sstatus (hart s); scause = r_scause (hart s)
      in if and sstatus SSTATUS_SPP = 0 then Inl (Panic ''kerneltrap: not from supervisor mode'')
         else if intr_get (hart s) then Inl (Panic ''kerneltrap: interrupts enabled'')
         else bnd (devintr s) (\<lambda>(which_dev, s).
              if which_dev = 0
              then bnd (printf (''scause %p'' @ [CHR 0x0A]) [ArgPtr scause] s) (\<lambda>s.
                   bnd (printf (''sepc=%p stval=%p'' @ [CHR 0x0A]) [ArgPtr (r_sepc (hart s)), ArgPtr (r_stval (hart s))] s) (\<lambda>s.
                   Inl (Panic ''kerneltrap'')))
              else bnd (if which_dev = 2 \<and> has_proc \<and> p_state (myproc s) = RUNNING then yield s else Inr s) (\<lambda>s.
                   Inr (on_hart (\<lambda>h. w_sstatus sstatus (w_sepc sepc h)) s))))"

section \<open>The first return to user space\<close>

definition forkret :: "'a kst_scheme \<Rightarrow> ((u64 \<times> u64 \<times> u64) \<times> 'a kst_scheme) kres" where
  "forkret s =
     bnd (release (LkProc (cur s)) s) (\<lambda>s.
     bnd (if first s then fsinit ROOTDEV (s\<lparr>first := False\<rparr>) else Inr s) (\<lambda>s.
     Inr (usertrapret s)))"

end
