(* ===== verification/Boot.thy ===== *)
theory Boot
  imports Trap
begin

text \<open>
  Machine mode set-up of a hart (\<open>kernel/start.c\<close>) and the boot sequence (\<open>kernel/main.c\<close>). \<open>clint\<close> holds the memory-mapped
  timer registers and the scratch area \<open>mscratch0\<close>; the addresses of \<open>main\<close>, \<open>timervec\<close> and \<open>mscratch0\<close> are symbols of the linker.
\<close>

abbreviation (input) MSTATUS_MPP_MASK :: u64 where "MSTATUS_MPP_MASK \<equiv> 0x1800"
abbreviation (input) MSTATUS_MPP_S :: u64 where "MSTATUS_MPP_S \<equiv> 0x800"
abbreviation (input) MSTATUS_MIE :: u64 where "MSTATUS_MIE \<equiv> 8"
abbreviation (input) SIE_SEIE :: u64 where "SIE_SEIE \<equiv> 0x200"
abbreviation (input) SIE_STIE :: u64 where "SIE_STIE \<equiv> 0x20"
abbreviation (input) SIE_SSIE :: u64 where "SIE_SSIE \<equiv> 2"
abbreviation (input) MIE_MTIE :: u64 where "MIE_MTIE \<equiv> 0x80"

record clint =
  mtime :: u64
  mtimecmp :: "int \<Rightarrow> u64"
  mscratch0 :: "int \<Rightarrow> u64"

definition CLINT_MTIMECMP :: "int \<Rightarrow> u64" where
  "CLINT_MTIMECMP h = CLINT + 0x4000 + 8 * word_of_int h"

definition timerinit :: "u64 \<Rightarrow> u64 \<Rightarrow> hart \<times> clint \<Rightarrow> hart \<times> clint" where
  "timerinit sym_timervec sym_mscratch0 hc =
     (let (h, c) = hc;
          id = sint (ucast (r_mhartid h) :: u32);
          interval = 1000000;
          c = c\<lparr>mtimecmp := (mtimecmp c)(id := mtime c + interval)\<rparr>;
          c = c\<lparr>mscratch0 := (mscratch0 c)(32 * id + 4 := CLINT_MTIMECMP id, 32 * id + 5 := interval)\<rparr>;
          h = w_mscratch (sym_mscratch0 + 8 * word_of_int (32 * id)) h;
          h = w_mtvec sym_timervec h;
          h = w_mstatus (or (r_mstatus h) MSTATUS_MIE) h
      in (w_mie (or (r_mie h) MIE_MTIE) h, c))"

definition start :: "u64 \<Rightarrow> u64 \<Rightarrow> u64 \<Rightarrow> hart \<times> clint \<Rightarrow> hart \<times> clint" where
  "start sym_main sym_timervec sym_mscratch0 hc =
     (let (h, c) = hc;
          x = or (and (r_mstatus h) (not MSTATUS_MPP_MASK)) MSTATUS_MPP_S;
          h = w_mstatus x h;
          h = w_mepc sym_main h;
          h = w_satp 0 h;
          h = w_medeleg 0xffff h;
          h = w_mideleg 0xffff h;
          h = w_sie (or (or (or (r_sie h) SIE_SEIE) SIE_STIE) SIE_SSIE) h;
          (h, c) = timerinit sym_timervec sym_mscratch0 (h, c);
          id = sint (ucast (r_mhartid h) :: u32)
      in (w_tp (word_of_int id) h, c))"

section \<open>main\<close>

record bootst = trapst +
  started :: bool

text \<open>
  What \<open>main\<close> does before it enters the scheduler. A hart other than the first spins until \<open>started\<close> is set; \<open>NoFuel\<close> is the case
  that it is not. \<open>pfn\<close> is the page frame of the pages of the disk queue.
\<close>

definition main :: "u32 \<Rightarrow> 'a bootst_scheme \<Rightarrow> 'a bootst_scheme kres" where
  "main pfn s =
     (if cpuid s = 0
      then let s = printfinit (consoleinit s)
           in bnd (printf [CHR 0x0A] [] s) (\<lambda>s.
              bnd (printf (''xv6 kernel is booting'' @ [CHR 0x0A]) [] s) (\<lambda>s.
              bnd (printf [CHR 0x0A] [] s) (\<lambda>s.
              bnd (kinit s) (\<lambda>s.
              bnd (kvminit s) (\<lambda>s.
              bnd (procinit (on_hart (kvminithart s) s)) (\<lambda>s.
              let s = plicinithart (plicinit (trapinithart s));
                  s = iinit (binit s)
              in bnd (virtio_disk_init pfn s) (\<lambda>s.
                 bnd (userinit s) (\<lambda>s.
                 Inr (s\<lparr>started := True\<rparr>)))))))))
      else if \<not> started s then Inl NoFuel
      else bnd (printf (''hart %d starting'' @ [CHR 0x0A]) [ArgInt (word_of_int (cpuid s))] s) (\<lambda>s.
           Inr (plicinithart (trapinithart (on_hart (kvminithart s) s)))))"

end
