(* ===== verification/Examples.thy ===== *)
theory Examples
  imports Boot
begin

text \<open>
  A concrete state of the whole kernel, for the examples of the other theories: the example of the log, an empty inode cache and file table,
  an idle UART, and hart 0.
\<close>

definition inode0 :: inode where
  "inode0 = \<lparr>i_dev = 0, i_inum = 0, i_ref = 0, i_valid = False, i_type = 0, i_major = 0, i_minor = 0, i_nlink = 0, i_size = 0, i_addrs = (\<lambda>_. 0)\<rparr>"

definition hart0 :: hart where
  "hart0 = \<lparr>csr_mhartid = 0, csr_mstatus = 0, csr_mepc = 0, csr_sstatus = 0, csr_sip = 0, csr_sie = 0, csr_mie = 0, csr_sepc = 0,
     csr_medeleg = 0, csr_mideleg = 0, csr_stvec = 0, csr_mtvec = 0, csr_satp = 0, csr_mscratch = 0, csr_scause = 0, csr_stval = 0, reg_tp = 0\<rparr>"

definition sb_ex :: superblock where
  "sb_ex = \<lparr>sb_magic = FSMAGIC, sb_size = 1000, sb_nblocks = 954, sb_ninodes = 200, sb_nlog = 30, sb_logstart = 2, sb_inodestart = 32, sb_bmapstart = 45\<rparr>"

definition fs_of :: "logst \<Rightarrow> fsst" where
  "fs_of s = logst.extend s \<lparr>sb = sb_ex, inodes = (\<lambda>_. inode0)\<rparr>"

definition cs_of :: "fsst \<Rightarrow> consst" where
  "cs_of s = fsst.extend s \<lparr>uart_rx = [], uart_idle = (\<lambda>_. True), uart_tx = [], uart_regs = (\<lambda>_. 0), uart_tx_buf = (\<lambda>_. 0), uart_tx_w = 0,
     uart_tx_r = 0, panicked = False, pr_locking = True, cons_buf = (\<lambda>_. 0), cons_r = 0, cons_w = 0, cons_e = 0\<rparr>"

definition fl_of :: "consst \<Rightarrow> filest" where
  "fl_of s = consst.extend s \<lparr>pipes = (\<lambda>_. \<lparr>pi_data = (\<lambda>_. 0), nread = 0, nwrite = 0, readopen = True, writeopen = True\<rparr>),
     ftable = (\<lambda>_. \<lparr>f_type = FD_NONE, f_ref = 0, f_readable = False, f_writable = False, f_pipe = 0, f_ip = 0, f_off = 0, f_major = 0\<rparr>),
     devsw = (\<lambda>_. NoDev), st_pad = replicate 4 0\<rparr>"

definition ks_of :: "filest \<Rightarrow> kst" where
  "ks_of s = filest.extend s \<lparr>hart = hart0, first = False, sym_forkret = 0x80002000, sym_usertrap = 0x80003000, sym_kernelvec = 0x80004000,
     sym_uservec = 0x80007000, sym_userret = 0x80007090\<rparr>"

definition ts_of :: "kst \<Rightarrow> trapst" where
  "ts_of s = kst.extend s \<lparr>plic_pend = [], plic_w = []\<rparr>"

lemmas ex_defs = fs_of_def cs_of_def fl_of_def ks_of_def ts_of_def logst.defs fsst.defs consst.defs filest.defs kst.defs

definition fs_ex :: fsst where "fs_ex = fs_of lg_ex"
definition cs_ex :: consst where "cs_ex = cs_of fs_ex"
definition fl_ex :: filest where "fl_ex = fl_of cs_ex"
definition ks_ex :: kst where "ks_ex = ks_of fl_ex"
definition ts_ex :: trapst where "ts_ex = ts_of ks_ex"

lemma binit_loop_base: "procs (binit_loop is s) = procs s" "mem (binit_loop is s) = mem s"
  by (induction "is" arbitrary: s) (simp_all add: initsleeplock_def Let_def)

lemma lg_ex_base: "held lg_ex = {}" "cur lg_ex = 0" "procs lg_ex = procs km_ex" "mem lg_ex = mem km_ex"
  by (simp_all add: lg_ex_def dkst.defs bc_ex_def binit_def binit_loop_frame binit_loop_base dk_ex_def kmst.defs vmst.defs) (simp_all add: km_ex_def)

lemmas ex_base = fs_ex_def cs_ex_def fl_ex_def ks_ex_def ts_ex_def lg_ex_base

end
