(* ===== verification/Scheduling.thy ===== *)
theory Scheduling
  imports Examples
begin

text \<open>
  Fairness of the scheduler. The locale \<open>dispatch\<close> is the contract of a process that has been switched to: it comes back, with the
  locks as it found them, and does not take another process out of the state RUNNABLE. Under this contract one round of the
  scheduler runs every process that was RUNNABLE at its start, exactly once. A process that is preempted by the timer keeps the contract.
\<close>

section \<open>The contract of a running process\<close>

definition stays_runnable :: "nat \<Rightarrow> 'a procst_scheme \<Rightarrow> 'a procst_scheme \<Rightarrow> bool" where
  "stays_runnable p s t \<longleftrightarrow> held t = held s \<and> (\<forall>q. q \<noteq> p \<longrightarrow> p_state (procs s q) = RUNNABLE \<longrightarrow> p_state (procs t q) = RUNNABLE)"

locale dispatch =
  fixes run :: "nat \<Rightarrow> 'a kst_scheme \<Rightarrow> 'a kst_scheme kres"
  assumes run_back: "held s = {LkProc p} \<Longrightarrow> cur s = p \<Longrightarrow> p_state (procs s p) = RUNNING \<Longrightarrow> \<exists>t. run p s = Inr t \<and> stays_runnable p s t"
begin

lemma pass_runs:
  assumes "held s = {}" "distinct ps"
  shows "\<exists>n ran t. scheduler_pass run ps s = Inr (n, ran, t) \<and> held t = {} \<and> distinct ran \<and> set ran \<subseteq> set ps \<and>
    {p \<in> set ps. p_state (procs s p) = RUNNABLE} \<subseteq> set ran \<and> n \<le> length ps"
  using assms
proof (induction ps arbitrary: s)
  case (Cons p ps)
  let ?s = "s\<lparr>held := {LkProc p}\<rparr>"
  let ?n = "if p_state (procs s p) \<noteq> UNUSED then 1 else 0 :: nat"
  obtain t where t: "(if p_state (procs s p) = RUNNABLE
        then bnd (run p (upd_proc p (p_state_update (\<lambda>_. RUNNING)) ?s\<lparr>cur := p\<rparr>)) (\<lambda>s. Inr ([p], s)) else Inr ([], ?s)) =
      Inr (if p_state (procs s p) = RUNNABLE then [p] else [], t)" "stays_runnable p ?s t"
  proof (cases "p_state (procs s p) = RUNNABLE")
    case True
    let ?r = "upd_proc p (p_state_update (\<lambda>_. RUNNING)) ?s\<lparr>cur := p\<rparr>"
    obtain t where "run p ?r = Inr t" "stays_runnable p ?r t" using run_back [of ?r p] by auto
    then show thesis using that [of t] True by (simp add: stays_runnable_def)
  next
    case False then show thesis using that [of ?s] by (simp add: stays_runnable_def)
  qed
  let ?t = "t\<lparr>held := {}\<rparr>"
  have h: "held t = {LkProc p}" using t(2) by (simp add: stays_runnable_def)
  obtain n ran u where IH: "scheduler_pass run ps ?t = Inr (n, ran, u)" "held u = {}" "distinct ran" "set ran \<subseteq> set ps"
    "{q \<in> set ps. p_state (procs ?t q) = RUNNABLE} \<subseteq> set ran" "n \<le> length ps"
    using Cons.IH [of ?t] Cons.prems by auto
  have e: "scheduler_pass run (p # ps) s = Inr (?n + n, (if p_state (procs s p) = RUNNABLE then [p] else []) @ ran, u)"
    using Cons.prems(1) t(1) h IH(1) by (simp add: Let_def)
  have "p_state (procs ?t q) = RUNNABLE" if "q \<in> set ps" "p_state (procs s q) = RUNNABLE" for q
    using that t(2) Cons.prems(2) by (auto simp: stays_runnable_def)
  then have "{q \<in> set (p # ps). p_state (procs s q) = RUNNABLE} \<subseteq> set ((if p_state (procs s p) = RUNNABLE then [p] else []) @ ran)"
    using IH(5) by auto
  then show ?case using e IH Cons.prems(2) by (intro exI [of _ "?n + n"] exI [of _ "(if p_state (procs s p) = RUNNABLE then [p] else []) @ ran"] exI [of _ u]) auto
qed simp

lemma round_runs:
  assumes "held s = {}"
  shows "\<exists>w ran t. scheduler_round run s = Inr (w, ran, t) \<and> held t = {} \<and> distinct ran \<and>
    (\<forall>p<NPROC. p_state (procs s p) = RUNNABLE \<longrightarrow> p \<in> set ran)"
proof -
  have s: "held (on_hart intr_on s) = {}" "procs (on_hart intr_on s) = procs s" using assms by (simp_all add: on_hart_def)
  obtain n ran t where r: "scheduler_pass run [0..<NPROC] (on_hart intr_on s) = Inr (n, ran, t)" "held t = {}" "distinct ran"
    "{p \<in> set [0..<NPROC]. p_state (procs s p) = RUNNABLE} \<subseteq> set ran"
    using pass_runs [OF s(1) distinct_upt, of 0 NPROC] unfolding s(2) by (elim exE conjE) (rule that)
  have "p \<in> set ran" if "p < NPROC" "p_state (procs s p) = RUNNABLE" for p
    using subsetD [OF r(4), of p] that by (simp only: mem_Collect_eq set_upt atLeastLessThan_iff) simp
  then show ?thesis unfolding scheduler_round_def r(1) using r(2,3) by (simp add: on_hart_def)
qed

end

section \<open>A preempted process\<close>

text \<open>From the switch to a process that returns from \<open>yield\<close> to its next call of \<open>yield\<close>, as after a timer interrupt.\<close>

definition run_yield :: "nat \<Rightarrow> 'a kst_scheme \<Rightarrow> 'a kst_scheme kres" where
  "run_yield p s =
     bnd (release (LkProc p) s) (\<lambda>s.
     bnd (acquire (LkProc p) s) (\<lambda>s.
     sched (upd_proc p (p_state_update (\<lambda>_. RUNNABLE)) s)))"

lemma run_yield_eq:
  "held s = {LkProc p} \<Longrightarrow> cur s = p \<Longrightarrow> run_yield p s = Inr (upd_proc p (p_state_update (\<lambda>_. RUNNABLE)) s)"
  by (simp add: run_yield_def sched_def upd_proc_def)

interpretation preempted: dispatch run_yield
  by unfold_locales (simp add: run_yield_eq stays_runnable_def)

section \<open>Properties\<close>



end
