(* ===== verification/Path.thy ===== *)
theory Path
  imports Fs
begin

text \<open>
  Path names: repeated \<open>skipelem\<close> splits a path at its slashes.
\<close>

text \<open>The parts between slashes, empty ones included.\<close>

fun split_on :: "'a \<Rightarrow> 'a list \<Rightarrow> 'a list list" where
  "split_on c [] = [[]]"
| "split_on c (x # xs) = (if x = c then [] # split_on c xs else (case split_on c xs of y # ys \<Rightarrow> (x # y) # ys | [] \<Rightarrow> [[x]]))"

text \<open>The elements that \<open>namex\<close> goes through.\<close>

function path_elems :: "u8 list \<Rightarrow> u8 list list" where
  "path_elems path = (case skipelem path of None \<Rightarrow> [] | Some (name, path) \<Rightarrow> name # path_elems path)"
  by pat_completeness auto

termination
  by (relation "measure length") (auto dest: skipelem_shorter)

declare path_elems.simps [simp del]

lemma split_on_not_nil [simp]: "split_on c xs \<noteq> []"
  by (cases xs) (auto split: list.splits)

lemma split_on_span:
  "split_on c xs = takeWhile (\<lambda>x. x \<noteq> c) xs # (case dropWhile (\<lambda>x. x \<noteq> c) xs of [] \<Rightarrow> [] | _ # ys \<Rightarrow> split_on c ys)"
  by (induction xs) auto

definition elems :: "u8 list \<Rightarrow> u8 list list" where
  "elems path = filter (\<lambda>e. e \<noteq> []) (split_on SLASH path)"

lemma elems_slash [simp]: "elems (SLASH # xs) = elems xs"
  by (simp add: elems_def)

lemma elems_slashes: "elems (dropWhile (\<lambda>c. c = SLASH) xs) = elems xs"
  by (induction xs) auto

lemma elems_first:
  assumes "xs \<noteq> []" "hd xs \<noteq> SLASH"
  shows "elems xs = takeWhile (\<lambda>c. c \<noteq> SLASH) xs # elems (dropWhile (\<lambda>c. c \<noteq> SLASH) xs)"
proof -
  have t: "takeWhile (\<lambda>c. c \<noteq> SLASH) xs \<noteq> []" using assms by (cases xs) auto
  show ?thesis
  proof (cases "dropWhile (\<lambda>c. c \<noteq> SLASH) xs")
    case Nil
    then show ?thesis unfolding elems_def by (subst split_on_span) (simp only: Nil list.case filter.simps t if_True split_on.simps simp_thms not_False_eq_True if_False)
  next
    case (Cons y ys)
    have "y = SLASH" using hd_dropWhile [of "\<lambda>c. c \<noteq> SLASH" xs] Cons by simp
    then show ?thesis using t split_on_span [of SLASH xs] Cons by (simp add: elems_def)
  qed
qed

lemma skipelem_elems:
  "skipelem p = (case elems p of [] \<Rightarrow> None
     | e # es \<Rightarrow> Some (take DIRSIZ e, dropWhile (\<lambda>c. c = SLASH) (dropWhile (\<lambda>c. c \<noteq> SLASH) (dropWhile (\<lambda>c. c = SLASH) p))))"
proof (cases "dropWhile (\<lambda>c. c = SLASH) p = []")
  case True
  have "elems p = []" using elems_slashes [of p] unfolding True by (simp add: elems_def)
  then show ?thesis unfolding skipelem_def Let_def by (simp only: True list.case if_P refl)
next
  case False
  have "elems p = takeWhile (\<lambda>c. c \<noteq> SLASH) (dropWhile (\<lambda>c. c = SLASH) p) # elems (dropWhile (\<lambda>c. c \<noteq> SLASH) (dropWhile (\<lambda>c. c = SLASH) p))"
    using elems_first [OF False] hd_dropWhile [OF False] elems_slashes [of p] by simp
  then show ?thesis unfolding skipelem_def Let_def using False by (simp only: if_False list.case)
qed

lemma skipelem_rest: "skipelem p = Some (n, r) \<Longrightarrow> elems r = tl (elems p) \<and> (r = [] \<or> hd r \<noteq> SLASH)"
proof -
  assume a: "skipelem p = Some (n, r)"
  let ?q = "dropWhile (\<lambda>c. c = SLASH) p"
  have q: "?q \<noteq> []" and r: "r = dropWhile (\<lambda>c. c = SLASH) (dropWhile (\<lambda>c. c \<noteq> SLASH) ?q)" using a by (simp_all add: skipelem_def Let_def split: if_splits)
  have "elems r = tl (elems p)" unfolding r elems_slashes using elems_first [OF q] hd_dropWhile [OF q] elems_slashes [of p] by simp
  moreover have "r = [] \<or> hd r \<noteq> SLASH" unfolding r using hd_dropWhile by blast
  ultimately show ?thesis by blast
qed

lemma elems_Nil_iff: "r = [] \<or> hd r \<noteq> SLASH \<Longrightarrow> elems r = [] \<longleftrightarrow> r = []"
  using elems_first [of r] by (cases "r = []") (auto simp: elems_def)

lemma path_elems_eq: "path_elems p = map (take DIRSIZ) (elems p)"
proof (induction p rule: path_elems.induct)
  case (1 p)
  show ?case
  proof (cases "skipelem p")
    case None then show ?thesis using skipelem_elems [of p] by (simp add: path_elems.simps split: list.splits)
  next
    case (Some a)
    obtain n r where a: "a = (n, r)" by force
    have "path_elems r = map (take DIRSIZ) (tl (elems p))" using 1 [OF Some [unfolded a] refl] skipelem_rest [OF Some [unfolded a]] by simp
    then show ?thesis using Some a skipelem_elems [of p] by (simp add: path_elems.simps [of p] split: list.splits)
  qed
qed

section \<open>Properties\<close>

text \<open>C36. The elements that repeated \<open>skipelem\<close> gives are the non-empty parts of the path between slashes, in order, each cut to DIRSIZ bytes. What is
  left after an element does not begin with a slash, and it is empty exactly when that element is the last one.\<close>

theorem skipelem_splits:
  "path_elems p = map (take DIRSIZ) (filter (\<lambda>e. e \<noteq> []) (split_on SLASH p)) \<and>
   (case skipelem p of None \<Rightarrow> path_elems p = []
    | Some (name, rest) \<Rightarrow> path_elems p = name # path_elems rest \<and> take 1 rest \<noteq> [SLASH] \<and> (rest = [] \<longleftrightarrow> length (path_elems p) = 1))"
proof (rule conjI)
  show "path_elems p = map (take DIRSIZ) (filter (\<lambda>e. e \<noteq> []) (split_on SLASH p))" using path_elems_eq [of p] by (simp add: elems_def)
  show "(case skipelem p of None \<Rightarrow> path_elems p = []
    | Some (name, rest) \<Rightarrow> path_elems p = name # path_elems rest \<and> take 1 rest \<noteq> [SLASH] \<and> (rest = [] \<longleftrightarrow> length (path_elems p) = 1))"
  proof (cases "skipelem p")
    case None then show ?thesis by (simp add: path_elems.simps)
  next
    case (Some a)
    obtain n r where a: "a = (n, r)" by force
    have e: "path_elems p = n # path_elems r" using Some a by (simp add: path_elems.simps [of p])
    have h: "r = [] \<or> hd r \<noteq> SLASH" using skipelem_rest [OF Some [unfolded a]] by blast
    have "r = [] \<longleftrightarrow> path_elems r = []" using elems_Nil_iff [OF h] by (simp add: path_elems_eq)
    moreover have "take 1 r \<noteq> [SLASH]" using h by (cases r) auto
    ultimately show ?thesis using Some a e by simp
  qed
qed

end
