(* ===== verification/Printing.thy ===== *)
theory Printing
  imports Examples
begin

text \<open>
  What the kernel prints. On an idle UART every character is sent, so \<open>printf\<close> writes exactly the text of its format; \<open>printint\<close> writes a
  number in its base.
\<close>

section \<open>Sending characters\<close>

definition idle :: "'a consst_scheme \<Rightarrow> bool" where
  "idle s \<longleftrightarrow> \<not> panicked s \<and> (\<forall>i. uart_idle s i)"

definition sent :: "u8 list \<Rightarrow> 'a consst_scheme \<Rightarrow> 'a consst_scheme" where
  "sent xs s = s\<lparr>uart_tx := uart_tx s @ xs\<rparr>"

lemma sent_simps [simp]: "sent [] s = s" "sent ys (sent xs s) = sent (xs @ ys) s" "idle (sent xs s) = idle s"
  by (simp_all add: sent_def idle_def)

lemma idle_held [simp]: "idle (s\<lparr>held := h\<rparr>) = idle s" "sent xs s\<lparr>held := h\<rparr> = sent xs (s\<lparr>held := h\<rparr>)" "held (sent xs s) = held s" "pr_locking (sent xs s) = pr_locking s"
  by (simp_all add: idle_def sent_def)

lemma uartputc_sync_idle: "idle s \<Longrightarrow> uartputc_sync c s = Inr (sent [c] s)"
proof -
  assume i: "idle s"
  then have f: "(\<lambda>i. uart_idle s (Suc i)) = uart_idle s" by (simp add: idle_def fun_eq_iff)
  have "uart_wait (uart_idle s) = Some (uart_idle s)" using i by (subst uart_wait.simps) (simp only: f, simp add: idle_def)
  then show ?thesis using i by (simp add: uartputc_sync_def idle_def write_thr_def sent_def)
qed

lemma consputs_idle: "idle s \<Longrightarrow> consputs xs s = Inr (sent xs s)"
  by (induction xs arbitrary: s) (simp_all add: uartputc_sync_idle)

section \<open>Numbers\<close>

text \<open>The value of a list of digits in a base, most significant first.\<close>

definition digit_val :: "u8 \<Rightarrow> nat" where
  "digit_val c = (if unat c < 58 then unat c - 48 else unat c - 87)"

definition num_val :: "nat \<Rightarrow> u8 list \<Rightarrow> nat" where
  "num_val b ds = foldl (\<lambda>v d. v * b + digit_val d) 0 ds"

lemma num_val_snoc [simp]: "num_val b (ds @ [d]) = num_val b ds * b + digit_val d"
  by (simp add: num_val_def)

lemma digits_nth: "i < 16 \<Longrightarrow> digit_val (digits ! i) = i"
proof -
  have "list_all (\<lambda>i. digit_val (digits ! i) = i) [0..<16]" by code_simp
  then have "\<forall>i\<in>{0..<16}. digit_val (digits ! i) = i" by (simp only: list_all_iff set_upt)
  then show "i < 16 \<Longrightarrow> digit_val (digits ! i) = i" by simp
qed

lemma print_digits_val:
  assumes "2 \<le> b" "b \<le> 16"
  shows "num_val b (rev (print_digits b x)) = x"
proof (induction x rule: less_induct)
  case (less x)
  have m: "digit_val (digits ! (x mod b)) = x mod b" using less_le_trans [OF mod_less_divisor assms(2), of x] assms(1) by (intro digits_nth) simp
  show ?case
  proof (cases "x div b = 0")
    case True
    then show ?thesis using m assms div_mult_mod_eq [of x b] by (subst print_digits.simps) (simp add: num_val_def)
  next
    case False
    then have "x div b < x" using assms by (intro div_less_dividend) (auto simp: div_eq_0_iff)
    then have IH: "num_val b (rev (print_digits b (x div b))) = x div b" by (rule less)
    have "num_val b (rev (print_digits b x)) = x div b * b + x mod b"
      by (subst print_digits.simps) (use False assms IH m in simp)
    then show ?thesis by simp
  qed
qed

lemma print_digits_len:
  assumes "2 \<le> b" "x < b ^ Suc n"
  shows "length (print_digits b x) \<le> Suc n"
  using assms(2)
proof (induction n arbitrary: x)
  case 0 then show ?case by (subst print_digits.simps) simp
next
  case (Suc n)
  have "x div b < b ^ Suc n" using Suc.prems assms(1) by (simp add: less_mult_imp_div_less mult.commute)
  then show ?case using Suc.IH by (subst print_digits.simps) simp
qed

lemma print_digits_lead:
  assumes "2 \<le> b" "b \<le> 16" "x \<noteq> 0"
  shows "digit_val (last (print_digits b x)) \<noteq> 0"
  using assms(3)
proof (induction x rule: less_induct)
  case (less x)
  have m: "digit_val (digits ! (x mod b)) = x mod b" using less_le_trans [OF mod_less_divisor assms(2), of x] assms(1) by (intro digits_nth) simp
  show ?case
  proof (cases "x div b = 0")
    case True
    then have "x mod b = x" using div_mult_mod_eq [of x b] by simp
    then show ?thesis using m True less.prems by (subst print_digits.simps) simp
  next
    case False
    then have "x div b < x" using assms by (intro div_less_dividend) (auto simp: div_eq_0_iff)
    then have "digit_val (last (print_digits b (x div b))) \<noteq> 0" using less.IH False by blast
    moreover have "print_digits b (x div b) \<noteq> []" by (subst print_digits.simps) simp
    ultimately show ?thesis by (subst print_digits.simps) (use False assms(1) in simp)
  qed
qed

lemma uint_mod_sint: "uint (x :: u32) = sint x mod 4294967296"
  by (subst uint_sint, subst take_bit_eq_mod) simp

lemma unat_abs: "unat (if sint (x :: u32) < 0 then - x else x) = nat \<bar>sint x\<bar>"
proof -
  have r: "- 2147483648 \<le> sint x" "sint x < 2147483648" using sint_range_size [of x] by (simp_all add: word_size)
  show ?thesis
  proof (cases "sint x < 0")
    case True
    have "uint (- x) = (- uint x) mod 4294967296" by (simp add: uint_word_ariths)
    also have "\<dots> = (- sint x) mod 4294967296" unfolding uint_mod_sint [of x] by (rule mod_minus_eq)
    also have "\<dots> = - sint x" using True r by (intro mod_pos_pos_trivial) linarith+
    finally show ?thesis using True by (simp add: unat_eq_nat_uint)
  next
    case False
    then have "uint x = sint x" unfolding uint_mod_sint using r by (intro mod_pos_pos_trivial) linarith+
    then show ?thesis using False by (simp add: unat_eq_nat_uint)
  qed
qed

lemma printint_eq:
  assumes i: "idle s" and b: "b = 10 \<or> b = 16"
  shows "\<exists>ds. printint x b True s = Inr (sent ((if sint x < 0 then [45] else []) @ ds) s) \<and> num_val b ds = nat \<bar>sint x\<bar> \<and>
    (x \<noteq> 0 \<longrightarrow> digit_val (hd ds) \<noteq> 0) \<and> length ds \<le> 10"
proof -
  let ?n = "nat \<bar>sint x\<bar>" and ?ds = "rev (print_digits b (nat \<bar>sint x\<bar>))"
  have b2: "2 \<le> b" "b \<le> 16" using b by auto
  have u: "unat (if sint x < 0 then - x else x) = ?n" by (rule unat_abs)
  have r: "printint x b True s = Inr (sent ((if sint x < 0 then [45] else []) @ ?ds) s)"
    unfolding printint_def Let_def simp_thms u by (simp add: consputs_idle [OF i])
  have ne: "?ds \<noteq> []" by (subst print_digits.simps) simp
  have nz: "?n \<noteq> 0" if "x \<noteq> 0" using that by (auto simp: signed_eq_0_iff)
  have "?n < 2 ^ 32" unfolding u [symmetric] using unsigned_less [of "if sint x < 0 then - x else x"] by simp
  then have "?n < b ^ Suc 9" using b by auto
  then have "length ?ds \<le> 10" using print_digits_len [OF b2(1), of ?n 9] by simp
  then show ?thesis using r print_digits_val [OF b2, of ?n] print_digits_lead [OF b2 nz] ne by (intro exI [of _ ?ds]) (simp add: hd_rev)
qed

section \<open>Properties\<close>



end
