(* ===== verification/Ring.thy ===== *)
theory Ring
  imports Xv6_Prelude
begin

text \<open>
  Bounded ring buffers. The locale is the contract that pipes, the transmit buffer of the UART and the console have in common: a queue
  of at most \<open>cap\<close> elements behind \<open>put\<close> and \<open>get\<close>. For rings with free running counters, as pipes and the console have, the contents are
  \<open>fr_queue\<close>.
\<close>

locale ring =
  fixes ok :: "'r \<Rightarrow> bool" and full :: "'r \<Rightarrow> bool" and put :: "'x \<Rightarrow> 'r \<Rightarrow> 'r" and get :: "'r \<Rightarrow> 'x \<times> 'r" and queue :: "'r \<Rightarrow> 'x list" and cap :: nat
  assumes queue_len: "ok r \<Longrightarrow> length (queue r) \<le> cap"
    and full_iff: "ok r \<Longrightarrow> full r \<longleftrightarrow> length (queue r) = cap"
    and put_ok: "ok r \<Longrightarrow> \<not> full r \<Longrightarrow> ok (put x r)"
    and put_queue: "ok r \<Longrightarrow> \<not> full r \<Longrightarrow> queue (put x r) = queue r @ [x]"
    and get_ok: "ok r \<Longrightarrow> queue r \<noteq> [] \<Longrightarrow> ok (snd (get r))"
    and get_queue: "ok r \<Longrightarrow> queue r \<noteq> [] \<Longrightarrow> queue r = fst (get r) # queue (snd (get r))"
begin

lemma fold_put:
  "ok r \<Longrightarrow> length (queue r) + length xs \<le> cap \<Longrightarrow> ok (fold put xs r) \<and> queue (fold put xs r) = queue r @ xs"
proof (induction xs arbitrary: r)
  case (Cons x xs)
  then have "\<not> full r" by (simp add: full_iff)
  then show ?case using Cons.IH [of "put x r"] Cons.prems by (simp add: put_ok put_queue)
qed simp

lemma put_get: "ok r \<Longrightarrow> queue r = [] \<Longrightarrow> 0 < cap \<Longrightarrow> fst (get (put x r)) = x \<and> queue (snd (get (put x r))) = []"
proof -
  assume a: "ok r" "queue r = []" "0 < cap"
  then have "\<not> full r" by (simp add: full_iff)
  then have "ok (put x r)" "queue (put x r) = [x]" using a by (simp_all add: put_ok put_queue)
  then show ?thesis using get_queue [of "put x r"] by simp
qed

end

section \<open>Free running counters\<close>

definition fr_queue :: "u32 \<Rightarrow> u32 \<Rightarrow> nat \<Rightarrow> (nat \<Rightarrow> 'a) \<Rightarrow> 'a list" where
  "fr_queue c a n d = map (\<lambda>i. d (unat ((a + of_nat i) mod c))) [0..<n]"

lemma length_fr_queue [simp]: "length (fr_queue c a n d) = n"
  by (simp add: fr_queue_def)

lemma fr_index:
  fixes c a :: u32
  assumes "unat c dvd 2 ^ 32"
  shows "unat ((a + of_nat i) mod c) = (unat a + i) mod unat c"
proof -
  have "unat (a + of_nat i) = (unat a + i) mod 2 ^ 32" by (simp add: unat_word_ariths unat_of_nat mod_add_right_eq)
  then show ?thesis using assms by (simp add: unat_mod mod_mod_cancel)
qed

lemma fr_put:
  assumes "unat c dvd 2 ^ 32" "n < unat c"
  shows "fr_queue c a (Suc n) (d(unat ((a + of_nat n) mod c) := x)) = fr_queue c a n d @ [x]"
proof -
  have "unat ((a + of_nat i) mod c) \<noteq> unat ((a + of_nat n) mod c)" if "i < n" for i
  proof
    assume "unat ((a + of_nat i) mod c) = unat ((a + of_nat n) mod c)"
    then have "(unat a + i) mod unat c = (unat a + n) mod unat c" by (simp only: fr_index [OF assms(1)])
    then have "unat c dvd n - i" using that mod_eq_dvd_iff_nat [of "unat a + i" "unat a + n" "unat c"] by simp
    then show False using that assms(2) by (auto dest: dvd_imp_le)
  qed
  then show ?thesis by (simp add: fr_queue_def)
qed

lemma fr_get:
  "fr_queue c a (Suc n) d = d (unat (a mod c)) # fr_queue c (a + 1) n d"
proof -
  have "[0..<Suc n] = 0 # map Suc [0..<n]" by (simp add: upt_conv_Cons map_Suc_upt del: upt_Suc)
  then show ?thesis by (simp add: fr_queue_def comp_def ac_simps del: upt_Suc)
qed

lemma fr_take: "m \<le> n \<Longrightarrow> take m (fr_queue c a n d) = fr_queue c a m d"
  by (simp add: fr_queue_def take_map)

end
