(* ===== verification/Console_Rules.thy ===== *)
theory Console_Rules
  imports Printing Ring
begin

text \<open>
  The console against its specification. The transmit buffer of the UART is a ring of 31 bytes whose contents leave in order. The input side is
  a line editor: \<open>cons_abs\<close> gives the bytes that can be read and the line being edited, \<open>edit\<close> what a key does to them.
\<close>

section \<open>The transmit ring\<close>

definition uart_ok :: "'a consst_scheme \<Rightarrow> bool" where
  "uart_ok s \<longleftrightarrow> uart_tx_w s < UART_TX_BUF_SIZE \<and> uart_tx_r s < UART_TX_BUF_SIZE"

definition uart_full :: "'a consst_scheme \<Rightarrow> bool" where
  "uart_full s \<longleftrightarrow> (uart_tx_w s + 1) mod UART_TX_BUF_SIZE = uart_tx_r s"

definition uart_put :: "u8 \<Rightarrow> 'a consst_scheme \<Rightarrow> 'a consst_scheme" where
  "uart_put c s = s\<lparr>uart_tx_buf := (uart_tx_buf s)(uart_tx_w s := c), uart_tx_w := (uart_tx_w s + 1) mod UART_TX_BUF_SIZE\<rparr>"

definition uart_get :: "'a consst_scheme \<Rightarrow> u8 \<times> 'a consst_scheme" where
  "uart_get s = (uart_tx_buf s (uart_tx_r s), s\<lparr>uart_tx_r := (uart_tx_r s + 1) mod UART_TX_BUF_SIZE\<rparr>)"

definition uart_len :: "'a consst_scheme \<Rightarrow> nat" where
  "uart_len s = (uart_tx_w s + UART_TX_BUF_SIZE - uart_tx_r s) mod UART_TX_BUF_SIZE"

definition uart_queue :: "'a consst_scheme \<Rightarrow> u8 list" where
  "uart_queue s = map (\<lambda>i. uart_tx_buf s ((uart_tx_r s + i) mod UART_TX_BUF_SIZE)) [0..<uart_len s]"

lemma ring32:
  fixes w r i :: nat
  assumes "w < 32" "r < 32"
  shows "(w + 1) mod 32 \<noteq> r \<Longrightarrow> ((w + 1) mod 32 + 32 - r) mod 32 = Suc ((w + 32 - r) mod 32)" "(r + (w + 32 - r) mod 32) mod 32 = w"
    "i < (w + 32 - r) mod 32 \<Longrightarrow> (r + i) mod 32 \<noteq> w" "w \<noteq> r \<Longrightarrow> (w + 32 - (r + 1) mod 32) mod 32 = (w + 32 - r) mod 32 - 1"
    "(w + 1) mod 32 = r \<longleftrightarrow> (w + 32 - r) mod 32 = 31" "(w + 32 - r) mod 32 = 0 \<longleftrightarrow> w = r"
proof -
  have m: "x < 64 \<Longrightarrow> x mod 32 = (if x < 32 then x else x - 32)" for x :: nat by (simp add: mod_if)
  have d: "(w + 32 - r) mod 32 = (if r \<le> w then w - r else w + 32 - r)" and n: "(w + 1) mod 32 = (if w = 31 then 0 else w + 1)" "(r + 1) mod 32 = (if r = 31 then 0 else r + 1)"
    using assms by (auto simp: m)
  show "(w + 1) mod 32 \<noteq> r \<Longrightarrow> ((w + 1) mod 32 + 32 - r) mod 32 = Suc ((w + 32 - r) mod 32)"
    "w \<noteq> r \<Longrightarrow> (w + 32 - (r + 1) mod 32) mod 32 = (w + 32 - r) mod 32 - 1"
    using assms unfolding d n by (auto simp: m)
  show "(r + (w + 32 - r) mod 32) mod 32 = w" "i < (w + 32 - r) mod 32 \<Longrightarrow> (r + i) mod 32 \<noteq> w" using assms unfolding d by (auto simp: m split: if_splits)
  show "(w + 1) mod 32 = r \<longleftrightarrow> (w + 32 - r) mod 32 = 31" "(w + 32 - r) mod 32 = 0 \<longleftrightarrow> w = r" using assms unfolding d n by auto
qed

lemma uart_len:
  assumes "uart_ok s"
  shows "\<not> uart_full s \<Longrightarrow> uart_len (uart_put c s) = Suc (uart_len s)" "(uart_tx_r s + uart_len s) mod UART_TX_BUF_SIZE = uart_tx_w s"
    "i < uart_len s \<Longrightarrow> (uart_tx_r s + i) mod UART_TX_BUF_SIZE \<noteq> uart_tx_w s" "0 < uart_len s \<Longrightarrow> uart_len (snd (uart_get s)) = uart_len s - 1"
    "uart_full s \<longleftrightarrow> uart_len s = 31" "uart_len s = 0 \<longleftrightarrow> uart_tx_w s = uart_tx_r s"
proof -
  have lt: "uart_tx_w s < 32" "uart_tx_r s < 32" using assms by (simp_all add: uart_ok_def)
  show "\<not> uart_full s \<Longrightarrow> uart_len (uart_put c s) = Suc (uart_len s)" using ring32(1) [OF lt] by (simp add: uart_full_def uart_len_def uart_put_def)
  show "(uart_tx_r s + uart_len s) mod UART_TX_BUF_SIZE = uart_tx_w s" using ring32(2) [OF lt] by (simp only: uart_len_def)
  show "i < uart_len s \<Longrightarrow> (uart_tx_r s + i) mod UART_TX_BUF_SIZE \<noteq> uart_tx_w s" unfolding uart_len_def by (rule ring32(3) [OF lt])
  show z: "uart_len s = 0 \<longleftrightarrow> uart_tx_w s = uart_tx_r s" using ring32(6) [OF lt] by (simp only: uart_len_def)
  show "uart_len (snd (uart_get s)) = uart_len s - 1" if "0 < uart_len s"
  proof -
    have "uart_tx_w s \<noteq> uart_tx_r s" using that z by simp
    then show ?thesis using ring32(4) [OF lt] by (simp add: uart_len_def uart_get_def)
  qed
  show "uart_full s \<longleftrightarrow> uart_len s = 31" using ring32(5) [OF lt] by (simp only: uart_full_def uart_len_def)
qed

interpretation uart: ring uart_ok uart_full uart_put uart_get uart_queue 31
proof
  fix s :: "'a consst_scheme" and x :: u8
  assume ok: "uart_ok s"
  have l: "uart_len s < 32" by (simp add: uart_len_def)
  show "length (uart_queue s) \<le> 31" using l by (simp add: uart_queue_def)
  show "uart_full s \<longleftrightarrow> length (uart_queue s) = 31"
    using uart_len(5) [OF ok] by (simp add: uart_queue_def)
  show "uart_ok (uart_put x s)" if "\<not> uart_full s" using ok by (simp add: uart_ok_def uart_put_def)
  show "uart_queue (uart_put x s) = uart_queue s @ [x]" if "\<not> uart_full s"
    using uart_len(1) [OF ok that] uart_len(2,3) [OF ok] by (auto simp: uart_queue_def uart_put_def)
  show "uart_ok (snd (uart_get s))" using ok by (simp add: uart_ok_def uart_get_def)
  show "uart_queue s = fst (uart_get s) # uart_queue (snd (uart_get s))" if "uart_queue s \<noteq> []"
  proof -
    have p: "0 < uart_len s" using that by (simp add: uart_queue_def)
    have "[0..<uart_len s] = 0 # map Suc [0..<uart_len s - 1]" using p by (simp add: upt_conv_Cons map_Suc_upt)
    moreover have "uart_tx_r s < 32" using ok by (simp add: uart_ok_def)
    ultimately show ?thesis using uart_len(4) [OF ok p]
      by (simp add: uart_queue_def uart_get_def comp_def) (simp add: mod_add_right_eq add.commute)
  qed
qed

lemma uart_queue_empty: "uart_ok s \<Longrightarrow> uart_queue s = [] \<longleftrightarrow> uart_tx_w s = uart_tx_r s"
  using uart_len(6) by (auto simp: uart_queue_def)

lemma uart_queue_cong:
  "uart_tx_buf t = uart_tx_buf s \<Longrightarrow> uart_tx_w t = uart_tx_w s \<Longrightarrow> uart_tx_r t = uart_tx_r s \<Longrightarrow> uart_queue t = uart_queue s"
  by (simp add: uart_queue_def uart_len_def)

section \<open>Output\<close>

text \<open>The bytes already sent and those waiting, in order.\<close>

definition uart_stream :: "'a consst_scheme \<Rightarrow> u8 list" where
  "uart_stream s = uart_tx s @ uart_queue s"

lemma no_proc_lock_upd [simp]: "no_proc_lock (s\<lparr>procs := p\<rparr>) = no_proc_lock s"
  by (simp add: no_proc_lock_def)

lemma uartstart_loop_ok:
  assumes "uart_ok s" "length (uart_queue s) < k" "no_proc_lock s"
  shows "\<exists>t. uartstart_loop k s = Inr t \<and> uart_ok t \<and> uart_stream t = uart_stream s \<and> held t = held s \<and> (uart_queue t \<noteq> [] \<longrightarrow> (\<exists>i. \<not> uart_idle s i))"
  using assms
proof (induction k arbitrary: s)
  case (Suc k)
  show ?case
  proof (cases "uart_queue s = []")
    case True
    then show ?thesis using Suc.prems uart_queue_empty [OF Suc.prems(1)] by simp
  next
    case False
    then have ne: "uart_tx_w s \<noteq> uart_tx_r s" using uart_queue_empty [OF Suc.prems(1)] by simp
    show ?thesis
    proof (cases "uart_idle s 0")
      case False
      let ?t = "s\<lparr>uart_idle := (\<lambda>i. uart_idle s (Suc i))\<rparr>"
      have "uart_queue ?t = uart_queue s" by (rule uart_queue_cong) simp_all
      then show ?thesis using ne False Suc.prems(1) by (auto simp: read_idle_def uart_ok_def uart_stream_def)
    next
      case True
      let ?g = "snd (uart_get s)" and ?c = "fst (uart_get s)"
      let ?t = "write_thr ?c (s\<lparr>uart_idle := (\<lambda>i. uart_idle s (Suc i)), uart_tx_r := (uart_tx_r s + 1) mod UART_TX_BUF_SIZE, procs := wake_all ChUartTx (procs s)\<rparr>)"
      have q: "uart_queue ?t = uart_queue ?g" by (rule uart_queue_cong) (simp_all add: write_thr_def uart_get_def)
      have gq: "uart_queue s = ?c # uart_queue ?g" by (rule uart.get_queue [OF Suc.prems(1) False])
      have ok: "uart_ok ?t" using uart.get_ok [OF Suc.prems(1) False] by (simp add: uart_ok_def write_thr_def uart_get_def)
      have st: "uart_stream ?t = uart_stream s" using gq q by (simp add: uart_stream_def write_thr_def uart_get_def)
      have "length (uart_queue ?t) < k" using q gq Suc.prems(2) by simp
      moreover have h: "held ?t = held s" by (simp add: write_thr_def uart_get_def)
      moreover have "no_proc_lock ?t" using Suc.prems(3) h by (simp add: no_proc_lock_def)
      ultimately obtain u where u: "uartstart_loop k ?t = Inr u" "uart_ok u" "uart_stream u = uart_stream ?t" "held u = held ?t"
        "uart_queue u \<noteq> [] \<longrightarrow> (\<exists>i. \<not> uart_idle ?t i)" using Suc.IH [OF ok] by blast
      have "uartstart_loop (Suc k) s = uartstart_loop k ?t"
        using ne True Suc.prems(3) by (simp add: read_idle_def uart_get_def Let_def wakeup_eq no_proc_lock_def)
      then show ?thesis using u st h by (intro exI [of _ u]) (auto simp: write_thr_def)
    qed
  qed
qed simp

lemma uartputc_ok:
  assumes ok: "uart_ok s" "\<not> uart_full s" and l: "LkUart \<notin> held s" "no_proc_lock s" and p: "\<not> panicked s"
  shows "\<exists>t. uartputc c s = Inr t \<and> uart_ok t \<and> uart_stream t = uart_stream s @ [c] \<and> held t = held s"
proof -
  let ?s = "uart_put c s\<lparr>held := insert LkUart (held s)\<rparr>"
  have q: "uart_queue ?s = uart_queue s @ [c]" using uart.put_queue [OF ok] uart_queue_cong [of ?s "uart_put c s"] by simp
  have ok': "uart_ok ?s" using uart.put_ok [OF ok] by (simp add: uart_ok_def)
  have "length (uart_queue ?s) < 32" using uart.queue_len [OF ok'] by simp
  then obtain t where t: "uartstart_loop 32 ?s = Inr t" "uart_ok t" "uart_stream t = uart_stream ?s" "held t = held ?s"
    using uartstart_loop_ok [OF ok', of 32] l(2) by (auto simp: no_proc_lock_def)
  have e: "?s = uart_put c (s\<lparr>held := insert LkUart (held s)\<rparr>)" by (simp add: uart_put_def)
  have "uartputc c s = Inr (t\<lparr>held := held s\<rparr>)"
    unfolding uartputc_def using l(1) p ok(2) t(1) [unfolded e] t(4) by (simp add: uart_full_def Let_def uartstart_def uart_put_def insert_Diff_if)
  moreover have "uart_stream (t\<lparr>held := held s\<rparr>) = uart_stream s @ [c]"
    using t(3) q uart_queue_cong [of "t\<lparr>held := held s\<rparr>" t] by (simp add: uart_stream_def uart_put_def)
  ultimately show ?thesis using t(2) by (simp add: uart_ok_def)
qed

text \<open>
  A full buffer: \<open>uartputc\<close> goes to sleep. The console holds its lock at that point, and \<open>sched\<close> does not allow a second lock.
\<close>

lemma uartputc_full_panics:
  assumes "uart_full s" "held s = {LkCons}" "\<not> panicked s"
  shows "uartputc c s = Inl (Panic ''sched locks'')"
  using assms by (simp add: uartputc_def uart_full_def sleep_def sleep_begin_def sched_def)

lemma uartstart_busy:
  assumes "uart_tx_w s \<noteq> uart_tx_r s" "\<not> uart_idle s 0"
  shows "uartstart s = Inr (s\<lparr>uart_idle := (\<lambda>i. uart_idle s (Suc i))\<rparr>)"
proof -
  have "UART_TX_BUF_SIZE = Suc 31" by simp
  then show ?thesis unfolding uartstart_def using assms by (simp only: uartstart_loop.simps) (simp add: read_idle_def)
qed

lemma uartputc_busy:
  assumes "uart_ok s" "\<not> uart_full s" "LkUart \<notin> held s" "\<not> panicked s" "\<not> uart_idle s 0"
  shows "uartputc c s = Inr (uart_put c s\<lparr>uart_idle := (\<lambda>i. uart_idle s (Suc i))\<rparr>)"
proof -
  have "uart_queue (uart_put c s) \<noteq> []" using uart.put_queue [OF assms(1,2)] by simp
  then have "uart_tx_w (uart_put c s) \<noteq> uart_tx_r (uart_put c s)" using uart_queue_empty [OF uart.put_ok [OF assms(1,2)]] by blast
  then show ?thesis using assms by (simp add: uartputc_def uart_full_def uart_put_def Let_def uartstart_busy)
qed

lemma consolewrite_overrun:
  assumes "uart_ok s" "held s = {LkCons}" "\<not> panicked s" "\<forall>i. \<not> uart_idle s i" "31 < length (uart_queue s) + k"
  shows "consolewrite_loop k i (FromMem a) s = Inl (Panic ''sched locks'')"
  using assms
proof (induction k arbitrary: i a s)
  case 0 then show ?case using uart.queue_len [OF 0(1)] by simp
next
  case (Suc k)
  let ?c = "hd (get_bytes a 1 (mem s))"
  show ?case
  proof (cases "uart_full s")
    case True then show ?thesis using uartputc_full_panics [OF True Suc.prems(2,3)] by simp
  next
    case False
    let ?t = "uart_put ?c s\<lparr>uart_idle := (\<lambda>i. uart_idle s (Suc i))\<rparr>"
    have r: "uartputc ?c s = Inr ?t" by (rule uartputc_busy) (use Suc.prems False in simp_all)
    have q: "uart_queue ?t = uart_queue s @ [?c]" using uart.put_queue [OF Suc.prems(1) False] uart_queue_cong [of ?t "uart_put ?c s"] by simp
    have "consolewrite_loop k (i + 1) (FromMem (a + 1)) ?t = Inl (Panic ''sched locks'')"
    proof (rule Suc.IH)
      show "uart_ok ?t" using uart.put_ok [OF Suc.prems(1) False] by (simp add: uart_ok_def)
    qed (use Suc.prems q in \<open>simp_all add: uart_put_def\<close>)
    then show ?thesis using r by simp
  qed
qed

section \<open>The line editor\<close>

definition cons_ok :: "'a consst_scheme \<Rightarrow> bool" where
  "cons_ok s \<longleftrightarrow> unat (cons_w s - cons_r s) \<le> unat (cons_e s - cons_r s) \<and> unat (cons_e s - cons_r s) \<le> INPUT_BUF"

definition cons_ready :: "'a consst_scheme \<Rightarrow> u8 list" where
  "cons_ready s = fr_queue 128 (cons_r s) (unat (cons_w s - cons_r s)) (cons_buf s)"

definition cons_line :: "'a consst_scheme \<Rightarrow> u8 list" where
  "cons_line s = fr_queue 128 (cons_w s) (unat (cons_e s - cons_w s)) (cons_buf s)"

text \<open>What a key does to the bytes ready for reading and to the line being edited, and what is echoed.\<close>

definition edit :: "u8 \<Rightarrow> u8 list \<Rightarrow> u8 list \<Rightarrow> u8 list \<times> u8 list" where
  "edit c ready line =
     (if c = 21 then (ready, rev (dropWhile (\<lambda>x. x \<noteq> NL) (rev line)))
      else if c = 8 \<or> c = 127 then (ready, butlast line)
      else if c \<noteq> 0 \<and> length ready + length line < INPUT_BUF
      then let c = (if c = 13 then NL else c); line = line @ [c]
           in if c = NL \<or> c = CTRL_D \<or> length ready + length line = INPUT_BUF then (ready @ line, []) else (ready, line)
      else (ready, line))"

definition rubout :: "nat \<Rightarrow> u8 list" where
  "rubout n = concat (replicate n [8, 32, 8])"

definition echo :: "u8 \<Rightarrow> u8 list \<Rightarrow> u8 list \<Rightarrow> u8 list" where
  "echo c ready line =
     (if c = 21 then rubout (length (takeWhile (\<lambda>x. x \<noteq> NL) (rev line)))
      else if c = 8 \<or> c = 127 then (if line = [] then [] else rubout 1)
      else if c \<noteq> 0 \<and> length ready + length line < INPUT_BUF then [if c = 13 then NL else c]
      else [])"

lemma consputc_idle: "idle s \<Longrightarrow> consputc (Ch c) s = Inr (sent [c] s)" "idle s \<Longrightarrow> consputc BACKSPACE s = Inr (sent [8, 32, 8] s)"
  by (simp_all add: uartputc_sync_idle)

lemma sent_sel [simp]:
  "cons_buf (sent xs s) = cons_buf s" "cons_r (sent xs s) = cons_r s" "cons_w (sent xs s) = cons_w s" "cons_e (sent xs s) = cons_e s"
  "uart_tx (sent xs s) = uart_tx s @ xs" "procs (sent xs s) = procs s" "sent xs s\<lparr>cons_e := e\<rparr> = sent xs (s\<lparr>cons_e := e\<rparr>)"
  by (simp_all add: sent_def)

lemma idle_cons [simp]: "idle (s\<lparr>cons_e := e\<rparr>) = idle s" "idle (s\<lparr>cons_w := e\<rparr>) = idle s"
  by (simp_all add: idle_def)

lemma fr_last: "fr_queue c a (Suc n) d = fr_queue c a n d @ [d (unat ((a + of_nat n) mod c))]"
  by (simp add: fr_queue_def)

lemma fr_append: "fr_queue c a (m + n) d = fr_queue c a m d @ fr_queue c (a + of_nat m) n d"
  by (induction n) (simp_all add: fr_last ac_simps fr_queue_def [of c a 0] fr_queue_def [of c _ 0])

lemma cons_kill_ok:
  assumes "idle s" "unat (cons_e s - cons_w s) = k"
  shows "\<exists>j \<le> k. cons_kill k s = Inr (sent (rubout j) (s\<lparr>cons_e := cons_e s - of_nat j\<rparr>)) \<and> j = length (takeWhile (\<lambda>x. x \<noteq> NL) (rev (cons_line s)))"
  using assms
proof (induction k arbitrary: s)
  case 0 then show ?case by (simp add: rubout_def cons_line_def fr_queue_def)
next
  case (Suc k)
  have k: "of_nat k = cons_e s - cons_w s - 1"
  proof -
    have "of_nat (Suc k) = cons_e s - cons_w s" by (simp only: Suc.prems(2) [symmetric]) simp
    then show ?thesis by (simp add: algebra_simps)
  qed
  have l: "cons_line s = fr_queue 128 (cons_w s) k (cons_buf s) @ [cons_at (cons_e s - 1) s]"
    unfolding cons_line_def Suc.prems(2) fr_last k by (simp add: cons_at_def)
  show ?case
  proof (cases "cons_at (cons_e s - 1) s = NL")
    case True then show ?thesis using l by (intro exI [of _ 0]) (simp add: rubout_def)
  next
    case False
    let ?t = "sent [8, 32, 8] (s\<lparr>cons_e := cons_e s - 1\<rparr>)"
    have u: "unat (cons_e ?t - cons_w ?t) = k"
    proof -
      have "cons_e ?t - cons_w ?t = of_nat k" unfolding k by simp
      moreover have "unat (cons_e s - cons_w s) < 2 ^ 32" by (rule order_less_le_trans [OF unsigned_less]) simp
      ultimately show ?thesis using Suc.prems(2) by (simp add: unat_of_nat)
    qed
    have i: "idle ?t" using Suc.prems(1) by simp
    obtain j where j: "j \<le> k" "cons_kill k ?t = Inr (sent (rubout j) (?t\<lparr>cons_e := cons_e ?t - of_nat j\<rparr>))"
      "j = length (takeWhile (\<lambda>x. x \<noteq> NL) (rev (cons_line ?t)))" using Suc.IH [OF i u] by blast
    have lt: "cons_line ?t = fr_queue 128 (cons_w s) k (cons_buf s)" unfolding cons_line_def u by simp
    have i': "idle (s\<lparr>cons_e := cons_e s - 1\<rparr>)" using Suc.prems(1) by simp
    have "cons_kill (Suc k) s = Inr (sent (rubout (Suc j)) (s\<lparr>cons_e := cons_e s - of_nat (Suc j)\<rparr>))"
      using False j(2) consputc_idle(2) [OF i'] by (simp add: rubout_def algebra_simps)
    then show ?thesis using j(1,3) l lt False by (intro exI [of _ "Suc j"]) simp
  qed
qed

lemma cons_counts:
  assumes "cons_ok s"
  shows "unat (cons_e s - cons_w s) = unat (cons_e s - cons_r s) - unat (cons_w s - cons_r s)"
    "length (cons_ready s) + length (cons_line s) = unat (cons_e s - cons_r s)"
    "cons_w s + of_nat (unat (cons_e s - cons_w s)) = cons_e s" "cons_r s + of_nat (unat (cons_e s - cons_r s)) = cons_e s"
    "cons_ready s @ cons_line s = fr_queue 128 (cons_r s) (unat (cons_e s - cons_r s)) (cons_buf s)"
proof -
  have le: "cons_w s - cons_r s \<le> cons_e s - cons_r s" using assms by (simp add: cons_ok_def word_le_nat_alt)
  have "cons_e s - cons_w s = (cons_e s - cons_r s) - (cons_w s - cons_r s)" by simp
  then show e: "unat (cons_e s - cons_w s) = unat (cons_e s - cons_r s) - unat (cons_w s - cons_r s)" by (simp only: unat_sub [OF le])
  then show "length (cons_ready s) + length (cons_line s) = unat (cons_e s - cons_r s)" using assms by (simp add: cons_ready_def cons_line_def cons_ok_def)
  show "cons_w s + of_nat (unat (cons_e s - cons_w s)) = cons_e s" "cons_r s + of_nat (unat (cons_e s - cons_r s)) = cons_e s" by simp_all
  have "unat (cons_e s - cons_r s) = unat (cons_w s - cons_r s) + unat (cons_e s - cons_w s)" using e assms by (simp add: cons_ok_def)
  then show "cons_ready s @ cons_line s = fr_queue 128 (cons_r s) (unat (cons_e s - cons_r s)) (cons_buf s)"
    by (simp add: fr_append cons_ready_def cons_line_def)
qed

lemma u128: "unat (128 :: u32) dvd 2 ^ 32" "unat (128 :: u32) = 128"
  by simp_all

text \<open>Storing a byte at the end of the line.\<close>

lemma cons_store_ok:
  assumes ok: "cons_ok s" and lt: "cons_e s - cons_r s < 128"
  shows "cons_ok (cons_store c s)" "cons_ready (cons_store c s) = cons_ready s" "cons_line (cons_store c s) = cons_line s @ [c]"
    "unat (cons_e (cons_store c s) - cons_r s) = Suc (unat (cons_e s - cons_r s))" "cons_r (cons_store c s) = cons_r s" "cons_w (cons_store c s) = cons_w s"
proof -
  note n = cons_counts [OF ok]
  have E: "unat (cons_e s - cons_r s) < 128" using lt by (simp add: word_less_nat_alt)
  have e1: "cons_e s + 1 - x = (cons_e s - x) + 1" for x by simp
  show E': "unat (cons_e (cons_store c s) - cons_r s) = Suc (unat (cons_e s - cons_r s))"
    using E by (simp add: cons_store_def e1 unat_word_ariths)
  have L: "unat (cons_e s - cons_w s) < 128" using n(1) E by simp
  have L': "unat (cons_e s + 1 - cons_w s) = Suc (unat (cons_e s - cons_w s))" using L by (simp add: e1 unat_word_ariths)
  show r: "cons_r (cons_store c s) = cons_r s" "cons_w (cons_store c s) = cons_w s" by (simp_all add: cons_store_def)
  show "cons_ok (cons_store c s)" using ok E unfolding cons_ok_def r E' by simp
  let ?d = "(cons_buf s)(unat (cons_e s mod 128) := c)"
  show "cons_line (cons_store c s) = cons_line s @ [c]"
    unfolding cons_line_def cons_store_def using L' fr_put [OF u128(1), of "unat (cons_e s - cons_w s)" "cons_w s" "cons_buf s" c] L n(3) by simp
  have "fr_queue 128 (cons_r s) (Suc (unat (cons_e s - cons_r s))) ?d = fr_queue 128 (cons_r s) (unat (cons_e s - cons_r s)) (cons_buf s) @ [c]"
    using fr_put [OF u128(1), of "unat (cons_e s - cons_r s)" "cons_r s" "cons_buf s" c] E n(4) by simp
  then have "take (unat (cons_w s - cons_r s)) (fr_queue 128 (cons_r s) (Suc (unat (cons_e s - cons_r s))) ?d) =
      take (unat (cons_w s - cons_r s)) (fr_queue 128 (cons_r s) (unat (cons_e s - cons_r s)) (cons_buf s) @ [c])" by simp
  moreover have "unat (cons_w s - cons_r s) \<le> unat (cons_e s - cons_r s)" using ok by (simp add: cons_ok_def)
  ultimately show "cons_ready (cons_store c s) = cons_ready s" by (simp add: cons_ready_def cons_store_def fr_take)
qed

lemma cons_commit_ok:
  assumes ok: "cons_ok s"
  shows "cons_ok (s\<lparr>cons_w := cons_e s\<rparr>)" "cons_ready (s\<lparr>cons_w := cons_e s\<rparr>) = cons_ready s @ cons_line s" "cons_line (s\<lparr>cons_w := cons_e s\<rparr>) = []"
  using ok cons_counts(5) [OF ok] by (simp_all add: cons_ok_def cons_ready_def cons_line_def fr_queue_def [of _ _ 0])

text \<open>Erasing from the end of the line.\<close>

lemma cons_erase_ok:
  assumes ok: "cons_ok s" and j: "j \<le> length (cons_line s)"
  shows "cons_ok (s\<lparr>cons_e := cons_e s - of_nat j\<rparr>)" "cons_ready (s\<lparr>cons_e := cons_e s - of_nat j\<rparr>) = cons_ready s"
    "cons_line (s\<lparr>cons_e := cons_e s - of_nat j\<rparr>) = take (length (cons_line s) - j) (cons_line s)"
proof -
  note n = cons_counts [OF ok]
  have J: "j \<le> unat (cons_e s - cons_w s)" using j by (simp add: cons_line_def)
  have lt: "unat (cons_e s - x) < 2 ^ 32" for x by (rule order_less_le_trans [OF unsigned_less]) simp
  have s: "unat (cons_e s - of_nat j - x) = unat (cons_e s - x) - j" if "j \<le> unat (cons_e s - x)" for x
  proof -
    have "unat (of_nat j :: u32) = j" using that lt [of x] by (simp add: unat_of_nat)
    then have "of_nat j \<le> cons_e s - x" using that by (simp add: word_le_nat_alt)
    moreover have "cons_e s - of_nat j - x = (cons_e s - x) - of_nat j" by simp
    ultimately show ?thesis using \<open>unat (of_nat j :: u32) = j\<close> by (simp only: unat_sub)
  qed
  have J2: "j \<le> unat (cons_e s - cons_r s)" using J n(1) by simp
  show "cons_ok (s\<lparr>cons_e := cons_e s - of_nat j\<rparr>)" using ok s [OF J2] J n(1) by (simp add: cons_ok_def) linarith
  show "cons_ready (s\<lparr>cons_e := cons_e s - of_nat j\<rparr>) = cons_ready s" by (simp add: cons_ready_def)
  show "cons_line (s\<lparr>cons_e := cons_e s - of_nat j\<rparr>) = take (length (cons_line s) - j) (cons_line s)" by (simp add: cons_line_def s [OF J] fr_take)
qed

lemma cons_cong:
  "cons_buf t = cons_buf s \<Longrightarrow> cons_r t = cons_r s \<Longrightarrow> cons_w t = cons_w s \<Longrightarrow> cons_e t = cons_e s \<Longrightarrow>
   cons_ok t = cons_ok s \<and> cons_ready t = cons_ready s \<and> cons_line t = cons_line s"
  by (simp add: cons_ok_def cons_ready_def cons_line_def)

lemma cons_frame [simp]:
  "cons_ok (sent xs s) = cons_ok s" "cons_ready (sent xs s) = cons_ready s" "cons_line (sent xs s) = cons_line s"
  "cons_ok (s\<lparr>held := h\<rparr>) = cons_ok s" "cons_ready (s\<lparr>held := h\<rparr>) = cons_ready s" "cons_line (s\<lparr>held := h\<rparr>) = cons_line s"
  "cons_ok (s\<lparr>procs := p\<rparr>) = cons_ok s" "cons_ready (s\<lparr>procs := p\<rparr>) = cons_ready s" "cons_line (s\<lparr>procs := p\<rparr>) = cons_line s"
  by (simp_all add: cons_ok_def cons_ready_def cons_line_def)

text \<open>One key, with the lock held.\<close>

definition edited :: "u8 \<Rightarrow> 'a consst_scheme \<Rightarrow> 'a consst_scheme \<Rightarrow> bool" where
  "edited c s t \<longleftrightarrow> cons_ok t \<and> (cons_ready t, cons_line t) = edit c (cons_ready s) (cons_line s) \<and>
     uart_tx t = uart_tx s @ echo c (cons_ready s) (cons_line s) \<and> held t = held s"

lemma kill_edits:
  assumes ok: "cons_ok s" and i: "idle s"
  shows "\<exists>t. cons_kill (unat (cons_e s - cons_w s)) s = Inr t \<and> edited 21 s t"
proof -
  let ?l = "cons_line s"
  obtain j where r: "cons_kill (unat (cons_e s - cons_w s)) s = Inr (sent (rubout j) (s\<lparr>cons_e := cons_e s - of_nat j\<rparr>))"
    and j: "j = length (takeWhile (\<lambda>x. x \<noteq> NL) (rev ?l))" using cons_kill_ok [OF i refl] by blast
  have jl: "j \<le> length ?l" unfolding j by (rule order_trans [OF length_takeWhile_le]) simp
  have "take (length ?l - j) ?l = rev (dropWhile (\<lambda>x. x \<noteq> NL) (rev ?l))"
    unfolding j by (simp add: dropWhile_eq_drop rev_drop)
  then show ?thesis using r cons_erase_ok [OF ok jl] by (simp add: edited_def edit_def echo_def j)
qed

lemma backspace_edits:
  assumes ok: "cons_ok s" and i: "idle s" and c: "c = 8 \<or> c = 127"
  shows "\<exists>t. (if cons_e s \<noteq> cons_w s then consputc BACKSPACE (s\<lparr>cons_e := cons_e s - 1\<rparr>) else Inr s) = Inr t \<and> edited c s t"
proof (cases "cons_e s = cons_w s")
  case True
  then have "cons_line s = []" by (simp add: cons_line_def fr_queue_def)
  then show ?thesis using True ok c by (auto simp: edited_def edit_def echo_def)
next
  case False
  then have "0 < unat (cons_e s - cons_w s)" by (simp add: unat_gt_0)
  then have l: "1 \<le> length (cons_line s)" by (simp add: cons_line_def)
  have i': "idle (s\<lparr>cons_e := cons_e s - 1\<rparr>)" using i by simp
  have "cons_line s \<noteq> []" using l by auto
  then have "edited c s (sent [8, 32, 8] (s\<lparr>cons_e := cons_e s - 1\<rparr>))"
    using cons_erase_ok [OF ok l] c by (auto simp: edited_def edit_def echo_def rubout_def butlast_conv_take)
  then show ?thesis using False consputc_idle(2) [OF i'] by simp
qed

lemma key_edits:
  assumes ok: "cons_ok s" and i: "idle s" and l: "no_proc_lock s" and c: "c \<noteq> 21" "c \<noteq> 8" "c \<noteq> 127" "c \<noteq> 0" and lt: "cons_e s - cons_r s < 128"
  shows "\<exists>t. (let c = (if c = 13 then NL else c)
      in bnd (consputc (Ch c) s) (\<lambda>s. let s = cons_store c s
         in if c = NL \<or> c = CTRL_D \<or> cons_e s = cons_r s + 128 then wakeup ChConsR (s\<lparr>cons_w := cons_e s\<rparr>) else Inr s)) = Inr t \<and> edited c s t"
proof -
  define d where "d = (if c = 13 then NL else c)"
  let ?s = "sent [d] s" let ?t = "cons_store d ?s"
  have ok': "cons_ok ?s" and lt': "cons_e ?s - cons_r ?s < 128" using ok lt by simp_all
  note st = cons_store_ok [OF ok' lt', of d, simplified]
  have len: "length (cons_ready s) + length (cons_line s) = unat (cons_e s - cons_r s)" by (rule cons_counts(2) [OF ok])
  have E: "unat (cons_e s - cons_r s) < 128" using lt by (simp add: word_less_nat_alt)
  have full: "cons_e ?t = cons_r ?t + 128 \<longleftrightarrow> Suc (unat (cons_e s - cons_r s)) = 128"
  proof -
    have "cons_e ?t = cons_r ?t + 128 \<longleftrightarrow> cons_e ?t - cons_r s = 128" using st(5) by (auto simp: algebra_simps)
    also have "\<dots> \<longleftrightarrow> unat (cons_e ?t - cons_r s) = 128" by (simp add: word_unat_eq_iff)
    finally show ?thesis using st(4) by simp
  qed
  have ed: "edit c (cons_ready s) (cons_line s) = (if d = NL \<or> d = CTRL_D \<or> Suc (unat (cons_e s - cons_r s)) = 128
      then (cons_ready s @ cons_line s @ [d], []) else (cons_ready s, cons_line s @ [d]))"
    using c len E by (simp add: edit_def Let_def d_def [symmetric])
  have ec: "echo c (cons_ready s) (cons_line s) = [d]" using c len E by (simp add: echo_def d_def)
  have tx: "uart_tx ?t = uart_tx s @ [d]" "held ?t = held s" "procs ?t = procs s" by (simp_all add: cons_store_def)
  have put: "consputc (Ch d) s = Inr ?s" using consputc_idle(1) [OF i] .
  show ?thesis
  proof (cases "d = NL \<or> d = CTRL_D \<or> cons_e ?t = cons_r ?t + 128")
    case True
    let ?u = "?t\<lparr>cons_w := cons_e ?t\<rparr>"
    have "no_proc_lock ?u" using l tx(2) by (simp add: no_proc_lock_def)
    then have w: "wakeup ChConsR ?u = Inr (?u\<lparr>procs := wake_all ChConsR (procs ?u)\<rparr>)" by (rule wakeup_eq)
    have "edited c s (?u\<lparr>procs := wake_all ChConsR (procs ?u)\<rparr>)"
      using True cons_commit_ok [OF st(1)] st(2,3) tx unfolding edited_def ed ec full by simp
    then show ?thesis using True put w by (simp add: d_def [symmetric] Let_def)
  next
    case False
    then have "edited c s ?t" using st tx unfolding edited_def ed ec full by simp
    then show ?thesis using False put by (simp add: d_def [symmetric] Let_def)
  qed
qed

lemma consoleintr_ok:
  assumes ok: "cons_ok s" and i: "idle s" and h: "held s = {}" and c: "c \<noteq> 16"
  shows "\<exists>t. consoleintr c s = Inr t \<and> edited c s t"
proof -
  let ?s = "s\<lparr>held := {LkCons}\<rparr>"
  have ok': "cons_ok ?s" and i': "idle ?s" and l: "no_proc_lock ?s" using ok i by (simp_all add: no_proc_lock_def)
  obtain t where t: "(if c = 16 then procdump ?s
          else if c = 21 then cons_kill (unat (cons_e ?s - cons_w ?s)) ?s
          else if c = 8 \<or> c = 127
          then if cons_e ?s \<noteq> cons_w ?s then consputc BACKSPACE (?s\<lparr>cons_e := cons_e ?s - 1\<rparr>) else Inr ?s
          else if c \<noteq> 0 \<and> cons_e ?s - cons_r ?s < 128
          then let c = (if c = 13 then NL else c)
               in bnd (consputc (Ch c) ?s) (\<lambda>s.
                  let s = cons_store c s
                  in if c = NL \<or> c = CTRL_D \<or> cons_e s = cons_r s + 128
                     then wakeup ChConsR (s\<lparr>cons_w := cons_e s\<rparr>)
                     else Inr s)
          else Inr ?s) = Inr t" "edited c ?s t"
  proof -
    consider (k) "c = 21" | (b) "c = 8 \<or> c = 127" "c \<noteq> 21" | (n) "c \<noteq> 21" "c \<noteq> 8" "c \<noteq> 127" "c \<noteq> 0 \<and> cons_e ?s - cons_r ?s < 128"
      | (z) "c \<noteq> 21" "c \<noteq> 8" "c \<noteq> 127" "\<not> (c \<noteq> 0 \<and> cons_e ?s - cons_r ?s < 128)" by blast
    then show thesis
    proof cases
      case k then show thesis using that kill_edits [OF ok' i'] c by auto
    next
      case b then show thesis using that backspace_edits [OF ok' i' b(1)] c by auto
    next
      case n then show thesis using that key_edits [OF ok' i' l n(1-3)] c by auto
    next
      case z
      have "\<not> (c \<noteq> 0 \<and> length (cons_ready s) + length (cons_line s) < 128)" using z(4) cons_counts(2) [OF ok] by (auto simp: word_less_nat_alt)
      then have "edited c ?s ?s" using ok' z(1-3) by (auto simp: edited_def edit_def echo_def)
      then show thesis using that z c by auto
    qed
  qed
  have ht: "held t = {LkCons}" using t(2) by (simp add: edited_def)
  have "consoleintr c s = Inr (t\<lparr>held := {}\<rparr>)" unfolding consoleintr_def using h ht by (simp add: t(1))
  moreover have "edited c s (t\<lparr>held := {}\<rparr>)" using t(2) h by (simp add: edited_def)
  ultimately show ?thesis by blast
qed

section \<open>Properties\<close>

text \<open>C33. Every key but Control-P changes the input buffer as the line editor \<open>edit\<close> says: ordinary bytes extend the line and are echoed, carriage return counts as
  newline, backspace and delete take back one byte of the line, Control-U all of it, and a newline, Control-D or a full buffer makes the line
  available for reading. The buffer never holds more than 128 bytes, and what is ready for reading cannot be taken back.\<close>

theorem consoleintr_edits:
  assumes "cons_ok s" "idle s" "held s = {}" "c \<noteq> 16"
  shows "\<exists>t. consoleintr c s = Inr t \<and> cons_ok t \<and> held t = {} \<and>
    (cons_ready t, cons_line t) = edit c (cons_ready s) (cons_line s) \<and> uart_tx t = uart_tx s @ echo c (cons_ready s) (cons_line s)"
  using consoleintr_ok [OF assms] assms(3) by (auto simp: edited_def)

theorem consoleintr_edits_witness:
  "\<exists>t. consoleintr 13 (cs_ex\<lparr>cons_e := 1, cons_buf := (\<lambda>_. 97)\<rparr>) = Inr t \<and> cons_ready t = [97, 10] \<and> cons_line t = [] \<and> uart_tx t = [10]"
proof -
  let ?s = "cs_ex\<lparr>cons_e := 1, cons_buf := (\<lambda>_. 97)\<rparr>"
  have s: "cons_ok ?s" "idle ?s" "held ?s = {}" "cons_ready ?s = []" "cons_line ?s = [97]" "uart_tx ?s = []"
    by (simp_all add: cons_ok_def idle_def cons_ready_def cons_line_def fr_queue_def ex_base ex_defs)
  have "edit 13 [] [97] = ([97, 10], [])" "echo 13 [] [97] = [10]" by (simp_all add: edit_def echo_def)
  then show ?thesis using consoleintr_edits [OF s(1-3), of 13] unfolding s by auto
qed



end
