(* ===== verification/Faults.thy ===== *)
theory Faults
  imports Examples
begin

text \<open>
  What \<open>usertrap\<close> does with a page fault at an address that is not the process's: it neither kills the process nor repairs anything, so
  the faulting instruction is run again; from MAXVA on it panics.
\<close>

lemma devintr_exception: "r_scause (hart s) = 13 \<or> r_scause (hart s) = 15 \<Longrightarrow> devintr s = Inr (0, s)"
  by (auto simp: devintr_def Let_def)

lemma should_copyon_write_outside:
  assumes "p_sz (procs s (cur s)) \<le> PGROUNDDOWN va"
  shows "should_copyon_write va s = (if va \<ge> MAXVA then Inl (Panic ''walk'') else Inr (False, s))"
  using assms by (simp add: should_copyon_write_def walk_def walk_loop_False Let_def leD)

lemma tf_set_sel [simp]:
  "procs (tf_set p off v s) = procs s" "cur (tf_set p off v s) = cur s" "hart (tf_set p off v s) = hart s" "trampoline (tf_set p off v s) = trampoline s"
  "sym_uservec (tf_set p off v s) = sym_uservec s" "sym_userret (tf_set p off v s) = sym_userret s" "sym_usertrap (tf_set p off v s) = sym_usertrap s"
  "mem (tf_set p off v s) = st64 (mem s) (p_trapframe (procs s p) + off) v" "held (tf_set p off v s) = held s"
  by (simp_all add: tf_set_def)

lemma on_hart_sel [simp]:
  "procs (on_hart f s) = procs s" "cur (on_hart f s) = cur s" "hart (on_hart f s) = f (hart s)" "mem (on_hart f s) = mem s" "trampoline (on_hart f s) = trampoline s"
  "sym_uservec (on_hart f s) = sym_uservec s" "sym_userret (on_hart f s) = sym_userret s" "sym_usertrap (on_hart f s) = sym_usertrap s" "held (on_hart f s) = held s"
  by (simp_all add: on_hart_def)

lemma al8_add: "al8 a \<Longrightarrow> al8 b \<Longrightarrow> al8 (a + b)"
  unfolding al8_def by (simp add: unat_word_ariths dvd_mod_iff)

lemma st64_far: "unat (a - x) \<ge> unat off + 8 \<Longrightarrow> st64 m (x + off) v a = m a"
proof -
  assume f: "unat (a - x) \<ge> unat off + 8"
  then have "off \<le> a - x" by (simp add: word_le_nat_alt)
  then have "unat (a - x - off) = unat (a - x) - unat off" by (rule unat_sub)
  moreover have "a - (x + off) = a - x - off" by simp
  ultimately have "unat (a - (x + off)) = unat (a - x) - unat off" by (simp only:)
  then have "\<not> a - (x + off) < 8" using f by (simp add: word_less_nat_alt)
  then show ?thesis by (simp add: st64_def)
qed

text \<open>The words of the trapframe that \<open>usertrapret\<close> sets are its first three and the fifth; the fourth, the program counter, it loads.\<close>

lemma usertrapret_ok:
  assumes "al8 (p_trapframe (procs s (cur s)))"
  shows "\<exists>j t. usertrapret s = (j, t) \<and> procs t = procs s \<and> cur t = cur s \<and> tf_get (cur s) TF_epc t = tf_get (cur s) TF_epc s \<and>
    csr_sepc (hart t) = tf_get (cur s) TF_epc s \<and> (\<forall>a. unat (a - p_trapframe (procs s (cur s))) \<ge> 40 \<longrightarrow> mem t a = mem s a)"
proof -
  obtain j t where r: "usertrapret s = (j, t)" by (rule prod.exhaust)
  let ?x = "p_trapframe (procs s (cur s))"
  have m: "mem t = st64 (st64 (st64 (st64 (mem s) (?x + 0) (r_satp (hart s))) (?x + 8) (p_kstack (procs s (cur s)) + PGSIZE)) (?x + 16) (sym_usertrap s)) (?x + 32) (r_tp (hart s))"
    and t: "procs t = procs s" "cur t = cur s" "csr_sepc (hart t) = tf_get (cur s) TF_epc t"
    using r by (auto simp: usertrapret_def Let_def intr_off_def w_sstatus_def r_sstatus_def w_stvec_def r_satp_def r_tp_def w_sepc_def tf_get_def)
  have al: "al8 (?x + 24)" "al8 (?x + 0)" "al8 (?x + 8)" "al8 (?x + 16)" "al8 (?x + 32)" by (rule al8_add [OF assms]; simp add: al8_def)+
  have "ld64 (mem t) (?x + 24) = ld64 (mem s) (?x + 24)" unfolding m by (simp add: ld64_st64 al del: add_0_right)
  then have "tf_get (cur s) TF_epc t = tf_get (cur s) TF_epc s" using t by (simp add: tf_get_def)
  moreover have "mem t a = mem s a" if "unat (a - ?x) \<ge> 40" for a
    unfolding m using that by (simp add: st64_far del: add_0_right)
  ultimately show ?thesis using r t by (intro exI [of _ j] exI [of _ t]) auto
qed

section \<open>Properties\<close>

text \<open>C32. A load or store fault at an address at or above the size of the process and below MAXVA: \<open>usertrap\<close> goes back to user space at the very instruction that
  faulted, with the process alive, its registers and all of memory as they were except the words of the trapframe for the kernel's own use. The process
  faults again, without end. From MAXVA on the fault panics the kernel.\<close>

theorem wild_access_refaults:
  assumes "r_scause (hart s) = 13 \<or> r_scause (hart s) = 15" "and (r_sstatus (hart s)) SSTATUS_SPP = 0" "\<not> p_killed (procs s (cur s))"
    "al8 (p_trapframe (procs s (cur s)))" "p_sz (procs s (cur s)) \<le> PGROUNDDOWN (r_stval (hart s))"
  shows "if r_stval (hart s) \<ge> MAXVA then usertrap s = Inl (Panic ''walk'')
    else \<exists>j t. usertrap s = Inr (ToUserSpace j, t) \<and> procs t = procs s \<and> cur t = cur s \<and> r_sepc (hart t) = r_sepc (hart s) \<and>
      tf_get (cur s) TF_epc t = r_sepc (hart s) \<and> (\<forall>a. unat (a - p_trapframe (procs s (cur s))) \<ge> 40 \<longrightarrow> mem t a = mem s a)"
proof -
  let ?s = "tf_set (cur s) TF_epc (r_sepc (hart s)) (on_hart (w_stvec (sym_kernelvec s)) s)"
  have h: "r_scause (hart ?s) = r_scause (hart s)" "r_stval (hart ?s) = r_stval (hart s)" "r_sepc (w_stvec x (hart s)) = r_sepc (hart s)" for x
    by (simp_all add: r_scause_def r_stval_def r_sepc_def w_stvec_def)
  have d: "devintr ?s = Inr (0, ?s)" by (rule devintr_exception) (use assms(1) h in simp)
  have w: "should_copyon_write (r_stval (hart s)) ?s = (if r_stval (hart s) \<ge> MAXVA then Inl (Panic ''walk'') else Inr (False, ?s))"
    by (rule should_copyon_write_outside) (use assms(5) in simp)
  have c: "usertrap_cause ?s = (if r_stval (hart s) \<ge> MAXVA then Inl (Panic ''walk'') else Inr (0, False, ?s))"
    unfolding usertrap_cause_def Let_def h d using assms(1) w by (auto simp: h simp del: tf_set_sel on_hart_sel)
  obtain j t where t: "usertrapret ?s = (j, t)" "procs t = procs s" "cur t = cur s" "tf_get (cur s) TF_epc t = r_sepc (hart s)" "r_sepc (hart t) = r_sepc (hart s)"
    "\<forall>a. unat (a - p_trapframe (procs s (cur s))) \<ge> 40 \<longrightarrow> mem t a = mem ?s a"
    using usertrapret_ok [of ?s] assms(4) by (auto simp: tf_get_def r_sepc_def)
  have "mem ?s a = mem s a" if "unat (a - p_trapframe (procs s (cur s))) \<ge> 40" for a using that by (simp add: st64_far)
  then show ?thesis unfolding usertrap_def Let_def h using assms(2,3) c t by (cases j) (auto simp: h)
qed

theorem wild_access_refaults_witness:
  "\<exists>j t. usertrap (ts_ex\<lparr>hart := hart0\<lparr>csr_scause := 15, csr_stval := 0x5000, csr_sepc := 0x40\<rparr>\<rparr>) = Inr (ToUserSpace j, t) \<and> r_sepc (hart t) = 0x40"
proof -
  let ?s = "ts_ex\<lparr>hart := hart0\<lparr>csr_scause := 15, csr_stval := 0x5000, csr_sepc := 0x40\<rparr>\<rparr>"
  have p: "procs ?s = (\<lambda>_. proc0)" by (simp add: ex_base ex_defs km_ex_def)
  have "p_sz proc0 \<le> PGROUNDDOWN 0x5000" "\<not> p_killed proc0" "al8 (p_trapframe proc0)" by (simp_all add: proc0_def al8_def)
  moreover have "PGROUNDDOWN 0x5000 = 0x5000" by (simp add: PGROUNDDOWN_def)
  ultimately show ?thesis using wild_access_refaults [of ?s] p by (simp add: r_scause_def r_sstatus_def r_stval_def r_sepc_def) (auto simp: hart0_def)
qed

end
