(* ===== verification/Blocks.thy ===== *)
theory Blocks
  imports Fs
begin

text \<open>
  Blocks under the log as the file system uses them: reading a block, changing one inside a transaction, and allocating one from the bitmap. The rules speak
  about \<open>bview\<close>, the contents of the blocks as the cache shows them.
\<close>

section \<open>Reading and changing a block\<close>

lemma unat_of_nat_u32: "k < 2 ^ 32 \<Longrightarrow> unat (of_nat k :: u32) = k"
  by (simp add: unat_of_nat take_bit_nat_eq_self)

lemma lg_frame_fs:
  assumes "lg_frame s t"
  shows "sb t = sb s" "inodes t = inodes s"
proof -
  obtain P L B q fr u ib m mh w where t: "t = s\<lparr>lh_n := lh_n t, lh_block := lh_block t, procs := P, slocks := L, bufs := B, vq := q, vq_free := fr, used_idx := u,
     info_b := ib, medium := m, mhist := mh, mmiow := w\<rparr>" using assms unfolding lg_frame_def dk_frame_def by blast
  show "sb t = sb s" "inodes t = inodes s" by (subst t, simp)+
qed

lemma lq_card: "lq s H \<Longrightarrow> card (set (logblks s)) = nat (lh_n s) \<and> 0 \<le> lh_n s"
  by (auto simp: lq_def pinned_ok_def distinct_card) (simp add: logblks_def)

lemma lq_dk:
  assumes "lq s H" "dk_frame s t" "bq t (set (logblks s)) H'"
  shows "lq t H'" "lh_n t = lh_n s" "logblks t = logblks s"
proof -
  note f = dk_frame_log [OF assms(2)]
  show l: "logblks t = logblks s" "lh_n t = lh_n s" using f by (simp_all add: logblks_def)
  have "pinned_ok s (set (logblks s))" using assms(1) by (simp add: lq_def)
  then show "lq t H'" using assms(3) pinned_ok_frame [OF assms(2)] by (simp add: lq_def l)
qed

text \<open>The buffers that stay locked during an operation.\<close>

definition held_same :: "nat set \<Rightarrow> 'a dkst_scheme \<Rightarrow> 'a dkst_scheme \<Rightarrow> bool" where
  "held_same H s t \<longleftrightarrow> (\<forall>i\<in>H. bcore (bufs t i) = bcore (bufs s i))"

lemma held_sameD: "held_same H s t \<Longrightarrow> i \<in> H \<Longrightarrow> b_blockno (bufs t i) = b_blockno (bufs s i) \<and> b_data (bufs t i) = b_data (bufs s i)"
  using bcoreD [of "bufs t i" "bufs s i"] by (simp add: held_same_def)

lemma held_same_trans: "held_same H s t \<Longrightarrow> held_same H t u \<Longrightarrow> held_same H s u"
  by (simp add: held_same_def)

lemma held_same_others: "others b s t \<Longrightarrow> b \<notin> H \<Longrightarrow> held_same H s t"
  by (auto simp: held_same_def others_def)

lemma read_block:
  assumes q: "lq s H" and bn: "unat bn < 2 ^ 31" and nh: "\<And>i. i \<in> H \<Longrightarrow> b_blockno (bufs s i) \<noteq> bn" and c: "lh_n s + int (card H) < int NBUF"
  shows "\<exists>b t. bread ROOTDEV bn s = Inr (b, t) \<and> lq t (insert b H) \<and> b \<notin> H \<and> b_data (bufs t b) = bview s bn \<and> b_blockno (bufs t b) = bn \<and> bview t = bview s \<and>
    lg_frame s t \<and> held_same H s t \<and> lh_n t = lh_n s"
proof -
  have "card (set (logblks s)) + card H < NBUF" using lq_card [OF q] c by linarith
  then obtain b t where t: "bread ROOTDEV bn s = Inr (b, t)" "bq t (set (logblks s)) (insert b H)" "b \<notin> H" "buf_has t b bn" "bview t = bview s" "dk_frame s t" "others b s t"
    using bq_bread [of s "set (logblks s)" H "{}" bn] q bn nh by (auto simp: lq_def)
  have "b_data (bufs t b) = bview s bn" "b_blockno (bufs t b) = bn"
    using buf_has_view [OF bqD(1) [OF t(2)] t(4)] t(4,5) by (simp_all add: buf_has_def bkey_def)
  then show ?thesis using t lq_dk [OF q t(6,2)] lg_frame_dk [OF t(6)] held_same_others [OF t(7,3)] by blast
qed

lemma drop_block:
  assumes "lq s H" "b \<in> H"
  shows "\<exists>t. brelse b s = Inr t \<and> lq t (H - {b}) \<and> bview t = bview s \<and> lg_frame s t \<and> held_same (H - {b}) s t \<and> lh_n t = lh_n s"
proof -
  obtain t where t: "brelse b s = Inr t" "bq t (set (logblks s)) (H - {b})" "bview t = bview s" "dk_frame s t" "others b s t"
    using bq_brelse [of s "set (logblks s)" H "{}" b] assms by (auto simp: lq_def)
  show ?thesis using t lq_dk [OF assms(1) t(4,2)] lg_frame_dk [OF t(4)] held_same_others [OF t(5), of "H - {b}"] by auto
qed

text \<open>A transaction is open and has room for \<open>k\<close> blocks more.\<close>

definition txn :: "int \<Rightarrow> 'a logst_scheme \<Rightarrow> bool" where
  "txn k s \<longleftrightarrow> log_outstanding s \<ge> 1 \<and> log_size s \<le> int LOGSIZE \<and> lh_n s + k < log_size s"

lemma txnD: "txn k s \<Longrightarrow> log_outstanding s \<ge> 1 \<and> log_size s \<le> int LOGSIZE \<and> lh_n s + k < log_size s"
  by (simp add: txn_def)

lemma txn_frame: "txn k s \<Longrightarrow> lg_frame s t \<Longrightarrow> lh_n t + j \<le> lh_n s + k \<Longrightarrow> txn j t"
  by (simp add: txn_def lg_frameD)

lemma write_block:
  assumes q: "lq s H" and b: "b \<in> H" and na: "\<not> log_area (log_start s) (b_blockno (bufs s b))" and x: "txn 1 s" and len: "length d = BSIZE"
  shows "\<exists>t. log_write b (set_bdata b d s) = Inr t \<and> lq t H \<and> bview t = (bview s)(b_blockno (bufs s b) := d) \<and> lg_frame s t \<and> held_same (H - {b}) s t \<and>
    b_blockno (bufs t b) = b_blockno (bufs s b) \<and> lh_n t \<le> lh_n s + 1"
proof -
  obtain t where "log_write b (set_bdata b d s) = Inr t" "lq t H" "bview t = (bview s)(b_blockno (bufs s b) := d)" "lg_frame s t" "others b s t"
    "b_blockno (bufs t b) = b_blockno (bufs s b)" "lh_n t \<le> lh_n s + 1"
    using log_write_ok [OF q b na _ _ _ len] txnD [OF x] by auto
  then show ?thesis using held_same_others [of b s t "H - {b}"] by blast
qed

text \<open>The sequence of calls that changes a block: \<open>bread\<close>, a change, \<open>log_write\<close>, \<open>brelse\<close>.\<close>

lemma lq_len: "lq s H \<Longrightarrow> length (bview s bn) = BSIZE"
  by (auto simp: lq_def intro: bview_len bqD(1))

lemma bzero_ok:
  assumes q: "lq s H" and bn: "unat bn < 2 ^ 31" and nh: "\<And>i. i \<in> H \<Longrightarrow> b_blockno (bufs s i) \<noteq> bn" and c: "lh_n s + int (card H) < int NBUF"
    and na: "\<not> log_area (log_start s) bn" and x: "txn 1 s"
  shows "\<exists>t. bzero ROOTDEV bn s = Inr t \<and> lq t H \<and> bview t = (bview s)(bn := replicate BSIZE 0) \<and> lg_frame s t \<and> held_same H s t \<and> lh_n t \<le> lh_n s + 1"
proof -
  obtain b s1 where r: "bread ROOTDEV bn s = Inr (b, s1)" "lq s1 (insert b H)" "b \<notin> H" "b_blockno (bufs s1 b) = bn" "bview s1 = bview s" "lg_frame s s1" "held_same H s s1" "lh_n s1 = lh_n s"
    using read_block [OF q bn nh c] by blast
  have x1: "txn 1 s1" "log_start s1 = log_start s" using txn_frame [OF x r(6)] r(8) lg_frameD(17) [OF r(6)] by auto
  obtain s2 where w: "log_write b (set_bdata b (replicate BSIZE 0) s1) = Inr s2" "lq s2 (insert b H)" "bview s2 = (bview s1)(bn := replicate BSIZE 0)" "lg_frame s1 s2"
    "held_same (insert b H - {b}) s1 s2" "lh_n s2 \<le> lh_n s1 + 1"
    using write_block [OF r(2), of b "replicate BSIZE 0"] r(4) na x1 by auto
  obtain s3 where d: "brelse b s2 = Inr s3" "lq s3 (insert b H - {b})" "bview s3 = bview s2" "lg_frame s2 s3" "held_same (insert b H - {b}) s2 s3" "lh_n s3 = lh_n s2"
    using drop_block [OF w(2), of b] by blast
  have h: "insert b H - {b} = H" using r(3) by auto
  have "bzero ROOTDEV bn s = Inr s3" using r(1) w(1) d(1) by (simp add: bzero_def)
  then show ?thesis using r w d unfolding h by (intro exI [of _ s3]) (auto intro: lg_frame_trans held_same_trans)
qed

section \<open>The bitmap\<close>

definition marked :: "'a fsst_scheme \<Rightarrow> nat \<Rightarrow> bool" where
  "marked s b \<longleftrightarrow> and (bview s (BBLOCK b (sb s)) ! (b mod BPB div 8)) (bmask (b mod BPB)) \<noteq> 0"

lemma and_bmask: "and x (bmask i) \<noteq> 0 \<longleftrightarrow> bit x (i mod 8)"
proof -
  have "bit (and x (bmask i)) n \<longleftrightarrow> n = i mod 8 \<and> bit x n" for n
    by (auto simp: bmask_def bit_and_iff bit_exp_iff)
  then show ?thesis using bit_eq_iff [of "and x (bmask i)" 0] by auto
qed

lemma set_mark:
  assumes "length d = BSIZE" "i < BPB" "j < BPB"
  shows "and (d[i div 8 := or (d ! (i div 8)) (bmask i)] ! (j div 8)) (bmask j) \<noteq> 0 \<longleftrightarrow> j = i \<or> and (d ! (j div 8)) (bmask j) \<noteq> 0"
proof -
  have l: "i div 8 < length d" "j div 8 < length d" using assms by auto
  have "bit (bmask i) (j mod 8) \<longleftrightarrow> j mod 8 = i mod 8" by (auto simp: bmask_def bit_exp_iff)
  moreover have "j div 8 = i div 8 \<Longrightarrow> j mod 8 = i mod 8 \<longleftrightarrow> j = i" by (metis div_mult_mod_eq)
  ultimately show ?thesis using l unfolding and_bmask by (auto simp: nth_list_update bit_or_iff)
qed

lemma bfind_Some: "bfind n d = Some i \<Longrightarrow> i < n \<and> and (d ! (i div 8)) (bmask i) = 0"
  by (auto simp: bfind_def find_Some_iff)

lemma bfind_None: "bfind n d = None \<Longrightarrow> i < n \<Longrightarrow> and (d ! (i div 8)) (bmask i) \<noteq> 0"
  by (auto simp: bfind_def find_None_iff)

text \<open>The parts of the disk that hold no data, and what \<open>mkfs\<close> guarantees of them.\<close>

definition bitmap_block :: "'a fsst_scheme \<Rightarrow> u32 \<Rightarrow> bool" where
  "bitmap_block s bn \<longleftrightarrow> (\<exists>b<unat (sb_size (sb s)). bn = BBLOCK b (sb s))"

definition inode_block :: "'a fsst_scheme \<Rightarrow> u32 \<Rightarrow> bool" where
  "inode_block s bn \<longleftrightarrow> (\<exists>i. i < sb_ninodes (sb s) \<and> bn = IBLOCK i (sb s))"

definition meta :: "'a fsst_scheme \<Rightarrow> u32 \<Rightarrow> bool" where
  "meta s bn \<longleftrightarrow> bn = 0 \<or> log_area (log_start s) bn \<or> bitmap_block s bn \<or> inode_block s bn"

definition layout :: "'a fsst_scheme \<Rightarrow> bool" where
  "layout s \<longleftrightarrow> unat (sb_size (sb s)) < 2 ^ 31 \<and>
     (\<forall>bn. bitmap_block s bn \<longrightarrow> unat bn < 2 ^ 31 \<and> \<not> log_area (log_start s) bn \<and> \<not> inode_block s bn) \<and>
     (\<forall>bn. inode_block s bn \<longrightarrow> unat bn < 2 ^ 31 \<and> \<not> log_area (log_start s) bn) \<and>
     (\<forall>b c. b < unat (sb_size (sb s)) \<longrightarrow> c < unat (sb_size (sb s)) \<longrightarrow> BBLOCK b (sb s) = BBLOCK c (sb s) \<longrightarrow> b div BPB = c div BPB) \<and>
     (\<forall>bn. meta s bn \<longrightarrow> unat bn < unat (sb_size (sb s)) \<longrightarrow> marked s (unat bn))"

definition balloced :: "u32 \<Rightarrow> 'a fsst_scheme \<Rightarrow> 'a fsst_scheme \<Rightarrow> bool" where
  "balloced a s t \<longleftrightarrow> unat a < unat (sb_size (sb s)) \<and> \<not> marked s (unat a) \<and> \<not> meta s a \<and> bview t a = replicate BSIZE 0 \<and>
     (\<forall>bn. bn \<noteq> a \<longrightarrow> \<not> bitmap_block s bn \<longrightarrow> bview t bn = bview s bn) \<and>
     (\<forall>b<unat (sb_size (sb s)). marked t b \<longleftrightarrow> marked s b \<or> b = unat a)"

lemma marked_view: "bview t = bview s \<Longrightarrow> sb t = sb s \<Longrightarrow> marked t b = marked s b"
  by (simp add: marked_def)

lemma layoutD:
  assumes "layout s"
  shows "unat (sb_size (sb s)) < 2 ^ 31" "bitmap_block s bn \<Longrightarrow> unat bn < 2 ^ 31 \<and> \<not> log_area (log_start s) bn \<and> \<not> inode_block s bn"
    "b < unat (sb_size (sb s)) \<Longrightarrow> c < unat (sb_size (sb s)) \<Longrightarrow> BBLOCK b (sb s) = BBLOCK c (sb s) \<Longrightarrow> b div BPB = c div BPB"
    "meta s bn \<Longrightarrow> unat bn < unat (sb_size (sb s)) \<Longrightarrow> marked s (unat bn)"
    "inode_block s bn \<Longrightarrow> unat bn < 2 ^ 31 \<and> \<not> log_area (log_start s) bn"
  using assms unfolding layout_def by blast+

lemma meta_cong:
  assumes "lg_frame s t"
  shows "meta t bn = meta s bn" "bitmap_block t bn = bitmap_block s bn" "inode_block t bn = inode_block s bn"
proof -
  show b: "bitmap_block t bn = bitmap_block s bn" "inode_block t bn = inode_block s bn"
    unfolding bitmap_block_def inode_block_def lg_frame_fs [OF assms] by (rule refl)+
  show "meta t bn = meta s bn" unfolding meta_def b lg_frameD(17) [OF assms] by (rule refl)
qed

lemma layout_cong:
  assumes "lg_frame s t" "\<And>b. b < unat (sb_size (sb s)) \<Longrightarrow> marked s b \<Longrightarrow> marked t b" "layout s"
  shows "layout t"
proof -
  have "marked t (unat bn)" if "meta s bn" "unat bn < unat (sb_size (sb s))" for bn by (rule assms(2) [OF that(2) layoutD(4) [OF assms(3) that]])
  then show ?thesis using assms(3) unfolding layout_def meta_cong [OF assms(1)] lg_frame_fs [OF assms(1)] lg_frameD(17) [OF assms(1)] by blast
qed

lemma balloc_take:
  assumes q: "lq s (insert bp H)" "bp \<notin> H" and bn: "b_blockno (bufs s bp) = BBLOCK b (sb s)" and L: "layout s" and x: "txn 2 s" and c: "card H \<le> 1"
    and b: "b mod BPB = 0" "bi < BPB" "b + bi < unat (sb_size (sb s))" and free: "\<not> marked s (b + bi)"
    and H: "\<And>i. i \<in> H \<Longrightarrow> \<not> bitmap_block s (b_blockno (bufs s i)) \<and> marked s (unat (b_blockno (bufs s i)))" and fin: "finite H"
  defines "d \<equiv> bview s (BBLOCK b (sb s))"
  shows "\<exists>u v w. log_write bp (set_bdata bp (d[bi div 8 := or (d ! (bi div 8)) (bmask bi)]) s) = Inr u \<and> brelse bp u = Inr v \<and> bzero ROOTDEV (of_nat (b + bi)) v = Inr w \<and>
    lq w H \<and> balloced (of_nat (b + bi)) s w \<and> lg_frame s w \<and> held_same H s w \<and> lh_n w \<le> lh_n s + 2"
proof -
  define a where "a = (of_nat (b + bi) :: u32)"
  let ?B = "BBLOCK b (sb s)" and ?d = "d[bi div 8 := or (d ! (bi div 8)) (bmask bi)]"
  have sz: "unat (sb_size (sb s)) < 2 ^ 31" by (rule layoutD(1) [OF L])
  have ua: "unat a = b + bi" unfolding a_def by (rule unat_of_nat_u32) (use b(3) sz in simp)
  have bb: "bitmap_block s ?B" "BBLOCK (b + bi) (sb s) = ?B" "(b + bi) mod BPB = bi"
  proof -
    obtain k where k: "b = BPB * k" using b(1) by auto
    show "(b + bi) mod BPB = bi" using b(2) unfolding k by simp
    have "(b + bi) div BPB = b div BPB" using b(2) unfolding k by simp
    then show "BBLOCK (b + bi) (sb s) = ?B" by (simp add: BBLOCK_def)
    show "bitmap_block s ?B" using b(3) by (auto simp: bitmap_block_def intro!: exI [of _ b])
  qed
  note bm = layoutD(2) [OF L bb(1)]
  have nm: "\<not> meta s a" using layoutD(4) [OF L, of a] ua b(3) free by auto
  then have na: "\<not> log_area (log_start s) a" "\<not> bitmap_block s a" by (simp_all add: meta_def)
  have ld: "length d = BSIZE" unfolding d_def by (rule lq_len [OF q(1)])
  obtain u where u: "log_write bp (set_bdata bp ?d s) = Inr u" "lq u (insert bp H)" "bview u = (bview s)(?B := ?d)" "lg_frame s u" "held_same (insert bp H - {bp}) s u"
    "lh_n u \<le> lh_n s + 1"
    using write_block [OF q(1) _ _ txn_frame [OF x lg_frame_refl], of bp ?d] bn bm ld by auto
  obtain v where v: "brelse bp u = Inr v" "lq v (insert bp H - {bp})" "bview v = bview u" "lg_frame u v" "held_same (insert bp H - {bp}) u v" "lh_n v = lh_n u"
    using drop_block [OF u(2), of bp] by blast
  have h: "insert bp H - {bp} = H" using q(2) by auto
  note sv = lg_frame_trans [OF u(4) v(4)]
  have hv: "held_same H s v" using held_same_trans [OF u(5) v(5)] unfolding h .
  have nh: "b_blockno (bufs v i) \<noteq> a" if "i \<in> H" for i
    using held_sameD [OF hv that] H [OF that] free ua by auto
  have "int (card H) \<le> 1" using c by simp
  then have "lh_n v + int (card H) < int NBUF" using txnD [OF x] u(6) v(6) by linarith
  then obtain w where w: "bzero ROOTDEV a v = Inr w" "lq w H" "bview w = (bview v)(a := replicate BSIZE 0)" "lg_frame v w" "held_same H v w" "lh_n w \<le> lh_n v + 1"
    using bzero_ok [OF v(2) [unfolded h], of a] nh na(1) txn_frame [OF x sv] u(6) v(6) ua b(3) sz lg_frameD(17) [OF sv] by auto
  have sw: "lg_frame s w" by (rule lg_frame_trans [OF sv w(4)])
  have vw: "bview w = (bview s)(?B := ?d, a := replicate BSIZE 0)" using w(3) v(3) u(3) by simp
  have "marked w c \<longleftrightarrow> marked s c \<or> c = unat a" if cs: "c < unat (sb_size (sb s))" for c
  proof -
    have nc: "BBLOCK c (sb s) \<noteq> a" using na(2) cs by (auto simp: bitmap_block_def)
    show ?thesis
    proof (cases "BBLOCK c (sb s) = ?B")
      case True
      then have "c div BPB = (b + bi) div BPB" using layoutD(3) [OF L cs b(3)] bb(2) by simp
      then have "c mod BPB = bi \<longleftrightarrow> c = b + bi" using bb(3) by (metis div_mult_mod_eq)
      then show ?thesis using set_mark [OF ld b(2), of "c mod BPB"] nc True ua unfolding marked_def lg_frame_fs(1) [OF sw] vw by (auto simp: d_def)
    next
      case False
      then have "c \<noteq> b + bi" using bb(2) by auto
      then show ?thesis using nc False ua unfolding marked_def lg_frame_fs(1) [OF sw] vw by simp
    qed
  qed
  then have "balloced a s w" using ua b(3) free nm bb(1) unfolding balloced_def vw by auto
  then show ?thesis unfolding a_def [symmetric] using u(1) v(1) w(1,2,6) sw held_same_trans [OF hv w(5)] u(6) v(6) by fastforce
qed

lemma balloc_loop_ok:
  assumes "lq s H" "layout s" "txn 2 s" "card H \<le> 1" "finite H"
    "\<And>i. i \<in> H \<Longrightarrow> \<not> bitmap_block s (b_blockno (bufs s i)) \<and> marked s (unat (b_blockno (bufs s i)))"
    "\<forall>b\<in>set bs. b mod BPB = 0 \<and> b < unat (sb_size (sb s))" "\<exists>b\<in>set bs. \<exists>bi. bi < BPB \<and> b + bi < unat (sb_size (sb s)) \<and> \<not> marked s (b + bi)"
  shows "\<exists>a t. balloc_loop bs ROOTDEV s = Inr (a, t) \<and> lq t H \<and> balloced a s t \<and> lg_frame s t \<and> held_same H s t \<and> lh_n t \<le> lh_n s + 2"
  using assms
proof (induction bs arbitrary: s)
  case (Cons b bs)
  note p = Cons.prems
  let ?B = "BBLOCK b (sb s)" and ?n = "min BPB (unat (sb_size (sb s)) - b)"
  have b: "b mod BPB = 0" "b < unat (sb_size (sb s))" using p(7) by auto
  have bb: "bitmap_block s ?B" using b(2) by (auto simp: bitmap_block_def)
  have nh: "b_blockno (bufs s i) \<noteq> ?B" if "i \<in> H" for i using p(6) [OF that] bb by auto
  have c: "lh_n s + int (card H) < int NBUF" using txnD [OF p(3)] p(4) by linarith
  obtain bp t where t: "bread ROOTDEV ?B s = Inr (bp, t)" "lq t (insert bp H)" "bp \<notin> H" "b_data (bufs t bp) = bview s ?B" "b_blockno (bufs t bp) = ?B" "bview t = bview s"
    "lg_frame s t" "held_same H s t" "lh_n t = lh_n s"
    using read_block [OF p(1) _ nh c] layoutD(2) [OF p(2) bb] by blast
  have m: "marked t c = marked s c" for c by (rule marked_view [OF t(6) lg_frame_fs(1) [OF t(7)]])
  have Lt: "layout t" by (rule layout_cong [OF t(7) _ p(2)]) (simp add: m)
  have xt: "txn 2 t" using txn_frame [OF p(3) t(7)] t(9) by simp
  have Ht: "\<not> bitmap_block t (b_blockno (bufs t i)) \<and> marked t (unat (b_blockno (bufs t i)))" if "i \<in> H" for i
    using p(6) [OF that] held_sameD [OF t(8) that] meta_cong(2) [OF t(7)] m by simp
  note sbt = lg_frame_fs(1) [OF t(7)]
  have mk: "marked s (b + bi) \<longleftrightarrow> and (bview s ?B ! (bi div 8)) (bmask bi) \<noteq> 0" if "bi < BPB" for bi
  proof -
    obtain k where k: "b = BPB * k" using b(1) by auto
    have "(b + bi) mod BPB = bi" "(b + bi) div BPB = b div BPB" using that unfolding k by simp_all
    then show ?thesis by (simp add: marked_def BBLOCK_def)
  qed
  show ?case
  proof (cases "bfind ?n (bview s ?B)")
    case None
    have all: "marked s (b + bi)" if "bi < BPB" "b + bi < unat (sb_size (sb s))" for bi using bfind_None [OF None, of bi] mk that by auto
    obtain u where u: "brelse bp t = Inr u" "lq u (insert bp H - {bp})" "bview u = bview t" "lg_frame t u" "held_same (insert bp H - {bp}) t u" "lh_n u = lh_n t"
      using drop_block [OF t(2), of bp] by blast
    have h: "insert bp H - {bp} = H" using t(3) by auto
    note su = lg_frame_trans [OF t(7) u(4)]
    have hu: "held_same H s u" using held_same_trans [OF t(8)] u(5) unfolding h by blast
    have mu: "marked u c = marked s c" for c using marked_view [of u s] u(3) t(6) lg_frame_fs(1) [OF su] by simp
    have "\<exists>a v. balloc_loop bs ROOTDEV u = Inr (a, v) \<and> lq v H \<and> balloced a u v \<and> lg_frame u v \<and> held_same H u v \<and> lh_n v \<le> lh_n u + 2"
    proof (rule Cons.IH)
      show "lq u H" using u(2) h by simp
      show "layout u" by (rule layout_cong [OF su _ p(2)]) (simp add: mu)
      show "txn 2 u" using txn_frame [OF p(3) su] t(9) u(6) by simp
      show "\<not> bitmap_block u (b_blockno (bufs u i)) \<and> marked u (unat (b_blockno (bufs u i)))" if "i \<in> H" for i
        using p(6) [OF that] held_sameD [OF hu that] meta_cong(2) [OF su] mu by simp
      show "\<forall>b\<in>set bs. b mod BPB = 0 \<and> b < unat (sb_size (sb u))" using p(7) lg_frame_fs(1) [OF su] by simp
      show "\<exists>b\<in>set bs. \<exists>bi. bi < BPB \<and> b + bi < unat (sb_size (sb u)) \<and> \<not> marked u (b + bi)" using p(8) all mu lg_frame_fs(1) [OF su] by auto
    qed (use p(4,5) in auto)
    then obtain a v where v: "balloc_loop bs ROOTDEV u = Inr (a, v)" "lq v H" "balloced a u v" "lg_frame u v" "held_same H u v" "lh_n v \<le> lh_n u + 2" by blast
    have "balloced a s v" using v(3) mu lg_frame_fs(1) [OF su] u(3) t(6) meta_cong [OF su] by (simp add: balloced_def)
    moreover have "balloc_loop (b # bs) ROOTDEV s = Inr (a, v)" using t(1,4) None u(1) v(1) sbt by simp
    ultimately show ?thesis using v lg_frame_trans [OF su v(4)] held_same_trans [OF hu v(5)] u(6) t(9) by auto
  next
    case (Some bi)
    have bi: "bi < BPB" "b + bi < unat (sb_size (sb s))" "\<not> marked t (b + bi)" using bfind_Some [OF Some] mk m by auto
    obtain u v w where w: "log_write bp (set_bdata bp ((bview t ?B)[bi div 8 := or (bview t ?B ! (bi div 8)) (bmask bi)]) t) = Inr u" "brelse bp u = Inr v"
      "bzero ROOTDEV (of_nat (b + bi)) v = Inr w" "lq w H" "balloced (of_nat (b + bi)) t w" "lg_frame t w" "held_same H t w" "lh_n w \<le> lh_n t + 2"
      using balloc_take [OF t(2,3) _ Lt xt p(4) b(1) bi(1) _ bi(3) Ht p(5)] t(5) bi(2) unfolding sbt by blast
    have "balloced (of_nat (b + bi)) s w" using w(5) m sbt t(6) meta_cong [OF t(7)] by (simp add: balloced_def)
    moreover have "balloc_loop (b # bs) ROOTDEV s = Inr (of_nat (b + bi), w)" using t(1,4,6) Some w(1-3) sbt by (simp add: Let_def)
    ultimately show ?thesis using w lg_frame_trans [OF t(7) w(6)] held_same_trans [OF t(8) w(7)] t(9) by (intro exI [of _ "of_nat (b + bi)"] exI [of _ w]) simp
  qed
qed simp

lemma balloc_ok:
  assumes "lq s H" "layout s" "txn 2 s" "card H \<le> 1" "finite H"
    "\<And>i. i \<in> H \<Longrightarrow> \<not> bitmap_block s (b_blockno (bufs s i)) \<and> marked s (unat (b_blockno (bufs s i)))"
    "\<exists>b<unat (sb_size (sb s)). \<not> marked s b"
  shows "\<exists>a t. balloc ROOTDEV s = Inr (a, t) \<and> lq t H \<and> balloced a s t \<and> lg_frame s t \<and> held_same H s t \<and> lh_n t \<le> lh_n s + 2"
proof -
  let ?n = "unat (sb_size (sb s))" and ?bs = "map (\<lambda>k. k * BPB) [0..<(unat (sb_size (sb s)) + BPB - 1) div BPB]"
  have k: "k * BPB < ?n \<longleftrightarrow> k < (?n + BPB - 1) div BPB" for k
    using less_eq_div_iff_mult_less_eq [of BPB "Suc k" "?n + BPB - 1"] unfolding Suc_le_eq [symmetric] by simp
  obtain b where b: "b < ?n" "\<not> marked s b" using assms(7) by blast
  have "b div BPB * BPB < ?n" using b(1) div_times_less_eq_dividend [of b BPB] by linarith
  then have "b div BPB * BPB \<in> set ?bs" "b mod BPB < BPB" "b div BPB * BPB + b mod BPB = b" using k [of "b div BPB"] by auto
  then have "\<exists>b\<in>set ?bs. \<exists>bi. bi < BPB \<and> b + bi < ?n \<and> \<not> marked s (b + bi)" using b by (metis (no_types, lifting))
  moreover have "\<forall>b\<in>set ?bs. b mod BPB = 0 \<and> b < ?n" using k by auto
  ultimately show ?thesis unfolding balloc_def using balloc_loop_ok [OF assms(1-6)] by blast
qed

end
