(* ===== verification/File_Map.thy ===== *)
theory File_Map
  imports Blocks
begin

text \<open>
  The blocks of a file. \<open>fmap s ip k\<close> is the block that holds the \<open>k\<close>th kilobyte of an inode, through the direct addresses or the indirect block, and \<open>blocks_ok\<close> says
  that these blocks are allocated, distinct, and none of the bitmap, the inodes or the log. \<open>bmap\<close> returns the block of a kilobyte; it fills a hole with a zeroed block that
  was free, and no other allocated block of the disk changes.
\<close>

section \<open>Data blocks\<close>

definition data_block :: "'a fsst_scheme \<Rightarrow> u32 \<Rightarrow> bool" where
  "data_block s a \<longleftrightarrow> unat a < unat (sb_size (sb s)) \<and> marked s (unat a) \<and> \<not> meta s a"

definition free_blocks :: "'a fsst_scheme \<Rightarrow> nat set" where
  "free_blocks s = {b. b < unat (sb_size (sb s)) \<and> \<not> marked s b}"

lemma finite_free_blocks [simp]: "finite (free_blocks s)"
  by (rule finite_subset [of _ "{..<unat (sb_size (sb s))}"]) (auto simp: free_blocks_def)

lemma meta_eq:
  assumes "sb t = sb s" "log_start t = log_start s"
  shows "meta t bn = meta s bn" "bitmap_block t bn = bitmap_block s bn" "inode_block t bn = inode_block s bn"
  by (simp_all add: meta_def bitmap_block_def inode_block_def assms)

lemma data_block_nz: "data_block s a \<Longrightarrow> a \<noteq> 0"
  by (auto simp: data_block_def meta_def)

lemma data_block_facts:
  assumes "layout s" "data_block s a"
  shows "unat a < 2 ^ 31" "\<not> log_area (log_start s) a" "\<not> bitmap_block s a" "\<not> inode_block s a"
  using assms layoutD(1) [OF assms(1)] by (auto simp: data_block_def meta_def)

text \<open>Allocation leaves every data block as it was, and makes one more.\<close>

lemma balloced_keeps:
  assumes "balloced a s t" "sb t = sb s" "log_start t = log_start s"
  shows "data_block s bn \<Longrightarrow> bview t bn = bview s bn \<and> data_block t bn \<and> bn \<noteq> a" "data_block t a" "\<not> data_block s a" "a \<noteq> 0"
    "free_blocks t = free_blocks s - {unat a}" "unat a \<in> free_blocks s"
proof -
  note al = assms(1) [unfolded balloced_def]
  show "data_block t a" "\<not> data_block s a" using al assms(2) meta_eq(1) [OF assms(2,3)] by (simp_all add: data_block_def)
  show "bview t bn = bview s bn \<and> data_block t bn \<and> bn \<noteq> a" if d: "data_block s bn"
  proof -
    have "bn \<noteq> a" "\<not> bitmap_block s bn" using d al by (auto simp: data_block_def meta_def)
    then show ?thesis using d al assms(2) meta_eq(1) [OF assms(2,3)] by (simp add: data_block_def)
  qed
  show "a \<noteq> 0" using al by (auto simp: meta_def)
  show "free_blocks t = free_blocks s - {unat a}" "unat a \<in> free_blocks s" using al assms(2) by (auto simp: free_blocks_def)
qed

text \<open>Writing a block that is not part of the bitmap.\<close>

lemma data_write:
  assumes "lg_frame u v" "bview v = (bview u)(x := d)" "\<not> bitmap_block u x"
  shows "data_block v = data_block u" "free_blocks v = free_blocks u" "layout u \<Longrightarrow> layout v"
proof -
  note f = lg_frame_fs [OF assms(1)]
  have m: "marked v b = marked u b" if "b < unat (sb_size (sb u))" for b
  proof -
    have "BBLOCK b (sb u) \<noteq> x" using that assms(3) by (auto simp: bitmap_block_def)
    then show ?thesis by (simp add: marked_def f assms(2))
  qed
  show "data_block v = data_block u" by (rule ext) (auto simp: data_block_def m f meta_cong(1) [OF assms(1)])
  show "free_blocks v = free_blocks u" by (auto simp: free_blocks_def m f)
  show "layout v" if "layout u" by (rule layout_cong [OF assms(1) _ that]) (simp add: m)
qed

section \<open>The blocks of a file\<close>

definition fmap :: "'a fsst_scheme \<Rightarrow> nat \<Rightarrow> nat \<Rightarrow> u32" where
  "fmap s ip k =
     (let x = inodes s ip
      in if k < NDIRECT then i_addrs x k
         else if i_addrs x NDIRECT = 0 then 0 else ldw (4 * (k - NDIRECT)) (bview s (i_addrs x NDIRECT)))"

definition blocks_ok :: "'a fsst_scheme \<Rightarrow> nat \<Rightarrow> bool" where
  "blocks_ok s ip \<longleftrightarrow> i_dev (inodes s ip) = ROOTDEV \<and> i_inum (inodes s ip) < sb_ninodes (sb s) \<and>
     (\<forall>k<MAXFILE. fmap s ip k \<noteq> 0 \<longrightarrow> data_block s (fmap s ip k) \<and> fmap s ip k \<noteq> i_addrs (inodes s ip) NDIRECT) \<and>
     (\<forall>j<MAXFILE. \<forall>k<MAXFILE. fmap s ip k \<noteq> 0 \<longrightarrow> fmap s ip j = fmap s ip k \<longrightarrow> j = k) \<and>
     (i_addrs (inodes s ip) NDIRECT \<noteq> 0 \<longrightarrow> data_block s (i_addrs (inodes s ip) NDIRECT))"

lemma blocks_okD:
  assumes "blocks_ok s ip"
  shows "i_dev (inodes s ip) = ROOTDEV" "i_inum (inodes s ip) < sb_ninodes (sb s)"
    "k < MAXFILE \<Longrightarrow> fmap s ip k \<noteq> 0 \<Longrightarrow> data_block s (fmap s ip k) \<and> fmap s ip k \<noteq> i_addrs (inodes s ip) NDIRECT"
    "j < MAXFILE \<Longrightarrow> k < MAXFILE \<Longrightarrow> fmap s ip k \<noteq> 0 \<Longrightarrow> fmap s ip j = fmap s ip k \<Longrightarrow> j = k"
    "i_addrs (inodes s ip) NDIRECT \<noteq> 0 \<Longrightarrow> data_block s (i_addrs (inodes s ip) NDIRECT)"
  using assms unfolding blocks_ok_def by blast+

lemma blocks_okI:
  assumes "i_dev (inodes s ip) = ROOTDEV" "i_inum (inodes s ip) < sb_ninodes (sb s)"
    "\<And>k. k < MAXFILE \<Longrightarrow> fmap s ip k \<noteq> 0 \<Longrightarrow> data_block s (fmap s ip k) \<and> fmap s ip k \<noteq> i_addrs (inodes s ip) NDIRECT"
    "\<And>j k. j < MAXFILE \<Longrightarrow> k < MAXFILE \<Longrightarrow> fmap s ip k \<noteq> 0 \<Longrightarrow> fmap s ip j = fmap s ip k \<Longrightarrow> j = k"
    "i_addrs (inodes s ip) NDIRECT \<noteq> 0 \<Longrightarrow> data_block s (i_addrs (inodes s ip) NDIRECT)"
  shows "blocks_ok s ip"
  using assms unfolding blocks_ok_def by blast

text \<open>What operations on an inode keep: the other inodes, and of this one everything but its addresses and its size.\<close>

definition kept :: "nat \<Rightarrow> 'a fsst_scheme \<Rightarrow> 'a fsst_scheme \<Rightarrow> bool" where
  "kept ip s t \<longleftrightarrow> sb t = sb s \<and> log_start t = log_start s \<and> log_size t = log_size s \<and> log_outstanding t = log_outstanding s \<and>
     (\<forall>j. j \<noteq> ip \<longrightarrow> inodes t j = inodes s j) \<and>
     i_dev (inodes t ip) = i_dev (inodes s ip) \<and> i_inum (inodes t ip) = i_inum (inodes s ip) \<and> i_ref (inodes t ip) = i_ref (inodes s ip) \<and>
     i_valid (inodes t ip) = i_valid (inodes s ip) \<and> i_type (inodes t ip) = i_type (inodes s ip) \<and> i_major (inodes t ip) = i_major (inodes s ip) \<and>
     i_minor (inodes t ip) = i_minor (inodes s ip) \<and> i_nlink (inodes t ip) = i_nlink (inodes s ip)"

lemma kept_lg: "lg_frame s t \<Longrightarrow> kept ip s t"
  using lg_frame_fs [of s t] lg_frameD(17-19) [of s t]
  by (simp add: kept_def)

lemma kept_trans: "kept ip s t \<Longrightarrow> kept ip t u \<Longrightarrow> kept ip s u"
  by (auto simp: kept_def)

lemma keptD:
  assumes "kept ip s t"
  shows "sb t = sb s" "log_start t = log_start s" "log_size t = log_size s" "log_outstanding t = log_outstanding s" "j \<noteq> ip \<Longrightarrow> inodes t j = inodes s j"
    "i_dev (inodes t ip) = i_dev (inodes s ip)" "i_inum (inodes t ip) = i_inum (inodes s ip)"
  using assms by (auto simp: kept_def)

lemma txn_kept: "txn k s \<Longrightarrow> kept ip s t \<Longrightarrow> lh_n t + j \<le> lh_n s + k \<Longrightarrow> txn j t"
  by (simp add: txn_def keptD)

text \<open>A change of an inode in the cache does not touch the disk.\<close>

lemma upd_ino_simps [simp]:
  "sb (upd_ino ip f s) = sb s" "log_start (upd_ino ip f s) = log_start s" "lh_n (upd_ino ip f s) = lh_n s" "bufs (upd_ino ip f s) = bufs s"
  "inodes (upd_ino ip f s) = (inodes s)(ip := f (inodes s ip))" "bview (upd_ino ip f s) = bview s"
  "marked (upd_ino ip f s) = marked s" "meta (upd_ino ip f s) = meta s" "free_blocks (upd_ino ip f s) = free_blocks s" "data_block (upd_ino ip f s) = data_block s"
  "layout (upd_ino ip f s) = layout s" "txn k (upd_ino ip f s) = txn k s" "lq (upd_ino ip f s) H = lq s H"
proof -
  show b: "sb (upd_ino ip f s) = sb s" "log_start (upd_ino ip f s) = log_start s" "lh_n (upd_ino ip f s) = lh_n s" "bufs (upd_ino ip f s) = bufs s"
    "inodes (upd_ino ip f s) = (inodes s)(ip := f (inodes s ip))" by (simp_all add: upd_ino_def)
  show v: "bview (upd_ino ip f s) = bview s" by (rule bview_cong) (simp_all add: upd_ino_def)
  show m: "marked (upd_ino ip f s) = marked s" by (rule ext) (rule marked_view [OF v b(1)])
  have me: "meta (upd_ino ip f s) bn = meta s bn" "bitmap_block (upd_ino ip f s) bn = bitmap_block s bn" "inode_block (upd_ino ip f s) bn = inode_block s bn" for bn
    by (rule meta_eq [OF b(1,2)])+
  show mm: "meta (upd_ino ip f s) = meta s" by (rule ext) (rule me)
  show "free_blocks (upd_ino ip f s) = free_blocks s" "data_block (upd_ino ip f s) = data_block s" unfolding free_blocks_def data_block_def [abs_def] m mm b(1) by (rule refl)+
  show "layout (upd_ino ip f s) = layout s" unfolding layout_def m me b(1,2) by (rule refl)
  show "txn k (upd_ino ip f s) = txn k s" by (simp add: txn_def upd_ino_def)
  show "lq (upd_ino ip f s) H = lq s H"
    using bq_cong [of "upd_ino ip f s" s "set (logblks s)" H "{}"] by (simp add: lq_def logblks_def pinned_ok_def upd_ino_def vq_idle_def)
qed

section \<open>Extending a file\<close>

lemma blocks_ok_entry:
  assumes "blocks_ok s ip" "kept ip s t" "\<And>bn. data_block s bn \<Longrightarrow> data_block t bn" "data_block t a" "\<not> data_block s a"
    "\<And>j. j < MAXFILE \<Longrightarrow> fmap t ip j = (if j = k then a else fmap s ip j)" "i_addrs (inodes t ip) NDIRECT = i_addrs (inodes s ip) NDIRECT"
  shows "blocks_ok t ip"
proof -
  note b = blocks_okD [OF assms(1)]
  have nz: "a \<noteq> 0" by (rule data_block_nz [OF assms(4)])
  have ne: "fmap s ip j \<noteq> a" if "j < MAXFILE" for j using b(3) [OF that] assms(5) nz by metis
  have ni: "a \<noteq> i_addrs (inodes s ip) NDIRECT" using b(5) nz assms(5) by metis
  have D: "data_block t (fmap t ip j) \<and> fmap t ip j \<noteq> i_addrs (inodes t ip) NDIRECT" if "j < MAXFILE" "fmap t ip j \<noteq> 0" for j
    using assms(7) assms(6) [OF that(1)] assms(4) assms(3) [of "fmap s ip j"] b(3) [OF that(1)] ni that(2) by (simp split: if_splits)
  have E: "j = l" if "j < MAXFILE" "l < MAXFILE" "fmap t ip l \<noteq> 0" "fmap t ip j = fmap t ip l" for j l
    using that(3,4) b(4) [OF that(1,2)] ne [OF that(1)] ne [OF that(2)] unfolding assms(6) [OF that(1)] assms(6) [OF that(2)] by (simp split: if_splits)
  show ?thesis
  proof (rule blocks_okI)
    show "i_dev (inodes t ip) = ROOTDEV" "i_inum (inodes t ip) < sb_ninodes (sb t)" unfolding keptD(1,6,7) [OF assms(2)] by (rule b(1,2))+
    show "data_block t (i_addrs (inodes t ip) NDIRECT)" if "i_addrs (inodes t ip) NDIRECT \<noteq> 0" using assms(3) [OF b(5)] that unfolding assms(7) by simp
  qed (rule D E; assumption)+
qed

lemma blocks_ok_index:
  assumes "blocks_ok s ip" "kept ip s t" "\<And>bn. data_block s bn \<Longrightarrow> data_block t bn" "data_block t a" "\<not> data_block s a"
    "\<And>j. j < MAXFILE \<Longrightarrow> fmap t ip j = fmap s ip j" "i_addrs (inodes t ip) NDIRECT = a"
  shows "blocks_ok t ip"
proof -
  note b = blocks_okD [OF assms(1)]
  have D: "data_block t (fmap t ip j) \<and> fmap t ip j \<noteq> a" if "j < MAXFILE" "fmap t ip j \<noteq> 0" for j
    using b(3) [OF that(1)] assms(3,5) that(2) unfolding assms(6) [OF that(1)] by metis
  have E: "j = l" if "j < MAXFILE" "l < MAXFILE" "fmap t ip l \<noteq> 0" "fmap t ip j = fmap t ip l" for j l
    using that(3,4) unfolding assms(6) [OF that(1)] assms(6) [OF that(2)] by (rule b(4) [OF that(1,2)])
  show ?thesis
  proof (rule blocks_okI)
    show "i_dev (inodes t ip) = ROOTDEV" "i_inum (inodes t ip) < sb_ninodes (sb t)" unfolding keptD(1,6,7) [OF assms(2)] by (rule b(1,2))+
    show "data_block t (i_addrs (inodes t ip) NDIRECT)" unfolding assms(7) by (rule assms(4))
    show "data_block t (fmap t ip j) \<and> fmap t ip j \<noteq> i_addrs (inodes t ip) NDIRECT" if "j < MAXFILE" "fmap t ip j \<noteq> 0" for j
      unfolding assms(7) by (rule D [OF that])
  qed (rule E; assumption)
qed

lemma ldw_stw_slot:
  "i < 256 \<Longrightarrow> j < 256 \<Longrightarrow> length d = BSIZE \<Longrightarrow> ldw (4 * j) (stw (4 * i) (v :: u32) d) = (if j = i then v else ldw (4 * j) d)"
  by (cases "i < j") auto

text \<open>Filling a direct address, filling the address of the indirect block, and filling an entry of the indirect block.\<close>

lemma grow_direct:
  assumes "blocks_ok s ip" "balloced a s u" "lg_frame s u" "k < NDIRECT" "fmap s ip k = 0"
  shows "j < MAXFILE \<Longrightarrow> fmap (set_addr ip k a u) ip j = (if j = k then a else fmap s ip j)" "blocks_ok (set_addr ip k a u) ip"
proof -
  let ?t = "set_addr ip k a u"
  note f = lg_frame_fs [OF assms(3)] and al = balloced_keeps [OF assms(2) lg_frame_fs(1) [OF assms(3)] lg_frameD(17) [OF assms(3)]]
  have i: "i_addrs (inodes ?t ip) NDIRECT = i_addrs (inodes s ip) NDIRECT" using assms(4) f by (simp add: set_addr_def)
  have m: "fmap ?t ip j = (if j = k then a else fmap s ip j)" if "j < MAXFILE" for j
    using assms(4) f(2) al(1) [OF blocks_okD(5) [OF assms(1)]] by (auto simp: fmap_def set_addr_def Let_def)
  then show "j < MAXFILE \<Longrightarrow> fmap ?t ip j = (if j = k then a else fmap s ip j)" .
  have "kept ip s ?t" using kept_lg [OF assms(3), of ip] by (simp add: kept_def set_addr_def upd_ino_def)
  then show "blocks_ok ?t ip" by (rule blocks_ok_entry [OF assms(1) _ _ _ al(3) m i]) (simp_all add: set_addr_def al)
qed

lemma grow_index:
  assumes "blocks_ok s ip" "balloced a s u" "lg_frame s u" "i_addrs (inodes s ip) NDIRECT = 0"
  shows "j < MAXFILE \<Longrightarrow> fmap (set_addr ip NDIRECT a u) ip j = fmap s ip j" "blocks_ok (set_addr ip NDIRECT a u) ip"
    "i_addrs (inodes (set_addr ip NDIRECT a u) ip) NDIRECT = a"
proof -
  let ?t = "set_addr ip NDIRECT a u"
  note f = lg_frame_fs [OF assms(3)] and al = balloced_keeps [OF assms(2) lg_frame_fs(1) [OF assms(3)] lg_frameD(17) [OF assms(3)]]
  show i: "i_addrs (inodes ?t ip) NDIRECT = a" by (simp add: set_addr_def)
  have z: "bview u a = replicate BSIZE 0" using assms(2) by (simp add: balloced_def)
  have m: "fmap ?t ip j = fmap s ip j" if "j < MAXFILE" for j
    using f(2) assms(4) z that by (simp add: fmap_def set_addr_def Let_def)
  then show "j < MAXFILE \<Longrightarrow> fmap ?t ip j = fmap s ip j" .
  have "kept ip s ?t" using kept_lg [OF assms(3), of ip] by (simp add: kept_def set_addr_def upd_ino_def)
  then show "blocks_ok ?t ip" by (rule blocks_ok_index [OF assms(1) _ _ _ al(3) m i]) (simp_all add: set_addr_def al)
qed

lemma grow_entry:
  assumes "blocks_ok s ip" "balloced a s u" "lg_frame s u" "lg_frame u v" "i_addrs (inodes s ip) NDIRECT = x" "x \<noteq> 0" "NDIRECT \<le> k" "k < MAXFILE"
    "bview v = (bview u)(x := stw (4 * (k - NDIRECT)) a (bview s x))" "length (bview s x) = BSIZE"
  shows "j < MAXFILE \<Longrightarrow> fmap v ip j = (if j = k then a else fmap s ip j)" "blocks_ok v ip"
proof -
  note su = lg_frame_fs [OF assms(3)] and uv = lg_frame_fs [OF assms(4)]
  note al = balloced_keeps [OF assms(2) su(1) lg_frameD(17) [OF assms(3)]]
  have x: "data_block s x" using blocks_okD(5) [OF assms(1)] assms(5,6) by simp
  then have "\<not> bitmap_block u x" using meta_cong(2) [OF assms(3)] by (simp add: data_block_def meta_def)
  note dw = data_write [OF assms(4,9) this]
  have m: "fmap v ip j = (if j = k then a else fmap s ip j)" if "j < MAXFILE" for j
  proof -
    have "ldw (4 * (j - NDIRECT)) (stw (4 * (k - NDIRECT)) a (bview s x)) = (if j = k then a else ldw (4 * (j - NDIRECT)) (bview s x))" if "NDIRECT \<le> j"
      using that \<open>j < MAXFILE\<close> assms(7,8,10) eq_diff_iff [of NDIRECT j k] by (simp add: ldw_stw_slot)
    then show ?thesis using assms(5-7,9) su(2) uv(2) by (auto simp: fmap_def Let_def)
  qed
  then show "j < MAXFILE \<Longrightarrow> fmap v ip j = (if j = k then a else fmap s ip j)" .
  have "kept ip s v" by (rule kept_trans [OF kept_lg [OF assms(3)] kept_lg [OF assms(4)]])
  then show "blocks_ok v ip" by (rule blocks_ok_entry [OF assms(1) _ _ _ al(3) m]) (simp_all add: dw al su uv)
qed

text \<open>
  What \<open>bmap\<close> may change: it fills holes of the file with zeroed blocks that were free, and every other data block stays as it was.
\<close>

definition grown :: "nat \<Rightarrow> 'a fsst_scheme \<Rightarrow> 'a fsst_scheme \<Rightarrow> bool" where
  "grown ip s t \<longleftrightarrow> kept ip s t \<and> layout t \<and> blocks_ok t ip \<and> i_size (inodes t ip) = i_size (inodes s ip) \<and>
     (i_addrs (inodes t ip) NDIRECT = i_addrs (inodes s ip) NDIRECT \<or> i_addrs (inodes s ip) NDIRECT = 0 \<and> \<not> data_block s (i_addrs (inodes t ip) NDIRECT)) \<and>
     (\<forall>bn. data_block s bn \<longrightarrow> data_block t bn) \<and>
     (\<forall>bn. data_block s bn \<longrightarrow> bn \<noteq> i_addrs (inodes s ip) NDIRECT \<longrightarrow> bview t bn = bview s bn) \<and>
     (\<forall>bn. inode_block s bn \<longrightarrow> bview t bn = bview s bn) \<and>
     (\<forall>j<MAXFILE. fmap s ip j \<noteq> 0 \<longrightarrow> fmap t ip j = fmap s ip j) \<and>
     (\<forall>j<MAXFILE. fmap s ip j = 0 \<longrightarrow> fmap t ip j \<noteq> 0 \<longrightarrow> bview t (fmap t ip j) = replicate BSIZE 0 \<and> \<not> data_block s (fmap t ip j))"

lemma grownD:
  assumes "grown ip s t"
  shows "kept ip s t" "layout t" "blocks_ok t ip" "i_size (inodes t ip) = i_size (inodes s ip)"
    "i_addrs (inodes t ip) NDIRECT = i_addrs (inodes s ip) NDIRECT \<or> i_addrs (inodes s ip) NDIRECT = 0 \<and> \<not> data_block s (i_addrs (inodes t ip) NDIRECT)"
    "data_block s bn \<Longrightarrow> data_block t bn" "data_block s bn \<Longrightarrow> bn \<noteq> i_addrs (inodes s ip) NDIRECT \<Longrightarrow> bview t bn = bview s bn"
    "inode_block s bn \<Longrightarrow> bview t bn = bview s bn" "j < MAXFILE \<Longrightarrow> fmap s ip j \<noteq> 0 \<Longrightarrow> fmap t ip j = fmap s ip j"
    "j < MAXFILE \<Longrightarrow> fmap s ip j = 0 \<Longrightarrow> fmap t ip j \<noteq> 0 \<Longrightarrow> bview t (fmap t ip j) = replicate BSIZE 0 \<and> \<not> data_block s (fmap t ip j)"
  using assms unfolding grown_def by blast+

lemma fmap_view: "bview t = bview s \<Longrightarrow> inodes t = inodes s \<Longrightarrow> fmap t ip k = fmap s ip k"
  by (simp add: fmap_def Let_def)

lemma view_same:
  assumes "lg_frame s t" "bview t = bview s"
  shows "marked t = marked s" "data_block t = data_block s" "free_blocks t = free_blocks s" "layout s \<Longrightarrow> layout t" "fmap t = fmap s" "blocks_ok t = blocks_ok s"
proof -
  note f = lg_frame_fs [OF assms(1)]
  show m: "marked t = marked s" by (rule ext) (rule marked_view [OF assms(2) f(1)])
  have mm: "meta t = meta s" by (rule ext) (rule meta_cong(1) [OF assms(1)])
  show d: "data_block t = data_block s" "free_blocks t = free_blocks s" by (simp_all add: data_block_def [abs_def] free_blocks_def m f mm)
  show "layout t" if "layout s" by (rule layout_cong [OF assms(1) _ that]) (simp add: m)
  show fm: "fmap t = fmap s" by (intro ext) (rule fmap_view [OF assms(2) f(2)])
  show "blocks_ok t = blocks_ok s" by (simp add: blocks_ok_def [abs_def] d fm f)
qed

lemma grown_same:
  assumes "lg_frame s t" "bview t = bview s" "layout s" "blocks_ok s ip"
  shows "grown ip s t"
  by (simp add: grown_def view_same [OF assms(1,2)] assms kept_lg lg_frame_fs [OF assms(1)])

lemma grown_trans:
  assumes st: "grown ip s t" and tu: "grown ip t u"
  shows "grown ip s u"
proof -
  note a = grownD [OF st] and b = grownD [OF tu]
  have i: "inode_block t bn = inode_block s bn" for bn by (rule meta_eq(3)) (rule keptD [OF a(1)])+
  have nt: "bn \<noteq> i_addrs (inodes t ip) NDIRECT" if "data_block s bn" "bn \<noteq> i_addrs (inodes s ip) NDIRECT" for bn using a(5) that by metis
  have x: "i_addrs (inodes u ip) NDIRECT = i_addrs (inodes s ip) NDIRECT \<or> i_addrs (inodes s ip) NDIRECT = 0 \<and> \<not> data_block s (i_addrs (inodes u ip) NDIRECT)"
    using a(5) b(5) a(6) by metis
  have v: "bview u bn = bview s bn" if "data_block s bn" "bn \<noteq> i_addrs (inodes s ip) NDIRECT" for bn
    using a(7) [OF that] b(7) [OF a(6) [OF that(1)] nt [OF that]] by simp
  have m: "fmap u ip j = fmap s ip j" if "j < MAXFILE" "fmap s ip j \<noteq> 0" for j using a(9) [OF that] b(9) [OF that(1)] that(2) by simp
  have z: "bview u (fmap u ip j) = replicate BSIZE 0 \<and> \<not> data_block s (fmap u ip j)" if j: "j < MAXFILE" "fmap s ip j = 0" "fmap u ip j \<noteq> 0" for j
  proof (cases "fmap t ip j = 0")
    case True
    then show ?thesis using b(10) [OF j(1) _ j(3)] a(6) by blast
  next
    case False
    note d = blocks_okD(3) [OF a(3) j(1) False]
    show ?thesis using a(10) [OF j(1,2) False] b(9) [OF j(1) False] b(7) d by simp
  qed
  show ?thesis unfolding grown_def
    using kept_trans [OF a(1) b(1)] b(2,3) a(4) b(4) x v m z a(6,8) b(6,8) i by simp
qed

lemma balloced_views:
  assumes "balloced a s u" "lg_frame s u" "layout s"
  shows "data_block s bn \<Longrightarrow> bview u bn = bview s bn" "inode_block s bn \<Longrightarrow> bview u bn = bview s bn" "layout u" "card (free_blocks s) = card (free_blocks u) + 1"
proof -
  note al = balloced_keeps [OF assms(1) lg_frame_fs(1) [OF assms(2)] lg_frameD(17) [OF assms(2)]]
  show "data_block s bn \<Longrightarrow> bview u bn = bview s bn" using al(1) by blast
  show "bview u bn = bview s bn" if "inode_block s bn"
  proof -
    have "bn \<noteq> a" "\<not> bitmap_block s bn" using that assms(1) layoutD(2) [OF assms(3)] by (auto simp: balloced_def meta_def)
    then show ?thesis using assms(1) by (simp add: balloced_def)
  qed
  show "layout u" by (rule layout_cong [OF assms(2) _ assms(3)]) (use assms(1) in \<open>simp add: balloced_def\<close>)
  show "card (free_blocks s) = card (free_blocks u) + 1" using al(5,6) card_Suc_Diff1 [OF finite_free_blocks al(6)] by simp
qed

section \<open>bmap\<close>

lemma grown_alloc:
  assumes "balloced a s u" "lg_frame s u" "layout s" "layout t" "kept ip s t" "blocks_ok t ip" "i_size (inodes t ip) = i_size (inodes s ip)"
    "i_addrs (inodes t ip) NDIRECT = i_addrs (inodes s ip) NDIRECT \<or> i_addrs (inodes s ip) NDIRECT = 0 \<and> \<not> data_block s (i_addrs (inodes t ip) NDIRECT)"
    "data_block t = data_block u" "\<And>bn. data_block u bn \<or> inode_block s bn \<Longrightarrow> bn \<noteq> i_addrs (inodes s ip) NDIRECT \<or> inode_block s bn \<Longrightarrow> bview t bn = bview u bn"
    "\<And>j. j < MAXFILE \<Longrightarrow> fmap t ip j = fmap s ip j \<or> fmap s ip j = 0 \<and> fmap t ip j = a \<and> a \<noteq> i_addrs (inodes s ip) NDIRECT"
  shows "grown ip s t"
proof -
  note al = balloced_keeps [OF assms(1) lg_frame_fs(1) [OF assms(2)] lg_frameD(17) [OF assms(2)]] and av = balloced_views [OF assms(1-3)]
  have z: "bview u a = replicate BSIZE 0" using assms(1) by (simp add: balloced_def)
  have D: "data_block t bn" if "data_block s bn" for bn using al(1) [OF that] assms(9) by simp
  have V: "bview t bn = bview s bn" if "data_block s bn" "bn \<noteq> i_addrs (inodes s ip) NDIRECT" for bn using assms(10) [of bn] al(1) [OF that(1)] that(2) by simp
  have I: "bview t bn = bview s bn" if "inode_block s bn" for bn using assms(10) [of bn] av(2) [OF that] that by simp
  have M: "fmap t ip j = fmap s ip j" if "j < MAXFILE" "fmap s ip j \<noteq> 0" for j using assms(11) [OF that(1)] that(2) by simp
  have Z: "bview t (fmap t ip j) = replicate BSIZE 0 \<and> \<not> data_block s (fmap t ip j)" if "j < MAXFILE" "fmap s ip j = 0" "fmap t ip j \<noteq> 0" for j
    using assms(11) [OF that(1)] that(2,3) assms(10) [of a] al(2,3) z by auto
  show ?thesis unfolding grown_def using assms(4-8) D V I M Z by blast
qed

lemma slot_ok:
  assumes q: "lq s {}" and L: "layout s" and B: "blocks_ok s ip" and x: "txn 2 s" and f: "free_blocks s \<noteq> {}" and i: "i \<le> NDIRECT"
  shows "\<exists>a t. bmap_slot ip i s = Inr (a, t) \<and> lq t {} \<and> grown ip s t \<and> a = i_addrs (inodes t ip) i \<and> a \<noteq> 0 \<and> lh_n t \<le> lh_n s + 2 \<and>
    card (free_blocks s) \<le> card (free_blocks t) + 1"
proof (cases "i_addrs (inodes s ip) i = 0")
  case False
  then show ?thesis using q grown_same [OF lg_frame_refl refl L B] by (simp add: bmap_slot_def)
next
  case True
  obtain a u where u: "balloc ROOTDEV s = Inr (a, u)" "lq u {}" "balloced a s u" "lg_frame s u" "lh_n u \<le> lh_n s + 2"
    using balloc_ok [OF q L x] f by (auto simp: free_blocks_def)
  note al = balloced_keeps [OF u(3) lg_frame_fs(1) [OF u(4)] lg_frameD(17) [OF u(4)]] and av = balloced_views [OF u(3,4) L]
  let ?t = "set_addr ip i a u"
  have k: "kept ip s ?t" using kept_lg [OF u(4), of ip] by (simp add: kept_def set_addr_def upd_ino_def)
  have t: "layout ?t" "i_size (inodes ?t ip) = i_size (inodes s ip)" "data_block ?t = data_block u" "bview ?t = bview u" "free_blocks ?t = free_blocks u"
    using av(3) lg_frame_fs(2) [OF u(4)] by (simp_all add: set_addr_def)
  have ni: "a \<noteq> i_addrs (inodes s ip) NDIRECT" using blocks_okD(5) [OF B] al(3,4) by metis
  have "grown ip s ?t"
  proof (cases "i = NDIRECT")
    case True
    note g = grow_index [OF B u(3,4)]
    show ?thesis
      by (rule grown_alloc [OF u(3,4) L t(1) k _ t(2) _ t(3)])
        (use g True \<open>i_addrs (inodes s ip) i = 0\<close> al(3) t(4) in auto)
  next
    case False
    then have i: "i < NDIRECT" using assms(6) by simp
    have "fmap s ip i = 0" using True i by (simp add: fmap_def)
    note g = grow_direct [OF B u(3,4) i this]
    have "i_addrs (inodes ?t ip) NDIRECT = i_addrs (inodes s ip) NDIRECT" using False lg_frame_fs(2) [OF u(4)] by (simp add: set_addr_def)
    then show ?thesis
      by (intro grown_alloc [OF u(3,4) L t(1) k g(2) t(2) _ t(3)]) (use g(1) \<open>fmap s ip i = 0\<close> t(4) ni in auto)
  qed
  moreover have "lq ?t {}" "lh_n ?t = lh_n u" "i_addrs (inodes ?t ip) i = a" using u(2) by (simp_all add: set_addr_def)
  ultimately show ?thesis using u(1,5) True al(4) av(4) t(5) blocks_okD(1) [OF B] by (simp add: bmap_slot_def)
qed

lemma entry_ok:
  assumes q: "lq s {}" and L: "layout s" and B: "blocks_ok s ip" and x: "txn 3 s" and f: "free_blocks s \<noteq> {}" and k: "NDIRECT \<le> k" "k < MAXFILE"
    and y: "y = i_addrs (inodes s ip) NDIRECT" "y \<noteq> 0"
  shows "\<exists>a t. bmap_entry ip y (k - NDIRECT) s = Inr (a, t) \<and> lq t {} \<and> grown ip s t \<and> a = fmap t ip k \<and> a \<noteq> 0 \<and> lh_n t \<le> lh_n s + 3 \<and>
    card (free_blocks s) \<le> card (free_blocks t) + 1 \<and> (fmap s ip k \<noteq> 0 \<longrightarrow> lg_frame s t \<and> bview t = bview s \<and> lh_n t = lh_n s)"
proof -
  have Y: "data_block s y" using blocks_okD(5) [OF B] y by simp
  note yf = data_block_facts [OF L Y]
  have n: "lh_n s + 3 < int LOGSIZE" using txnD [OF x] by simp
  obtain b u where u: "bread ROOTDEV y s = Inr (b, u)" "lq u {b}" "b_data (bufs u b) = bview s y" "b_blockno (bufs u b) = y" "bview u = bview s" "lg_frame s u" "lh_n u = lh_n s"
    using read_block [OF q yf(1)] n by auto
  note su = view_same [OF u(6,5)] and fu = lg_frame_fs [OF u(6)]
  have m: "fmap s ip k = ldw (4 * (k - NDIRECT)) (bview s y)" using k y by (simp add: fmap_def Let_def)
  show ?thesis
  proof (cases "fmap s ip k = 0")
    case False
    obtain t where t: "brelse b u = Inr t" "lq t {}" "bview t = bview u" "lg_frame u t" "lh_n t = lh_n u"
      using drop_block [OF u(2), of b] by auto
    have st: "lg_frame s t" "bview t = bview s" using lg_frame_trans [OF u(6) t(4)] t(3) u(5) by simp_all
    show ?thesis using False u(1,3,7) t(1,2,5) st m blocks_okD(1) [OF B] grown_same [OF st L B] view_same [OF st] by (simp add: bmap_entry_def)
  next
    case True
    have "txn 2 u" by (rule txn_frame [OF x u(6)]) (simp add: u(7))
    moreover have "\<not> bitmap_block u y \<and> marked u (unat y)" using yf(3) Y meta_cong(2) [OF u(6)] su(1) by (simp add: data_block_def)
    ultimately obtain a v where v: "balloc ROOTDEV u = Inr (a, v)" "lq v {b}" "balloced a u v" "lg_frame u v" "held_same {b} u v" "lh_n v \<le> lh_n u + 2"
      using balloc_ok [OF u(2) su(4) [OF L]] f u(4) su(3) by (auto simp: free_blocks_def fu)
    have Bu: "blocks_ok u ip" using B su(6) by simp
    have bv: "b_blockno (bufs v b) = y" "b_data (bufs v b) = bview u y" using held_sameD [OF v(5)] u(3-5) by simp_all
    let ?d = "stw (4 * (k - NDIRECT)) a (bview u y)"
    have ld: "length (bview u y) = BSIZE" "length ?d = BSIZE" using lq_len [OF u(2), of y] k by simp_all
    have "txn 1 v" by (rule txn_frame [OF x lg_frame_trans [OF u(6) v(4)]]) (use u(7) v(6) in simp)
    then obtain w where w: "log_write b (set_bdata b ?d v) = Inr w" "lq w {b}" "bview w = (bview v)(y := ?d)" "lg_frame v w" "lh_n w \<le> lh_n v + 1"
      using write_block [OF v(2), of b ?d] yf(2) bv(1) ld(2) lg_frameD(17) [OF lg_frame_trans [OF u(6) v(4)]] by auto
    obtain t where t: "brelse b w = Inr t" "lq t {}" "bview t = bview w" "lg_frame w t" "lh_n t = lh_n w"
      using drop_block [OF w(2), of b] by auto
    have vt: "lg_frame v t" "bview t = (bview v)(y := ?d)" using lg_frame_trans [OF w(4) t(4)] t(3) w(3) by simp_all
    have yu: "i_addrs (inodes u ip) NDIRECT = y" using y fu by simp
    note g = grow_entry [OF Bu v(3,4) vt(1) yu y(2) k vt(2) ld(1)] and av = balloced_views [OF v(3,4) su(4) [OF L]]
    have nb: "\<not> bitmap_block v y" using yf(3) meta_cong(2) [OF lg_frame_trans [OF u(6) v(4)]] by simp
    note dw = data_write [OF vt nb]
    have ki: "kept ip u t" "i_size (inodes t ip) = i_size (inodes u ip)" "i_addrs (inodes t ip) NDIRECT = i_addrs (inodes u ip) NDIRECT"
      using kept_lg [OF lg_frame_trans [OF v(4) vt(1)]] lg_frame_fs(2) [OF lg_frame_trans [OF v(4) vt(1)]] by simp_all
    have al: "a \<noteq> 0" "a \<noteq> y" using balloced_keeps(3,4) [OF v(3) lg_frame_fs(1) [OF v(4)] lg_frameD(17) [OF v(4)]] Y su(2) by auto
    have "grown ip u t"
      by (rule grown_alloc [OF v(3,4) su(4) [OF L] dw(3) [OF av(3)] ki(1) g(2) ki(2) _ dw(1)])
        (use ki(3) vt(2) yu yf(4) meta_cong(3) [OF u(6)] g(1) True su(5) al(2) in auto)
    then have "grown ip s t" by (rule grown_trans [OF grown_same [OF u(6,5) L B]])
    moreover have "fmap t ip k = a" using g(1) [OF k(2)] by simp
    ultimately show ?thesis
      using True u(1,3,5,7) v(1,6) w(1,5) t(1,2,5) bv m blocks_okD(1) [OF B] fu al(1) av(4) dw(2) su(3) by (simp add: bmap_entry_def)
  qed
qed

lemma bmap_of_nat:
  "k < NDIRECT \<Longrightarrow> bmap ip (of_nat k) s = bmap_slot ip k s"
  "\<not> k < NDIRECT \<Longrightarrow> k < MAXFILE \<Longrightarrow> bmap ip (of_nat k) s = bnd (bmap_slot ip NDIRECT s) (\<lambda>(addr, s). bmap_entry ip addr (k - NDIRECT) s)"
  by (auto simp: bmap_def Let_def unat_of_nat_u32)

text \<open>A lookup of a block the file has changes nothing; a lookup of a hole fills it.\<close>

lemma bmap_ok:
  assumes q: "lq s {}" and L: "layout s" and B: "blocks_ok s ip" and x: "txn 5 s" and f: "card (free_blocks s) \<ge> 2" and k: "k < MAXFILE"
  shows "\<exists>t. bmap ip (of_nat k) s = Inr (fmap t ip k, t) \<and> lq t {} \<and> grown ip s t \<and> fmap t ip k \<noteq> 0 \<and> lh_n t \<le> lh_n s + 5 \<and> card (free_blocks s) \<le> card (free_blocks t) + 2"
proof -
  have ne: "free_blocks s \<noteq> {}" and x2: "txn 2 s" using f x by (auto simp: txn_def)
  show ?thesis
  proof (cases "k < NDIRECT")
    case True
    then obtain t where "bmap_slot ip k s = Inr (i_addrs (inodes t ip) k, t)" "lq t {}" "grown ip s t" "i_addrs (inodes t ip) k \<noteq> 0" "lh_n t \<le> lh_n s + 2" "card (free_blocks s) \<le> card (free_blocks t) + 1"
      using slot_ok [OF q L B x2 ne, of k] by auto
    then show ?thesis using True by (auto simp: bmap_of_nat fmap_def)
  next
    case False
    obtain y t where t: "bmap_slot ip NDIRECT s = Inr (y, t)" "lq t {}" "grown ip s t" "y = i_addrs (inodes t ip) NDIRECT" "y \<noteq> 0" "lh_n t \<le> lh_n s + 2" "card (free_blocks s) \<le> card (free_blocks t) + 1"
      using slot_ok [OF q L B x2 ne, of NDIRECT] by auto
    note g = grownD [OF t(3)]
    have "txn 3 t" by (rule txn_kept [OF x g(1)]) (use t(6) in simp)
    moreover have "free_blocks t \<noteq> {}" using f t(7) by auto
    ultimately obtain w where "bmap_entry ip y (k - NDIRECT) t = Inr (fmap w ip k, w)" "lq w {}" "grown ip t w" "fmap w ip k \<noteq> 0" "lh_n w \<le> lh_n t + 3" "card (free_blocks t) \<le> card (free_blocks w) + 1"
      using entry_ok [OF t(2) g(2,3) _ _ _ k t(4,5)] False by auto
    then show ?thesis using t(1,6,7) grown_trans [OF t(3)] unfolding bmap_of_nat(2) [OF False k] by fastforce
  qed
qed

lemma bmap_mapped:
  assumes q: "lq s {}" and L: "layout s" and B: "blocks_ok s ip" and k: "k < MAXFILE" and m: "fmap s ip k \<noteq> 0" and n: "lh_n s < int NBUF"
  shows "\<exists>t. bmap ip (of_nat k) s = Inr (fmap s ip k, t) \<and> lq t {} \<and> lg_frame s t \<and> bview t = bview s \<and> lh_n t = lh_n s"
proof (cases "k < NDIRECT")
  case True
  then show ?thesis using q m k by (auto simp: bmap_of_nat bmap_slot_def fmap_def)
next
  case False
  let ?y = "i_addrs (inodes s ip) NDIRECT"
  have y: "?y \<noteq> 0" "fmap s ip k = ldw (4 * (k - NDIRECT)) (bview s ?y)" using m False by (auto simp: fmap_def Let_def split: if_splits)
  have "data_block s ?y" using blocks_okD(5) [OF B y(1)] .
  note yf = data_block_facts [OF L this]
  obtain b u where u: "bread ROOTDEV ?y s = Inr (b, u)" "lq u {b}" "b_data (bufs u b) = bview s ?y" "bview u = bview s" "lg_frame s u" "lh_n u = lh_n s"
    using read_block [OF q yf(1)] n by auto
  obtain t where t: "brelse b u = Inr t" "lq t {}" "bview t = bview u" "lg_frame u t" "lh_n t = lh_n u"
    using drop_block [OF u(2), of b] by auto
  show ?thesis using y m u t blocks_okD(1) [OF B] lg_frame_trans [OF u(5) t(4)] unfolding bmap_of_nat(2) [OF False k] by (simp add: bmap_slot_def bmap_entry_def)
qed

end
