(* ===== verification/File_Content.thy ===== *)
theory File_Content
  imports File_Map Examples
begin

text \<open>
  Files as sequences of bytes. \<open>file_bytes\<close> is the contents of an inode through its blocks and its size, and \<open>file_ok\<close> says that the file has a block for each byte below
  its size. \<open>readi\<close> and \<open>writei\<close> read and replace a range of the bytes; a write changes no other file, and leaves on the disk the inode that is in the cache.
\<close>

section \<open>The bytes of a file\<close>

definition cont :: "'a fsst_scheme \<Rightarrow> nat \<Rightarrow> nat \<Rightarrow> u8" where
  "cont s ip i = (let a = fmap s ip (i div BSIZE) in if a = 0 then 0 else bview s a ! (i mod BSIZE))"

definition file_bytes :: "'a fsst_scheme \<Rightarrow> nat \<Rightarrow> u8 list" where
  "file_bytes s ip = map (cont s ip) [0..<unat (i_size (inodes s ip))]"

definition file_ok :: "'a fsst_scheme \<Rightarrow> nat \<Rightarrow> bool" where
  "file_ok s ip \<longleftrightarrow> blocks_ok s ip \<and> unat (i_size (inodes s ip)) \<le> MAXFILE * BSIZE \<and>
     (\<forall>k<MAXFILE. k * BSIZE < unat (i_size (inodes s ip)) \<longrightarrow> fmap s ip k \<noteq> 0)"

lemma same_cont:
  assumes "lg_frame s t" "bview t = bview s"
  shows "cont t = cont s" "file_bytes t = file_bytes s" "file_ok t = file_ok s"
  by (simp_all add: fun_eq_iff cont_def file_bytes_def file_ok_def Let_def view_same(5,6) [OF assms] assms(2) lg_frame_fs [OF assms(1)])

lemma div_mod_add:
  assumes "off mod k + i < (k :: nat)"
  shows "(off + i) div k = off div k" "(off + i) mod k = off mod k + i"
proof -
  have "off + i = k * (off div k) + (off mod k + i)" by simp
  then show "(off + i) div k = off div k" "(off + i) mod k = off mod k + i" using assms by (metis div_mult_self4 div_less add.right_neutral less_nat_zero_code not_less0, metis mod_mult_self4 mod_less)
qed

lemma cont_block:
  assumes "fmap s ip (off div BSIZE) \<noteq> 0" "off mod BSIZE + m \<le> BSIZE" "length (bview s (fmap s ip (off div BSIZE))) = BSIZE"
  shows "getb (off mod BSIZE) m (bview s (fmap s ip (off div BSIZE))) = map (cont s ip) [off..<off + m]"
proof (rule nth_equalityI)
  show "length (getb (off mod BSIZE) m (bview s (fmap s ip (off div BSIZE)))) = length (map (cont s ip) [off..<off + m])" using assms by (simp add: getb_def)
  fix i assume "i < length (getb (off mod BSIZE) m (bview s (fmap s ip (off div BSIZE))))"
  then have i: "i < m" using assms by (simp add: getb_def)
  have "off mod BSIZE + i < BSIZE" using i assms(2) by simp
  note div_mod_add [OF this]
  then show "getb (off mod BSIZE) m (bview s (fmap s ip (off div BSIZE))) ! i = map (cont s ip) [off..<off + m] ! i"
    using i assms by (simp add: getb_def cont_def)
qed

lemma sint_small:
  assumes "unat (m :: u32) < 2147483648"
  shows "sint m = int (unat m)"
proof -
  have "int (unat m) < int 2147483648" using assms by (simp only: of_nat_less_iff)
  then have u: "uint m < 2147483648" "0 \<le> uint m" by simp_all
  have "signed_take_bit 31 (uint m) = uint m" by (rule signed_take_bit_int_eq_self) (use u in \<open>simp, linarith\<close>, use u in simp)
  then show ?thesis by (simp add: sint_uint)
qed

text \<open>One round of the loops of \<open>readi\<close> and \<open>writei\<close>.\<close>

lemma io_step:
  fixes off n tot :: u32
  assumes "tot < n" "unat off + unat (n - tot) \<le> MAXFILE * BSIZE"
  defines "m \<equiv> io_len off tot n"
  shows "0 < unat m" "unat m \<le> unat (n - tot)" "unat off mod BSIZE + unat m \<le> BSIZE" "unat (off + m) = unat off + unat m"
    "unat (n - (tot + m)) = unat (n - tot) - unat m" "tot + m \<le> n" "off div 1024 = of_nat (unat off div BSIZE)" "unat (off mod 1024) = unat off mod BSIZE"
    "unat off div BSIZE < MAXFILE" "unat m < unat (n - tot) \<Longrightarrow> unat off mod BSIZE + unat m = BSIZE"
proof -
  note b = io_len_bounds [OF assms(1), of off, folded m_def]
  have o: "unat (off mod 1024) < 1024" by (simp add: unat_mod)
  then have u: "unat (1024 - off mod 1024) = 1024 - unat (off mod 1024)" by (simp add: unat_sub word_le_nat_alt)
  show "unat off mod BSIZE + unat m = BSIZE" if "unat m < unat (n - tot)"
    using that u o by (auto simp: m_def io_len_def min_def unat_mod split: if_splits)
  show pos: "0 < unat m" and le: "unat m \<le> unat (n - tot)" using b(1,2) by (simp_all add: word_less_nat_alt word_le_nat_alt)
  show "unat (off mod 1024) = unat off mod BSIZE" by (simp add: unat_mod)
  then show "unat off mod BSIZE + unat m \<le> BSIZE" using b(4) by simp
  show "unat (off + m) = unat off + unat m" by (rule unat_add_lem [THEN iffD1]) (use assms(2) le in simp)
  have "n - (tot + m) = n - tot - m" by simp
  then show "unat (n - (tot + m)) = unat (n - tot) - unat m" using unat_sub [OF b(2)] by metis
  have "unat (n - tot) = unat n - unat tot" using assms(1) by (simp add: unat_sub word_less_nat_alt word_le_nat_alt)
  then have "unat tot + unat m \<le> unat n" using le assms(1) by (simp add: word_less_nat_alt)
  moreover from this have "unat (tot + m) = unat tot + unat m" by (intro unat_add_lem [THEN iffD1]) (use unsigned_less [of n, where ?'a = nat] in simp)
  ultimately show "tot + m \<le> n" by (simp add: word_le_nat_alt)
  show k: "unat off div BSIZE < MAXFILE" using assms(2) pos le by (simp add: less_mult_imp_div_less)
  show "off div 1024 = of_nat (unat off div BSIZE)" by (rule word_unat_eq_iff [THEN iffD2]) (use k in \<open>simp add: unat_div unat_of_nat_u32\<close>)
qed

lemma readi_loop_ok:
  assumes "lq s {}" "layout s" "blocks_ok s ip" "lh_n s < int NBUF" "tot \<le> n" "unat off + unat (n - tot) \<le> MAXFILE * BSIZE"
    "\<And>i. unat off \<le> i \<Longrightarrow> i < unat off + unat (n - tot) \<Longrightarrow> fmap s ip (i div BSIZE) \<noteq> 0"
  shows "\<exists>t. readi_loop ip ToObj off n tot s = Inr (n, map (cont s ip) [unat off..<unat off + unat (n - tot)], t) \<and> lq t {} \<and> lg_frame s t \<and> bview t = bview s \<and> lh_n t = lh_n s"
  using assms
proof (induction "unat (n - tot)" arbitrary: off tot s rule: less_induct)
  case less
  note q = less.prems(1) and L = less.prems(2) and B = less.prems(3) and n = less.prems(4)
  show ?case
  proof (cases "tot < n")
    case False
    then have "tot = n" using less.prems(5) by simp
    then show ?thesis using q by (simp add: readi_loop.simps)
  next
    case True
    define m where "m = io_len off tot n"
    note i = io_step [OF True less.prems(6), folded m_def]
    let ?a = "fmap s ip (unat off div BSIZE)"
    have a: "?a \<noteq> 0" by (rule less.prems(7)) (use i(1,2) in simp_all)
    note d = data_block_facts [OF L conjunct1 [OF blocks_okD(3) [OF B i(9) a]]]
    obtain u where u: "bmap ip (of_nat (unat off div BSIZE)) s = Inr (?a, u)" "lq u {}" "lg_frame s u" "bview u = bview s" "lh_n u = lh_n s"
      using bmap_mapped [OF q L B i(9) a n] by blast
    obtain b v where v: "bread ROOTDEV ?a u = Inr (b, v)" "lq v {b}" "b_data (bufs v b) = bview u ?a" "bview v = bview u" "lg_frame u v" "lh_n v = lh_n u"
      using read_block [OF u(2) d(1)] n u(5) by auto
    obtain w where w: "brelse b v = Inr w" "lq w {}" "bview w = bview v" "lg_frame v w" "lh_n w = lh_n v"
      using drop_block [OF v(2), of b] by auto
    have sw: "lg_frame s w" "bview w = bview s" using lg_frame_trans [OF u(3) lg_frame_trans [OF v(5) w(4)]] u(4) v(4) w(3) by simp_all
    note sv = view_same [OF sw]
    have "unat (n - (tot + m)) < unat (n - tot)" using i(1,2,5) by simp
    then obtain t where t: "readi_loop ip ToObj (off + m) n (tot + m) w = Inr (n, map (cont w ip) [unat (off + m)..<unat (off + m) + unat (n - (tot + m))], t)"
      "lq t {}" "lg_frame w t" "bview t = bview w" "lh_n t = lh_n w"
      using less.hyps [of "tot + m" w "off + m"] w(2) sv(4) [OF L] sv(5,6) B n u(5) v(6) w(5) i less.prems(6,7) by auto
    have e: "getb (unat off mod BSIZE) (unat m) (bview s ?a) = map (cont s ip) [unat off..<unat off + unat m]"
      by (rule cont_block [OF a i(3) lq_len [OF q]])
    have "[unat off..<unat off + unat (n - tot)] = [unat off..<unat off + unat m] @ [unat (off + m)..<unat (off + m) + unat (n - (tot + m))]"
      using i(2,4,5) upt_add_eq_append [of "unat off" "unat off + unat m" "unat (n - tot) - unat m"] by simp
    then show ?thesis
      using True t u v w i(7,8) e same_cont(1) [OF sw] lg_frame_trans [OF sw(1) t(3)] sw(2) blocks_okD(1) [OF B] lg_frame_fs(2) [OF u(3)]
      by (simp add: readi_loop.simps [of ip ToObj off n tot s] m_def [symmetric] Let_def)
  qed
qed

text \<open>A read returns the bytes of the range that the file has, and changes neither the disk nor an inode.\<close>

lemma readi_ok:
  assumes q: "lq s {}" and L: "layout s" and F: "file_ok s ip" and n: "lh_n s < int NBUF" and nw: "unat off + unat n < 2 ^ 32"
  defines "bs \<equiv> take (unat n) (drop (unat off) (file_bytes s ip))"
  shows "\<exists>t. readi ip ToObj off n s = Inr (int (length bs), bs, t) \<and> lq t {} \<and> lg_frame s t \<and> bview t = bview s \<and> lh_n t = lh_n s"
proof -
  let ?sz = "i_size (inodes s ip)"
  have f: "blocks_ok s ip" "unat ?sz \<le> MAXFILE * BSIZE" using F by (simp_all add: file_ok_def)
  have on: "unat (off + n) = unat off + unat n" by (rule unat_add_lem [THEN iffD1]) (use nw in simp)
  then have nov: "\<not> off + n < off" by (simp add: word_less_nat_alt)
  show ?thesis
  proof (cases "?sz < off")
    case True
    then have "bs = []" by (simp add: bs_def file_bytes_def word_less_nat_alt)
    then show ?thesis using True q by (simp add: readi_def)
  next
    case False
    define m where "m = (if off + n > ?sz then ?sz - off else n)"
    have le: "off \<le> ?sz" using False by simp
    have um: "unat m = min (unat n) (unat ?sz - unat off)" using on le by (auto simp: m_def unat_sub word_less_nat_alt word_le_nat_alt)
    have b: "unat off + unat m \<le> unat ?sz" using um le by (simp add: word_le_nat_alt)
    have mp: "fmap s ip (i div BSIZE) \<noteq> 0" if "i < unat off + unat m" for i
    proof -
      have "i div BSIZE * BSIZE \<le> i" by simp
      then have "i div BSIZE * BSIZE < unat ?sz" "i div BSIZE < MAXFILE" using that b f(2) by (simp_all add: less_mult_imp_div_less)
      then show ?thesis using F by (simp add: file_ok_def)
    qed
    obtain t where t: "readi_loop ip ToObj off m 0 s = Inr (m, map (cont s ip) [unat off..<unat off + unat m], t)" "lq t {}" "lg_frame s t" "bview t = bview s" "lh_n t = lh_n s"
      using readi_loop_ok [OF q L f(1) n, of 0 m off] b f(2) mp by auto
    have bs: "bs = map (cont s ip) [unat off..<unat off + unat m]"
      using le by (auto simp: bs_def file_bytes_def drop_map take_map um min_def word_le_nat_alt)
    have "sint m = int (unat m)" by (rule sint_small) (use b f(2) in simp)
    then show ?thesis using False nov t bs by (simp add: readi_def m_def [symmetric] Let_def)
  qed
qed

section \<open>Writing\<close>

definition fowns :: "'a fsst_scheme \<Rightarrow> nat \<Rightarrow> u32 \<Rightarrow> bool" where
  "fowns s ip bn \<longleftrightarrow> bn = i_addrs (inodes s ip) NDIRECT \<or> (\<exists>j<MAXFILE. bn = fmap s ip j)"

text \<open>What a write to a file may change: the blocks the file has, and blocks that were free.\<close>

definition extended :: "nat \<Rightarrow> 'a fsst_scheme \<Rightarrow> 'a fsst_scheme \<Rightarrow> bool" where
  "extended ip s t \<longleftrightarrow> kept ip s t \<and> layout t \<and> blocks_ok t ip \<and>
     (\<forall>j<MAXFILE. fmap s ip j \<noteq> 0 \<longrightarrow> fmap t ip j = fmap s ip j) \<and>
     (\<forall>bn. data_block s bn \<longrightarrow> data_block t bn) \<and>
     (\<forall>bn. data_block s bn \<longrightarrow> \<not> fowns s ip bn \<longrightarrow> \<not> fowns t ip bn \<and> bview t bn = bview s bn)"

lemma extendedD:
  assumes "extended ip s t"
  shows "kept ip s t" "layout t" "blocks_ok t ip" "j < MAXFILE \<Longrightarrow> fmap s ip j \<noteq> 0 \<Longrightarrow> fmap t ip j = fmap s ip j"
    "data_block s bn \<Longrightarrow> data_block t bn" "data_block s bn \<Longrightarrow> \<not> fowns s ip bn \<Longrightarrow> \<not> fowns t ip bn \<and> bview t bn = bview s bn"
  using assms unfolding extended_def by blast+

lemma extended_refl: "layout s \<Longrightarrow> blocks_ok s ip \<Longrightarrow> extended ip s s"
  by (simp add: extended_def kept_lg)

lemma extended_trans:
  assumes "extended ip s t" "extended ip t u"
  shows "extended ip s u"
proof -
  note a = extendedD [OF assms(1)] and b = extendedD [OF assms(2)]
  have "fmap u ip j = fmap s ip j" if "j < MAXFILE" "fmap s ip j \<noteq> 0" for j using a(4) [OF that] b(4) [OF that(1)] that(2) by simp
  moreover have "\<not> fowns u ip bn \<and> bview u bn = bview s bn" if "data_block s bn" "\<not> fowns s ip bn" for bn
    using a(6) [OF that] b(6) [OF a(5) [OF that(1)]] by simp
  ultimately show ?thesis unfolding extended_def using kept_trans [OF a(1) b(1)] b(2,3) a(5) b(5) by blast
qed

lemma grown_extended:
  assumes "grown ip s t"
  shows "extended ip s t"
proof -
  note g = grownD [OF assms]
  have "\<not> fowns t ip bn \<and> bview t bn = bview s bn" if bn: "data_block s bn" "\<not> fowns s ip bn" for bn
  proof -
    have i: "bn \<noteq> i_addrs (inodes s ip) NDIRECT" using bn(2) by (simp add: fowns_def)
    then have it: "bn \<noteq> i_addrs (inodes t ip) NDIRECT" using g(5) bn(1) by metis
    have "bn \<noteq> fmap t ip j" if "j < MAXFILE" for j
    proof (cases "fmap s ip j = 0")
      case True
      then show ?thesis using g(10) [OF that True] bn(1) data_block_nz by metis
    next
      case False
      then show ?thesis using g(9) [OF that False] bn(2) that by (auto simp: fowns_def)
    qed
    then show ?thesis using it g(7) [OF bn(1) i] by (auto simp: fowns_def)
  qed
  then show ?thesis unfolding extended_def using g(1-3,6,9) by blast
qed

lemma grown_cont:
  assumes "grown ip s t" "blocks_ok s ip" "i < MAXFILE * BSIZE"
  shows "cont t ip i = cont s ip i"
proof -
  note g = grownD [OF assms(1)]
  have k: "i div BSIZE < MAXFILE" using assms(3) by (simp add: less_mult_imp_div_less)
  show ?thesis
  proof (cases "fmap s ip (i div BSIZE) = 0")
    case True
    then show ?thesis using g(10) [OF k True] by (auto simp: cont_def Let_def)
  next
    case False
    then show ?thesis using g(9) [OF k False] g(7) blocks_okD(3) [OF assms(2) k False] by (simp add: cont_def Let_def)
  qed
qed

text \<open>Replacing the contents of one block of the file.\<close>

lemma write_data:
  assumes "lg_frame s t" "bview t = (bview s)(fmap s ip k := d)" "layout s" "blocks_ok s ip" "k < MAXFILE" "fmap s ip k \<noteq> 0"
  shows "extended ip s t" "fmap t ip = fmap s ip" "free_blocks t = free_blocks s" "inode_block s bn \<Longrightarrow> bview t bn = bview s bn"
    "i < MAXFILE * BSIZE \<Longrightarrow> cont t ip i = (if i div BSIZE = k then d ! (i mod BSIZE) else cont s ip i)"
proof -
  note f = lg_frame_fs [OF assms(1)] and b = blocks_okD [OF assms(4)]
  note bk = b(3) [OF assms(5,6)] and df = data_block_facts [OF assms(3) conjunct1 [OF b(3) [OF assms(5,6)]]]
  note dw = data_write [OF assms(1,2) df(3)]
  have "bview t (i_addrs (inodes s ip) NDIRECT) = bview s (i_addrs (inodes s ip) NDIRECT)" using bk assms(2) by auto
  then show m: "fmap t ip = fmap s ip" by (intro ext) (simp add: fmap_def Let_def f(2))
  show "free_blocks t = free_blocks s" by (rule dw(2))
  show "inode_block s bn \<Longrightarrow> bview t bn = bview s bn" using df(4) assms(2) by auto
  have o: "fowns t ip = fowns s ip" by (rule ext) (simp add: fowns_def m f)
  have ok: "blocks_ok t ip" using assms(4) by (simp add: blocks_ok_def m f dw(1))
  have "bview t bn = bview s bn" if "\<not> fowns s ip bn" for bn using that assms(2,5) by (auto simp: fowns_def)
  then show "extended ip s t" unfolding extended_def using kept_lg [OF assms(1)] dw(1) dw(3) [OF assms(3)] ok m o by simp
  show "cont t ip i = (if i div BSIZE = k then d ! (i mod BSIZE) else cont s ip i)" if i: "i < MAXFILE * BSIZE"
  proof -
    have k: "i div BSIZE < MAXFILE" using i by (simp add: less_mult_imp_div_less)
    show ?thesis using b(4) [OF k assms(5,6)] assms(2,6) by (auto simp: cont_def Let_def m)
  qed
qed

text \<open>
  Each round of the loop of \<open>writei\<close> writes at most six blocks into the log and takes at most two free blocks; \<open>r\<close> bounds the number of rounds.
\<close>

lemma write_round:
  assumes q: "lq s {}" and L: "layout s" and B: "blocks_ok s ip" and x: "txn 6 s" and f: "card (free_blocks s) \<ge> 2" and k: "k < MAXFILE"
    and o: "o' + length ys \<le> BSIZE"
  shows "\<exists>a u b v w t. bmap ip (of_nat k) s = Inr (a, u) \<and> i_dev (inodes u ip) = ROOTDEV \<and> bread ROOTDEV a u = Inr (b, v) \<and>
    log_write b (set_bdata b (putb o' ys (b_data (bufs v b))) v) = Inr w \<and> brelse b w = Inr t \<and>
    lq t {} \<and> extended ip s t \<and> i_size (inodes t ip) = i_size (inodes s ip) \<and> lh_n t \<le> lh_n s + 6 \<and> card (free_blocks s) \<le> card (free_blocks t) + 2 \<and> fmap t ip k \<noteq> 0 \<and>
    (\<forall>bn. inode_block s bn \<longrightarrow> bview t bn = bview s bn) \<and>
    (\<forall>i<MAXFILE * BSIZE. cont t ip i = (if i div BSIZE = k \<and> o' \<le> i mod BSIZE \<and> i mod BSIZE < o' + length ys then ys ! (i mod BSIZE - o') else cont s ip i))"
proof -
  have "txn 5 s" using x by (simp add: txn_def)
  then obtain u where u: "bmap ip (of_nat k) s = Inr (fmap u ip k, u)" "lq u {}" "grown ip s u" "fmap u ip k \<noteq> 0" "lh_n u \<le> lh_n s + 5" "card (free_blocks s) \<le> card (free_blocks u) + 2"
    using bmap_ok [OF q L B _ f k] by blast
  note g = grownD [OF u(3)]
  let ?a = "fmap u ip k"
  note a = blocks_okD(3) [OF g(3) k u(4)] and d = data_block_facts [OF g(2) conjunct1 [OF blocks_okD(3) [OF g(3) k u(4)]]]
  have tu: "txn 1 u" by (rule txn_kept [OF x g(1)]) (use u(5) in simp)
  then obtain b v where v: "bread ROOTDEV ?a u = Inr (b, v)" "lq v {b}" "b_data (bufs v b) = bview u ?a" "b_blockno (bufs v b) = ?a" "bview v = bview u" "lg_frame u v" "lh_n v = lh_n u"
    using read_block [OF u(2) d(1)] txnD [OF tu] by auto
  let ?d = "putb o' ys (bview u ?a)"
  have ld: "length (bview u ?a) = BSIZE" by (rule lq_len [OF u(2)])
  then have ld': "length ?d = BSIZE" using o by (simp add: putb_def)
  have "txn 1 v" by (rule txn_frame [OF tu v(6)]) (simp add: v(7))
  then obtain w where w: "log_write b (set_bdata b ?d v) = Inr w" "lq w {b}" "bview w = (bview v)(?a := ?d)" "lg_frame v w" "lh_n w \<le> lh_n v + 1"
    using write_block [OF v(2), of b ?d] d(2) v(4) ld' lg_frameD(17) [OF v(6)] by auto
  obtain t where t: "brelse b w = Inr t" "lq t {}" "bview t = bview w" "lg_frame w t" "lh_n t = lh_n w"
    using drop_block [OF w(2), of b] by auto
  have ut: "lg_frame u t" "bview t = (bview u)(?a := ?d)" using lg_frame_trans [OF v(6) lg_frame_trans [OF w(4) t(4)]] t(3) w(3) v(5) by simp_all
  note W = write_data [OF ut g(2,3) k u(4)]
  have c: "cont t ip i = (if i div BSIZE = k \<and> o' \<le> i mod BSIZE \<and> i mod BSIZE < o' + length ys then ys ! (i mod BSIZE - o') else cont s ip i)" if "i < MAXFILE * BSIZE" for i
    using W(5) [OF that] grown_cont [OF u(3) B that] u(4) o ld by (auto simp: nth_putb cont_def Let_def)
  have ib: "bview t bn = bview s bn" if "inode_block s bn" for bn
    using W(4) [of bn] g(8) [OF that] that meta_eq(3) [OF keptD(1,2) [OF g(1)]] by simp
  have e: "extended ip s t" by (rule extended_trans [OF grown_extended [OF u(3)] W(1)])
  have dv: "i_dev (inodes u ip) = ROOTDEV" by (rule blocks_okD(1) [OF g(3)])
  have fin: "i_size (inodes t ip) = i_size (inodes s ip)" "lh_n t \<le> lh_n s + 6" "card (free_blocks s) \<le> card (free_blocks t) + 2" "fmap t ip k \<noteq> 0"
    using u(4,5,6) v(7) w(5) t(5) g(4) lg_frame_fs(2) [OF ut(1)] W(2,3) by simp_all
  show ?thesis using u(1) dv v(1,3) w(1) t(1,2) e fin ib c by (intro exI [of _ ?a] exI [of _ u] exI [of _ b] exI [of _ v] exI [of _ w] exI [of _ t]) simp
qed

lemma block_range:
  assumes "off mod B + m \<le> (B :: nat)" "0 < m"
  shows "i div B = off div B \<and> off mod B \<le> i mod B \<and> i mod B < off mod B + m \<longleftrightarrow> off \<le> i \<and> i < off + m" "off \<le> i \<Longrightarrow> i < off + m \<Longrightarrow> i mod B - off mod B = i - off"
proof -
  have e: "i = B * (i div B) + i mod B" "off = B * (off div B) + off mod B" by simp_all
  have r: "i div B = off div B" "i mod B = off mod B + (i - off)" if "off \<le> i" "i < off + m"
    using div_mod_add [of off B "i - off"] that assms by simp_all
  show "i div B = off div B \<and> off mod B \<le> i mod B \<and> i mod B < off mod B + m \<longleftrightarrow> off \<le> i \<and> i < off + m"
  proof
    assume a: "i div B = off div B \<and> off mod B \<le> i mod B \<and> i mod B < off mod B + m"
    then have "i = B * (off div B) + i mod B" using e(1) by simp
    then show "off \<le> i \<and> i < off + m" using a e(2) by linarith
  qed (use r in auto)
  show "off \<le> i \<Longrightarrow> i < off + m \<Longrightarrow> i mod B - off mod B = i - off" using r(2) by simp
qed

lemma writei_loop_ok:
  assumes "lq s {}" "layout s" "blocks_ok s ip" "tot \<le> n" "unat off + unat (n - tot) \<le> MAXFILE * BSIZE" "tot < n \<longrightarrow> unat off mod BSIZE + unat (n - tot) \<le> BSIZE * r"
    "txn (6 * int r + 1) s" "2 * r \<le> card (free_blocks s)" "unat (n - tot) \<le> length xs"
  shows "\<exists>t. writei_loop ip (FromObj xs) off n tot s = Inr (off + (n - tot), n, t) \<and> lq t {} \<and> extended ip s t \<and> i_size (inodes t ip) = i_size (inodes s ip) \<and> txn 1 t \<and>
    (\<forall>bn. inode_block s bn \<longrightarrow> bview t bn = bview s bn) \<and>
    (\<forall>i<MAXFILE * BSIZE. cont t ip i = (if unat off \<le> i \<and> i < unat off + unat (n - tot) then xs ! (i - unat off) else cont s ip i)) \<and>
    (\<forall>i. unat off \<le> i \<and> i < unat off + unat (n - tot) \<longrightarrow> fmap t ip (i div BSIZE) \<noteq> 0)"
  using assms
proof (induction "unat (n - tot)" arbitrary: off tot s r xs rule: less_induct)
  case less
  note q = less.prems(1) and L = less.prems(2) and B = less.prems(3)
  show ?case
  proof (cases "tot < n")
    case False
    then have "tot = n" using less.prems(4) by simp
    moreover have "txn 1 s" using less.prems(7) by (simp add: txn_def)
    ultimately show ?thesis using q extended_refl [OF L B] by (auto simp: writei_loop.simps)
  next
    case True
    define m where "m = io_len off tot n"
    note i = io_step [OF True less.prems(5), folded m_def]
    have "0 < r" using mp [OF less.prems(6) True] i(1,2) by (cases r) simp_all
    then obtain r' where r: "r = Suc r'" by (cases r) auto
    let ?ys = "take (unat m) xs" and ?o = "unat off mod BSIZE"
    have ly: "length ?ys = unat m" using i(2) less.prems(9) by simp
    have "txn 6 s" "2 \<le> card (free_blocks s)" "?o + length ?ys \<le> BSIZE" using less.prems(7,8) r i(3) ly by (simp_all add: txn_def)
    from write_round [OF q L B this(1,2) i(9) this(3)]
    obtain a u b v w t where t: "bmap ip (of_nat (unat off div BSIZE)) s = Inr (a, u)" "i_dev (inodes u ip) = ROOTDEV" "bread ROOTDEV a u = Inr (b, v)"
      "log_write b (set_bdata b (putb ?o ?ys (b_data (bufs v b))) v) = Inr w" "brelse b w = Inr t"
      "lq t {}" "extended ip s t" "i_size (inodes t ip) = i_size (inodes s ip)" "lh_n t \<le> lh_n s + 6" "card (free_blocks s) \<le> card (free_blocks t) + 2" "fmap t ip (unat off div BSIZE) \<noteq> 0"
      "\<forall>bn. inode_block s bn \<longrightarrow> bview t bn = bview s bn"
      "\<forall>i<MAXFILE * BSIZE. cont t ip i = (if i div BSIZE = unat off div BSIZE \<and> ?o \<le> i mod BSIZE \<and> i mod BSIZE < ?o + length ?ys then ?ys ! (i mod BSIZE - ?o) else cont s ip i)"
      by (elim exE conjE) (rule that)
    note e = extendedD [OF t(7)] and br = block_range [OF i(3,1)]
    have c: "cont t ip j = (if unat off \<le> j \<and> j < unat off + unat m then xs ! (j - unat off) else cont s ip j)" if "j < MAXFILE * BSIZE" for j
    proof -
      have "cont t ip j = (if j div BSIZE = unat off div BSIZE \<and> ?o \<le> j mod BSIZE \<and> j mod BSIZE < ?o + unat m then ?ys ! (j mod BSIZE - ?o) else cont s ip j)"
        using t(13) that ly by simp
      then show ?thesis unfolding br(1) using br(2) [of j] by auto
    qed
    have dec: "unat (n - (tot + m)) < unat (n - tot)" using i(1,2,5) by simp
    have b': "unat (off + m) + unat (n - (tot + m)) \<le> MAXFILE * BSIZE" using i(2,4,5) less.prems(5) by simp
    have rd: "tot + m < n \<longrightarrow> unat (off + m) mod BSIZE + unat (n - (tot + m)) \<le> BSIZE * r'"
    proof
      assume that: "tot + m < n"
      have "unat m < unat (n - tot)" using that i(2,5) by (metis diff_is_0_eq' le_neq_implies_less less_irrefl unat_eq_0 right_minus_eq diff_self_eq_0)
      then have f: "?o + unat m = BSIZE" by (rule i(10))
      then have "unat (off + m) mod BSIZE = 0" unfolding i(4) by (metis mod_add_left_eq mod_self)
      then show "unat (off + m) mod BSIZE + unat (n - (tot + m)) \<le> BSIZE * r'" using mp [OF less.prems(6) True] r f i(5) by simp
    qed
    have tx: "txn (6 * int r' + 1) t" by (rule txn_kept [OF less.prems(7) e(1)]) (use t(9) r in simp)
    have fr: "2 * r' \<le> card (free_blocks t)" using t(10) less.prems(8) r by simp
    have lx: "unat (n - (tot + m)) \<le> length (drop (unat m) xs)" using less.prems(9) i(5) by simp
    from less.hyps [OF dec t(6) e(2,3) i(6) b' rd tx fr lx]
    obtain y where y: "writei_loop ip (FromObj (drop (unat m) xs)) (off + m) n (tot + m) t = Inr (off + m + (n - (tot + m)), n, y)" "lq y {}" "extended ip t y"
      "i_size (inodes y ip) = i_size (inodes t ip)" "txn 1 y" "\<forall>bn. inode_block t bn \<longrightarrow> bview y bn = bview t bn"
      "\<forall>i<MAXFILE * BSIZE. cont y ip i = (if unat (off + m) \<le> i \<and> i < unat (off + m) + unat (n - (tot + m)) then drop (unat m) xs ! (i - unat (off + m)) else cont t ip i)"
      "\<forall>i. unat (off + m) \<le> i \<and> i < unat (off + m) + unat (n - (tot + m)) \<longrightarrow> fmap y ip (i div BSIZE) \<noteq> 0"
      by (elim exE conjE) (rule that)
    have "writei_loop ip (FromObj xs) off n tot s = Inr (off + (n - tot), n, y)"
      using True t(1-5) y(1) i(2,7,8) less.prems(9) by (simp add: writei_loop.simps [of ip "FromObj xs" off n tot s] m_def [symmetric] Let_def)
    moreover have "\<forall>bn. inode_block s bn \<longrightarrow> bview y bn = bview s bn" using y(6) t(12) meta_eq(3) [OF keptD(1,2) [OF e(1)]] by simp
    moreover have "cont y ip j = (if unat off \<le> j \<and> j < unat off + unat (n - tot) then xs ! (j - unat off) else cont s ip j)" if "j < MAXFILE * BSIZE" for j
    proof (cases "unat (off + m) \<le> j \<and> j < unat (off + m) + unat (n - (tot + m))")
      case True
      then have "drop (unat m) xs ! (j - unat (off + m)) = xs ! (j - unat off)" using less.prems(9) i(2,4,5) by simp
      then show ?thesis using y(7) that True i(2,4,5) by simp
    next
      case False
      then have "unat off \<le> j \<and> j < unat off + unat (n - tot) \<longleftrightarrow> unat off \<le> j \<and> j < unat off + unat m" using i(2,4,5) by auto
      moreover have "cont y ip j = cont t ip j" using y(7) that by (simp only: False if_False)
      ultimately show ?thesis using c [OF that] by (simp only:)
    qed
    moreover have "fmap y ip (j div BSIZE) \<noteq> 0" if j: "unat off \<le> j" "j < unat off + unat (n - tot)" for j
    proof (cases "j < unat off + unat m")
      case True
      then have "j div BSIZE = unat off div BSIZE" using br(1) [of j] j(1) by simp
      then show ?thesis using extendedD(4) [OF y(3) i(9) t(11)] t(11) by simp
    next
      case False
      then show ?thesis using y(8) j i(2,4,5) by simp
    qed
    ultimately show ?thesis using y(2,4,5) t(8) extended_trans [OF t(7) y(3)] by simp
  qed
qed

section \<open>Inodes on disk\<close>

lemma nth_stw:
  "off + LENGTH('a) div 8 \<le> length d \<Longrightarrow> i < length d \<Longrightarrow> i < off \<or> off + LENGTH('a) div 8 \<le> i \<Longrightarrow> stw off (v :: 'a::len word) d ! i = d ! i"
  by (auto simp: stw_def nth_putb)

lemma length_stws: "off + 4 * length ws \<le> length d \<Longrightarrow> length (stws off ws d) = length d"
  by (induction ws arbitrary: off d) auto

lemma nth_stws: "off + 4 * length ws \<le> length d \<Longrightarrow> i < off \<or> off + 4 * length ws \<le> i \<Longrightarrow> i < length d \<Longrightarrow> stws off ws d ! i = d ! i"
  by (induction ws arbitrary: off d) (auto simp: nth_stw)

lemma ldw_stws_before:
  "off + 4 * length ws \<le> length d \<Longrightarrow> o' + LENGTH('a) div 8 \<le> off \<Longrightarrow> (ldw o' (stws off ws d) :: 'a::len word) = ldw o' d"
  by (rule ldw_cong) (simp add: nth_stws)

lemma ldw_stws: "off + 4 * length ws \<le> length d \<Longrightarrow> i < length ws \<Longrightarrow> ldw (off + 4 * i) (stws off ws d) = ws ! i"
proof (induction ws arbitrary: off d i)
  case (Cons w ws)
  show ?case
  proof (cases i)
    case 0
    then show ?thesis using Cons.prems by (simp add: ldw_stws_before)
  next
    case (Suc j)
    then show ?thesis using Cons.IH [of "off + 4" "stw off w d" j] Cons.prems by (simp add: ac_simps)
  qed
qed simp

lemma length_dinode_store: "off + 64 \<le> length d \<Longrightarrow> length (dinode_store off x d) = length d"
  by (simp add: dinode_store_def length_stws)

text \<open>What is stored is what is loaded, and the bytes of the other inodes of the block stay as they were.\<close>

lemma dinode_load_store:
  assumes "off + 64 \<le> length d"
  shows "dinode_load off (dinode_store off x d) y =
    y\<lparr>i_type := i_type x, i_major := i_major x, i_minor := i_minor x, i_nlink := i_nlink x, i_size := i_size x,
      i_addrs := (\<lambda>i. if i < NDIRECT + 1 then i_addrs x i else i_addrs y i)\<rparr>"
proof -
  let ?d = "stw (off + 8) (i_size x) (stw (off + 6) (i_nlink x) (stw (off + 4) (i_minor x) (stw (off + 2) (i_major x) (stw off (i_type x) d))))"
  let ?ws = "map (i_addrs x) [0..<NDIRECT + 1]"
  have l: "off + 12 + 4 * length ?ws \<le> length ?d" using assms by simp
  have a: "ldw (off + 12 + 4 * i) (stws (off + 12) ?ws ?d) = i_addrs x i" if "i < NDIRECT + 1" for i
    using ldw_stws [OF l, of i] that nth_map_upt [of i 13 0 "i_addrs x"] by simp
  have b: "(ldw o' (stws (off + 12) ?ws ?d) :: u16) = ldw o' ?d" if "o' + 2 \<le> off + 12" for o' by (rule ldw_stws_before [OF l]) (use that in simp)
  have c: "(ldw o' (stws (off + 12) ?ws ?d) :: u32) = ldw o' ?d" if "o' + 4 \<le> off + 12" for o' by (rule ldw_stws_before [OF l]) (use that in simp)
  have "ldw off ?d = i_type x" "ldw (off + 2) ?d = i_major x" "ldw (off + 4) ?d = i_minor x" "ldw (off + 6) ?d = i_nlink x" "ldw (off + 8) ?d = i_size x"
    using assms by simp_all
  then show ?thesis unfolding dinode_load_def dinode_store_def using a b c by (simp add: fun_eq_iff)
qed

lemma dinode_store_other:
  assumes "off + 64 \<le> length d" "i < off \<or> off + 64 \<le> i" "i < length d"
  shows "dinode_store off x d ! i = d ! i"
  unfolding dinode_store_def by (subst nth_stws) (use assms in \<open>auto simp: nth_stw\<close>)

abbreviation iblock :: "'a fsst_scheme \<Rightarrow> nat \<Rightarrow> u32" where
  "iblock s ip \<equiv> IBLOCK (i_inum (inodes s ip)) (sb s)"

text \<open>The inode on disk is the one in the cache: loading it again would change nothing.\<close>

definition on_disk :: "'a fsst_scheme \<Rightarrow> nat \<Rightarrow> bool" where
  "on_disk s ip \<longleftrightarrow> dinode_load (dip_off (i_inum (inodes s ip))) (bview s (iblock s ip)) (inodes s ip) = inodes s ip"

lemma dip_off_fits: "dip_off i + 64 \<le> BSIZE"
  using mod_less_divisor [of IPB "unat i"] by (simp add: dip_off_def)

lemma stored_on_disk:
  assumes "length d = BSIZE" "bview s (iblock s ip) = dinode_store (dip_off (i_inum (inodes s ip))) (inodes s ip) d"
  shows "on_disk s ip"
  using assms dip_off_fits by (simp add: on_disk_def dinode_load_store)

lemma iupdate_ok:
  assumes q: "lq s {}" and L: "layout s" and i: "i_dev (inodes s ip) = ROOTDEV" "i_inum (inodes s ip) < sb_ninodes (sb s)" and x: "txn 1 s"
  shows "\<exists>t. iupdate ip s = Inr t \<and> lq t {} \<and> lg_frame s t \<and> layout t \<and> data_block t = data_block s \<and> free_blocks t = free_blocks s \<and>
    bview t = (bview s)(iblock s ip := dinode_store (dip_off (i_inum (inodes s ip))) (inodes s ip) (bview s (iblock s ip)))"
proof -
  let ?bn = "iblock s ip"
  have ib: "inode_block s ?bn" using i(2) by (auto simp: inode_block_def)
  have f: "unat ?bn < 2 ^ 31" "\<not> log_area (log_start s) ?bn" "\<not> bitmap_block s ?bn" using L ib layoutD(2) [OF L] by (auto simp: layout_def)
  obtain b u where u: "bread ROOTDEV ?bn s = Inr (b, u)" "lq u {b}" "b_data (bufs u b) = bview s ?bn" "b_blockno (bufs u b) = ?bn" "bview u = bview s" "lg_frame s u" "lh_n u = lh_n s"
    using read_block [OF q f(1)] txnD [OF x] by auto
  note fu = lg_frame_fs [OF u(6)]
  let ?d = "dinode_store (dip_off (i_inum (inodes s ip))) (inodes s ip) (bview s ?bn)"
  have ld: "length ?d = BSIZE" using dip_off_fits lq_len [OF q, of ?bn] by (simp add: length_dinode_store)
  have "txn 1 u" by (rule txn_frame [OF x u(6)]) (simp add: u(7))
  then obtain w where w: "log_write b (set_bdata b ?d u) = Inr w" "lq w {b}" "bview w = (bview u)(?bn := ?d)" "lg_frame u w" "lh_n w \<le> lh_n u + 1"
    using write_block [OF u(2), of b ?d] f(2) u(4) ld lg_frameD(17) [OF u(6)] by auto
  obtain t where t: "brelse b w = Inr t" "lq t {}" "bview t = bview w" "lg_frame w t" "lh_n t = lh_n w"
    using drop_block [OF w(2), of b] by auto
  have st: "lg_frame s t" "bview t = (bview s)(?bn := ?d)" using lg_frame_trans [OF u(6) lg_frame_trans [OF w(4) t(4)]] t(3) w(3) u(5) by simp_all
  note dw = data_write [OF st f(3)]
  show ?thesis using u(1,3) w(1) t(1,2) st dw(1,2) dw(3) [OF L] i(1) fu by (simp add: iupdate_def)
qed

section \<open>Files and other files\<close>

lemma fowns_data: "blocks_ok s ip \<Longrightarrow> fowns s ip bn \<Longrightarrow> bn \<noteq> 0 \<Longrightarrow> data_block s bn"
  using blocks_okD(3,5) [of s ip] unfolding fowns_def by blast

lemma cont_frame:
  assumes "inodes t jp = inodes s jp" "\<And>bn. fowns s jp bn \<Longrightarrow> bn \<noteq> 0 \<Longrightarrow> bview t bn = bview s bn"
  shows "fmap t jp = fmap s jp" "i < MAXFILE * BSIZE \<Longrightarrow> cont t jp i = cont s jp i"
    "unat (i_size (inodes s jp)) \<le> MAXFILE * BSIZE \<Longrightarrow> file_bytes t jp = file_bytes s jp"
proof -
  have "bview t (i_addrs (inodes s jp) NDIRECT) = bview s (i_addrs (inodes s jp) NDIRECT)" if "i_addrs (inodes s jp) NDIRECT \<noteq> 0"
    by (rule assms(2) [OF _ that]) (simp add: fowns_def)
  then show m: "fmap t jp = fmap s jp" by (auto simp: fmap_def Let_def assms(1))
  show c: "cont t jp i = cont s jp i" if "i < MAXFILE * BSIZE" for i
  proof -
    have "fowns s jp (fmap s jp (i div BSIZE))" using that less_mult_imp_div_less [of i MAXFILE BSIZE] unfolding fowns_def by blast
    then show ?thesis using assms(2) by (auto simp: cont_def Let_def m)
  qed
  show "file_bytes t jp = file_bytes s jp" if "unat (i_size (inodes s jp)) \<le> MAXFILE * BSIZE"
    using c that by (simp add: file_bytes_def assms(1))
qed

lemma inode_write_frame:
  assumes "lg_frame u t" "layout u" "layout t" "data_block t = data_block u" "blocks_ok u ip" "\<And>bn. \<not> inode_block u bn \<Longrightarrow> bview t bn = bview u bn"
  shows "extended ip u t" "fmap t ip = fmap u ip" "i < MAXFILE * BSIZE \<Longrightarrow> cont t ip i = cont u ip i"
proof -
  note f = lg_frame_fs [OF assms(1)]
  have d: "bview t bn = bview u bn" if "data_block u bn" for bn using assms(6) data_block_facts(4) [OF assms(2) that] by simp
  have o: "bview t bn = bview u bn" if "fowns u ip bn" "bn \<noteq> 0" for bn by (rule d [OF fowns_data [OF assms(5) that]])
  note c = cont_frame [of t ip u, OF _ o]
  show m: "fmap t ip = fmap u ip" using c(1) f(2) by simp
  show "i < MAXFILE * BSIZE \<Longrightarrow> cont t ip i = cont u ip i" using c(2) f(2) by simp
  have "fowns t ip = fowns u ip" by (rule ext) (simp add: fowns_def m f)
  moreover have "blocks_ok t ip" using assms(5) by (simp add: blocks_ok_def m f assms(4))
  ultimately show "extended ip u t" unfolding extended_def using kept_lg [OF assms(1)] assms(3,4) m d by simp
qed

lemma size_upd [simp]:
  "fmap (upd_ino ip (i_size_update f) s) = fmap s" "cont (upd_ino ip (i_size_update f) s) = cont s" "fowns (upd_ino ip (i_size_update f) s) = fowns s"
  "blocks_ok (upd_ino ip (i_size_update f) s) = blocks_ok s" "inode_block (upd_ino ip (i_size_update f) s) = inode_block s"
proof -
  show m: "fmap (upd_ino ip (i_size_update f) s) = fmap s" by (intro ext) (simp add: fmap_def Let_def)
  show "cont (upd_ino ip (i_size_update f) s) = cont s" by (intro ext) (simp add: cont_def m Let_def)
  show "fowns (upd_ino ip (i_size_update f) s) = fowns s" by (intro ext) (simp add: fowns_def m)
  show "blocks_ok (upd_ino ip (i_size_update f) s) = blocks_ok s" by (intro ext) (simp add: blocks_ok_def m)
  show "inode_block (upd_ino ip (i_size_update f) s) = inode_block s" by (intro ext) (simp add: inode_block_def)
qed

lemma size_extended: "layout s \<Longrightarrow> blocks_ok s ip \<Longrightarrow> extended ip s (upd_ino ip (i_size_update f) s)"
  by (simp add: extended_def kept_def) (simp add: upd_ino_def)

text \<open>The tail of \<open>writei\<close>: the size, when the write went beyond the end, and the inode on disk.\<close>

lemma writei_tail:
  assumes q: "lq s {}" and L: "layout s" and B: "blocks_ok s ip" and x: "txn 1 s" and n: "n = 0 \<longrightarrow> \<not> off > i_size (inodes s ip)"
  defines "u \<equiv> (if off > i_size (inodes s ip) then upd_ino ip (i_size_update (\<lambda>_. off)) s else s)"
  shows "\<exists>t. (if n > (0 :: u32) then iupdate ip u else Inr s) = Inr t \<and> lq t {} \<and> extended ip s t \<and> fmap t ip = fmap s ip \<and>
    (\<forall>i<MAXFILE * BSIZE. cont t ip i = cont s ip i) \<and> i_size (inodes t ip) = max (i_size (inodes s ip)) off \<and>
    (0 < n \<longrightarrow> bview t = (bview s)(iblock t ip := dinode_store (dip_off (i_inum (inodes t ip))) (inodes t ip) (bview s (iblock t ip))))"
proof (cases "n > 0")
  case False
  then have "n = 0" by (simp add: word_gt_0)
  then show ?thesis using q n extended_refl [OF L B] by (auto simp: max_def)
next
  case True
  have u: "lq u {}" "layout u" "blocks_ok u ip" "txn 1 u" "extended ip s u" "fmap u = fmap s" "cont u = cont s" "bview u = bview s" "inode_block u = inode_block s"
    "i_size (inodes u ip) = max (i_size (inodes s ip)) off"
    using q L B x size_extended [OF L B] extended_refl [OF L B] by (auto simp: u_def max_def)
  obtain t where t: "iupdate ip u = Inr t" "lq t {}" "lg_frame u t" "layout t" "data_block t = data_block u"
    "bview t = (bview u)(iblock u ip := dinode_store (dip_off (i_inum (inodes u ip))) (inodes u ip) (bview u (iblock u ip)))"
    using iupdate_ok [OF u(1,2) blocks_okD(1,2) [OF u(3)] u(4)] by blast
  note f = lg_frame_fs [OF t(3)]
  have ib: "inode_block u (iblock u ip)" using blocks_okD(2) [OF u(3)] by (auto simp: inode_block_def)
  have v: "bview t bn = bview u bn" if "\<not> inode_block u bn" for bn using t(6) that ib by auto
  note w = inode_write_frame [OF t(3) u(2) t(4,5) u(3) v]
  show ?thesis using True t(1,2,6) f u(6-8,10) w(2,3) extended_trans [OF u(5) w(1)] by simp
qed

definition disjoint_files :: "'a fsst_scheme \<Rightarrow> nat \<Rightarrow> nat \<Rightarrow> bool" where
  "disjoint_files s ip jp \<longleftrightarrow> ip \<noteq> jp \<and> (\<forall>bn. fowns s ip bn \<longrightarrow> fowns s jp bn \<longrightarrow> bn = 0)"

lemma extended_other:
  assumes "extended ip s t" "file_ok s jp" "disjoint_files s ip jp"
  shows "file_bytes t jp = file_bytes s jp" "file_ok t jp" "disjoint_files t ip jp"
proof -
  note e = extendedD [OF assms(1)]
  have B: "blocks_ok s jp" "unat (i_size (inodes s jp)) \<le> MAXFILE * BSIZE" using assms(2) by (simp_all add: file_ok_def)
  have i: "inodes t jp = inodes s jp" using keptD(5) [OF e(1)] assms(3) by (auto simp: disjoint_files_def)
  have d: "data_block s bn" "\<not> fowns s ip bn" if "fowns s jp bn" "bn \<noteq> 0" for bn
    using fowns_data [OF B(1) that] assms(3) that by (auto simp: disjoint_files_def)
  have "bview t bn = bview s bn" if "fowns s jp bn" "bn \<noteq> 0" for bn using e(6) [OF d [OF that]] by simp
  then have c: "fmap t jp = fmap s jp" "file_bytes t jp = file_bytes s jp" using cont_frame(1,3) [OF i] B(2) by blast+
  show "file_bytes t jp = file_bytes s jp" by (rule c(2))
  have o: "fowns t jp = fowns s jp" by (rule ext) (simp add: fowns_def c(1) i)
  have "blocks_ok t jp"
    by (rule blocks_okI) (use blocks_okD [OF B(1)] e(5) in \<open>simp_all add: i c(1) keptD(1) [OF e(1)]\<close>)
  then show "file_ok t jp" using assms(2) by (simp add: file_ok_def i c(1))
  show "disjoint_files t ip jp" unfolding disjoint_files_def o using assms(3) d e(6) by (auto simp: disjoint_files_def)
qed

lemma spliced_bytes:
  assumes "\<forall>i<M. g i = (if o' \<le> i \<and> i < o' + length xs then xs ! (i - o') else f i)" "o' \<le> z" "max z (o' + length xs) \<le> M"
  shows "map g [0..<max z (o' + length xs)] = take o' (map f [0..<z]) @ xs @ drop (o' + length xs) (map f [0..<z])"
proof (rule nth_equalityI)
  show "length (map g [0..<max z (o' + length xs)]) = length (take o' (map f [0..<z]) @ xs @ drop (o' + length xs) (map f [0..<z]))" using assms(2) by simp
  fix i assume "i < length (map g [0..<max z (o' + length xs)])"
  then show "map g [0..<max z (o' + length xs)] ! i = (take o' (map f [0..<z]) @ xs @ drop (o' + length xs) (map f [0..<z])) ! i"
    using assms by (auto simp: nth_append)
qed

lemma writei_ok:
  assumes q: "lq s {}" and L: "layout s" and F: "file_ok s ip" and o: "unat off \<le> unat (i_size (inodes s ip))" and n: "unat n = length xs"
    and m: "unat off + length xs \<le> MAXFILE * BSIZE" and r: "unat off mod BSIZE + length xs \<le> BSIZE * r" and x: "txn (6 * int r + 1) s" and f: "2 * r \<le> card (free_blocks s)"
  shows "\<exists>t. writei ip (FromObj xs) off n s = Inr (int (length xs), t) \<and> lq t {} \<and> extended ip s t \<and> file_ok t ip \<and>
    file_bytes t ip = take (unat off) (file_bytes s ip) @ xs @ drop (unat off + length xs) (file_bytes s ip) \<and>
    (xs \<noteq> [] \<longrightarrow> on_disk t ip)"
proof -
  let ?sz = "i_size (inodes s ip)"
  have B: "blocks_ok s ip" "unat ?sz \<le> MAXFILE * BSIZE" using F by (simp_all add: file_ok_def)
  have on: "unat (off + n) = unat off + length xs" using unat_add_lem [of off n] m n by simp
  have g: "\<not> off > ?sz" "\<not> off + n < off" "\<not> off + n > of_nat (MAXFILE * BSIZE)" using o on m by (simp_all add: word_less_nat_alt unat_of_nat_u32)
  have "0 < n \<longrightarrow> unat off mod BSIZE + unat (n - 0) \<le> BSIZE * r" "unat off + unat (n - 0) \<le> MAXFILE * BSIZE" "unat (n - 0) \<le> length xs" "0 \<le> n" using r m n by simp_all
  from writei_loop_ok [OF q L B(1) this(4,2,1) x f this(3)]
  obtain u where u: "writei_loop ip (FromObj xs) off n 0 s = Inr (off + n, n, u)" "lq u {}" "extended ip s u" "i_size (inodes u ip) = ?sz" "txn 1 u"
    "\<forall>i<MAXFILE * BSIZE. cont u ip i = (if unat off \<le> i \<and> i < unat off + length xs then xs ! (i - unat off) else cont s ip i)"
    "\<forall>i. unat off \<le> i \<and> i < unat off + length xs \<longrightarrow> fmap u ip (i div BSIZE) \<noteq> 0" unfolding n diff_0_right by blast
  note e = extendedD [OF u(3)]
  have "n = 0 \<longrightarrow> \<not> off + n > i_size (inodes u ip)" using g(1) u(4) by simp
  from writei_tail [OF u(2) e(2,3) u(5) this]
  obtain t where t: "(if n > 0 then iupdate ip (if off + n > i_size (inodes u ip) then upd_ino ip (i_size_update (\<lambda>_. off + n)) u else u) else Inr u) = Inr t" "lq t {}" "extended ip u t"
    "fmap t ip = fmap u ip" "\<forall>i<MAXFILE * BSIZE. cont t ip i = cont u ip i" "i_size (inodes t ip) = max (i_size (inodes u ip)) (off + n)"
    "0 < n \<longrightarrow> bview t = (bview u)(iblock t ip := dinode_store (dip_off (i_inum (inodes t ip))) (inodes t ip) (bview u (iblock t ip)))"
    by blast
  have sz: "unat (i_size (inodes t ip)) = max (unat ?sz) (unat off + length xs)" using t(6) u(4) on by (simp add: max_def word_le_nat_alt)
  have ext: "extended ip s t" by (rule extended_trans [OF u(3) t(3)])
  have bytes: "file_bytes t ip = take (unat off) (file_bytes s ip) @ xs @ drop (unat off + length xs) (file_bytes s ip)"
    unfolding file_bytes_def sz by (rule spliced_bytes [of "MAXFILE * BSIZE"]) (use u(6) t(5) o m B(2) in simp_all)
  have "fmap t ip k \<noteq> 0" if k: "k < MAXFILE" "k * BSIZE < unat (i_size (inodes t ip))" for k
  proof (cases "k * BSIZE < unat ?sz")
    case True
    then have "fmap s ip k \<noteq> 0" using F k(1) by (simp add: file_ok_def)
    then show ?thesis using extendedD(4) [OF ext k(1)] by simp
  next
    case False
    then have "unat off \<le> k * BSIZE" "k * BSIZE < unat off + length xs" using k(2) sz o by simp_all
    then have "fmap u ip (k * BSIZE div BSIZE) \<noteq> 0" using u(7) by blast
    then show ?thesis using t(4) by simp
  qed
  then have ok: "file_ok t ip" using extendedD(3) [OF ext] sz m B(2) by (simp add: file_ok_def)
  have ret: "writei ip (FromObj xs) off n s = Inr (int (length xs), t)"
    using g u(1) t(1) sint_small [of n] n m by (simp add: writei_def)
  have disk: "on_disk t ip" if "xs \<noteq> []"
  proof -
    have "0 < n" using that n by (cases "n = 0") (auto simp: word_gt_0)
    then have "bview t (iblock t ip) = dinode_store (dip_off (i_inum (inodes t ip))) (inodes t ip) (bview u (iblock t ip))" using t(7) by simp
    then show ?thesis by (rule stored_on_disk [OF lq_len [OF u(2)]])
  qed
  show ?thesis using ret t(2) ext ok bytes disk by blast
qed

section \<open>Reading and writing a file\<close>

lemma lq_lh: "lq s H \<Longrightarrow> lh_n s < int NBUF"
  by (simp add: lq_def pinned_ok_def)

text \<open>C21. \<open>readi\<close> of a file returns the bytes of the range that lie within the file and their number, and changes neither an inode nor a block.
\<close>

theorem readi_correct:
  assumes "lq s {}" "layout s" "file_ok s ip" "unat off + unat n < 2 ^ 32"
  shows "\<exists>t. readi ip ToObj off n s = Inr (int (length (take (unat n) (drop (unat off) (file_bytes s ip)))), take (unat n) (drop (unat off) (file_bytes s ip)), t) \<and>
    lq t {} \<and> bview t = bview s \<and> inodes t = inodes s"
  using readi_ok [OF assms(1-3) lq_lh [OF assms(1)] assms(4)] lg_frame_fs(2) by blast

text \<open>C20. \<open>writei\<close> of bytes at an offset within a file replaces the range by them, extends the file when they go beyond its end, and returns their number: it allocates
  what it needs, leaves every other file as it was, keeps the blocks of the files apart, and stores the size and the addresses of the file in its inode on disk.
\<close>

theorem writei_correct:
  assumes "lq s {}" "layout s" "file_ok s ip" "unat off \<le> unat (i_size (inodes s ip))" "unat n = length xs" "unat off + length xs \<le> MAXFILE * BSIZE"
    "unat off mod BSIZE + length xs \<le> BSIZE * r" "txn (6 * int r + 1) s" "2 * r \<le> card (free_blocks s)"
  shows "\<exists>t. writei ip (FromObj xs) off n s = Inr (int (length xs), t) \<and> lq t {} \<and> layout t \<and> file_ok t ip \<and>
    file_bytes t ip = take (unat off) (file_bytes s ip) @ xs @ drop (unat off + length xs) (file_bytes s ip) \<and>
    (\<forall>jp. file_ok s jp \<longrightarrow> disjoint_files s ip jp \<longrightarrow> file_bytes t jp = file_bytes s jp \<and> file_ok t jp \<and> disjoint_files t ip jp) \<and>
    (xs \<noteq> [] \<longrightarrow> on_disk t ip)"
proof -
  obtain t where t: "writei ip (FromObj xs) off n s = Inr (int (length xs), t)" "lq t {}" "extended ip s t" "file_ok t ip"
    "file_bytes t ip = take (unat off) (file_bytes s ip) @ xs @ drop (unat off + length xs) (file_bytes s ip)" "xs \<noteq> [] \<longrightarrow> on_disk t ip"
    using writei_ok [OF assms] by blast
  have "\<forall>jp. file_ok s jp \<longrightarrow> disjoint_files s ip jp \<longrightarrow> file_bytes t jp = file_bytes s jp \<and> file_ok t jp \<and> disjoint_files t ip jp"
    using extended_other [OF t(3)] by blast
  then show ?thesis using t extendedD(2) [OF t(3)] by blast
qed

text \<open>An example: two files of one block each, on the disk of the example of the log.\<close>

definition file_inode :: "u32 \<Rightarrow> u32 \<Rightarrow> u32 \<Rightarrow> inode" where
  "file_inode inum sz a = inode0\<lparr>i_dev := ROOTDEV, i_inum := inum, i_ref := 1, i_valid := True, i_type := T_FILE, i_nlink := 1, i_size := sz, i_addrs := (\<lambda>_. 0)(0 := a)\<rparr>"

definition files_medium :: medium where
  "files_medium = set_dblk 45 (replicate 6 255 @ replicate 1018 0) (set_dblk 46 (replicate BSIZE 7) (\<lambda>_. replicate 512 0))"

definition files_ex :: fsst where
  "files_ex = (fs_of (lg_ex\<lparr>medium := files_medium\<rparr>))\<lparr>inodes := (\<lambda>_. inode0)(0 := file_inode 5 5 46, 1 := file_inode 6 3 47)\<rparr>"

lemma files_ex_sel [simp]:
  "sb files_ex = sb_ex" "inodes files_ex 0 = file_inode 5 5 46" "inodes files_ex (Suc 0) = file_inode 6 3 47" "log_start files_ex = 2" "log_size files_ex = 30"
  "log_outstanding files_ex = 1" "lh_n files_ex = 0"
  by (simp_all add: files_ex_def ex_defs)

lemma files_ex_lq: "lq files_ex {}"
proof -
  let ?s = "lg_ex\<lparr>medium := files_medium\<rparr>"
  have "bq ?s {} {}" by (rule lg_ex_medium) (simp add: files_medium_def set_dblk_def)
  moreover have "bql files_ex {} {} {} = bql ?s {} {} {}" by (rule bq_cong) (simp_all add: files_ex_def ex_defs vq_idle_def)
  ultimately show ?thesis by (simp add: lq_def logblks_def pinned_ok_def) (simp add: files_ex_def ex_defs)
qed

lemma files_ex_view: "bview files_ex = dblk files_medium"
  using bqD(8) [of files_ex "set (logblks files_ex)" "{}" "{}"] files_ex_lq by (auto simp: lq_def logblks_def files_ex_def ex_defs)

lemma files_ex_blocks: "bview files_ex 45 = replicate 6 255 @ replicate 1018 0" "bview files_ex 46 = replicate BSIZE 7" "bview files_ex 47 = replicate BSIZE 0"
  by (simp_all add: files_ex_view files_medium_def dblk_set)

lemma files_ex_marked: "b < 48 \<Longrightarrow> marked files_ex b" "48 \<le> b \<Longrightarrow> b < 1000 \<Longrightarrow> \<not> marked files_ex b"
proof -
  have B: "BBLOCK b (sb files_ex) = 45" if "b < 1000" for b using that by (simp add: BBLOCK_def sb_ex_def)
  show "marked files_ex b" if b: "b < 48"
  proof -
    have n: "(replicate 6 255 @ replicate 1018 0 :: u8 list) ! (b div 8) = 255" using b by (simp add: nth_append)
    have "(255 :: u8) = - 1" by simp
    then have "bit (255 :: u8) (b mod 8)" by (simp only: bit_minus_1_iff) simp
    then show ?thesis unfolding marked_def using b B by (simp add: files_ex_blocks n and_bmask)
  qed
  show "\<not> marked files_ex b" if b: "48 \<le> b" "b < 1000"
  proof -
    have n: "(replicate 6 255 @ replicate 1018 0 :: u8 list) ! (b div 8) = 0" using b by (simp add: nth_append)
    then show ?thesis unfolding marked_def using b B by (simp add: files_ex_blocks n)
  qed
qed

lemma files_ex_meta: "bitmap_block files_ex bn \<longleftrightarrow> bn = 45" "inode_block files_ex bn \<Longrightarrow> 32 \<le> unat bn \<and> unat bn < 45"
proof -
  show "bitmap_block files_ex bn \<longleftrightarrow> bn = 45" by (auto simp: bitmap_block_def sb_ex_def BBLOCK_def intro: exI [of _ 0])
  show "32 \<le> unat bn \<and> unat bn < 45" if b: "inode_block files_ex bn"
  proof -
    obtain i where i: "i < 200" "bn = i div 16 + 32" using b by (auto simp: inode_block_def sb_ex_def IBLOCK_def)
    have "unat i div 16 < 13" using i(1) by (simp add: word_less_nat_alt div_less_iff_less_mult)
    then have "unat (i div 16 + 32) = unat i div 16 + 32" by (subst unat_add_lem [THEN iffD1]) (simp_all add: unat_div)
    then show ?thesis using i(2) \<open>unat i div 16 < 13\<close> by simp
  qed
qed

lemma files_ex_layout: "layout files_ex"
proof -
  have m: "unat bn < 48" if "meta files_ex bn" for bn using that files_ex_meta(1) files_ex_meta(2) [of bn] by (auto simp: meta_def log_area_def)
  have i: "unat bn < 2 ^ 31 \<and> \<not> log_area 2 bn" if "inode_block files_ex bn" for bn using files_ex_meta(2) [OF that] by (auto simp: log_area_def)
  have n: "\<not> inode_block files_ex 45" using files_ex_meta(2) [of 45] by auto
  show ?thesis unfolding layout_def files_ex_meta(1)
    using i n files_ex_marked(1) m by (simp add: log_area_def sb_ex_def)
qed

lemma files_ex_data: "data_block files_ex 46" "data_block files_ex 47"
  using files_ex_meta(1) files_ex_meta(2) [of 46] files_ex_meta(2) [of 47] files_ex_marked(1) by (auto simp: data_block_def meta_def log_area_def sb_ex_def)

lemma files_ex_fmap: "fmap files_ex 0 k = (if k = 0 then 46 else 0)" "fmap files_ex (Suc 0) k = (if k = 0 then 47 else 0)"
  by (simp_all add: fmap_def file_inode_def Let_def)

lemma files_ex_ok: "file_ok files_ex 0" "file_ok files_ex (Suc 0)" "disjoint_files files_ex 0 (Suc 0)"
proof -
  have "blocks_ok files_ex 0" "blocks_ok files_ex (Suc 0)"
    by (rule blocks_okI; use files_ex_data in \<open>auto simp: files_ex_fmap file_inode_def sb_ex_def split: if_splits\<close>)+
  then show "file_ok files_ex 0" "file_ok files_ex (Suc 0)" by (auto simp: file_ok_def files_ex_fmap file_inode_def)
  show "disjoint_files files_ex 0 (Suc 0)" by (auto simp: disjoint_files_def fowns_def files_ex_fmap file_inode_def split: if_splits)
qed

lemma files_ex_free: "12 \<le> card (free_blocks files_ex)"
proof -
  have "{48..<60} \<subseteq> free_blocks files_ex" using files_ex_marked(2) by (auto simp: free_blocks_def sb_ex_def)
  then have "card {48..<60 :: nat} \<le> card (free_blocks files_ex)" by (rule card_mono [OF finite_free_blocks])
  then show ?thesis by simp
qed

lemma files_ex_bytes: "file_bytes files_ex 0 = [7, 7, 7, 7, 7]" "file_bytes files_ex (Suc 0) = [0, 0, 0]"
  by (simp_all add: file_bytes_def cont_def files_ex_fmap files_ex_blocks file_inode_def upt_rec)

theorem readi_correct_witness: "\<exists>t. readi 0 ToObj 3 100 files_ex = Inr (2, [7, 7], t) \<and> bview t = bview files_ex"
  using readi_correct [OF files_ex_lq files_ex_layout files_ex_ok(1), of 3 100] by (auto simp: files_ex_bytes)

theorem writei_correct_witness:
  "\<exists>t. writei 0 (FromObj [1, 2, 3]) 4 3 files_ex = Inr (3, t) \<and> file_bytes t 0 = [7, 7, 7, 7, 1, 2, 3] \<and> file_bytes t 1 = [0, 0, 0] \<and> on_disk t 0"
proof -
  have "txn (6 * int 1 + 1) files_ex" by (simp add: txn_def)
  moreover have "2 * 1 \<le> card (free_blocks files_ex)" using files_ex_free by simp
  ultimately show ?thesis
    using writei_correct [OF files_ex_lq files_ex_layout files_ex_ok(1), of 4 3 "[1, 2, 3]" 1] files_ex_ok(2,3)
    by (auto simp: files_ex_bytes file_inode_def)
qed

end
