(* ===== verification/Inode_Cache.thy ===== *)
theory Inode_Cache
  imports Examples
begin

text \<open>
  The inode cache: an inode has at most one entry, so the lock of the entry is the lock of the inode.
\<close>

definition icache_ok :: "'a fsst_scheme \<Rightarrow> bool" where
  "icache_ok s \<longleftrightarrow> (\<forall>i<NINODE. 0 \<le> i_ref (inodes s i)) \<and>
     (\<forall>i<NINODE. \<forall>j<NINODE. 0 < i_ref (inodes s i) \<longrightarrow> 0 < i_ref (inodes s j) \<longrightarrow>
        i_dev (inodes s i) = i_dev (inodes s j) \<longrightarrow> i_inum (inodes s i) = i_inum (inodes s j) \<longrightarrow> i = j)"

definition cached :: "u32 \<Rightarrow> u32 \<Rightarrow> nat \<Rightarrow> 'a fsst_scheme \<Rightarrow> bool" where
  "cached dev inum i s \<longleftrightarrow> i < NINODE \<and> 0 < i_ref (inodes s i) \<and> i_dev (inodes s i) = dev \<and> i_inum (inodes s i) = inum"

definition first_free :: "'a fsst_scheme \<Rightarrow> nat option" where
  "first_free s = find (\<lambda>i. i_ref (inodes s i) = 0) [0..<NINODE]"

lemma iget_scan_eq:
  "iget_scan ips dev inum I e =
     (case find (\<lambda>ip. i_ref (I ip) > 0 \<and> i_dev (I ip) = dev \<and> i_inum (I ip) = inum) ips of
        Some ip \<Rightarrow> Inl ip
      | None \<Rightarrow> Inr (case e of Some x \<Rightarrow> Some x | None \<Rightarrow> find (\<lambda>ip. i_ref (I ip) = 0) ips))"
  by (induction ips arbitrary: e) (auto split: option.splits)

lemma iget_eq:
  assumes "held s = {}" "icache_ok s"
  shows "cached dev inum i s \<Longrightarrow> iget dev inum s = Inr (i, upd_ino i (i_ref_update (\<lambda>r. r + 1)) s)"
    "(\<And>i. \<not> cached dev inum i s) \<Longrightarrow> iget dev inum s =
      (case first_free s of None \<Rightarrow> Inl (Panic ''iget: no inodes'')
       | Some i \<Rightarrow> Inr (i, upd_ino i (\<lambda>x. x\<lparr>i_dev := dev, i_inum := inum, i_ref := 1, i_valid := False\<rparr>) s))"
proof -
  let ?P = "\<lambda>ip. i_ref (inodes s ip) > 0 \<and> i_dev (inodes s ip) = dev \<and> i_inum (inodes s ip) = inum"
  have bk: "upd_ino i f (s\<lparr>held := {LkIcache}\<rparr>)\<lparr>held := {}\<rparr> = upd_ino i f s" for i f using assms(1) by (simp add: upd_ino_def)
  have hd: "held (upd_ino i f (s\<lparr>held := {LkIcache}\<rparr>)) = {LkIcache}" for i f by (simp add: upd_ino_def)
  show "iget dev inum s = Inr (i, upd_ino i (i_ref_update (\<lambda>r. r + 1)) s)" if c: "cached dev inum i s"
  proof -
    have "find ?P [0..<NINODE] \<noteq> None" using c by (auto simp: find_None_iff cached_def simp del: upt_rec_numeral)
    then obtain j where j: "find ?P [0..<NINODE] = Some j" by blast
    then have "?P j" "j < NINODE" by (auto simp: find_Some_iff simp del: upt_rec_numeral)
    then have "j = i" using assms(2) c by (simp add: icache_ok_def cached_def)
    then show ?thesis unfolding iget_def iget_scan_eq using assms(1) j by (simp add: hd bk del: upt_rec_numeral)
  qed
  show "iget dev inum s = (case first_free s of None \<Rightarrow> Inl (Panic ''iget: no inodes'')
       | Some i \<Rightarrow> Inr (i, upd_ino i (\<lambda>x. x\<lparr>i_dev := dev, i_inum := inum, i_ref := 1, i_valid := False\<rparr>) s))" if n: "\<And>i. \<not> cached dev inum i s"
  proof -
    have "find ?P [0..<NINODE] = None" using n by (auto simp: find_None_iff cached_def simp del: upt_rec_numeral)
    then show ?thesis unfolding iget_def iget_scan_eq first_free_def using assms(1) by (auto simp: hd bk split: option.splits simp del: upt_rec_numeral)
  qed
qed

lemma first_free_Some: "first_free s = Some i \<Longrightarrow> i < NINODE \<and> i_ref (inodes s i) = 0"
  by (auto simp: first_free_def find_Some_iff simp del: upt_rec_numeral)

lemma upd_ino_sel [simp]: "inodes (upd_ino i f s) = (inodes s)(i := f (inodes s i))" "held (upd_ino i f s) = held s"
  by (simp_all add: upd_ino_def)

section \<open>Properties\<close>



end
