(* ===== verification/Directory.thy ===== *)
theory Directory
  imports File_Content Inode_Cache
begin

text \<open>
  Directories as lists of entries. The contents of a directory are read as pairs of an inode number and a name; \<open>dirlookup\<close> finds the first entry in use with the name,
  and \<open>dirlink\<close> puts a new one into the first entry that is not in use, or at the end.
\<close>

section \<open>Entries\<close>

definition dir_ent :: "u8 list \<Rightarrow> nat \<Rightarrow> u16 \<times> u8 list" where
  "dir_ent bs k = (ldw (16 * k) bs, getb (16 * k + 2) DIRSIZ bs)"

definition dir_entries :: "u8 list \<Rightarrow> (u16 \<times> u8 list) list" where
  "dir_entries bs = map (dir_ent bs) [0..<length bs div 16]"

definition ent_matches :: "u8 list \<Rightarrow> u16 \<times> u8 list \<Rightarrow> bool" where
  "ent_matches name e \<longleftrightarrow> fst e \<noteq> 0 \<and> cstr (strf name) DIRSIZ = cstr (strf (snd e)) DIRSIZ"

definition dir_ok :: "'a fsst_scheme \<Rightarrow> nat \<Rightarrow> bool" where
  "dir_ok s dp \<longleftrightarrow> file_ok s dp \<and> i_type (inodes s dp) = T_DIR \<and> unat (i_size (inodes s dp)) mod 16 = 0"

lemma length_file_bytes [simp]: "length (file_bytes s ip) = unat (i_size (inodes s ip))"
  by (simp add: file_bytes_def)

lemma ent_of_slice:
  assumes "16 * k + 16 \<le> length bs"
  shows "ldw 0 (getb (16 * k) 16 bs) = fst (dir_ent bs k)" "drop 2 (getb (16 * k) 16 bs) = snd (dir_ent bs k)"
proof -
  show "ldw 0 (getb (16 * k) 16 bs) = fst (dir_ent bs k)" unfolding dir_ent_def fst_conv by (rule ldw_cong) (use assms in \<open>simp add: getb_def\<close>)
  show "drop 2 (getb (16 * k) 16 bs) = snd (dir_ent bs k)" by (simp add: dir_ent_def getb_def drop_take ac_simps)
qed

lemma namecmp_matches: "namecmp name nm = 0 \<longleftrightarrow> cstr (strf name) DIRSIZ = cstr (strf nm) DIRSIZ"
  by (simp add: namecmp_def strncmp_0_iff)

text \<open>One entry, read by \<open>readi\<close>.\<close>

lemma read_entry:
  assumes q: "lq s {}" and L: "layout s" and F: "file_ok s dp" and k: "16 * k + 16 \<le> unat (i_size (inodes s dp))"
  shows "\<exists>t. readi dp ToObj (of_nat (16 * k)) 16 s = Inr (16, getb (16 * k) 16 (file_bytes s dp), t) \<and> lq t {} \<and> lg_frame s t \<and> bview t = bview s \<and> lh_n t = lh_n s"
proof -
  have "unat (i_size (inodes s dp)) \<le> MAXFILE * BSIZE" using F by (simp add: file_ok_def)
  then have u: "unat (of_nat (16 * k) :: u32) = 16 * k" using k by (intro unat_of_nat_u32) simp
  show ?thesis using readi_ok [OF q L F lq_lh [OF q], of "of_nat (16 * k)" 16] k u \<open>unat (i_size (inodes s dp)) \<le> MAXFILE * BSIZE\<close> by (simp add: getb_def)
qed

section \<open>Lookup\<close>

lemma dirlookup_loop_ok:
  assumes "lq s {}" "layout s" "file_ok s dp" "\<forall>k\<in>set ks. 16 * k + 16 \<le> unat (i_size (inodes s dp))"
  shows "\<exists>t. lq t {} \<and> lg_frame s t \<and> bview t = bview s \<and> lh_n t = lh_n s \<and> dirlookup_loop (map ((*) 16) ks) dp name s =
    (case find (\<lambda>k. ent_matches name (dir_ent (file_bytes s dp) k)) ks of
       None \<Rightarrow> Inr (None, t)
     | Some k \<Rightarrow> bnd (iget ROOTDEV (ucast (fst (dir_ent (file_bytes s dp) k))) t) (\<lambda>(ip, u). Inr (Some (ip, of_nat (16 * k)), u)))"
  using assms
proof (induction ks arbitrary: s)
  case Nil
  then show ?case using lg_frame_refl [of s] by auto
next
  case (Cons k ks)
  note q = Cons.prems(1) and L = Cons.prems(2) and F = Cons.prems(3)
  have k: "16 * k + 16 \<le> unat (i_size (inodes s dp))" using Cons.prems(4) by simp
  obtain u where u: "readi dp ToObj (of_nat (16 * k)) 16 s = Inr (16, getb (16 * k) 16 (file_bytes s dp), u)" "lq u {}" "lg_frame s u" "bview u = bview s" "lh_n u = lh_n s"
    using read_entry [OF q L F k] by blast
  note sv = view_same [OF u(3,4)] same_cont [OF u(3,4)] lg_frame_fs [OF u(3)]
  have e: "ldw 0 (getb (16 * k) 16 (file_bytes s dp)) = fst (dir_ent (file_bytes s dp) k)" "drop 2 (getb (16 * k) 16 (file_bytes s dp)) = snd (dir_ent (file_bytes s dp) k)"
    by (rule ent_of_slice; use k in simp)+
  have dev: "i_dev (inodes s dp) = ROOTDEV" using F blocks_okD(1) by (auto simp: file_ok_def)
  show ?case
  proof (cases "ent_matches name (dir_ent (file_bytes s dp) k)")
    case True
    then show ?thesis using u e dev sv(11) by (intro exI [of _ u]) (simp add: ent_matches_def namecmp_matches Let_def)
  next
    case False
    have st: "dirlookup_loop (map ((*) 16) (k # ks)) dp name s = dirlookup_loop (map ((*) 16) ks) dp name u"
      using False u(1) e by (auto simp: ent_matches_def namecmp_matches Let_def)
    have "file_ok u dp" "\<forall>k\<in>set ks. 16 * k + 16 \<le> unat (i_size (inodes u dp))" using F Cons.prems(4) sv(9,11) by simp_all
    from Cons.IH [OF u(2) sv(4) [OF L] this, unfolded sv(8)]
    obtain t where t: "lq t {}" "lg_frame u t" "bview t = bview u" "lh_n t = lh_n u" "dirlookup_loop (map ((*) 16) ks) dp name u =
      (case find (\<lambda>k. ent_matches name (dir_ent (file_bytes s dp) k)) ks of
         None \<Rightarrow> Inr (None, t)
       | Some k \<Rightarrow> bnd (iget ROOTDEV (ucast (fst (dir_ent (file_bytes s dp) k))) t) (\<lambda>(ip, u). Inr (Some (ip, of_nat (16 * k)), u)))"
      by (elim exE conjE) (rule that)
    show ?thesis unfolding st using t False u(4,5) lg_frame_trans [OF u(3) t(2)] by (intro exI [of _ t]) simp
  qed
qed

lemma dir_offs_whole: "unat sz mod 16 = 0 \<Longrightarrow> dir_offs sz = map ((*) 16) [0..<unat sz div 16]"
proof -
  assume "unat sz mod 16 = 0"
  then have "(unat sz + 15) div 16 = unat sz div 16" by (intro div_mod_add(1)) simp
  then show ?thesis by (simp add: dir_offs_def)
qed

lemma dirlookup_ok:
  assumes q: "lq s {}" and L: "layout s" and D: "dir_ok s dp"
  defines "es \<equiv> dir_entries (file_bytes s dp)"
  shows "\<exists>t. lq t {} \<and> lg_frame s t \<and> bview t = bview s \<and> lh_n t = lh_n s \<and> dirlookup dp name s =
    (case find (\<lambda>k. ent_matches name (es ! k)) [0..<length es] of
       None \<Rightarrow> Inr (None, t)
     | Some k \<Rightarrow> bnd (iget ROOTDEV (ucast (fst (es ! k))) t) (\<lambda>(ip, u). Inr (Some (ip, of_nat (16 * k)), u)))"
proof -
  let ?n = "unat (i_size (inodes s dp)) div 16"
  have d: "file_ok s dp" "i_type (inodes s dp) = T_DIR" "unat (i_size (inodes s dp)) mod 16 = 0" using D by (simp_all add: dir_ok_def)
  have l: "length es = ?n" by (simp add: es_def dir_entries_def)
  have e: "es ! k = dir_ent (file_bytes s dp) k" if "k < ?n" for k using that by (simp add: es_def dir_entries_def)
  have f: "find (\<lambda>k. ent_matches name (es ! k)) [0..<?n] = find (\<lambda>k. ent_matches name (dir_ent (file_bytes s dp) k)) [0..<?n]"
    by (rule find_cong) (simp_all add: e)
  have "\<forall>k\<in>set [0..<?n]. 16 * k + 16 \<le> unat (i_size (inodes s dp))" by auto
  from dirlookup_loop_ok [OF q L d(1) this, of name] obtain t where t: "lq t {}" "lg_frame s t" "bview t = bview s" "lh_n t = lh_n s"
    "dirlookup_loop (map ((*) 16) [0..<?n]) dp name s =
      (case find (\<lambda>k. ent_matches name (dir_ent (file_bytes s dp) k)) [0..<?n] of
         None \<Rightarrow> Inr (None, t)
       | Some k \<Rightarrow> bnd (iget ROOTDEV (ucast (fst (dir_ent (file_bytes s dp) k))) t) (\<lambda>(ip, u). Inr (Some (ip, of_nat (16 * k)), u)))"
    by (elim exE conjE) (rule that)
  have "fst (es ! k) = fst (dir_ent (file_bytes s dp) k)" if "find (\<lambda>k. ent_matches name (dir_ent (file_bytes s dp) k)) [0..<?n] = Some k" for k
    using that e [of k] by (auto simp: find_Some_iff)
  then have "dirlookup dp name s = (case find (\<lambda>k. ent_matches name (es ! k)) [0..<length es] of
       None \<Rightarrow> Inr (None, t)
     | Some k \<Rightarrow> bnd (iget ROOTDEV (ucast (fst (es ! k))) t) (\<lambda>(ip, u). Inr (Some (ip, of_nat (16 * k)), u)))"
    unfolding dirlookup_def dir_offs_whole [OF d(3)] l f using t(5) d(2) by (simp split: option.splits)
  then show ?thesis using t(1-4) by blast
qed

lemma iget_gives:
  assumes "held s = {}" "icache_ok s" "first_free s \<noteq> None"
  shows "\<exists>ip f. iget dev inum s = Inr (ip, upd_ino ip f s) \<and> cached dev inum ip (upd_ino ip f s) \<and> icache_ok (upd_ino ip f s)"
proof (cases "\<exists>i. cached dev inum i s")
  case True
  then obtain i where c: "cached dev inum i s" by blast
  have "cached dev inum i (upd_ino i (i_ref_update (\<lambda>r. r + 1)) s)" "icache_ok (upd_ino i (i_ref_update (\<lambda>r. r + 1)) s)"
    using c assms(2) by (auto simp: cached_def icache_ok_def)
  then show ?thesis using iget_eq(1) [OF assms(1,2) c] by blast
next
  case False
  obtain i where i: "first_free s = Some i" using assms(3) by blast
  let ?f = "\<lambda>x. x\<lparr>i_dev := dev, i_inum := inum, i_ref := 1, i_valid := False\<rparr>"
  have "cached dev inum i (upd_ino i ?f s)" "icache_ok (upd_ino i ?f s)"
    using False assms(2) first_free_Some [OF i] by (auto simp: cached_def icache_ok_def)
  then show ?thesis using iget_eq(2) [OF assms(1,2), of dev inum] False i by auto
qed

section \<open>Adding an entry\<close>

lemma dirlink_loop_ok:
  assumes "lq s {}" "layout s" "file_ok s dp" "\<forall>k\<in>set ks. 16 * k + 16 \<le> unat (i_size (inodes s dp))"
  shows "\<exists>t. lq t {} \<and> lg_frame s t \<and> bview t = bview s \<and> lh_n t = lh_n s \<and> dirlink_loop (map ((*) 16) ks) dp s =
    Inr (case find (\<lambda>k. fst (dir_ent (file_bytes s dp) k) = 0) ks of None \<Rightarrow> 16 * ((unat (i_size (inodes s dp)) + 15) div 16) | Some k \<Rightarrow> 16 * k, t)"
  using assms
proof (induction ks arbitrary: s)
  case Nil
  then show ?case using lg_frame_refl [of s] by auto
next
  case (Cons k ks)
  note q = Cons.prems(1) and L = Cons.prems(2) and F = Cons.prems(3)
  have k: "16 * k + 16 \<le> unat (i_size (inodes s dp))" using Cons.prems(4) by simp
  obtain u where u: "readi dp ToObj (of_nat (16 * k)) 16 s = Inr (16, getb (16 * k) 16 (file_bytes s dp), u)" "lq u {}" "lg_frame s u" "bview u = bview s" "lh_n u = lh_n s"
    using read_entry [OF q L F k] by blast
  note sv = view_same [OF u(3,4)] same_cont [OF u(3,4)] lg_frame_fs [OF u(3)]
  have e: "ldw 0 (getb (16 * k) 16 (file_bytes s dp)) = fst (dir_ent (file_bytes s dp) k)" by (rule ent_of_slice) (use k in simp)
  show ?case
  proof (cases "fst (dir_ent (file_bytes s dp) k) = 0")
    case True
    then show ?thesis using u e by (intro exI [of _ u]) simp
  next
    case False
    have "file_ok u dp" "\<forall>k\<in>set ks. 16 * k + 16 \<le> unat (i_size (inodes u dp))" using F Cons.prems(4) sv(9,11) by simp_all
    from Cons.IH [OF u(2) sv(4) [OF L] this, unfolded sv(8,11)]
    obtain t where t: "lq t {}" "lg_frame u t" "bview t = bview u" "lh_n t = lh_n u" "dirlink_loop (map ((*) 16) ks) dp u =
      Inr (case find (\<lambda>k. fst (dir_ent (file_bytes s dp) k) = 0) ks of None \<Rightarrow> 16 * ((unat (i_size (inodes s dp)) + 15) div 16) | Some k \<Rightarrow> 16 * k, t)"
      by (elim exE conjE) (rule that)
    show ?thesis using t False u(1,4,5) e lg_frame_trans [OF u(3) t(2)] by (intro exI [of _ t]) simp
  qed
qed

lemma ent_slice: "16 * j + 16 \<le> length xs \<Longrightarrow> dir_ent xs j = (ldw 0 (getb (16 * j) 16 xs), drop 2 (getb (16 * j) 16 xs))"
  using ent_of_slice [of j xs] by (simp add: prod_eq_iff)

lemma getb_take_append:
  assumes "off + m \<le> n" "n \<le> length bs"
  shows "getb off m (take n bs @ ys) = getb off m bs"
  unfolding getb_def by (rule nth_equalityI) (use assms in \<open>auto simp: nth_append\<close>)

text \<open>Replacing the bytes of one entry, or appending those of a new one.\<close>

lemma entries_splice:
  assumes "length bs mod 16 = 0" "k \<le> length bs div 16" "length de = 16"
  shows "dir_entries (take (16 * k) bs @ de @ drop (16 * k + 16) bs) =
    take k (dir_entries bs) @ [(ldw 0 de, drop 2 de)] @ drop (k + 1) (dir_entries bs)" (is "dir_entries ?xs = ?es")
proof (rule nth_equalityI)
  define n where "n = length bs div 16"
  have n: "length bs = 16 * n" "k \<le> n" using assms(1,2) by (auto simp: n_def)
  have lx: "length ?xs = 16 * max n (k + 1)" using n assms(3) by (auto simp: max_def)
  have le: "length (dir_entries bs) = n" by (simp add: dir_entries_def n_def)
  show l: "length (dir_entries ?xs) = length ?es" unfolding dir_entries_def lx using n by (simp add: max_def)
  fix j assume "j < length (dir_entries ?xs)"
  then have j: "j < max n (k + 1)" unfolding dir_entries_def lx by simp
  have x: "dir_entries ?xs ! j = (ldw 0 (getb (16 * j) 16 ?xs), drop 2 (getb (16 * j) 16 ?xs))"
    using j lx ent_slice [of j ?xs] unfolding dir_entries_def lx by simp
  have b: "dir_entries bs ! i = (ldw 0 (getb (16 * i) 16 bs), drop 2 (getb (16 * i) 16 bs))" if "i < n" for i
    using that ent_slice [of i bs] n by (simp add: dir_entries_def)
  consider "j < k" | "j = k" | "k < j" by linarith
  then show "dir_entries ?xs ! j = ?es ! j"
  proof cases
    case 1
    then have "16 * j + 16 \<le> 16 * k" by simp
    then have "getb (16 * j) 16 ?xs = getb (16 * j) 16 bs" using n by (intro getb_take_append) simp_all
    then show ?thesis using x b [of j] 1 n le by (simp add: nth_append)
  next
    case 2
    then have "getb (16 * j) 16 ?xs = de" using n assms(3) by (simp add: getb_def)
    then show ?thesis using x 2 n le by (simp add: nth_append)
  next
    case 3
    then have "16 * j - (16 * k + 16) + (16 * k + 16) = 16 * j" "j < n" using j by auto
    then have "getb (16 * j) 16 ?xs = getb (16 * j) 16 bs" using n 3 assms(3) by (simp add: getb_def)
    then show ?thesis using x b [OF \<open>j < n\<close>] 3 \<open>j < n\<close> n le by (simp add: nth_append)
  qed
qed

lemma new_entry:
  fixes w :: u16 and name :: "u8 list"
  defines "de \<equiv> word_bytes w @ strncpy (strf name) DIRSIZ"
  shows "length de = 16" "ldw 0 de = w" "drop 2 de = strncpy (strf name) DIRSIZ" "cstr (strf (strncpy (strf name) DIRSIZ)) DIRSIZ = cstr (strf name) DIRSIZ"
proof -
  have l: "length (word_bytes w) = 2" by (simp add: word_bytes_def)
  show "length de = 16" "drop 2 de = strncpy (strf name) DIRSIZ" using l by (simp_all add: de_def)
  have "de = stw 0 w (replicate 2 0 @ strncpy (strf name) DIRSIZ)" using l by (simp add: de_def stw_def putb_def)
  then show "ldw 0 de = w" by (simp add: ldw_stw_16)
  have "map (strf (strncpy (strf name) DIRSIZ)) [0..<DIRSIZ] = map (\<lambda>i. strncpy (strf name) DIRSIZ ! i) [0..<DIRSIZ]" by (rule map_cong) (simp_all add: strf_def)
  then show "cstr (strf (strncpy (strf name) DIRSIZ)) DIRSIZ = cstr (strf name) DIRSIZ" using cstr_strncpy [of "strf name" DIRSIZ] by (simp only: cstr_def)
qed

definition free_entry :: "(u16 \<times> u8 list) list \<Rightarrow> nat" where
  "free_entry es = (case find (\<lambda>k. fst (es ! k) = 0) [0..<length es] of Some k \<Rightarrow> k | None \<Rightarrow> length es)"

lemma free_entry_le: "free_entry es \<le> length es"
  by (auto simp: free_entry_def find_Some_iff split: option.splits)

definition link_entry :: "u8 list \<Rightarrow> u16 \<Rightarrow> (u16 \<times> u8 list) list \<Rightarrow> (u16 \<times> u8 list) list" where
  "link_entry name w es = (let k = free_entry es in take k es @ [(w, strncpy (strf name) DIRSIZ)] @ drop (k + 1) es)"

lemma find_link_entry:
  assumes "\<forall>e\<in>set es. \<not> ent_matches name e" "w \<noteq> 0"
  shows "find (\<lambda>k. ent_matches name (link_entry name w es ! k)) [0..<length (link_entry name w es)] = Some (free_entry es)"
    "fst (link_entry name w es ! free_entry es) = w"
proof -
  let ?k = "free_entry es" and ?es = "link_entry name w es"
  note k = free_entry_le [of es]
  show f: "fst (?es ! ?k) = w" using k by (simp add: link_entry_def Let_def nth_append)
  have "ent_matches name (?es ! ?k)" using k assms(2) new_entry(4) [of name] by (simp add: ent_matches_def link_entry_def Let_def nth_append)
  moreover have "\<not> ent_matches name (?es ! j)" if "j < ?k" for j
    using that k assms(1) nth_mem [of j es] by (simp add: link_entry_def Let_def nth_append)
  moreover have "?k < length ?es" using k by (simp add: link_entry_def Let_def)
  ultimately show "find (\<lambda>k. ent_matches name (?es ! k)) [0..<length ?es] = Some ?k" by (auto simp: find_Some_iff)
qed

lemma dirlink_scan:
  assumes q: "lq s {}" and L: "layout s" and D: "dir_ok s dp"
  shows "\<exists>t. lq t {} \<and> lg_frame s t \<and> bview t = bview s \<and> lh_n t = lh_n s \<and>
    dirlink_loop (dir_offs (i_size (inodes s dp))) dp s = Inr (16 * free_entry (dir_entries (file_bytes s dp)), t)"
proof -
  let ?sz = "unat (i_size (inodes s dp))" and ?es = "dir_entries (file_bytes s dp)"
  have d: "file_ok s dp" "?sz mod 16 = 0" using D by (simp_all add: dir_ok_def)
  have l: "length ?es = ?sz div 16" by (simp add: dir_entries_def)
  have f: "find (\<lambda>k. fst (?es ! k) = 0) [0..<?sz div 16] = find (\<lambda>k. fst (dir_ent (file_bytes s dp) k) = 0) [0..<?sz div 16]"
    by (rule find_cong) (simp_all add: dir_entries_def)
  have z: "(?sz + 15) div 16 = ?sz div 16" by (rule div_mod_add(1)) (simp add: d(2))
  have "\<forall>k\<in>set [0..<?sz div 16]. 16 * k + 16 \<le> ?sz" by auto
  from dirlink_loop_ok [OF q L d(1) this] show ?thesis
    unfolding dir_offs_whole [OF d(2)] free_entry_def l f z by (auto split: option.splits)
qed

lemma dirlink_ok:
  assumes q: "lq s {}" and L: "layout s" and D: "dir_ok s dp" and nm: "\<forall>e\<in>set (dir_entries (file_bytes s dp)). \<not> ent_matches name e"
    and sz: "unat (i_size (inodes s dp)) + 16 \<le> MAXFILE * BSIZE" and x: "txn 7 s" and fr: "2 \<le> card (free_blocks s)"
  shows "\<exists>t. dirlink dp name inum s = Inr (0, t) \<and> lq t {} \<and> extended dp s t \<and> dir_ok t dp \<and> on_disk t dp \<and>
    dir_entries (file_bytes t dp) = link_entry name (ucast inum) (dir_entries (file_bytes s dp))"
proof -
  let ?es = "dir_entries (file_bytes s dp)" and ?sz = "unat (i_size (inodes s dp))"
  let ?k = "free_entry ?es" and ?de = "word_bytes (ucast inum :: u16) @ strncpy (strf name) DIRSIZ"
  have le: "length ?es = ?sz div 16" by (simp add: dir_entries_def)
  have dm: "?sz mod 16 = 0" "file_ok s dp" using D by (simp_all add: dir_ok_def)
  have k: "16 * ?k \<le> ?sz" using free_entry_le [of ?es] le dm(1) by auto
  have "find (\<lambda>k. ent_matches name (?es ! k)) [0..<length ?es] = None" using nm by (auto simp: find_None_iff)
  then obtain u where u: "lq u {}" "lg_frame s u" "bview u = bview s" "lh_n u = lh_n s" "dirlookup dp name s = Inr (None, u)"
    using dirlookup_ok [OF q L D, of name] by auto
  note su = view_same [OF u(2,3)] same_cont [OF u(2,3)] lg_frame_fs [OF u(2)]
  have "dir_ok u dp" using D by (simp add: dir_ok_def su(9,11))
  from dirlink_scan [OF u(1) su(4) [OF L] this] obtain v where v: "lq v {}" "lg_frame u v" "bview v = bview u" "lh_n v = lh_n u"
    "dirlink_loop (dir_offs (i_size (inodes u dp))) dp u = Inr (16 * ?k, v)" unfolding su(8) by blast
  have sv: "lg_frame s v" "bview v = bview s" using lg_frame_trans [OF u(2) v(2)] v(3) u(3) by simp_all
  note w = view_same [OF sv] same_cont [OF sv] lg_frame_fs [OF sv(1)] and ne = new_entry(1-3) [where w = "ucast inum" and name = name]
  have dn: "?de \<noteq> []" using ne(1) by (metis list.size(3) zero_neq_numeral)
  define off :: u32 where "off = of_nat (16 * ?k)"
  have uk: "unat off = 16 * ?k" unfolding off_def using k sz by (intro unat_of_nat_u32) simp
  have md: "16 * ?k mod BSIZE + length ?de \<le> BSIZE * 1" using ne(1) mod_mult_mult1 [of 16 ?k 64] mod_less_divisor [of 64 ?k] by simp
  have "\<exists>t. writei dp (FromObj ?de) off 16 v = Inr (int (length ?de), t) \<and> lq t {} \<and> extended dp v t \<and> file_ok t dp \<and>
    file_bytes t dp = take (unat off) (file_bytes v dp) @ ?de @ drop (unat off + length ?de) (file_bytes v dp) \<and> (?de \<noteq> [] \<longrightarrow> on_disk t dp)"
    by (rule writei_ok [OF v(1) w(4) [OF L], where r = 1]) (use dm(2) k sz ne(1) md fr txn_frame [OF x sv(1), of 7] u(4) v(4) in \<open>simp_all add: w uk\<close>)
  then obtain t where t: "writei dp (FromObj ?de) off 16 v = Inr (16, t)" "lq t {}" "extended dp v t" "file_ok t dp"
    "file_bytes t dp = take (16 * ?k) (file_bytes s dp) @ ?de @ drop (16 * ?k + 16) (file_bytes s dp)" "on_disk t dp"
    unfolding uk ne(1) w(8) using dn by auto
  have ent: "dir_entries (file_bytes t dp) = link_entry name (ucast inum) ?es"
    unfolding t(5) using entries_splice [of "file_bytes s dp" ?k ?de] ne(1-3) dm(1) free_entry_le [of ?es] le by (simp add: link_entry_def Let_def)
  have "unat (i_size (inodes t dp)) = 16 * ?k + 16 + (?sz - (16 * ?k + 16))" using arg_cong [OF t(5), of length] k ne(1) by simp
  then have "unat (i_size (inodes t dp)) mod 16 = 0" using dm(1) by (auto simp: mod_eq_0_iff_dvd intro!: dvd_add dvd_diff_nat)
  moreover have "extended dp s t"
    by (rule extended_trans [OF _ t(3)]) (rule grown_extended, rule grown_same [OF sv L], use dm(2) in \<open>simp add: file_ok_def\<close>)
  moreover have "i_type (inodes t dp) = T_DIR" using extendedD(1) [OF \<open>extended dp s t\<close>] D by (simp add: kept_def dir_ok_def)
  ultimately show ?thesis using t(1) [unfolded off_def] t(2,4,6) ent u(5) v(5) by (simp add: dirlink_def dir_ok_def)
qed

section \<open>Properties\<close>

text \<open>C23. \<open>dirlookup\<close> returns the inode, in the cache, and the offset of the first entry in use that has the name, or nothing when there is none.
  It changes no block, no inode but the one it returns, and keeps one slot of the cache per inode.
\<close>

theorem dirlookup_correct:
  assumes "lq s {}" "layout s" "dir_ok s dp" "icache_ok s" "first_free s \<noteq> None"
  shows "\<exists>t. lq t {} \<and> bview t = bview s \<and> icache_ok t \<and>
    (case find (\<lambda>k. ent_matches name (dir_entries (file_bytes s dp) ! k)) [0..<length (dir_entries (file_bytes s dp))] of
       None \<Rightarrow> dirlookup dp name s = Inr (None, t) \<and> inodes t = inodes s
     | Some k \<Rightarrow> \<exists>ip. dirlookup dp name s = Inr (Some (ip, of_nat (16 * k)), t) \<and> cached ROOTDEV (ucast (fst (dir_entries (file_bytes s dp) ! k))) ip t \<and>
         (\<forall>j. j \<noteq> ip \<longrightarrow> inodes t j = inodes s j))"
proof -
  let ?es = "dir_entries (file_bytes s dp)"
  from dirlookup_ok [OF assms(1-3), of name]
  obtain t where t: "lq t {}" "lg_frame s t" "bview t = bview s" "lh_n t = lh_n s" "dirlookup dp name s =
    (case find (\<lambda>k. ent_matches name (?es ! k)) [0..<length ?es] of
       None \<Rightarrow> Inr (None, t)
     | Some k \<Rightarrow> bnd (iget ROOTDEV (ucast (fst (?es ! k))) t) (\<lambda>(ip, u). Inr (Some (ip, of_nat (16 * k)), u)))"
    by (elim exE conjE) (rule that)
  have i: "inodes t = inodes s" by (rule lg_frame_fs(2) [OF t(2)])
  have c: "icache_ok t" "first_free t \<noteq> None" using assms(4,5) by (simp_all add: icache_ok_def first_free_def i)
  show ?thesis
  proof (cases "find (\<lambda>k. ent_matches name (?es ! k)) [0..<length ?es]")
    case None
    then show ?thesis using t c(1) i by auto
  next
    case (Some k)
    obtain ip f where ip: "iget ROOTDEV (ucast (fst (?es ! k))) t = Inr (ip, upd_ino ip f t)" "cached ROOTDEV (ucast (fst (?es ! k))) ip (upd_ino ip f t)"
      "icache_ok (upd_ino ip f t)" using iget_gives [OF lq_held [OF t(1)] c] by blast
    show ?thesis using Some t(1,3,5) ip i by (intro exI [of _ "upd_ino ip f t"]) auto
  qed
qed

text \<open>C22. \<open>dirlink\<close> of a name that the directory does not have puts it, cut to \<open>DIRSIZ\<close> bytes, with the inode number into the first entry that is not in use, or behind the last,
  and changes no other entry and no other file; afterwards the new entry is the first that a lookup of the name finds.
\<close>

theorem dirlink_correct:
  assumes "lq s {}" "layout s" "dir_ok s dp" "\<forall>e\<in>set (dir_entries (file_bytes s dp)). \<not> ent_matches name e"
    "unat (i_size (inodes s dp)) + 16 \<le> MAXFILE * BSIZE" "txn 7 s" "2 \<le> card (free_blocks s)"
  shows "\<exists>t. dirlink dp name inum s = Inr (0, t) \<and> lq t {} \<and> layout t \<and> dir_ok t dp \<and> on_disk t dp \<and>
    dir_entries (file_bytes t dp) = link_entry name (ucast inum) (dir_entries (file_bytes s dp)) \<and>
    ((ucast inum :: u16) \<noteq> 0 \<longrightarrow> find (\<lambda>k. ent_matches name (dir_entries (file_bytes t dp) ! k)) [0..<length (dir_entries (file_bytes t dp))] =
       Some (free_entry (dir_entries (file_bytes s dp)))) \<and>
    (\<forall>jp. file_ok s jp \<longrightarrow> disjoint_files s dp jp \<longrightarrow> file_bytes t jp = file_bytes s jp \<and> file_ok t jp \<and> disjoint_files t dp jp)"
proof -
  obtain t where t: "dirlink dp name inum s = Inr (0, t)" "lq t {}" "extended dp s t" "dir_ok t dp" "on_disk t dp"
    "dir_entries (file_bytes t dp) = link_entry name (ucast inum) (dir_entries (file_bytes s dp))"
    using dirlink_ok [OF assms, of inum] by blast
  have "(ucast inum :: u16) \<noteq> 0 \<longrightarrow> find (\<lambda>k. ent_matches name (dir_entries (file_bytes t dp) ! k)) [0..<length (dir_entries (file_bytes t dp))] =
       Some (free_entry (dir_entries (file_bytes s dp)))" unfolding t(6) using find_link_entry(1) [OF assms(4)] by blast
  then show ?thesis using t extendedD(2) [OF t(3)] extended_other [OF t(3)] by blast
qed

text \<open>An example: the first file of the example of files as a directory with two entries.\<close>

definition dir_ex :: fsst where
  "dir_ex = upd_ino 0 (\<lambda>_. (file_inode 5 32 46)\<lparr>i_type := T_DIR\<rparr>) files_ex"

lemma dir_ex_sel [simp]: "inodes dir_ex 0 = (file_inode 5 32 46)\<lparr>i_type := T_DIR\<rparr>" "inodes dir_ex (Suc 0) = file_inode 6 3 47" "sb dir_ex = sb_ex"
  by (simp_all add: dir_ex_def)

lemma dir_ex_rest: "lq dir_ex {}" "layout dir_ex" "data_block dir_ex = data_block files_ex" "txn 7 dir_ex" "2 \<le> card (free_blocks dir_ex)" "bview dir_ex = bview files_ex"
proof -
  have "txn 7 files_ex" by (simp add: txn_def)
  then show "lq dir_ex {}" "layout dir_ex" "data_block dir_ex = data_block files_ex" "txn 7 dir_ex" "2 \<le> card (free_blocks dir_ex)" "bview dir_ex = bview files_ex"
    using files_ex_lq files_ex_layout files_ex_free by (simp_all add: dir_ex_def)
qed

lemma dir_ex_fmap: "fmap dir_ex 0 k = (if k = 0 then 46 else 0)" "fmap dir_ex (Suc 0) k = (if k = 0 then 47 else 0)"
  by (simp_all add: fmap_def file_inode_def Let_def)

lemma dir_ex_blocks: "blocks_ok dir_ex 0" "blocks_ok dir_ex (Suc 0)"
  by (rule blocks_okI; use files_ex_data in \<open>auto simp: dir_ex_fmap dir_ex_rest(3) file_inode_def sb_ex_def split: if_splits\<close>)+

lemma dir_ex_ok: "dir_ok dir_ex 0" "file_ok dir_ex (Suc 0)" "disjoint_files dir_ex 0 (Suc 0)"
proof -
  show "dir_ok dir_ex 0" "file_ok dir_ex (Suc 0)" using dir_ex_blocks by (auto simp: dir_ok_def file_ok_def dir_ex_fmap file_inode_def)
  show "disjoint_files dir_ex 0 (Suc 0)" by (auto simp: disjoint_files_def fowns_def dir_ex_fmap file_inode_def split: if_splits)
qed

lemma dir_ex_cache: "icache_ok dir_ex" "first_free dir_ex \<noteq> None"
proof -
  have i: "inodes dir_ex i = (if i = 0 then (file_inode 5 32 46)\<lparr>i_type := T_DIR\<rparr> else if i = 1 then file_inode 6 3 47 else inode0)" for i
    by (simp add: dir_ex_def files_ex_def)
  show "icache_ok dir_ex" unfolding icache_ok_def i by (simp add: file_inode_def inode0_def)
  have "i_ref (inodes dir_ex 2) = 0" "2 \<in> set [0..<NINODE]" unfolding i by (simp_all add: inode0_def del: upt_rec_numeral)
  then show "first_free dir_ex \<noteq> None" unfolding first_free_def find_None_iff by blast
qed

lemma dir_ex_entries: "dir_entries (file_bytes dir_ex 0) = [(0x0707, replicate 14 7), (0x0707, replicate 14 7)]"
proof -
  have c: "cont dir_ex 0 i = 7" if "i < 32" for i using that by (simp add: cont_def dir_ex_fmap dir_ex_rest(6) files_ex_blocks)
  have "file_bytes dir_ex 0 = map (cont dir_ex 0) [0..<32]" by (simp add: file_bytes_def file_inode_def)
  also have "\<dots> = map (\<lambda>_. 7) [0..<32]" using c by (intro map_cong) simp_all
  finally have b: "file_bytes dir_ex 0 = replicate 32 7" by (simp add: map_replicate_const)
  have "dir_entries (replicate 32 7) = [(0x0707, replicate 14 7), (0x0707, replicate 14 7)]" by code_simp
  then show ?thesis unfolding b .
qed

theorem dirlookup_correct_witness:
  "(\<exists>t ip. dirlookup 0 (replicate 14 7) dir_ex = Inr (Some (ip, 0), t) \<and> cached ROOTDEV 0x0707 ip t) \<and> (\<exists>t. dirlookup 0 [97, 98] dir_ex = Inr (None, t) \<and> inodes t = inodes dir_ex)"
proof -
  let ?es = "[(0x0707, replicate 14 7), (0x0707, replicate 14 7)] :: (u16 \<times> u8 list) list"
  have "find (\<lambda>k. ent_matches (replicate 14 7) (?es ! k)) [0..<length ?es] = Some 0" "find (\<lambda>k. ent_matches [97, 98] (?es ! k)) [0..<length ?es] = None"
    by code_simp+
  note f = this
  note c = dirlookup_correct [OF dir_ex_rest(1,2) dir_ex_ok(1) dir_ex_cache, unfolded dir_ex_entries]
  have "ucast (0x0707 :: u16) = (0x0707 :: u32)" by simp
  then have "\<exists>t ip. dirlookup 0 (replicate 14 7) dir_ex = Inr (Some (ip, 0), t) \<and> cached ROOTDEV 0x0707 ip t"
    using c [of "replicate 14 7", unfolded f(1)] by auto
  moreover have "\<exists>t. dirlookup 0 [97, 98] dir_ex = Inr (None, t) \<and> inodes t = inodes dir_ex" using c [of "[97, 98]", unfolded f(2)] by auto
  ultimately show ?thesis by blast
qed

theorem dirlink_correct_witness:
  "\<exists>t. dirlink 0 [97, 98] 6 dir_ex = Inr (0, t) \<and> file_bytes t 1 = file_bytes dir_ex 1 \<and> on_disk t 0 \<and>
    dir_entries (file_bytes t 0) = [(0x0707, replicate 14 7), (0x0707, replicate 14 7), (6, [97, 98] @ replicate 12 0)]"
proof -
  have n: "\<not> ent_matches [97, 98] (0x0707, replicate 14 7)" by code_simp
  have l: "link_entry [97, 98] (ucast (6 :: u32)) [(0x0707, replicate 14 7), (0x0707, replicate 14 7)] =
    [(0x0707, replicate 14 7), (0x0707, replicate 14 7), (6, [97, 98] @ replicate 12 0)]" by code_simp
  have "unat (i_size (inodes dir_ex 0)) + 16 \<le> MAXFILE * BSIZE" by (simp add: file_inode_def)
  then show ?thesis
    using dirlink_correct [OF dir_ex_rest(1,2) dir_ex_ok(1), of "[97, 98]" 6] n l dir_ex_rest(4,5) dir_ex_ok(2,3) unfolding dir_ex_entries by auto
qed

end
