(* ===== verification/Pipe_Rules.thy ===== *)
theory Pipe_Rules
  imports Examples Ring
begin

text \<open>
  Pipes against their specification: a bounded queue of bytes. The ring with its two free running counters is an instance of the ring contract; \<open>pipewrite\<close> appends
  the bytes of the caller in order; and a writer and a reader that run their critical sections in any order, sleeping and waking each other as the code does,
  always come to the point where everything written has been read.
\<close>

section \<open>The ring\<close>

definition pipe_ok :: "pipe \<Rightarrow> bool" where
  "pipe_ok p \<longleftrightarrow> unat (nwrite p - nread p) \<le> PIPESIZE"

definition pipe_queue :: "pipe \<Rightarrow> u8 list" where
  "pipe_queue p = fr_queue 512 (nread p) (unat (nwrite p - nread p)) (pi_data p)"

lemma pipe_full_iff: "pipe_full p \<longleftrightarrow> unat (nwrite p - nread p) = PIPESIZE"
proof -
  have "pipe_full p \<longleftrightarrow> nwrite p - nread p = 512" by (auto simp: pipe_full_def algebra_simps)
  then show ?thesis by (simp add: word_unat_eq_iff)
qed

lemma unat_Suc32: "unat (x :: u32) < 2 ^ 32 - 1 \<Longrightarrow> unat (x + 1) = Suc (unat x)"
  by (simp add: unat_word_ariths)

interpretation pipe: ring pipe_ok pipe_full pipe_put pipe_get pipe_queue PIPESIZE
proof
  fix p :: pipe and x :: u8
  assume ok: "pipe_ok p"
  have d: "unat (512 :: u32) dvd 2 ^ 32" by simp
  show "length (pipe_queue p) \<le> PIPESIZE" using ok by (simp add: pipe_queue_def pipe_ok_def)
  show "pipe_full p \<longleftrightarrow> length (pipe_queue p) = PIPESIZE" by (simp add: pipe_full_iff pipe_queue_def)
  show "pipe_ok (pipe_put x p)" "pipe_queue (pipe_put x p) = pipe_queue p @ [x]" if "\<not> pipe_full p"
  proof -
    have lt: "unat (nwrite p - nread p) < 512" using ok that by (simp add: pipe_ok_def pipe_full_iff)
    have e: "nwrite p + 1 - nread p = (nwrite p - nread p) + 1" by simp
    have l: "unat (nwrite p + 1 - nread p) = Suc (unat (nwrite p - nread p))" unfolding e by (rule unat_Suc32) (use lt in simp)
    show "pipe_ok (pipe_put x p)" using lt l by (simp add: pipe_ok_def pipe_put_def)
    have "nread p + of_nat (unat (nwrite p - nread p)) = nwrite p" by simp
    then show "pipe_queue (pipe_put x p) = pipe_queue p @ [x]"
      using fr_put [OF d, of "unat (nwrite p - nread p)" "nread p" "pi_data p" x] lt l by (simp add: pipe_queue_def pipe_put_def)
  qed
  show "pipe_ok (snd (pipe_get p))" "pipe_queue p = fst (pipe_get p) # pipe_queue (snd (pipe_get p))" if ne: "pipe_queue p \<noteq> []"
  proof -
    obtain n where n: "unat (nwrite p - nread p) = Suc n" using ne by (cases "unat (nwrite p - nread p)") (auto simp: pipe_queue_def fr_queue_def)
    then have "1 \<le> nwrite p - nread p" by (simp add: word_le_nat_alt)
    then have "unat (nwrite p - nread p - 1) = n" using n by (simp add: unat_sub)
    moreover have "nwrite p - (nread p + 1) = nwrite p - nread p - 1" by simp
    ultimately have l: "unat (nwrite p - (nread p + 1)) = n" by (simp only:)
    show "pipe_ok (snd (pipe_get p))" using ok n l by (simp add: pipe_ok_def pipe_get_def)
    show "pipe_queue p = fst (pipe_get p) # pipe_queue (snd (pipe_get p))" using n l by (simp add: pipe_queue_def pipe_get_def fr_get)
  qed
qed

lemma pipe_empty_iff: "nread p = nwrite p \<longleftrightarrow> pipe_queue p = []"
proof -
  have "pipe_queue p = [] \<longleftrightarrow> nwrite p - nread p = 0" by (simp add: pipe_queue_def fr_queue_def unat_eq_0)
  then show ?thesis by auto
qed

section \<open>Critical sections\<close>

text \<open>The part of \<open>pipewrite\<close> under the lock, on the bytes still to be written: what does not fit remains.\<close>

fun write_section :: "u8 list \<Rightarrow> pipe \<Rightarrow> u8 list \<times> pipe" where
  "write_section [] p = ([], p)"
| "write_section (b # bs) p = (if pipe_full p then (b # bs, p) else write_section bs (pipe_put b p))"

text \<open>The part of \<open>piperead\<close> under the lock, for at most \<open>n\<close> bytes.\<close>

fun read_section :: "nat \<Rightarrow> pipe \<Rightarrow> u8 list \<times> pipe" where
  "read_section 0 p = ([], p)"
| "read_section (Suc n) p =
     (if nread p = nwrite p then ([], p)
      else let (ch, p) = pipe_get p; (bs, p) = read_section n p in (ch # bs, p))"

lemma write_section_ok:
  "pipe_ok p \<Longrightarrow> write_section bs p = (rest, p') \<Longrightarrow>
   pipe_ok p' \<and> pipe_queue p' @ rest = pipe_queue p @ bs \<and> length (pipe_queue p') = min PIPESIZE (length (pipe_queue p) + length bs)"
proof (induction bs arbitrary: p)
  case Nil then show ?case using pipe.queue_len [of p] by auto
next
  case (Cons b bs)
  show ?case
  proof (cases "pipe_full p")
    case True then show ?thesis using Cons.prems pipe.full_iff [OF Cons.prems(1)] by auto
  next
    case False
    then have "pipe_ok (pipe_put b p)" "pipe_queue (pipe_put b p) = pipe_queue p @ [b]" using pipe.put_ok pipe.put_queue Cons.prems(1) by blast+
    then show ?thesis using Cons.IH [of "pipe_put b p"] Cons.prems False by simp
  qed
qed

lemma read_section_ok:
  "pipe_ok p \<Longrightarrow> read_section n p = (bs, p') \<Longrightarrow> pipe_ok p' \<and> bs @ pipe_queue p' = pipe_queue p \<and> length bs = min n (length (pipe_queue p))"
proof (induction n arbitrary: p bs)
  case (Suc n)
  show ?case
  proof (cases "pipe_queue p = []")
    case True
    then have "nread p = nwrite p" by (simp only: pipe_empty_iff)
    then show ?thesis using Suc.prems True by auto
  next
    case False
    obtain ch q where g: "pipe_get p = (ch, q)" by force
    have q: "pipe_ok q" "pipe_queue p = ch # pipe_queue q" using pipe.get_ok [OF Suc.prems(1) False] pipe.get_queue [OF Suc.prems(1) False] g by auto
    obtain bs2 where r: "read_section n q = (bs2, p')" "bs = ch # bs2" using Suc.prems False g by (auto simp: pipe_empty_iff split: prod.splits)
    then show ?thesis using Suc.IH [OF q(1) r(1)] q by simp
  qed
qed auto

section \<open>pipewrite\<close>

lemma copyin_byte:
  assumes "pt_ok s pt" "acc s pt va"
  shows "copyin pt va 1 s = Inr (0, [user_byte s pt va], s)"
proof -
  obtain r n where c: "copyin pt va 1 s = Inr (r, user_bytes s pt va n, s)" "readable s pt va (unat (1 :: u64)) r n" using copyin_ok [OF assms(1), of va 1] by blast
  then have "r = 0 \<and> n = 1" using assms(2) by (auto simp: readable_def)
  then show ?thesis using c(1) by (simp add: user_bytes_def)
qed

lemma upd_pipe_km [simp]:
  "pt_ok (upd_pipe pi f s) pt = pt_ok s pt" "acc (upd_pipe pi f s) pt va = acc s pt va" "user_byte (upd_pipe pi f s) pt va = user_byte s pt va"
  "procs (upd_pipe pi f s) = procs s" "cur (upd_pipe pi f s) = cur s" "held (upd_pipe pi f s) = held s" "pipes (upd_pipe pi f s) = (pipes s)(pi := f (pipes s pi))"
  by (simp_all add: upd_pipe_def pt_ok_def acc_def user_byte_def user_pa_def PAGE2REF_def)

text \<open>The bytes of the caller from index \<open>i\<close> on.\<close>

definition caller_bytes :: "u64 \<Rightarrow> int \<Rightarrow> nat \<Rightarrow> 'a filest_scheme \<Rightarrow> u8 list" where
  "caller_bytes addr i k s = map (\<lambda>j. user_byte s (p_pagetable (procs s (cur s))) (addr + word_of_int (i + int j))) [0..<k]"

lemma caller_bytes_Suc:
  "caller_bytes addr i (Suc k) s = user_byte s (p_pagetable (procs s (cur s))) (addr + word_of_int i) # caller_bytes addr (i + 1) k s"
proof -
  have "[0..<Suc k] = 0 # map Suc [0..<k]" by (simp add: upt_conv_Cons map_Suc_upt del: upt_Suc)
  then show ?thesis by (simp add: caller_bytes_def comp_def ac_simps del: upt_Suc)
qed

lemma caller_bytes_upd [simp]: "caller_bytes addr i k (upd_pipe pi f s) = caller_bytes addr i k s"
  by (simp add: caller_bytes_def)

text \<open>How the loop of \<open>pipewrite\<close> ends, given what did not fit.\<close>

definition write_end :: "addr \<Rightarrow> int \<Rightarrow> u8 list \<Rightarrow> 'a filest_scheme \<Rightarrow> (outcome \<times> 'a filest_scheme) kres" where
  "write_end pi n rest s =
     (if rest = []
      then bnd (wakeup (ChPipeRead pi) s) (\<lambda>s. bnd (release (LkPipe pi) s) (\<lambda>s. Inr (Returns n, s)))
      else if \<not> readopen (pipes s pi) \<or> p_killed (procs s (cur s)) then bnd (release (LkPipe pi) s) (\<lambda>s. Inr (Returns (- 1), s))
      else bnd (wakeup (ChPipeRead pi) s) (\<lambda>s. Inr (Waits (n - int (length rest)), s)))"

lemma write_section_upd: "write_section bs p = (rest, q) \<Longrightarrow> readopen q = readopen p"
  by (induction bs arbitrary: p) (auto simp: pipe_put_def split: if_splits)

lemma upd_pipe_id: "upd_pipe pi (\<lambda>_. pipes s pi) s = s"
  by (simp add: upd_pipe_def)

lemma upd_pipe_twice: "upd_pipe pi (\<lambda>_. q) (upd_pipe pi f s) = upd_pipe pi (\<lambda>_. q) s"
  by (simp add: upd_pipe_def)

lemma pipewrite_loop_eq:
  assumes "pt_ok s (p_pagetable (procs s (cur s)))" "\<forall>j<k. acc s (p_pagetable (procs s (cur s))) (addr + word_of_int (i + int j))"
    "write_section (caller_bytes addr i k s) (pipes s pi) = (rest, q)"
  shows "pipewrite_loop k pi addr i s = write_end pi (i + int k) rest (upd_pipe pi (\<lambda>_. q) s)"
  using assms
proof (induction k arbitrary: i s)
  case 0
  then have "q = pipes s pi" "rest = []" by (simp_all add: caller_bytes_def)
  then show ?case by (simp add: write_end_def upd_pipe_id)
next
  case (Suc k)
  let ?pt = "p_pagetable (procs s (cur s))"
  let ?b = "user_byte s ?pt (addr + word_of_int i)"
  have a0: "acc s ?pt (addr + word_of_int i)" using Suc.prems(2) by force
  have a: "\<forall>j<k. acc s ?pt (addr + word_of_int (i + 1 + int j))"
  proof (intro allI impI)
    fix j assume "j < k"
    then show "acc s ?pt (addr + word_of_int (i + 1 + int j))" using spec [OF Suc.prems(2), of "Suc j"] by (simp add: ac_simps)
  qed
  show ?case
  proof (cases "pipe_full (pipes s pi)")
    case True
    then have r: "rest = caller_bytes addr i (Suc k) s" "q = pipes s pi" using Suc.prems(3) by (auto simp: caller_bytes_Suc)
    then have "rest \<noteq> []" "length rest = Suc k" by (simp_all add: caller_bytes_def)
    then show ?thesis using True r by (simp add: write_end_def upd_pipe_id)
  next
    case False
    let ?s = "upd_pipe pi (pipe_put ?b) s"
    have w: "write_section (caller_bytes addr (i + 1) k ?s) (pipes ?s pi) = (rest, q)" using Suc.prems(3) False by (simp add: caller_bytes_Suc)
    have "pipewrite_loop k pi addr (i + 1) ?s = write_end pi (i + 1 + int k) rest (upd_pipe pi (\<lambda>_. q) ?s)"
      by (rule Suc.IH [OF _ _ w]) (use Suc.prems(1) a in simp_all)
    then show ?thesis using False copyin_byte [OF Suc.prems(1) a0] by (simp add: upd_pipe_twice ac_simps)
  qed
qed

section \<open>A writer and a reader\<close>

text \<open>
  One process writes the bytes \<open>wrest\<close>, another reads with calls for any positive number of bytes. A step is a critical section: the part of \<open>pipewrite\<close> or \<open>piperead\<close> between
  taking the lock and giving it up, by returning or by sleeping.
\<close>

record psys =
  ring_of :: pipe
  wrest :: "u8 list"
  rgot :: "u8 list"
  wsleeps :: bool
  rsleeps :: bool

inductive pipe_step :: "psys \<Rightarrow> psys \<Rightarrow> bool" where
  writes: "\<not> wsleeps s \<Longrightarrow> wrest s \<noteq> [] \<Longrightarrow> write_section (wrest s) (ring_of s) = (rest, p) \<Longrightarrow>
    pipe_step s (s\<lparr>ring_of := p, wrest := rest, wsleeps := (rest \<noteq> []), rsleeps := False\<rparr>)"
| reads: "\<not> rsleeps s \<Longrightarrow> nread (ring_of s) \<noteq> nwrite (ring_of s) \<Longrightarrow> 0 < n \<Longrightarrow> read_section n (ring_of s) = (bs, p) \<Longrightarrow>
    pipe_step s (s\<lparr>ring_of := p, rgot := rgot s @ bs, wsleeps := False\<rparr>)"
| waits: "\<not> rsleeps s \<Longrightarrow> nread (ring_of s) = nwrite (ring_of s) \<Longrightarrow> pipe_step s (s\<lparr>rsleeps := True\<rparr>)"

inductive_cases pipe_stepE: "pipe_step s t"

definition pipe_start :: "pipe \<Rightarrow> u8 list \<Rightarrow> psys" where
  "pipe_start p xs = \<lparr>ring_of = p, wrest = xs, rgot = [], wsleeps = False, rsleeps = False\<rparr>"

inductive pipe_reach :: "pipe \<Rightarrow> u8 list \<Rightarrow> psys \<Rightarrow> bool" for p xs where
  start: "pipe_reach p xs (pipe_start p xs)"
| step: "pipe_reach p xs s \<Longrightarrow> pipe_step s t \<Longrightarrow> pipe_reach p xs t"

definition pipe_sys_inv :: "u8 list \<Rightarrow> psys \<Rightarrow> bool" where
  "pipe_sys_inv xs s \<longleftrightarrow> pipe_ok (ring_of s) \<and> rgot s @ pipe_queue (ring_of s) @ wrest s = xs \<and>
     (wsleeps s \<longrightarrow> length (pipe_queue (ring_of s)) = PIPESIZE) \<and> (rsleeps s \<longrightarrow> pipe_queue (ring_of s) = [])"

lemma pipe_step_inv: "pipe_step s t \<Longrightarrow> pipe_sys_inv xs s \<Longrightarrow> pipe_sys_inv xs t"
proof (induction rule: pipe_step.induct)
  case (writes s rest p)
  have w: "pipe_ok p" "pipe_queue p @ rest = pipe_queue (ring_of s) @ wrest s" "length (pipe_queue p) = min PIPESIZE (length (pipe_queue (ring_of s)) + length (wrest s))"
    using write_section_ok [OF _ writes(3)] writes(4) by (auto simp: pipe_sys_inv_def)
  have "length (pipe_queue p) = PIPESIZE" if "rest \<noteq> []"
  proof -
    have "length (pipe_queue p) + length rest = length (pipe_queue (ring_of s)) + length (wrest s)" using arg_cong [OF w(2), of length] by simp
    moreover have "0 < length rest" using that by simp
    ultimately show ?thesis using w(3) by linarith
  qed
  moreover have "rgot s @ pipe_queue p @ rest = xs" using w(2) writes(4) by (simp add: pipe_sys_inv_def)
  ultimately show ?case using w(1) by (simp add: pipe_sys_inv_def)
next
  case (reads s n bs p)
  have "pipe_ok p" "bs @ pipe_queue p = pipe_queue (ring_of s)" using read_section_ok [OF _ reads(4)] reads(5) by (auto simp: pipe_sys_inv_def)
  moreover have "rgot s @ bs @ pipe_queue p @ wrest s = xs"
    using calculation(2) reads(5) unfolding pipe_sys_inv_def by (metis append.assoc)
  ultimately show ?case using reads(1) by (simp add: pipe_sys_inv_def)
next
  case (waits s) then show ?case by (auto simp: pipe_sys_inv_def pipe_empty_iff)
qed

lemma pipe_reach_inv:
  assumes "pipe_ok p" "pipe_queue p = []" "pipe_reach p xs s"
  shows "pipe_sys_inv xs s"
  using assms(3)
proof (induction rule: pipe_reach.induct)
  case start then show ?case using assms by (simp add: pipe_sys_inv_def pipe_start_def)
qed (rule pipe_step_inv)

definition pipe_work :: "psys \<Rightarrow> nat" where
  "pipe_work s = 4 * length (wrest s) + 2 * length (pipe_queue (ring_of s)) + of_bool (\<not> wsleeps s) + of_bool (\<not> rsleeps s)"

lemma pipe_step_work: "pipe_step s t \<Longrightarrow> pipe_sys_inv xs s \<Longrightarrow> pipe_work t < pipe_work s"
proof (induction rule: pipe_step.induct)
  case (writes s rest p)
  have w: "pipe_queue p @ rest = pipe_queue (ring_of s) @ wrest s" "length (pipe_queue p) = min PIPESIZE (length (pipe_queue (ring_of s)) + length (wrest s))"
    using write_section_ok [OF _ writes(3)] writes(4) by (auto simp: pipe_sys_inv_def)
  have len: "length (pipe_queue p) + length rest = length (pipe_queue (ring_of s)) + length (wrest s)" using arg_cong [OF w(1), of length] by simp
  have le: "length (pipe_queue (ring_of s)) \<le> PIPESIZE" using writes(4) pipe.queue_len by (simp add: pipe_sys_inv_def)
  have z: "0 < length (wrest s)" using writes(2) by simp
  show ?case
  proof (cases "rest = []")
    case True
    then show ?thesis using len z writes(1) by (cases "wrest s") (simp_all add: pipe_work_def)
  next
    case False
    then have r: "0 < length rest" by simp
    show ?thesis
    proof (cases "rsleeps s")
      case True
      then have e: "pipe_queue (ring_of s) = []" using writes(4) by (simp add: pipe_sys_inv_def)
      then have "length (pipe_queue p) \<noteq> 0" using w(2) z by simp
      then show ?thesis using len writes(1) True False e by (cases "pipe_queue p") (simp_all add: pipe_work_def)
    next
      case rs: False
      have "length (pipe_queue (ring_of s)) \<le> length (pipe_queue p)" using w(2) le by simp
      then show ?thesis using len writes(1) rs False by (simp add: pipe_work_def)
    qed
  qed
next
  case (reads s n bs p)
  have r: "bs @ pipe_queue p = pipe_queue (ring_of s)" "length bs = min n (length (pipe_queue (ring_of s)))" using read_section_ok [OF _ reads(4)] reads(5) by (auto simp: pipe_sys_inv_def)
  have len: "length bs + length (pipe_queue p) = length (pipe_queue (ring_of s))" using arg_cong [OF r(1), of length] by simp
  have "pipe_queue (ring_of s) \<noteq> []" using reads(2) by (simp add: pipe_empty_iff)
  then have "0 < length bs" using r(2) reads(3) by simp
  then show ?case using len by (cases bs) (simp_all add: pipe_work_def)
next
  case (waits s) then show ?case by (simp add: pipe_work_def)
qed

lemma pipe_progress:
  assumes "pipe_sys_inv xs s" "rgot s \<noteq> xs"
  shows "\<exists>t. pipe_step s t"
proof (cases "pipe_queue (ring_of s) = []")
  case True
  then have "wrest s \<noteq> []" "\<not> wsleeps s" using assms by (auto simp: pipe_sys_inv_def)
  then show ?thesis using pipe_step.writes [of s] by (metis surj_pair)
next
  case False
  then have "\<not> rsleeps s" "nread (ring_of s) \<noteq> nwrite (ring_of s)" using assms(1) by (auto simp: pipe_sys_inv_def pipe_empty_iff)
  then show ?thesis using pipe_step.reads [of s 1] by (metis surj_pair zero_less_one)
qed

section \<open>Properties\<close>

text \<open>C29. A writer and a reader of a pipe, whose critical sections run in any order: what has been read, is in the pipe and is still to be written is always the
  data in their order; as long as not everything has been read one of the two can run, so they never sleep at the same time; and every section brings them
  closer to the end. So every run delivers all bytes, in order.\<close>

theorem pipe_delivers:
  assumes "pipe_ok p" "pipe_queue p = []" "pipe_reach p xs s"
  shows "rgot s @ pipe_queue (ring_of s) @ wrest s = xs \<and> \<not> (wsleeps s \<and> rsleeps s) \<and> (rgot s = xs \<or> (\<exists>t. pipe_step s t)) \<and>
    (\<forall>t. pipe_step s t \<longrightarrow> pipe_work t < pipe_work s)"
proof -
  have i: "pipe_sys_inv xs s" by (rule pipe_reach_inv [OF assms])
  then have "\<not> (wsleeps s \<and> rsleeps s)" by (auto simp: pipe_sys_inv_def)
  then show ?thesis using i pipe_progress [OF i] pipe_step_work [OF _ i] by (auto simp: pipe_sys_inv_def)
qed

definition pipe0 :: pipe where
  "pipe0 = \<lparr>pi_data = (\<lambda>_. 0), nread = 0xFFFFFFFF, nwrite = 0xFFFFFFFF, readopen = True, writeopen = True\<rparr>"

theorem pipe_delivers_witness:
  "\<exists>s. pipe_reach pipe0 [1, 2, 3] s \<and> rgot s @ pipe_queue (ring_of s) @ wrest s = [1, 2, 3] \<and> wrest s = []"
proof -
  have p: "pipe_ok pipe0" "pipe_queue pipe0 = []" by (simp_all add: pipe_ok_def pipe_queue_def pipe0_def fr_queue_def)
  let ?s = "pipe_start pipe0 [1, 2, 3]"
  obtain q where w: "write_section [1, 2, 3] pipe0 = ([], q)" by (simp add: pipe_full_def pipe_put_def pipe0_def)
  let ?t = "?s\<lparr>ring_of := q, wrest := [], wsleeps := False, rsleeps := False\<rparr>"
  have "pipe_step ?s ?t" using pipe_step.writes [of ?s "[]" q] w by (simp add: pipe_start_def)
  then have r: "pipe_reach pipe0 [1, 2, 3] ?t" by (rule pipe_reach.step [OF pipe_reach.start])
  then show ?thesis using pipe_delivers [OF p r] by (intro exI [of _ ?t]) simp
qed


text \<open>A process with one page, for the example.\<close>

definition pw_ex :: filest where
  "pw_ex = fl_ex\<lparr>procs := procs cw_ex, cur := cur cw_ex, mem := mem cw_ex, pageref := pageref cw_ex, kend := kend cw_ex\<rparr>"

lemma cw_ex_acc: "va < 4096 \<Longrightarrow> acc cw_ex 0x87FFC000 va"
proof -
  assume va: "va < 4096"
  have "acc cw_ex 0x87FFC000 0"
    using cw_ex_old(3,4) unfolding acc_def upte_def upa_def uva_def by (simp add: pte_has_bits user_perm_def bit_or_iff)
  moreover have "PGROUNDDOWN va = PGROUNDDOWN 0" using va by (simp add: word_unat_eq_iff unat_PGROUNDDOWN word_less_nat_alt)
  ultimately show ?thesis using acc_page by blast
qed


end
