(* ===== verification/Descriptors.thy ===== *)
theory Descriptors
  imports Examples
begin

text \<open>
  The typing of file descriptors: every descriptor of every process names an entry of the file table that is in use and has a type, and the reference count
  of an entry is the number of descriptors that name it. So \<open>filedup\<close>, \<open>fileclose\<close>, \<open>fileread\<close> and \<open>filewrite\<close> never meet an entry they would panic on. The
  operations on descriptors keep this.
\<close>

definition refs :: "'a filest_scheme \<Rightarrow> nat \<Rightarrow> (nat \<times> nat) set" where
  "refs s f = {(p, fd). p < NPROC \<and> fd < NOFILE \<and> p_ofile (procs s p) fd = Some f}"

definition files_ok :: "'a filest_scheme \<Rightarrow> bool" where
  "files_ok s \<longleftrightarrow> cur s < NPROC \<and>
     (\<forall>p<NPROC. \<forall>fd f. p_ofile (procs s p) fd = Some f \<longrightarrow> fd < NOFILE \<and> f < NFILE) \<and>
     (\<forall>f<NFILE. f_ref (ftable s f) = int (card (refs s f))) \<and>
     (\<forall>f<NFILE. 0 < f_ref (ftable s f) \<longrightarrow> f_type (ftable s f) \<noteq> FD_NONE)"

lemma refs_finite [simp]: "finite (refs s f)"
  by (rule finite_subset [of _ "{0..<NPROC} \<times> {0..<NOFILE}"]) (auto simp: refs_def)

lemma files_okD:
  assumes "files_ok s" "p < NPROC" "p_ofile (procs s p) fd = Some f"
  shows "fd < NOFILE" "f < NFILE" "0 < f_ref (ftable s f)" "f_type (ftable s f) \<noteq> FD_NONE"
proof -
  show n: "fd < NOFILE" "f < NFILE" using assms by (auto simp: files_ok_def)
  have "(p, fd) \<in> refs s f" using assms(2,3) n(1) by (simp add: refs_def)
  then have "0 < card (refs s f)" by (auto simp: card_gt_0_iff)
  then show "0 < f_ref (ftable s f)" "f_type (ftable s f) \<noteq> FD_NONE" using assms(1) n(2) by (simp_all add: files_ok_def)
qed

text \<open>Setting one descriptor and counting one reference more, or clearing it and counting one less.\<close>

definition moved :: "nat \<Rightarrow> nat \<Rightarrow> nat option \<Rightarrow> nat \<Rightarrow> int \<Rightarrow> 'a filest_scheme \<Rightarrow> 'a filest_scheme \<Rightarrow> bool" where
  "moved p fd v f d s t \<longleftrightarrow> cur t = cur s \<and> ftable t = (ftable s)(f := f_ref_update (\<lambda>r. r + d) (ftable s f)) \<and>
     (\<forall>q. p_ofile (procs t q) = (if q = p then (p_ofile (procs s p))(fd := v) else p_ofile (procs s q)))"

lemma files_ok_add:
  assumes "files_ok s" "moved p fd (Some f) f 1 s t" "p < NPROC" "fd < NOFILE" "p_ofile (procs s p) fd = None" "f < NFILE" "f_type (ftable s f) \<noteq> FD_NONE"
  shows "files_ok t"
proof -
  have "refs t g = (if g = f then insert (p, fd) (refs s f) else refs s g)" for g
    using assms(2-5) by (auto simp: refs_def moved_def split: if_splits)
  moreover have "(p, fd) \<notin> refs s f" using assms(5) by (simp add: refs_def)
  ultimately show ?thesis using assms by (auto simp: files_ok_def moved_def)
qed

lemma files_ok_remove:
  assumes "files_ok s" "moved p fd None f (- 1) s t" "p < NPROC" "p_ofile (procs s p) fd = Some f"
  shows "files_ok t"
proof -
  have r: "refs t g = (if g = f then refs s f - {(p, fd)} else refs s g)" for g
    using assms(2-4) by (auto simp: refs_def moved_def split: if_splits)
  note d = files_okD [OF assms(1,3,4)]
  have i: "(p, fd) \<in> refs s f" using assms(3,4) d(1) by (simp add: refs_def)
  then have "card (refs s f) = Suc (card (refs t f))" using r [of f] card_Suc_Diff1 [of "refs s f" "(p, fd)"] by simp
  then show ?thesis using assms r d by (auto simp: files_ok_def moved_def split: if_splits)
qed

lemma filedup_ok:
  assumes "0 < f_ref (ftable s f)" "LkFtable \<notin> held s"
  shows "filedup f s = Inr (f, upd_file f (f_ref_update (\<lambda>r. r + 1)) s)"
proof -
  have "insert LkFtable (held s) - {LkFtable} = held s" using assms(2) by auto
  then show ?thesis using assms by (simp add: filedup_def upd_file_def)
qed

lemma find_first: "find P [0..<n] = Some i \<Longrightarrow> i < n \<and> P i"
  by (auto simp: find_Some_iff)

lemma argfd_returns: "\<exists>a. argfd 0 s = Inr a"
  by (simp add: argfd_def argint_def argraw_def split: option.split)

lemma argfd_file: "argfd 0 s = Inr (Some (fd, f)) \<Longrightarrow> p_ofile (procs s (cur s)) fd = Some f"
  by (auto simp: argfd_def argint_def argraw_def split: if_splits option.splits)

lemma sys_dup_ok:
  assumes "files_ok s" "LkFtable \<notin> held s"
  shows "\<exists>r t. sys_dup s = Inr (r, t) \<and> files_ok t \<and> LkFtable \<notin> held t"
proof -
  obtain a where a: "argfd 0 s = Inr a" using argfd_returns by blast
  show ?thesis
  proof (cases a)
    case None then show ?thesis using a assms by (simp add: sys_dup_def)
  next
    case (Some b)
    then obtain fd0 f where b: "a = Some (fd0, f)" by (cases b) auto
    have o: "p_ofile (procs s (cur s)) fd0 = Some f" using argfd_file a b by blast
    have c: "cur s < NPROC" using assms(1) by (simp add: files_ok_def)
    note d = files_okD [OF assms(1) c o]
    show ?thesis
    proof (cases "find (\<lambda>fd. p_ofile (myproc s) fd = None) [0..<NOFILE]")
      case None then show ?thesis using a b assms by (simp add: sys_dup_def fdalloc_def)
    next
      case (Some fd)
      note n = find_first [OF Some]
      let ?t = "upd_file f (f_ref_update (\<lambda>r. r + 1)) (set_ofile fd (Some f) s)"
      have "filedup f (set_ofile fd (Some f) s) = Inr (f, ?t)" using d(3) assms(2) by (intro filedup_ok) (simp_all add: set_ofile_def upd_proc_def)
      then have "sys_dup s = Inr (of_nat fd, ?t)" using a b Some by (simp add: sys_dup_def fdalloc_def)
      moreover have "moved (cur s) fd (Some f) f 1 s ?t" by (simp add: moved_def set_ofile_def upd_proc_def upd_file_def)
      then have "files_ok ?t" using files_ok_add [OF assms(1) _ c] n d by simp
      ultimately show ?thesis using assms(2) by (simp add: set_ofile_def upd_proc_def upd_file_def)
    qed
  qed
qed

lemma fork_files_ok:
  assumes "files_ok s" "LkFtable \<notin> held s" "np < NPROC" "np \<noteq> cur s" "distinct is" "\<forall>i\<in>set is. i < NOFILE \<and> p_ofile (procs s np) i = None"
  shows "\<exists>t. fork_files is np s = Inr t \<and> files_ok t \<and> cur t = cur s \<and> LkFtable \<notin> held t \<and> p_ofile (procs t (cur s)) = p_ofile (procs s (cur s)) \<and>
    (\<forall>i. p_ofile (procs t np) i = (if i \<in> set is then p_ofile (procs s (cur s)) i else p_ofile (procs s np) i))"
  using assms
proof (induction "is" arbitrary: s)
  case (Cons i "is")
  show ?case
  proof (cases "p_ofile (procs s (cur s)) i")
    case None
    obtain t where "fork_files is np s = Inr t" "files_ok t" "cur t = cur s" "LkFtable \<notin> held t" "p_ofile (procs t (cur s)) = p_ofile (procs s (cur s))"
      "\<forall>i. p_ofile (procs t np) i = (if i \<in> set is then p_ofile (procs s (cur s)) i else p_ofile (procs s np) i)" using Cons.IH [of s] Cons.prems by auto
    then show ?thesis using None Cons.prems(6) by (auto split: if_splits)
  next
    case (Some f)
    have c: "cur s < NPROC" using Cons.prems(1) by (simp add: files_ok_def)
    note d = files_okD [OF Cons.prems(1) c Some]
    let ?u = "upd_proc np (\<lambda>x. x\<lparr>p_ofile := (p_ofile x)(i := Some f)\<rparr>) (upd_file f (f_ref_update (\<lambda>r. r + 1)) s)"
    have "moved np i (Some f) f 1 s ?u" by (simp add: moved_def upd_proc_def upd_file_def)
    then have "files_ok ?u" using files_ok_add [OF Cons.prems(1) _ Cons.prems(3)] Cons.prems(6) d by simp
    moreover have "LkFtable \<notin> held ?u" "np \<noteq> cur ?u" using Cons.prems(2,4) by (simp_all add: upd_proc_def upd_file_def)
    moreover have "\<forall>j\<in>set is. j < NOFILE \<and> p_ofile (procs ?u np) j = None" using Cons.prems(5,6) by (auto simp: upd_proc_def upd_file_def)
    ultimately obtain t where t: "fork_files is np ?u = Inr t" "files_ok t" "cur t = cur ?u" "LkFtable \<notin> held t" "p_ofile (procs t (cur ?u)) = p_ofile (procs ?u (cur ?u))"
      "\<forall>j. p_ofile (procs t np) j = (if j \<in> set is then p_ofile (procs ?u (cur ?u)) j else p_ofile (procs ?u np) j)"
      using Cons.IH [of ?u] Cons.prems(3,5) by auto
    have u: "cur ?u = cur s" "p_ofile (procs ?u (cur s)) = p_ofile (procs s (cur s))" "p_ofile (procs ?u np) = (p_ofile (procs s np))(i := Some f)"
      using Cons.prems(4) by (simp_all add: upd_proc_def upd_file_def)
    have "fork_files (i # is) np s = Inr t" using Some t(1) filedup_ok [OF d(3) Cons.prems(2)] by simp
    moreover have "p_ofile (procs t np) j = (if j \<in> set (i # is) then p_ofile (procs s (cur s)) j else p_ofile (procs s np) j)" for j
      using t(6) [unfolded u] Some Cons.prems(5) by simp
    ultimately show ?thesis using t(2-5) [unfolded u] by blast
  qed
qed auto

lemma sys_close_shared:
  assumes "files_ok s" "LkFtable \<notin> held s" "argfd 0 s = Inr (Some (fd, f))" "1 < f_ref (ftable s f)"
  shows "\<exists>t. sys_close s = Inr (0, t) \<and> files_ok t \<and> p_ofile (procs t (cur s)) fd = None \<and> f_type (ftable t f) = f_type (ftable s f)"
proof -
  have c: "cur s < NPROC" using assms(1) by (simp add: files_ok_def)
  have o: "p_ofile (procs s (cur s)) fd = Some f" by (rule argfd_file [OF assms(3)])
  let ?t = "upd_file f (f_ref_update (\<lambda>r. r - 1)) (set_ofile fd None s)"
  have "insert LkFtable (held s) - {LkFtable} = held s" using assms(2) by auto
  then have "fileclose f (set_ofile fd None s) = Inr ?t" using assms(2,4) by (simp add: fileclose_def set_ofile_def upd_proc_def upd_file_def)
  moreover have "moved (cur s) fd None f (- 1) s ?t" by (simp add: moved_def set_ofile_def upd_proc_def upd_file_def)
  then have "files_ok ?t" using files_ok_remove [OF assms(1) _ c o] by simp
  ultimately show ?thesis using assms(3) by (simp add: sys_close_def set_ofile_def upd_proc_def upd_file_def)
qed

section \<open>Properties\<close>

text \<open>C40. The typing of descriptors is kept: \<open>dup\<close> always returns; the loop of \<open>fork\<close> that copies the descriptors gives the child exactly the descriptors of the
  parent; and closing a descriptor whose file has another one leaves that file as it is. After each of them every descriptor of every process names a typed entry
  of the file table, whose reference count is the number of descriptors that name it.\<close>

theorem descriptors_typed:
  assumes "files_ok s" "LkFtable \<notin> held s" "np < NPROC" "np \<noteq> cur s" "p_ofile (procs s np) = (\<lambda>_. None)"
  shows "(\<exists>r t. sys_dup s = Inr (r, t) \<and> files_ok t) \<and>
    (\<exists>t. fork_files [0..<NOFILE] np s = Inr t \<and> files_ok t \<and> p_ofile (procs t np) = p_ofile (procs s (cur s))) \<and>
    (\<forall>fd f. argfd 0 s = Inr (Some (fd, f)) \<longrightarrow> 1 < f_ref (ftable s f) \<longrightarrow>
       (\<exists>t. sys_close s = Inr (0, t) \<and> files_ok t \<and> p_ofile (procs t (cur s)) fd = None))"
proof (intro conjI allI impI)
  show "\<exists>r t. sys_dup s = Inr (r, t) \<and> files_ok t" using sys_dup_ok [OF assms(1,2)] by blast
  have c: "cur s < NPROC" using assms(1) by (simp add: files_ok_def)
  obtain t where t: "fork_files [0..<NOFILE] np s = Inr t" "files_ok t"
    "\<forall>i. p_ofile (procs t np) i = (if i \<in> set [0..<NOFILE] then p_ofile (procs s (cur s)) i else p_ofile (procs s np) i)"
    using fork_files_ok [OF assms(1-4), of "[0..<NOFILE]"] assms(5) by auto
  have "p_ofile (procs t np) i = p_ofile (procs s (cur s)) i" for i
    using t(3) assms(5) files_okD(1) [OF assms(1) c, of i] by (cases "p_ofile (procs s (cur s)) i") auto
  then show "\<exists>t. fork_files [0..<NOFILE] np s = Inr t \<and> files_ok t \<and> p_ofile (procs t np) = p_ofile (procs s (cur s))" using t(1,2) by blast
  fix fd f assume "argfd 0 s = Inr (Some (fd, f))" "1 < f_ref (ftable s f)"
  then show "\<exists>t. sys_close s = Inr (0, t) \<and> files_ok t \<and> p_ofile (procs t (cur s)) fd = None" using sys_close_shared [OF assms(1,2)] by blast
qed

text \<open>Process 0 has its descriptors 0 and 1 on one end of a pipe; its argument registers are zero.\<close>

definition fd_ex :: kst where
  "fd_ex = ks_ex\<lparr>cur := 0, mem := (\<lambda>_. 0), procs := (\<lambda>p. if p = 0 then proc0\<lparr>p_ofile := [0 \<mapsto> 3, 1 \<mapsto> 3]\<rparr> else proc0),
     ftable := (\<lambda>f. \<lparr>f_type = (if f = 3 then FD_PIPE else FD_NONE), f_ref = (if f = 3 then 2 else 0), f_readable = False, f_writable = True, f_pipe = 0,
       f_ip = 0, f_off = 0, f_major = 0\<rparr>)\<rparr>"

lemma fd_ex_ok: "files_ok fd_ex"
proof -
  have "refs fd_ex f = (if f = 3 then {(0, 0), (0, 1)} else {})" for f
    by (auto simp: refs_def fd_ex_def proc0_def split: if_splits)
  then show ?thesis by (simp add: files_ok_def) (auto simp: fd_ex_def proc0_def split: if_splits)
qed

lemma fd_ex_arg: "argfd 0 fd_ex = Inr (Some (0, 3))"
  by (simp add: argfd_def argint_def argraw_def tf_get_def fd_ex_def proc0_def ld64_def)

theorem descriptors_typed_witness:
  "(\<exists>t. fork_files [0..<NOFILE] 5 fd_ex = Inr t \<and> files_ok t \<and> p_ofile (procs t 5) = [0 \<mapsto> 3, 1 \<mapsto> 3]) \<and>
   (\<exists>t. sys_close fd_ex = Inr (0, t) \<and> files_ok t \<and> p_ofile (procs t 0) 0 = None)"
proof -
  have e: "LkFtable \<notin> held fd_ex" "cur fd_ex = 0" "p_ofile (procs fd_ex 5) = (\<lambda>_. None)" "p_ofile (procs fd_ex 0) = [0 \<mapsto> 3, 1 \<mapsto> 3]" "f_ref (ftable fd_ex 3) = 2"
    by (simp_all add: fd_ex_def ex_base ex_defs proc0_def)
  show ?thesis using descriptors_typed [OF fd_ex_ok e(1), of 5] e fd_ex_arg by auto
qed

end
