(* ===== verification/Ulib.thy ===== *)
theory Ulib
  imports Printf
begin

text \<open>
  The C library of the user programs: \<open>user/ulib.c\<close> and \<open>user/printf.c\<close>. A string that a function reads is the list of its bytes up to the terminating
  zero, and a function that fills a buffer gives the bytes it stores. What \<open>read\<close> gives on a descriptor is a list of bytes, one for each call
  that \<open>gets\<close> makes; what \<open>putc\<close> writes, one byte per call, is the list of these bytes.
\<close>

section \<open>Strings\<close>

fun strcpy :: "u8 list \<Rightarrow> u8 list" where
  "strcpy [] = [0]"
| "strcpy (c # t) = c # strcpy t"

fun strcmp :: "u8 list \<Rightarrow> u8 list \<Rightarrow> int" where
  "strcmp [] [] = 0"
| "strcmp [] (y # q) = - uint y"
| "strcmp (x # p) [] = uint x"
| "strcmp (x # p) (y # q) = (if x = y then strcmp p q else uint x - uint y)"

text \<open>\<open>strchr\<close> gives the offset of the character; the list may go on behind the end of the string.\<close>

fun strchr :: "u8 list \<Rightarrow> u8 \<Rightarrow> nat option" where
  "strchr [] c = None"
| "strchr (x # s) c = (if x = 0 then None else if x = c then Some 0 else map_option Suc (strchr s c))"

fun gets_loop :: "nat \<Rightarrow> u8 list \<Rightarrow> u8 list \<times> u8 list" where
  "gets_loop 0 inp = ([], inp)"
| "gets_loop (Suc k) [] = ([], [])"
| "gets_loop (Suc k) (c # inp) =
     (if c = 10 \<or> c = 13 then ([c], inp) else let (bs, inp) = gets_loop k inp in (c # bs, inp))"

definition gets :: "int \<Rightarrow> u8 list \<Rightarrow> u8 list \<times> u8 list" where
  "gets mx inp = (let (bs, inp) = gets_loop (nat (mx - 1)) inp in (bs @ [0], inp))"

fun atoi_loop :: "u32 \<Rightarrow> u8 list \<Rightarrow> u32" where
  "atoi_loop n [] = n"
| "atoi_loop n (c # s) = (if 48 \<le> c \<and> c \<le> 57 then atoi_loop (n * 10 + ucast c - 48) s else n)"

definition atoi :: "u8 list \<Rightarrow> u32" where
  "atoi s = atoi_loop 0 s"

text \<open>\<open>memmove\<close> of the library copies upwards whenever the source is above the destination.\<close>

definition umemmove :: "addr \<Rightarrow> addr \<Rightarrow> u32 \<Rightarrow> memory \<Rightarrow> memory" where
  "umemmove dst src n m =
     (if src > dst then memmove_up dst src (nat (sint n)) m
      else memmove_down (dst + scast n) (src + scast n) (nat (sint n)) m)"

section \<open>Formatted output\<close>

definition udigits :: "u8 list" where
  "udigits = ascii ''0123456789ABCDEF''"

function uprint_digits :: "nat \<Rightarrow> nat \<Rightarrow> u8 list" where
  "uprint_digits base x =
     udigits ! (x mod base) # (if x div base \<noteq> 0 \<and> 2 \<le> base then uprint_digits base (x div base) else [])"
  by pat_completeness auto

termination
  by (relation "measure snd") (auto simp: div_greater_zero_iff)

declare uprint_digits.simps [simp del]

definition uprintint :: "u32 \<Rightarrow> nat \<Rightarrow> bool \<Rightarrow> u8 list" where
  "uprintint xx base sg =
     (let neg = (sg \<and> sint xx < 0);
          x = (if neg then - xx else xx);
          buf = uprint_digits base (unat x);
          buf = (if neg then buf @ [45] else buf)
      in rev buf)"

fun uprintptr_loop :: "nat \<Rightarrow> u64 \<Rightarrow> u8 list" where
  "uprintptr_loop 0 x = []"
| "uprintptr_loop (Suc k) x = udigits ! unat (drop_bit 60 x) # uprintptr_loop k (push_bit 4 x)"

definition uprintptr :: "u64 \<Rightarrow> u8 list" where
  "uprintptr x = ascii ''0x'' @ uprintptr_loop 16 x"

text \<open>One conversion: what it prints and the arguments left. An argument of another type than the format asks for is undefined.\<close>

definition vprintf_conv :: "u8 \<Rightarrow> prarg list \<Rightarrow> (u8 list \<times> prarg list) kres" where
  "vprintf_conv c args =
     (if c = 100 then (case args of ArgInt x # as \<Rightarrow> Inr (uprintint x 10 True, as) | _ \<Rightarrow> Inl Undef)
      else if c = 108 then (case args of ArgPtr x # as \<Rightarrow> Inr (uprintint (ucast x) 10 False, as) | _ \<Rightarrow> Inl Undef)
      else if c = 120 then (case args of ArgInt x # as \<Rightarrow> Inr (uprintint x 16 False, as) | _ \<Rightarrow> Inl Undef)
      else if c = 112 then (case args of ArgPtr x # as \<Rightarrow> Inr (uprintptr x, as) | _ \<Rightarrow> Inl Undef)
      else if c = 115 then (case args of ArgStr x # as \<Rightarrow> Inr (case x of Some str \<Rightarrow> str | None \<Rightarrow> ascii ''(null)'', as) | _ \<Rightarrow> Inl Undef)
      else if c = 99 then (case args of ArgInt x # as \<Rightarrow> Inr ([ucast x], as) | _ \<Rightarrow> Inl Undef)
      else if c = 37 then Inr ([37], args)
      else Inr ([37, c], args))"

fun vprintf :: "bool \<Rightarrow> u8 list \<Rightarrow> prarg list \<Rightarrow> u8 list kres" where
  "vprintf st [] args = Inr []"
| "vprintf st (c # cs) args =
     (if \<not> st
      then if c = 37 then vprintf True cs args
           else bnd (vprintf False cs args) (\<lambda>out. Inr (c # out))
      else bnd (vprintf_conv c args) (\<lambda>(out, args).
           bnd (vprintf False cs args) (\<lambda>out'. Inr (out @ out'))))"

definition uprintf :: "u8 list \<Rightarrow> prarg list \<Rightarrow> u8 list kres" where
  "uprintf fmt args = vprintf False fmt args"

end
