(* ===== verification/Grep.thy ===== *)
theory Grep
  imports Ulib
begin

text \<open>
  \<open>user/grep.c\<close>: the matcher for patterns with \<open>^ . * $\<close> and the loop that reads a file through a buffer of 1024 bytes. The calls of \<open>read\<close> on the file are
  a list of chunks: a call takes from the first chunk as many bytes as it asks for and leaves the rest, and an empty list or chunk is
  the end of the file or an error. The result of \<open>grep\<close> is what it writes to descriptor 1.
\<close>

abbreviation (input) CARET :: u8 where "CARET \<equiv> 94"
abbreviation (input) STAR :: u8 where "STAR \<equiv> 42"
abbreviation (input) DOT :: u8 where "DOT \<equiv> 46"
abbreviation (input) DOLLAR :: u8 where "DOLLAR \<equiv> 36"
abbreviation (input) NEWLINE :: u8 where "NEWLINE \<equiv> 10"

section \<open>The matcher\<close>

function matchhere :: "u8 list \<Rightarrow> u8 list \<Rightarrow> bool" and matchstar :: "u8 \<Rightarrow> u8 list \<Rightarrow> u8 list \<Rightarrow> bool" where
  "matchhere [] text = True"
| "matchhere (c # re) text =
     (if re \<noteq> [] \<and> hd re = STAR then matchstar c (tl re) text
      else if c = DOLLAR \<and> re = [] then text = []
      else if text \<noteq> [] \<and> (c = DOT \<or> c = hd text) then matchhere re (tl text)
      else False)"
| "matchstar c re text =
     (if matchhere re text then True
      else if text \<noteq> [] \<and> (hd text = c \<or> c = DOT) then matchstar c re (tl text)
      else False)"
  by pat_completeness auto

termination
  by (relation "measures [\<lambda>x. case x of Inl (re, t) \<Rightarrow> length re | Inr (c, re, t) \<Rightarrow> Suc (length re), \<lambda>x. case x of Inl (re, t) \<Rightarrow> length t | Inr (c, re, t) \<Rightarrow> length t]")
    (auto simp: neq_Nil_conv)

declare matchstar.simps [simp del]

lemma matchstar_list [simp]:
  "matchstar c re [] = matchhere re []"
  "matchstar c re (x # t) = (matchhere re (x # t) \<or> (x = c \<or> c = DOT) \<and> matchstar c re t)"
  by (simp_all add: matchstar.simps [of c re "[]"] matchstar.simps [of c re "x # t"])

fun match_at :: "u8 list \<Rightarrow> u8 list \<Rightarrow> bool" where
  "match_at re [] = matchhere re []"
| "match_at re (x # text) = (if matchhere re (x # text) then True else match_at re text)"

definition match :: "u8 list \<Rightarrow> u8 list \<Rightarrow> bool" where
  "match re text = (if re \<noteq> [] \<and> hd re = CARET then matchhere (tl re) text else match_at re text)"

section \<open>Reading lines\<close>

text \<open>The inner loop: every line of the buffer that ends in a newline is matched; the rest of the buffer stays.\<close>

lemma strchr_less: "strchr s c = Some i \<Longrightarrow> i < length s"
  by (induction s c arbitrary: i rule: strchr.induct) (auto split: if_splits)

function grep_lines :: "u8 list \<Rightarrow> u8 list \<Rightarrow> u8 list \<times> u8 list" where
  "grep_lines pattern p =
     (case strchr p NEWLINE of
        None \<Rightarrow> ([], p)
      | Some i \<Rightarrow>
          let out = (if match pattern (take i p) then take (Suc i) p else []);
              (out', rest) = grep_lines pattern (drop (Suc i) p)
          in (out @ out', rest))"
  by pat_completeness auto

termination
  by (relation "measure (\<lambda>(pattern, p). length p)") (auto dest: strchr_less)

declare grep_lines.simps [simp del]

fun read_chunk :: "nat \<Rightarrow> u8 list list \<Rightarrow> u8 list \<times> u8 list list" where
  "read_chunk n [] = ([], [])"
| "read_chunk n (c # cs) = (take n c, if n < length c then drop n c # cs else cs)"

lemma read_chunk_less: "read_chunk n cs = (bs, cs') \<Longrightarrow> bs \<noteq> [] \<Longrightarrow> sum_list (map length cs') < sum_list (map length cs)"
  by (cases cs) (auto split: if_splits)

function grep :: "u8 list \<Rightarrow> u8 list \<Rightarrow> u8 list list \<Rightarrow> u8 list" where
  "grep pattern buf chunks =
     (let (bs, chunks') = read_chunk (1024 - length buf - 1) chunks
      in if bs = [] then []
         else let (out, rest) = grep_lines pattern (buf @ bs)
              in out @ grep pattern rest chunks')"
  by pat_completeness auto

termination
  by (relation "measure (\<lambda>(pattern, buf, chunks). sum_list (map length chunks))") (auto dest: read_chunk_less [OF sym])

declare grep.simps [simp del]

section \<open>What a pattern means\<close>

text \<open>A pattern is a sequence of items, each one character or any number of a character, where a dot stands for every character, and may be tied to
  the beginning and to the end of the line.\<close>

datatype ritem = One u8 | Many u8

fun ritems :: "u8 list \<Rightarrow> ritem list \<times> bool" where
  "ritems [] = ([], False)"
| "ritems (c # re) =
     (if re \<noteq> [] \<and> hd re = STAR then map_prod (\<lambda>is. Many c # is) id (ritems (tl re))
      else if c = DOLLAR \<and> re = [] then ([], True)
      else map_prod (\<lambda>is. One c # is) id (ritems re))"

definition fits :: "u8 \<Rightarrow> u8 \<Rightarrow> bool" where
  "fits c x \<longleftrightarrow> c = DOT \<or> c = x"

inductive spells :: "ritem list \<Rightarrow> u8 list \<Rightarrow> bool" where
  nil: "spells [] []"
| one: "fits c x \<Longrightarrow> spells is w \<Longrightarrow> spells (One c # is) (x # w)"
| many: "\<forall>x\<in>set u. fits c x \<Longrightarrow> spells is w \<Longrightarrow> spells (Many c # is) (u @ w)"

inductive_simps spells_simps: "spells [] w" "spells (One c # is) w" "spells (Many c # is) w"

definition contains :: "u8 list \<Rightarrow> u8 list \<Rightarrow> bool" where
  "contains pattern line \<longleftrightarrow>
     (let start = (pattern \<noteq> [] \<and> hd pattern = CARET);
          (is, stop) = ritems (if start then tl pattern else pattern)
      in \<exists>u v w. line = u @ v @ w \<and> spells is v \<and> (start \<longrightarrow> u = []) \<and> (stop \<longrightarrow> w = []))"

lemma ex_split_Cons: "(\<exists>u v. x # t = u @ v \<and> P u v) \<longleftrightarrow> P [] (x # t) \<or> (\<exists>u v. t = u @ v \<and> P (x # u) v)"
  by (auto simp: Cons_eq_append_conv)

lemma matchstar_iff: "matchstar c re t \<longleftrightarrow> (\<exists>u v. t = u @ v \<and> (\<forall>x\<in>set u. fits c x) \<and> matchhere re v)"
proof (induction t)
  case Nil show ?case by simp
next
  case (Cons x t)
  then show ?case unfolding matchstar_list ex_split_Cons by (auto simp: fits_def)
qed

lemma ex_split3: "(\<exists>u v. t = u @ v \<and> (\<exists>a b. u = a @ b \<and> P a \<and> Q b) \<and> R v) \<longleftrightarrow> (\<exists>a v. t = a @ v \<and> P a \<and> (\<exists>b w. v = b @ w \<and> Q b \<and> R w))"
proof (intro iffI; elim exE conjE)
  fix u v a b assume a: "t = u @ v" "u = a @ b" "P a" "Q b" "R v"
  have "\<exists>b' w. b @ v = b' @ w \<and> Q b' \<and> R w" by (intro exI [of _ b] exI [of _ v] conjI refl a)
  then show "\<exists>a v. t = a @ v \<and> P a \<and> (\<exists>b w. v = b @ w \<and> Q b \<and> R w)" using a by (intro exI [of _ a] exI [of _ "b @ v"]) simp
next
  fix a v b w assume a: "t = a @ v" "P a" "v = b @ w" "Q b" "R w"
  have "\<exists>a' b'. a @ b = a' @ b' \<and> P a' \<and> Q b'" by (intro exI [of _ a] exI [of _ b] conjI refl a)
  then show "\<exists>u v. t = u @ v \<and> (\<exists>a b. u = a @ b \<and> P a \<and> Q b) \<and> R v" using a by (intro exI [of _ "a @ b"] exI [of _ w]) simp
qed

lemma matchhere_iff: "matchhere re t \<longleftrightarrow> (\<exists>u v. t = u @ v \<and> spells (fst (ritems re)) u \<and> (snd (ritems re) \<longrightarrow> v = []))"
proof (induction re arbitrary: t rule: ritems.induct)
  case 1 show ?case by (simp add: spells_simps)
next
  case (2 c re)
  consider (star) "re \<noteq> []" "hd re = STAR" | (eol) "re = []" "c = DOLLAR" | (other) "re = [] \<or> hd re \<noteq> STAR" "\<not> (c = DOLLAR \<and> re = [])" by blast
  then show ?case
  proof cases
    case star
    obtain ts stop where i: "ritems (tl re) = (ts, stop)" by force
    have "(\<exists>u v. t = u @ v \<and> spells (Many c # ts) u \<and> (stop \<longrightarrow> v = [])) \<longleftrightarrow> (\<exists>a v. t = a @ v \<and> (\<forall>x\<in>set a. fits c x) \<and> matchhere (tl re) v)"
      unfolding spells_simps ex_split3 2(1) [OF conjI [OF star]] i by simp
    then show ?thesis using star i by (simp add: matchstar_iff)
  next
    case eol then show ?thesis by (simp add: spells_simps)
  next
    case other
    obtain ts stop where i: "ritems re = (ts, stop)" by force
    have "matchhere re v \<longleftrightarrow> (\<exists>u w. v = u @ w \<and> spells ts u \<and> (stop \<longrightarrow> w = []))" for v using 2(2) [of v] other i by simp
    moreover have "ritems (c # re) = (One c # ts, stop)" using other i by auto
    moreover have "matchhere (c # re) t \<longleftrightarrow> (case t of [] \<Rightarrow> False | x # v \<Rightarrow> fits c x \<and> matchhere re v)" using other by (auto simp: fits_def split: list.split)
    ultimately show ?thesis by (cases t) (auto simp: spells_simps ex_split_Cons)
  qed
qed

lemma match_at_iff: "match_at re t \<longleftrightarrow> (\<exists>u v. t = u @ v \<and> matchhere re v)"
proof (induction t)
  case (Cons x t) then show ?case unfolding ex_split_Cons by simp
qed simp

lemma match_iff: "match re t \<longleftrightarrow> contains re t"
  by (auto simp: match_def contains_def Let_def match_at_iff matchhere_iff split: prod.splits)

section \<open>Lines\<close>

definition enc :: "u8 list list \<Rightarrow> u8 list" where
  "enc ls = concat (map (\<lambda>l. l @ [NEWLINE]) ls)"

lemma strchr_None: "c \<notin> set s \<Longrightarrow> strchr s c = None"
  by (induction s c rule: strchr.induct) auto

lemma strchr_first: "c \<notin> set l \<Longrightarrow> 0 \<notin> set l \<Longrightarrow> c \<noteq> 0 \<Longrightarrow> strchr (l @ c # s) c = Some (length l)"
  by (induction l) auto

lemma grep_lines_enc:
  assumes "p @ q = enc ls @ t" "\<forall>l\<in>set ls. NEWLINE \<notin> set l \<and> 0 \<notin> set l" "NEWLINE \<notin> set t"
  shows "\<exists>ls1 ls2 rest. ls = ls1 @ ls2 \<and> grep_lines re p = (enc (filter (match re) ls1), rest) \<and> NEWLINE \<notin> set rest \<and> rest @ q = enc ls2 @ t"
  using assms
proof (induction ls arbitrary: p)
  case Nil
  then have "NEWLINE \<notin> set p" by (auto simp: enc_def dest!: arg_cong [of _ _ set])
  then show ?case using Nil by (simp add: grep_lines.simps [of re p] strchr_None enc_def)
next
  case (Cons l ls)
  have e: "p @ q = l @ NEWLINE # enc ls @ t" using Cons.prems(1) by (simp add: enc_def)
  show ?case
  proof (cases "length p \<le> length l")
    case True
    have "p = take (length p) l" using arg_cong [OF e, of "take (length p)"] True by simp
    then have "NEWLINE \<notin> set p" using Cons.prems(2) in_set_takeD [of NEWLINE "length p" l] by auto
    then show ?thesis using Cons.prems(1) by (intro exI [of _ "[]"] exI [of _ "l # ls"] exI [of _ p]) (simp add: grep_lines.simps [of re p] strchr_None enc_def)
  next
    case False
    then obtain us where u: "p = l @ us" "us @ q = NEWLINE # enc ls @ t" "us \<noteq> []" using e by (auto simp: append_eq_append_conv2)
    then obtain p' where p: "p = l @ NEWLINE # p'" "p' @ q = enc ls @ t" by (cases us) auto
    obtain ls1 ls2 rest where r: "ls = ls1 @ ls2" "grep_lines re p' = (enc (filter (match re) ls1), rest)" "NEWLINE \<notin> set rest" "rest @ q = enc ls2 @ t"
      using Cons.IH [OF p(2)] Cons.prems by auto
    have "strchr p NEWLINE = Some (length l)" using Cons.prems(2) p(1) by (simp add: strchr_first)
    then have "grep_lines re p = (enc (filter (match re) (l # ls1)), rest)" using r(2) p(1) by (subst grep_lines.simps) (simp add: enc_def)
    then have "l # ls = (l # ls1) @ ls2 \<and> grep_lines re p = (enc (filter (match re) (l # ls1)), rest) \<and> NEWLINE \<notin> set rest \<and> rest @ q = enc ls2 @ t"
      using r by simp
    then show ?thesis by (intro exI)
  qed
qed

lemma grep_enc:
  assumes "buf @ concat chunks = enc ls @ t" "\<forall>l\<in>set ls. NEWLINE \<notin> set l \<and> 0 \<notin> set l \<and> length l < 1023" "NEWLINE \<notin> set t" "NEWLINE \<notin> set buf" "[] \<notin> set chunks"
  shows "grep re buf chunks = enc (filter (match re) ls)"
  using assms
proof (induction re buf chunks arbitrary: ls rule: grep.induct)
  case (1 re buf chunks)
  obtain bs cs where rd: "read_chunk (1024 - length buf - 1) chunks = (bs, cs)" by force
  have cat: "concat chunks = bs @ concat cs" "[] \<notin> set cs" using rd 1(6) by (cases chunks; auto split: if_splits)+
  show ?case
  proof (cases "bs = []")
    case True
    have "ls = []"
    proof (cases ls)
      case (Cons l ls')
      have "length l < 1023" using 1(3) Cons by simp
      have "buf @ concat chunks = l @ NEWLINE # enc ls' @ t" using 1(2) Cons by (simp add: enc_def)
      then consider us where "l = buf @ us" "concat chunks = us @ NEWLINE # enc ls' @ t" | us where "buf = l @ us" "us @ concat chunks = NEWLINE # enc ls' @ t"
        by (auto simp: append_eq_append_conv2)
      then have b: "length buf \<le> length l \<and> chunks \<noteq> []"
      proof cases
        case (2 us) then have "us = []" using 1(5) by (cases us) auto
        with 2 show ?thesis by auto
      qed auto
      then show ?thesis using rd True 1(6) \<open>length l < 1023\<close> by (cases chunks) auto
    qed
    then show ?thesis using rd True by (simp add: grep.simps [of re buf chunks] enc_def)
  next
    case False
    obtain ls1 ls2 rest where r: "ls = ls1 @ ls2" "grep_lines re (buf @ bs) = (enc (filter (match re) ls1), rest)" "NEWLINE \<notin> set rest" "rest @ concat cs = enc ls2 @ t"
      using grep_lines_enc [of "buf @ bs" "concat cs" ls t re] 1(2,3,4) cat(1) by auto
    have "grep re rest cs = enc (filter (match re) ls2)" using 1(1) [OF rd [symmetric] refl False r(2) [symmetric] refl r(4)] 1(3,4) r(1,3) cat(2) by simp
    then show ?thesis using rd r False by (simp add: grep.simps [of re buf chunks] enc_def)
  qed
qed

section \<open>Properties\<close>

text \<open>C39. \<open>grep\<close> writes exactly the lines of its input that contain a match of the pattern, whole and in order, however the input is divided among the calls of
  \<open>read\<close>, as long as a line and its newline fit into the buffer. A last line without a newline is never written.\<close>

theorem grep_prints_matches:
  assumes "concat chunks = concat (map (\<lambda>l. l @ [NEWLINE]) ls) @ t" "[] \<notin> set chunks"
    "\<forall>l\<in>set ls. NEWLINE \<notin> set l \<and> 0 \<notin> set l \<and> length l < 1023" "NEWLINE \<notin> set t"
  shows "grep pattern [] chunks = concat (map (\<lambda>l. l @ [NEWLINE]) (filter (contains pattern) ls))"
proof -
  have "match pattern = contains pattern" by (rule ext) (rule match_iff)
  then show ?thesis using grep_enc [of "[]" chunks ls t pattern] assms by (simp add: enc_def)
qed

theorem grep_prints_matches_witness:
  "grep [97, STAR, 98] [] [[97, 97], [98, 99, NEWLINE, 97], [NEWLINE, 98]] = [97, 97, 98, 99, NEWLINE]"
proof -
  have "contains [97, STAR, 98] [97, 97, 98, 99]" "\<not> contains [97, STAR, 98] [97]"
    unfolding match_iff [symmetric] match_def by simp_all
  then show ?thesis using grep_prints_matches [of "[[97, 97], [98, 99, NEWLINE, 97], [NEWLINE, 98]]" "[[97, 97, 98, 99], [97]]" "[98]" "[97, STAR, 98]"] by simp
qed

end
