(* ===== verification/Shell.thy ===== *)
theory Shell
  imports Ulib
begin

text \<open>
  The command parser of the shell, \<open>user/sh.c\<close>. A line is the list of its bytes before the terminating zero, and a pointer into it is an index: \<open>es\<close> is the
  length of the line. A parsed command holds, like \<open>struct execcmd\<close> and \<open>struct redircmd\<close>, the indices where each word begins and ends; \<open>nulterminate\<close>
  then overwrites the byte at each end with a zero. \<open>panic\<close> of the shell prints its message and exits. The recursion of \<open>parseline\<close>, \<open>parsepipe\<close>,
  \<open>parseexec\<close> and \<open>parseblock\<close> has a bound on its depth, and \<open>parsecmd\<close> starts with one that is always enough.
\<close>

section \<open>Commands\<close>

text \<open>A command over words of type \<open>'w\<close>: in the parser a word is the pair of its first index and the index behind it. A redirection has the word of the file, the
  mode of \<open>open\<close> and the descriptor.\<close>

datatype 'w cmd =
    EXEC "'w list"
  | REDIR "'w cmd" 'w u32 nat
  | PIPE "'w cmd" "'w cmd"
  | LIST "'w cmd" "'w cmd"
  | BACK "'w cmd"

type_synonym range = "nat \<times> nat"

abbreviation (input) MAXARGS :: nat where "MAXARGS \<equiv> 10"

definition O_RDONLY :: u32 where "O_RDONLY = 0"
definition O_WRONLY :: u32 where "O_WRONLY = 1"
definition O_CREATE :: u32 where "O_CREATE = 0x200"
definition O_TRUNC :: u32 where "O_TRUNC = 0x400"

section \<open>Tokens\<close>

definition whitespace :: "u8 list" where
  "whitespace = [32, 9, 13, 10, 11]"

definition symbols :: "u8 list" where
  "symbols = ascii ''<|>&;()''"

definition is_ws :: "u8 \<Rightarrow> bool" where
  "is_ws c \<longleftrightarrow> strchr whitespace c \<noteq> None"

definition is_symbol :: "u8 \<Rightarrow> bool" where
  "is_symbol c \<longleftrightarrow> strchr symbols c \<noteq> None"

text \<open>The byte behind a pointer; the line ends in a zero.\<close>

definition char_at :: "u8 list \<Rightarrow> nat \<Rightarrow> u8" where
  "char_at line s = (if s < length line then line ! s else 0)"

function skip_ws :: "u8 list \<Rightarrow> nat \<Rightarrow> nat" where
  "skip_ws line s = (if s < length line \<and> is_ws (char_at line s) then skip_ws line (s + 1) else s)"
  by pat_completeness auto

termination
  by (relation "measure (\<lambda>(line, s). length line - s)") auto

function skip_word :: "u8 list \<Rightarrow> nat \<Rightarrow> nat" where
  "skip_word line s =
     (if s < length line \<and> \<not> is_ws (char_at line s) \<and> \<not> is_symbol (char_at line s) then skip_word line (s + 1) else s)"
  by pat_completeness auto

termination
  by (relation "measure (\<lambda>(line, s). length line - s)") auto

declare skip_ws.simps [simp del] skip_word.simps [simp del]

text \<open>\<open>gettoken\<close> returns the kind of the token, where it begins and ends, and the new position.\<close>

definition gettoken :: "u8 list \<Rightarrow> nat \<Rightarrow> u8 \<times> nat \<times> nat \<times> nat" where
  "gettoken line ps =
     (let q = skip_ws line ps;
          c = char_at line q;
          (ret, eq) =
            (if c = 0 then (0, q)
             else if c \<in> {124, 40, 41, 59, 38, 60} then (c, q + 1)
             else if c = 62 then (if char_at line (q + 1) = 62 then (43, q + 2) else (62, q + 1))
             else (97, skip_word line q))
      in (ret, q, eq, skip_ws line eq))"

definition peek :: "u8 list \<Rightarrow> nat \<Rightarrow> u8 list \<Rightarrow> bool \<times> nat" where
  "peek line ps toks =
     (let s = skip_ws line ps
      in (char_at line s \<noteq> 0 \<and> strchr toks (char_at line s) \<noteq> None, s))"

lemma skip_ws_le: "s \<le> skip_ws line s"
proof (induction line s rule: skip_ws.induct)
  case (1 line s) then show ?case by (subst skip_ws.simps) (auto dest: Suc_leD)
qed

lemma skip_word_le: "s \<le> skip_word line s"
proof (induction line s rule: skip_word.induct)
  case (1 line s) then show ?case by (subst skip_word.simps) (auto dest: Suc_leD)
qed

lemma skip_ws_stop: "\<not> (skip_ws line s < length line \<and> is_ws (char_at line (skip_ws line s)))"
proof (induction line s rule: skip_ws.induct)
  case (1 line s) then show ?case by (subst (1 2) skip_ws.simps) auto
qed

lemma skip_ws_idem [simp]: "skip_ws line (skip_ws line s) = skip_ws line s"
  using skip_ws_stop [of line s] by (subst skip_ws.simps) auto

lemma is_symbol_iff: "is_symbol c \<longleftrightarrow> c \<in> {60, 124, 62, 38, 59, 40, 41}"
  by (auto simp: is_symbol_def symbols_def ascii_def)

lemma is_ws_iff: "is_ws c \<longleftrightarrow> c \<in> {32, 9, 13, 10, 11}"
  by (auto simp: is_ws_def whitespace_def)

text \<open>A token that is not the end of the line takes at least one byte of it.\<close>

lemma char_at_nz: "char_at line q \<noteq> 0 \<Longrightarrow> q < length line"
  by (auto simp: char_at_def split: if_splits)

lemma gettoken_less:
  assumes "gettoken line ps = (ret, q, eq, ps')" "ret \<noteq> 0"
  shows "ps < ps'" "ps < length line" "ps \<le> q" "q < eq" "eq \<le> ps'"
proof -
  have c: "char_at line (skip_ws line ps) \<noteq> 0" using assms by (auto simp: gettoken_def Let_def split: if_splits)
  have q: "q = skip_ws line ps" "ps \<le> q" "q < length line" "ps' = skip_ws line eq"
    using assms(1) skip_ws_le [of ps line] char_at_nz [OF c] by (auto simp: gettoken_def Let_def split: if_splits)
  have w: "Suc q \<le> skip_word line q" if "char_at line q \<notin> {124, 40, 41, 59, 38, 60, 62}"
    using that c q skip_ws_stop [of line ps] skip_word_le [of "Suc q" line] by (subst skip_word.simps) (auto simp: is_symbol_iff)
  show "q < eq" using assms(1) c q(1) w by (auto simp: gettoken_def Let_def split: if_splits)
  then show "ps < ps'" "ps < length line" "ps \<le> q" "eq \<le> ps'" using q skip_ws_le [of eq line] by auto
qed

section \<open>The parser\<close>

definition redir_of :: "u8 \<Rightarrow> u32 \<times> nat" where
  "redir_of tok =
     (if tok = 60 then (O_RDONLY, 0) else if tok = 62 then (O_WRONLY OR O_CREATE OR O_TRUNC, 1) else (O_WRONLY OR O_CREATE, 1))"

text \<open>The redirections that \<open>parseredirs\<close> puts around a command, the first one innermost.\<close>

definition redircmds :: "'w cmd \<Rightarrow> ('w \<times> u32 \<times> nat) list \<Rightarrow> 'w cmd" where
  "redircmds c rs = foldl (\<lambda>c (f, mode, fd). REDIR c f mode fd) c rs"

lemma peek_gettoken:
  assumes "peek line ps toks = (True, s)" "gettoken line s = (tok, x)"
  shows "tok \<noteq> 0" "ps \<le> s"
  using assms skip_ws_le [of ps line] by (auto simp: peek_def gettoken_def Let_def split: if_splits)

lemma peek_step:
  assumes "peek line ps toks = (True, p1)" "gettoken line p1 = (t, x, y, p2)"
  shows "length line - p2 < length line - ps"
  using peek_gettoken [OF assms] gettoken_less(1,2) [OF assms(2)] by simp

lemma redir_step:
  assumes "peek line ps toks = (True, p1)" "gettoken line p1 = (t, x, y, p2)" "gettoken line p2 = (97, q, eq, p3)"
  shows "length line - p3 < length line - ps"
  using peek_gettoken [OF assms(1,2)] gettoken_less(1) [OF assms(2)] gettoken_less(1,2) [OF assms(3)] by simp

function parseredirs :: "u8 list \<Rightarrow> nat \<Rightarrow> ((range \<times> u32 \<times> nat) list \<times> nat) kres" where
  "parseredirs line ps =
     (case peek line ps [60, 62] of
        (False, ps) \<Rightarrow> Inr ([], ps)
      | (True, ps) \<Rightarrow>
          (case gettoken line ps of (tok, _, _, ps) \<Rightarrow>
          (case gettoken line ps of (tok', q, eq, ps) \<Rightarrow>
           if tok' \<noteq> 97 then Inl (Panic ''missing file for redirection'')
           else bnd (parseredirs line ps) (\<lambda>(rs, ps). Inr (((q, eq), redir_of tok) # rs, ps)))))"
  by pat_completeness auto

termination
  by (relation "measure (\<lambda>(line, ps). length line - ps)") (auto dest: redir_step [OF sym sym sym])

declare parseredirs.simps [simp del]

lemma parseredirs_le: "parseredirs line ps = Inr (rs, ps') \<Longrightarrow> ps \<le> ps'"
proof (induction line ps arbitrary: rs ps' rule: parseredirs.induct)
  case (1 line ps)
  obtain b p1 where p: "peek line ps [60, 62] = (b, p1)" by force
  have le: "ps \<le> p1" using p skip_ws_le [of ps line] by (auto simp: peek_def Let_def)
  show ?case
  proof (cases b)
    case False then show ?thesis using 1(2) p le by (subst (asm) parseredirs.simps) simp
  next
    case True
    obtain tok x y p2 where g: "gettoken line p1 = (tok, x, y, p2)" by (metis prod_cases4)
    obtain tok' q eq p3 where h: "gettoken line p2 = (tok', q, eq, p3)" by (metis prod_cases4)
    have t: "tok' = 97" using 1(2) p g h True by (subst (asm) parseredirs.simps) (simp split: if_splits)
    then obtain rs' where r: "parseredirs line p3 = Inr (rs', ps')" using 1(2) p g h True by (subst (asm) parseredirs.simps) (auto simp: kres_iff)
    have "p3 \<le> ps'" using 1(1) [OF p [symmetric] _ g [symmetric] refl refl h [symmetric] refl refl _ r] True t by simp
    moreover have "p1 < p2" using peek_gettoken(1) [of line ps "[60, 62]" p1 tok] p g True gettoken_less(1) [OF g] by simp
    moreover have "p2 < p3" using gettoken_less(1) [OF h] t by simp
    ultimately show ?thesis using le by simp
  qed
qed

text \<open>The loop of \<open>parseexec\<close>: the words of the command, and the redirections among and after them.\<close>

function parseargs :: "u8 list \<Rightarrow> nat \<Rightarrow> nat \<Rightarrow> (range list \<times> (range \<times> u32 \<times> nat) list \<times> nat) kres" where
  "parseargs line argc ps =
     (case peek line ps [124, 41, 38, 59] of
        (True, ps) \<Rightarrow> Inr ([], [], ps)
      | (False, ps) \<Rightarrow>
          (case gettoken line ps of (tok, q, eq, ps) \<Rightarrow>
           if tok = 0 then Inr ([], [], ps)
           else if tok \<noteq> 97 then Inl (Panic ''syntax'')
           else if argc + 1 \<ge> MAXARGS then Inl (Panic ''too many args'')
           else bnd (parseredirs line ps) (\<lambda>(rs, ps).
                bnd (parseargs line (argc + 1) ps) (\<lambda>(args, rs', ps). Inr ((q, eq) # args, rs @ rs', ps)))))"
  by pat_completeness auto

termination
  by (relation "measure (\<lambda>(line, argc, ps). MAXARGS - argc)") auto

declare parseargs.simps [simp del]

function parsebacks :: "u8 list \<Rightarrow> range cmd \<Rightarrow> nat \<Rightarrow> range cmd \<times> nat" where
  "parsebacks line cmd ps =
     (case peek line ps [38] of
        (False, ps) \<Rightarrow> (cmd, ps)
      | (True, ps) \<Rightarrow> (case gettoken line ps of (_, _, _, ps) \<Rightarrow> parsebacks line (BACK cmd) ps))"
  by pat_completeness auto

termination
  by (relation "measure (\<lambda>(line, cmd, ps). length line - ps)") (auto dest: peek_step [OF sym sym])

declare parsebacks.simps [simp del]

fun parseline :: "nat \<Rightarrow> u8 list \<Rightarrow> nat \<Rightarrow> (range cmd \<times> nat) kres"
and parsepipe :: "nat \<Rightarrow> u8 list \<Rightarrow> nat \<Rightarrow> (range cmd \<times> nat) kres"
and parseexec :: "nat \<Rightarrow> u8 list \<Rightarrow> nat \<Rightarrow> (range cmd \<times> nat) kres"
and parseblock :: "nat \<Rightarrow> u8 list \<Rightarrow> nat \<Rightarrow> (range cmd \<times> nat) kres" where
  "parseline 0 line ps = Inl NoFuel"
| "parseline (Suc n) line ps =
     bnd (parsepipe n line ps) (\<lambda>(cmd, ps).
     case parsebacks line cmd ps of (cmd, ps) \<Rightarrow>
     (case peek line ps [59] of
        (True, ps) \<Rightarrow> (case gettoken line ps of (_, _, _, ps) \<Rightarrow> bnd (parseline n line ps) (\<lambda>(right, ps). Inr (LIST cmd right, ps)))
      | (False, ps) \<Rightarrow> Inr (cmd, ps)))"
| "parsepipe 0 line ps = Inl NoFuel"
| "parsepipe (Suc n) line ps =
     bnd (parseexec n line ps) (\<lambda>(cmd, ps).
     case peek line ps [124] of
       (True, ps) \<Rightarrow> (case gettoken line ps of (_, _, _, ps) \<Rightarrow> bnd (parsepipe n line ps) (\<lambda>(right, ps). Inr (PIPE cmd right, ps)))
     | (False, ps) \<Rightarrow> Inr (cmd, ps))"
| "parseblock 0 line ps = Inl NoFuel"
| "parseblock (Suc n) line ps =
     (case peek line ps [40] of
        (False, ps) \<Rightarrow> Inl (Panic ''parseblock'')
      | (True, ps) \<Rightarrow>
          (case gettoken line ps of (_, _, _, ps) \<Rightarrow>
           bnd (parseline n line ps) (\<lambda>(cmd, ps).
           case peek line ps [41] of
             (False, ps) \<Rightarrow> Inl (Panic ''syntax - missing )'')
           | (True, ps) \<Rightarrow>
               (case gettoken line ps of (_, _, _, ps) \<Rightarrow>
                bnd (parseredirs line ps) (\<lambda>(rs, ps). Inr (redircmds cmd rs, ps))))))"
| "parseexec 0 line ps = Inl NoFuel"
| "parseexec (Suc n) line ps =
     (case peek line ps [40] of
        (True, ps) \<Rightarrow> parseblock n line ps
      | (False, ps) \<Rightarrow>
          bnd (parseredirs line ps) (\<lambda>(rs, ps).
          bnd (parseargs line 0 ps) (\<lambda>(args, rs', ps).
          Inr (redircmds (EXEC args) (rs @ rs'), ps))))"

fun nulterminate :: "range cmd \<Rightarrow> u8 list \<Rightarrow> u8 list" where
  "nulterminate (EXEC args) buf = foldl (\<lambda>buf (q, eq). buf[eq := 0]) buf args"
| "nulterminate (REDIR c (q, eq) mode fd) buf = (nulterminate c buf)[eq := 0]"
| "nulterminate (PIPE l r) buf = nulterminate r (nulterminate l buf)"
| "nulterminate (LIST l r) buf = nulterminate r (nulterminate l buf)"
| "nulterminate (BACK c) buf = nulterminate c buf"

definition parsecmd :: "u8 list \<Rightarrow> (range cmd \<times> u8 list) kres" where
  "parsecmd line =
     bnd (parseline (4 * length line + 4) line 0) (\<lambda>(cmd, ps).
     case peek line ps [] of (_, ps) \<Rightarrow>
     if ps \<noteq> length line then Inl (Panic ''syntax'')
     else Inr (cmd, nulterminate cmd (line @ [0])))"

end
