(* ===== verification/Shell_Rules.thy ===== *)
theory Shell_Rules
  imports Shell
begin

text \<open>
  The shell's parser always comes to an end, and it reads back every command that is written out with the usual parentheses. After \<open>nulterminate\<close> each word
  of the command is a string of its own.
\<close>

section \<open>Positions only grow\<close>

lemma peek_le: "peek line ps toks = (b, p1) \<Longrightarrow> ps \<le> p1"
  using skip_ws_le [of ps line] by (auto simp: peek_def Let_def)

lemma peek_gettoken_le:
  assumes "peek line ps toks = (True, p1)" "gettoken line p1 = (t, x, y, p2)"
  shows "ps < p2" "ps < length line"
  using peek_gettoken [OF assms] gettoken_less [OF assms(2)] by simp_all

lemma parsebacks_le: "parsebacks line c ps = (c', ps') \<Longrightarrow> ps \<le> ps'"
proof (induction line c ps arbitrary: c' ps' rule: parsebacks.induct)
  case (1 line c ps)
  obtain b p1 where p: "peek line ps [38] = (b, p1)" by force
  show ?case
  proof (cases b)
    case False then show ?thesis using 1(2) p peek_le [OF p] by (subst (asm) parsebacks.simps) simp
  next
    case True
    obtain t x y p2 where g: "gettoken line p1 = (t, x, y, p2)" by (metis prod_cases4)
    have "parsebacks line (BACK c) p2 = (c', ps')" using 1(2) p g True by (subst (asm) parsebacks.simps) simp
    then show ?thesis using 1(1) [OF p [symmetric] _ g [symmetric] refl refl] True peek_gettoken_le [of line ps "[38]" p1] p g by fastforce
  qed
qed

lemma gettoken_le: "gettoken line ps = (t, q, eq, ps') \<Longrightarrow> ps \<le> ps'"
  using skip_ws_le [of ps line] skip_ws_le [of eq line] gettoken_less(1) [of line ps t q eq ps']
  by (cases "t = 0") (auto simp: gettoken_def Let_def split: if_splits)

lemma parseargs_le: "parseargs line argc ps = Inr (args, rs, ps') \<Longrightarrow> ps \<le> ps'"
proof (induction line argc ps arbitrary: args rs ps' rule: parseargs.induct)
  case (1 line argc ps)
  obtain b p1 where p: "peek line ps [124, 41, 38, 59] = (b, p1)" by force
  obtain t q eq p2 where g: "gettoken line p1 = (t, q, eq, p2)" by (metis prod_cases4)
  show ?case
  proof (cases "b \<or> t = 0")
    case True then show ?thesis using 1(2) p g peek_le [OF p] gettoken_le [OF g] by (subst (asm) parseargs.simps) (cases b; simp)
  next
    case False
    have t: "t = 97" "\<not> argc + 1 \<ge> MAXARGS" using 1(2) p g False by (subst (asm) parseargs.simps; simp split: if_splits)+
    then obtain rs1 p3 as rs2 where r: "parseredirs line p2 = Inr (rs1, p3)" "parseargs line (argc + 1) p3 = Inr (as, rs2, ps')"
      using 1(2) p g False by (subst (asm) parseargs.simps) (auto simp: kres_iff)
    have "p3 \<le> ps'" using 1(1) [OF p [symmetric] _ g [symmetric] refl refl _ _ _ r(1) refl r(2)] False t by simp
    then show ?thesis using peek_le [OF p] gettoken_le [OF g] parseredirs_le [OF r(1)] by simp
  qed
qed

lemma parse_le:
  "parseline n line ps = Inr (c, ps') \<Longrightarrow> ps \<le> ps'"
  "parsepipe n line ps = Inr (c, ps') \<Longrightarrow> ps \<le> ps'"
  "parseexec n line ps = Inr (c, ps') \<Longrightarrow> ps \<le> ps'"
  "parseblock n line ps = Inr (c, ps') \<Longrightarrow> ps \<le> ps'"
proof (induction n arbitrary: ps c ps')
  case (Suc n)
  {
    case 1
    then obtain c1 p1 where r1: "parsepipe n line ps = Inr (c1, p1)" by (auto simp: kres_iff)
    obtain c2 p2 b p3 where "parsebacks line c1 p1 = (c2, p2)" "peek line p2 [59] = (b, p3)" by force
    note r = r1 this
    show ?case
    proof (cases b)
      case True
      obtain t q eq p4 where g: "gettoken line p3 = (t, q, eq, p4)" by (metis prod_cases4)
      obtain c3 where "parseline n line p4 = Inr (c3, ps')" using 1 r g True by (auto simp: kres_iff)
      then show ?thesis using Suc(1) [of p4] Suc(2) [OF r(1)] parsebacks_le [OF r(2)] peek_le [OF r(3)] gettoken_le [OF g] by fastforce
    next
      case False then show ?thesis using 1 r Suc(2) [OF r(1)] parsebacks_le [OF r(2)] peek_le [OF r(3)] by simp
    qed
  next
    case 2
    then obtain c1 p1 where r1: "parseexec n line ps = Inr (c1, p1)" by (auto simp: kres_iff)
    obtain b p3 where "peek line p1 [124] = (b, p3)" by force
    note r = r1 this
    show ?case
    proof (cases b)
      case True
      obtain t q eq p4 where g: "gettoken line p3 = (t, q, eq, p4)" by (metis prod_cases4)
      obtain c3 where "parsepipe n line p4 = Inr (c3, ps')" using 2 r g True by (auto simp: kres_iff)
      then show ?thesis using Suc(2) [of p4] Suc(3) [OF r(1)] peek_le [OF r(2)] gettoken_le [OF g] by fastforce
    next
      case False then show ?thesis using 2 r Suc(3) [OF r(1)] peek_le [OF r(2)] by simp
    qed
  next
    case 3
    obtain b p1 where p: "peek line ps [40] = (b, p1)" by force
    show ?case
    proof (cases b)
      case True then show ?thesis using 3 p Suc(4) [of p1 c ps'] peek_le [OF p] by simp
    next
      case False
      then obtain rs p2 as rs' where "parseredirs line p1 = Inr (rs, p2)" "parseargs line 0 p2 = Inr (as, rs', ps')" using 3 p by (auto simp: kres_iff)
      then show ?thesis using peek_le [OF p] parseredirs_le parseargs_le by fastforce
    qed
  next
    case 4
    obtain b p1 where p: "peek line ps [40] = (b, p1)" by force
    obtain t q eq p2 where g: "gettoken line p1 = (t, q, eq, p2)" by (metis prod_cases4)
    obtain c1 p3 where l: "parseline n line p2 = Inr (c1, p3)" using 4 p g by (cases b) (auto simp: kres_iff)
    obtain b' p4 where p': "peek line p3 [41] = (b', p4)" by force
    obtain t' q' eq' p5 where g': "gettoken line p4 = (t', q', eq', p5)" by (metis prod_cases4)
    obtain rs where "parseredirs line p5 = Inr (rs, ps')" using 4 p g l p' g' by (cases b; cases b') (auto simp: kres_iff)
    then show ?case using peek_le [OF p] gettoken_le [OF g] Suc(1) [OF l] peek_le [OF p'] gettoken_le [OF g'] parseredirs_le by fastforce
  }
qed simp_all

section \<open>The bound on the depth is enough\<close>

lemma parseredirs_NoFuel: "parseredirs line ps \<noteq> Inl NoFuel"
proof (induction line ps rule: parseredirs.induct)
  case (1 line ps)
  then show ?case by (subst parseredirs.simps) (auto simp: bnd_eq_Inl split: prod.splits bool.splits)
qed

lemma parseargs_NoFuel: "parseargs line argc ps \<noteq> Inl NoFuel"
proof (induction line argc ps rule: parseargs.induct)
  case (1 line argc ps)
  then show ?case using parseredirs_NoFuel by (subst parseargs.simps) (auto simp: bnd_eq_Inl split: prod.splits bool.splits)
qed

lemma parse_NoFuel:
  "4 * (length line - ps) + 4 \<le> n \<Longrightarrow> parseline n line ps \<noteq> Inl NoFuel"
  "4 * (length line - ps) + 3 \<le> n \<Longrightarrow> parsepipe n line ps \<noteq> Inl NoFuel"
  "4 * (length line - ps) + 2 \<le> n \<Longrightarrow> parseexec n line ps \<noteq> Inl NoFuel"
  "4 * (length line - ps) + 1 \<le> n \<Longrightarrow> parseblock n line ps \<noteq> Inl NoFuel"
proof (induction n arbitrary: ps)
  case (Suc n)
  {
    case 1
    have "parsepipe n line ps \<noteq> Inl NoFuel" using Suc(2) 1 by simp
    moreover have "parseline n line p4 \<noteq> Inl NoFuel"
      if "parsepipe n line ps = Inr (c1, p1)" "parsebacks line c1 p1 = (c2, p2)" "peek line p2 [59] = (True, p3)" "gettoken line p3 = (t, x, y, p4)" for c1 p1 c2 p2 p3 t x y p4
      using Suc(1) [of p4] 1 parse_le(2) [OF that(1)] parsebacks_le [OF that(2)] peek_gettoken_le [OF that(3,4)] by simp
    ultimately show ?case by (auto simp: bnd_eq_Inl split: prod.splits bool.splits)
  next
    case 2
    have "parseexec n line ps \<noteq> Inl NoFuel" using Suc(3) 2 by simp
    moreover have "parsepipe n line p4 \<noteq> Inl NoFuel"
      if "parseexec n line ps = Inr (c1, p1)" "peek line p1 [124] = (True, p3)" "gettoken line p3 = (t, x, y, p4)" for c1 p1 p3 t x y p4
      using Suc(2) [of p4] 2 parse_le(3) [OF that(1)] peek_gettoken_le [OF that(2,3)] by simp
    ultimately show ?case by (auto simp: bnd_eq_Inl split: prod.splits bool.splits)
  next
    case 3
    have "parseblock n line p1 \<noteq> Inl NoFuel" if "peek line ps [40] = (True, p1)" for p1 using Suc(4) [of p1] 3 peek_le [OF that] by simp
    then show ?case using parseredirs_NoFuel parseargs_NoFuel by (auto simp: bnd_eq_Inl split: prod.splits bool.splits)
  next
    case 4
    have "parseline n line p2 \<noteq> Inl NoFuel" if "peek line ps [40] = (True, p1)" "gettoken line p1 = (t, x, y, p2)" for p1 t x y p2
      using Suc(1) [of p2] 4 peek_gettoken_le [OF that] by simp
    then show ?case using parseredirs_NoFuel by (auto simp: bnd_eq_Inl split: prod.splits bool.splits)
  }
qed simp_all

section \<open>Lines as sequences of tokens\<close>

text \<open>A line that is written out has a space before every token.\<close>

definition spaced :: "u8 list list \<Rightarrow> u8 list" where
  "spaced ts = concat (map (\<lambda>t. 32 # t) ts)"

definition word :: "u8 list \<Rightarrow> bool" where
  "word w \<longleftrightarrow> w \<noteq> [] \<and> (\<forall>c\<in>set w. c \<noteq> 0 \<and> \<not> is_ws c \<and> \<not> is_symbol c)"

definition token :: "u8 list \<Rightarrow> bool" where
  "token t \<longleftrightarrow> word t \<or> t \<in> {[124], [40], [41], [59], [38], [60], [62], [62, 62]}"

text \<open>The position \<open>ps\<close> is before the tokens \<open>ts\<close>, possibly before the spaces in front of them.\<close>

definition before :: "u8 list \<Rightarrow> nat \<Rightarrow> u8 list list \<Rightarrow> bool" where
  "before line ps ts \<longleftrightarrow> ps \<le> length line \<and> (\<forall>t\<in>set ts. token t) \<and> drop (skip_ws line ps) line = tl (spaced ts)"

lemma skip_ws_len: "ps \<le> length line \<Longrightarrow> skip_ws line ps \<le> length line"
proof (induction line ps rule: skip_ws.induct)
  case (1 line s) then show ?case by (subst skip_ws.simps) auto
qed

lemma drop_less: "drop p line = c # cs \<Longrightarrow> p < length line \<and> drop (Suc p) line = cs \<and> char_at line p = c"
proof -
  assume d: "drop p line = c # cs"
  then have l: "p < length line" by (cases "p < length line") auto
  then show ?thesis using d Cons_nth_drop_Suc [OF l] by (simp add: char_at_def)
qed

lemma token_not_ws: "token t \<Longrightarrow> \<exists>c cs. t = c # cs \<and> \<not> is_ws c \<and> c \<noteq> 0"
  by (cases t) (auto simp: token_def word_def is_ws_iff)

lemma skip_ws_none: "drop p line = [] \<or> \<not> is_ws (hd (drop p line)) \<Longrightarrow> skip_ws line p = p"
  by (subst skip_ws.simps) (auto simp: char_at_def hd_drop_conv_nth)

lemma skip_ws_space: "drop p line = 32 # cs \<Longrightarrow> skip_ws line p = skip_ws line (Suc p)"
  using drop_less [of p line 32 cs] by (subst skip_ws.simps) (simp add: is_ws_iff)

text \<open>After a token comes the end of the line or a space.\<close>

lemma before_spaced:
  assumes "drop p line = spaced ts" "\<forall>t\<in>set ts. token t" "p \<le> length line"
  shows "before line p ts"
proof (cases ts)
  case Nil then show ?thesis using assms skip_ws_none [of p line] by (simp add: before_def spaced_def)
next
  case (Cons t ts')
  have "token t" using assms(2) Cons by simp
  then obtain c cs where t: "t = c # cs" "\<not> is_ws c" using token_not_ws by blast
  have d: "drop p line = 32 # t @ spaced ts'" using assms(1) Cons by (simp add: spaced_def)
  have e: "drop (Suc p) line = t @ spaced ts'" using drop_less [OF d] by blast
  have "skip_ws line p = Suc p" unfolding skip_ws_space [OF d] by (rule skip_ws_none) (simp add: e t)
  moreover have "drop (Suc p) line = tl (spaced ts)" using e Cons by (simp add: spaced_def)
  ultimately show ?thesis using assms by (simp add: before_def)
qed

lemma before_skip: "before line ps ts \<Longrightarrow> before line (skip_ws line ps) ts"
  by (simp add: before_def skip_ws_len)

lemma skip_word_word:
  assumes "drop q line = w @ rest" "\<forall>c\<in>set w. c \<noteq> 0 \<and> \<not> is_ws c \<and> \<not> is_symbol c" "rest = [] \<or> is_ws (hd rest) \<or> is_symbol (hd rest)"
  shows "skip_word line q = q + length w"
  using assms
proof (induction w arbitrary: q)
  case Nil then show ?case by (subst skip_word.simps) (auto simp: char_at_def hd_drop_conv_nth)
next
  case (Cons c w)
  have "drop q line = c # (w @ rest)" using Cons.prems(1) by simp
  note d = drop_less [OF this]
  have "skip_word line (Suc q) = Suc q + length w" using Cons.IH [of "Suc q"] Cons.prems d by simp
  then show ?case using d Cons.prems(2) by (subst skip_word.simps) simp
qed

lemma before_Nil: "before line ps [] \<Longrightarrow> skip_ws line ps = length line"
  using skip_ws_len [of ps line] by (simp add: before_def spaced_def)

lemma before_Cons: "before line ps (t # ts) \<Longrightarrow> drop (skip_ws line ps) line = t @ spaced ts \<and> token t \<and> (\<forall>t\<in>set ts. token t)"
  by (simp add: before_def spaced_def)

lemma before_next:
  assumes "before line ps (t # ts)" "eq = skip_ws line ps + length t"
  shows "drop eq line = spaced ts" "eq \<le> length line" "before line (skip_ws line eq) ts"
proof -
  note b = before_Cons [OF assms(1)]
  show d: "drop eq line = spaced ts" using b assms(2) by (simp add: add.commute drop_drop [symmetric])
  have "length (drop (skip_ws line ps) line) = length t + length (spaced ts)" using b by simp
  then show e: "eq \<le> length line" using assms skip_ws_len [of ps line] by (simp add: before_def)
  show "before line (skip_ws line eq) ts" using before_skip [OF before_spaced [OF d _ e]] b by blast
qed

lemma spaced_hd: "spaced ts = [] \<or> is_ws (hd (spaced ts))"
  by (cases ts) (simp_all add: spaced_def is_ws_iff)

definition names :: "u8 list \<Rightarrow> u8 list \<Rightarrow> range \<Rightarrow> bool" where
  "names line w r \<longleftrightarrow> word w \<and> snd r = fst r + length w \<and> snd r \<le> length line \<and> take (length w) (drop (fst r) line) = w \<and>
     (is_ws (char_at line (snd r)) \<or> snd r = length line)"

lemma gettoken_word:
  assumes "before line ps (w # ts)" "word w"
  shows "\<exists>q eq p. gettoken line ps = (97, q, eq, p) \<and> before line p ts \<and> names line w (q, eq)"
proof -
  let ?q = "skip_ws line ps" and ?e = "skip_ws line ps + length w"
  note b = before_Cons [OF assms(1)] and n = before_next [OF assms(1) refl]
  obtain c cs where w: "w = c # cs" "c \<noteq> 0" "\<not> is_symbol c" using assms(2) by (cases w) (auto simp: word_def)
  then have c: "char_at line ?q = c" using b drop_less [of ?q line c] by auto
  have k: "skip_word line ?q = ?e" using skip_word_word [of ?q line w "spaced ts"] b assms(2) spaced_hd [of ts] by (auto simp: word_def)
  have "gettoken line ps = (97, ?q, ?e, skip_ws line ?e)"
    using c w k by (auto simp: gettoken_def Let_def is_symbol_iff)
  moreover have "is_ws (char_at line ?e) \<or> ?e = length line"
    using n(1,2) spaced_hd [of ts] by (cases "?e < length line") (auto simp: char_at_def hd_drop_conv_nth [symmetric])
  then have "names line w (?q, ?e)" using b assms(2) n(2) by (simp add: names_def)
  ultimately show ?thesis using n(3) by blast
qed

lemma gettoken_symbol:
  assumes "before line ps (t # ts)" "t \<in> {[124], [40], [41], [59], [38], [60], [62], [62, 62]}"
  shows "\<exists>q eq p. gettoken line ps = (if t = [62, 62] then 43 else hd t, q, eq, p) \<and> before line p ts"
proof -
  let ?q = "skip_ws line ps" and ?e = "skip_ws line ps + length t"
  note b = before_Cons [OF assms(1)] and n = before_next [OF assms(1) refl]
  obtain c cs where t: "t = c # cs" using assms(2) by auto
  have c: "char_at line ?q = c" "drop (Suc ?q) line = cs @ spaced ts" using b drop_less [of ?q line c "cs @ spaced ts"] t by auto
  have d: "char_at line (Suc ?q) = (case cs @ spaced ts of [] \<Rightarrow> 0 | x # _ \<Rightarrow> x)"
    using c(2) drop_less [of "Suc ?q" line] by (auto simp: char_at_def split: list.split)
  have s: "hd (spaced ts) \<noteq> 62" if "spaced ts \<noteq> []" using spaced_hd [of ts] that by (auto simp: is_ws_iff)
  have "gettoken line ps = (if t = [62, 62] then 43 else hd t, ?q, ?e, skip_ws line ?e)"
    using assms(2) t c(1) d s by (cases "spaced ts") (auto simp: gettoken_def Let_def)
  then show ?thesis using n(3) by blast
qed

lemma strchr_iff: "0 \<notin> set toks \<Longrightarrow> strchr toks c \<noteq> None \<longleftrightarrow> c \<in> set toks"
  by (induction toks) auto

lemma peek_Cons:
  assumes "before line ps (t # ts)" "0 \<notin> set toks"
  shows "peek line ps toks = (hd t \<in> set toks, skip_ws line ps)" "before line (skip_ws line ps) (t # ts)"
proof -
  note b = before_Cons [OF assms(1)]
  obtain c cs where t: "t = c # cs" "c \<noteq> 0" using token_not_ws b by blast
  have "char_at line (skip_ws line ps) = c" using b drop_less [of "skip_ws line ps" line c] t by auto
  then show "peek line ps toks = (hd t \<in> set toks, skip_ws line ps)" using t strchr_iff [OF assms(2), of c] by (simp add: peek_def Let_def)
  show "before line (skip_ws line ps) (t # ts)" by (rule before_skip [OF assms(1)])
qed

lemma peek_Nil: "before line ps [] \<Longrightarrow> peek line ps toks = (False, skip_ws line ps) \<and> before line (skip_ws line ps) []"
  using before_Nil [of line ps] before_skip [of line ps "[]"] by (auto simp: peek_def Let_def char_at_def)

lemma gettoken_Nil: "before line ps [] \<Longrightarrow> \<exists>q eq. gettoken line ps = (0, q, eq, length line) \<and> before line (length line) []"
  using before_Nil [of line ps] before_skip [of line ps "[]"] by (auto simp: gettoken_def Let_def char_at_def skip_ws_none)

lemma word_hd: "word w \<Longrightarrow> hd w \<notin> {60, 124, 62, 38, 59, 40, 41}"
  by (cases w) (auto simp: word_def is_symbol_iff)

section \<open>Writing commands out\<close>

text \<open>The tokens of a command. The level is the grammar's: 0 a line, 1 a command that may end in \<open>&\<close>, 2 a pipeline, 3 a command with redirections. A command of a lower
  level is put in parentheses.\<close>

definition redir_tok :: "u32 \<times> nat \<Rightarrow> u8 list" where
  "redir_tok m = (if m = redir_of 60 then [60] else if m = redir_of 62 then [62] else [62, 62])"

definition parens :: "bool \<Rightarrow> u8 list list \<Rightarrow> u8 list list" where
  "parens b ts = (if b then [40] # ts @ [[41]] else ts)"

fun toks :: "nat \<Rightarrow> u8 list cmd \<Rightarrow> u8 list list" where
  "toks lvl (EXEC ws) = ws"
| "toks lvl (REDIR c f mode fd) = toks 3 c @ [redir_tok (mode, fd), f]"
| "toks lvl (PIPE l r) = parens (lvl > 2) (toks 3 l @ [[124]] @ toks 2 r)"
| "toks lvl (BACK c) = parens (lvl > 1) (toks 1 c @ [[38]])"
| "toks lvl (LIST l r) = parens (lvl > 0) (toks 1 l @ [[59]] @ toks 0 r)"

definition write_cmd :: "u8 list cmd \<Rightarrow> u8 list" where
  "write_cmd c = spaced (toks 0 c)"

text \<open>The commands that can be written: words without blanks and symbols, at most nine of them in a command, and the three kinds of redirection.\<close>

fun writable :: "u8 list cmd \<Rightarrow> bool" where
  "writable (EXEC ws) \<longleftrightarrow> (\<forall>w\<in>set ws. word w) \<and> length ws < MAXARGS"
| "writable (REDIR c f mode fd) \<longleftrightarrow> writable c \<and> word f \<and> (mode, fd) \<in> {redir_of 60, redir_of 62, redir_of 43}"
| "writable (PIPE l r) \<longleftrightarrow> writable l \<and> writable r"
| "writable (BACK c) \<longleftrightarrow> writable c"
| "writable (LIST l r) \<longleftrightarrow> writable l \<and> writable r"

definition rtoks :: "(u8 list \<times> u32 \<times> nat) list \<Rightarrow> u8 list list" where
  "rtoks rs = concat (map (\<lambda>(f, m). [redir_tok m, f]) rs)"

definition rwritable :: "(u8 list \<times> u32 \<times> nat) list \<Rightarrow> bool" where
  "rwritable rs \<longleftrightarrow> (\<forall>(f, m)\<in>set rs. word f \<and> m \<in> {redir_of 60, redir_of 62, redir_of 43})"

lemma redir_of_distinct: "redir_of 60 \<noteq> redir_of 62" "redir_of 60 \<noteq> redir_of 43" "redir_of 62 \<noteq> redir_of 43"
  by (simp_all add: redir_of_def O_RDONLY_def O_WRONLY_def O_CREATE_def O_TRUNC_def)

lemma redir_tok_of:
  assumes "m \<in> {redir_of 60, redir_of 62, redir_of 43}"
  shows "redir_tok m \<in> {[60], [62], [62, 62]}" "redir_of (if redir_tok m = [62, 62] then 43 else hd (redir_tok m)) = m" "hd (redir_tok m) \<in> {60, 62}"
  using assms redir_of_distinct by (auto simp: redir_tok_def)

lemma before_tok: "before line ps (t # ts) \<Longrightarrow> token t"
  by (simp add: before_def)

lemma parseredirs_ok:
  assumes "before line ps (rtoks rs @ ts)" "rwritable rs" "ts = [] \<or> hd (hd ts) \<notin> {60, 62}"
  shows "\<exists>rs' p. parseredirs line ps = Inr (rs', p) \<and> list_all2 (rel_prod (names line) (=)) rs rs' \<and> before line p ts"
  using assms(1,2)
proof (induction rs arbitrary: ps)
  case Nil
  have "peek line ps [60, 62] = (False, skip_ws line ps) \<and> before line (skip_ws line ps) ts"
    using Nil assms(3) peek_Nil [of line ps] peek_Cons [of line ps "hd ts" "tl ts" "[60, 62]"] by (cases ts) (auto simp: rtoks_def)
  then show ?case by (subst parseredirs.simps) simp
next
  case (Cons r rs)
  obtain f m where r: "r = (f, m)" by (cases r)
  have m: "word f" "m \<in> {redir_of 60, redir_of 62, redir_of 43}" "rwritable rs" using Cons.prems(2) r by (auto simp: rwritable_def)
  note t = redir_tok_of [OF m(2)]
  have b: "before line ps (redir_tok m # f # rtoks rs @ ts)" using Cons.prems(1) r by (simp add: rtoks_def)
  have p: "peek line ps [60, 62] = (True, skip_ws line ps)" "before line (skip_ws line ps) (redir_tok m # f # rtoks rs @ ts)"
    using peek_Cons [OF b, of "[60, 62]"] t(3) by auto
  obtain q1 e1 p1 where g: "gettoken line (skip_ws line ps) = (if redir_tok m = [62, 62] then 43 else hd (redir_tok m), q1, e1, p1)" "before line p1 (f # rtoks rs @ ts)"
    using gettoken_symbol [OF p(2)] t(1) by blast
  obtain q2 e2 p2 where h: "gettoken line p1 = (97, q2, e2, p2)" "before line p2 (rtoks rs @ ts)" "names line f (q2, e2)"
    using gettoken_word [OF g(2) m(1)] by blast
  obtain rs' p3 where i: "parseredirs line p2 = Inr (rs', p3)" "list_all2 (rel_prod (names line) (=)) rs rs'" "before line p3 ts"
    using Cons.IH [OF h(2) m(3)] by blast
  have "parseredirs line ps = Inr (((q2, e2), m) # rs', p3)" using p(1) g(1) h(1) i(1) t(2) by (subst parseredirs.simps) simp
  then show ?case using i h(3) r by auto
qed

lemma parseargs_ok:
  assumes "before line ps (ws @ rtoks rs @ ts)" "\<forall>w\<in>set ws. word w" "argc + length ws < MAXARGS" "rwritable rs" "ts = [] \<or> hd (hd ts) \<in> {124, 41, 38, 59}"
    "ws = [] \<Longrightarrow> rs = []"
  shows "\<exists>args rs' p. parseargs line argc ps = Inr (args, rs', p) \<and> list_all2 (names line) ws args \<and>
    list_all2 (rel_prod (names line) (=)) rs rs' \<and> before line p ts"
  using assms
proof (induction ws arbitrary: ps argc rs)
  case Nil
  then have b: "before line ps ts" by (simp add: rtoks_def)
  show ?case
  proof (cases ts)
    case Nil
    obtain q e where g: "gettoken line (skip_ws line ps) = (0, q, e, length line)" "before line (length line) []"
      using peek_Nil [of line ps] gettoken_Nil b Nil by blast
    have "parseargs line argc ps = Inr ([], [], length line)" using peek_Nil [of line ps] b g Nil by (subst parseargs.simps) simp
    then show ?thesis using g(2) Nil \<open>[] = [] \<Longrightarrow> rs = []\<close> by simp
  next
    case (Cons t ts')
    have "parseargs line argc ps = Inr ([], [], skip_ws line ps)" using peek_Cons [of line ps t ts' "[124, 41, 38, 59]"] b Cons Nil.prems(5) by (subst parseargs.simps) auto
    then show ?thesis using before_skip [OF b] Nil.prems(6) by simp
  qed
next
  case (Cons w ws)
  have b: "before line ps (w # ws @ rtoks rs @ ts)" and w: "word w" using Cons.prems by simp_all
  have p: "peek line ps [124, 41, 38, 59] = (False, skip_ws line ps)" "before line (skip_ws line ps) (w # ws @ rtoks rs @ ts)"
    using peek_Cons [OF b, of "[124, 41, 38, 59]"] word_hd [OF w] by auto
  obtain q e p1 where g: "gettoken line (skip_ws line ps) = (97, q, e, p1)" "before line p1 (ws @ rtoks rs @ ts)" "names line w (q, e)"
    using gettoken_word [OF p(2) w] by blast
  let ?r1 = "if ws = [] then rs else []" and ?r2 = "if ws = [] then [] else rs"
  have f: "ws @ rtoks ?r2 @ ts = [] \<or> hd (hd (ws @ rtoks ?r2 @ ts)) \<notin> {60, 62}"
    using Cons.prems(2,5) word_hd by (cases ws) (auto simp: rtoks_def)
  have "before line p1 (rtoks ?r1 @ ws @ rtoks ?r2 @ ts)" "rwritable ?r1" using g(2) Cons.prems(4) by (auto simp: rtoks_def rwritable_def)
  moreover have r2: "rwritable ?r2" using Cons.prems(4) by (simp add: rwritable_def)
  ultimately obtain r1 p2 where r1: "parseredirs line p1 = Inr (r1, p2)" "list_all2 (rel_prod (names line) (=)) ?r1 r1" "before line p2 (ws @ rtoks ?r2 @ ts)"
    using parseredirs_ok [OF _ _ f] by blast
  obtain args r2 p3 where i: "parseargs line (argc + 1) p2 = Inr (args, r2, p3)" "list_all2 (names line) ws args"
    "list_all2 (rel_prod (names line) (=)) ?r2 r2" "before line p3 ts"
    using Cons.IH [OF r1(3) _ _ _ Cons.prems(5), of "argc + 1"] Cons.prems(2-4) r2 by auto
  have "parseargs line argc ps = Inr ((q, e) # args, r1 @ r2, p3)" using p(1) g(1) r1(1) i(1) Cons.prems(3) by (subst parseargs.simps) simp
  moreover have "list_all2 (rel_prod (names line) (=)) rs (r1 @ r2)" using r1(2) i(3) by (cases "ws = []") auto
  ultimately show ?case using i g(3) by auto
qed

section \<open>Reading commands back\<close>

text \<open>What each level of the parser does with the tokens of a command. The tokens behind it begin with one that ends that level.\<close>

definition follow :: "u8 set \<Rightarrow> u8 list list \<Rightarrow> bool" where
  "follow F ts \<longleftrightarrow> ts = [] \<or> hd (hd ts) \<in> F"

definition reads_exec :: "u8 list cmd \<Rightarrow> bool" where
  "reads_exec c \<longleftrightarrow> (\<forall>line n ps rs ts. before line ps (toks 3 c @ rtoks rs @ ts) \<longrightarrow> rwritable rs \<longrightarrow> follow {124, 41, 38, 59} ts \<longrightarrow>
     parseexec n line ps = Inl NoFuel \<or>
     (\<exists>c' p. parseexec n line ps = Inr (c', p) \<and> rel_cmd (names line) (redircmds c rs) c' \<and> before line p ts))"

definition reads_pipe :: "u8 list cmd \<Rightarrow> bool" where
  "reads_pipe c \<longleftrightarrow> (\<forall>line n ps ts. before line ps (toks 2 c @ ts) \<longrightarrow> follow {41, 38, 59} ts \<longrightarrow>
     parsepipe n line ps = Inl NoFuel \<or>
     (\<exists>c' p. parsepipe n line ps = Inr (c', p) \<and> rel_cmd (names line) c c' \<and> before line p ts))"

definition reads_back :: "u8 list cmd \<Rightarrow> bool" where
  "reads_back c \<longleftrightarrow> (\<forall>line n ps ts. before line ps (toks 1 c @ ts) \<longrightarrow> follow {41, 38, 59} ts \<longrightarrow>
     parsepipe n line ps = Inl NoFuel \<or>
     (\<exists>c1 p1 c' p. parsepipe n line ps = Inr (c1, p1) \<and> parsebacks line c1 p1 = parsebacks line c' p \<and> rel_cmd (names line) c c' \<and> before line p ts))"

definition reads_line :: "u8 list cmd \<Rightarrow> bool" where
  "reads_line c \<longleftrightarrow> (\<forall>line n ps ts. before line ps (toks 0 c @ ts) \<longrightarrow> follow {41} ts \<longrightarrow>
     parseline n line ps = Inl NoFuel \<or>
     (\<exists>c' p. parseline n line ps = Inr (c', p) \<and> rel_cmd (names line) c c' \<and> before line p ts))"

lemma peek_follow:
  assumes "before line ps ts" "0 \<notin> set cs" "ts = [] \<or> hd (hd ts) \<notin> set cs"
  shows "peek line ps cs = (False, skip_ws line ps)" "before line (skip_ws line ps) ts"
  using assms peek_Nil [of line ps cs] peek_Cons [of line ps "hd ts" "tl ts" cs] before_skip [OF assms(1)] by (cases ts; auto)+

lemma parsebacks_end:
  assumes "before line ps ts" "ts = [] \<or> hd (hd ts) \<noteq> 38"
  shows "parsebacks line c ps = (c, skip_ws line ps)"
  using peek_follow(1) [OF assms(1), of "[38]"] assms(2) by (subst parsebacks.simps) auto

lemma parsebacks_amp:
  assumes "before line ps ([38] # ts)"
  shows "\<exists>p. parsebacks line c ps = parsebacks line (BACK c) p \<and> before line p ts"
proof -
  note p = peek_Cons [OF assms, of "[38]"]
  obtain q e p1 where "gettoken line (skip_ws line ps) = (38, q, e, p1)" "before line p1 ts" using gettoken_symbol [OF p(2)] by auto
  then show ?thesis using p(1) by (subst parsebacks.simps) auto
qed

lemma rtoks_hd: "rwritable rs \<Longrightarrow> rs \<noteq> [] \<Longrightarrow> hd (hd (rtoks rs @ ts)) \<in> {60, 62}"
proof (cases rs)
  case (Cons r rs')
  assume w: "rwritable rs"
  obtain f m where r: "r = (f, m)" by (cases r)
  show ?thesis using redir_tok_of(3) [of m] w Cons r by (simp add: rtoks_def rwritable_def)
qed simp

lemma rel_redircmds:
  "list_all2 (rel_prod R (=)) rs rs' \<Longrightarrow> rel_cmd R c c' \<Longrightarrow> rel_cmd R (redircmds c rs) (redircmds c' rs')"
  by (induction rs rs' arbitrary: c c' rule: list_all2_induct) (auto simp: redircmds_def)

lemma reads_exec_EXEC:
  assumes "\<forall>w\<in>set ws. word w" "length ws < MAXARGS"
  shows "reads_exec (EXEC ws)"
  unfolding reads_exec_def
proof (intro allI impI)
  fix line n ps rs ts assume a: "before line ps (toks 3 (EXEC ws) @ rtoks rs @ ts)" "rwritable rs" "follow {124, 41, 38, 59} ts"
  let ?r1 = "if ws = [] then rs else []" and ?r2 = "if ws = [] then [] else rs"
  show "parseexec n line ps = Inl NoFuel \<or> (\<exists>c' p. parseexec n line ps = Inr (c', p) \<and> rel_cmd (names line) (redircmds (EXEC ws) rs) c' \<and> before line p ts)"
  proof (cases n)
    case (Suc m)
    have h: "ws @ rtoks rs @ ts = [] \<or> hd (hd (ws @ rtoks rs @ ts)) \<notin> set [40]"
      using rtoks_hd [OF a(2), of ts] a(3) assms(1) word_hd [of "hd ws"] by (cases ws; cases "rs = []") (auto simp: follow_def rtoks_def)
    note p = peek_follow [OF a(1) [simplified] _ h, simplified]
    have f: "ws @ rtoks ?r2 @ ts = [] \<or> hd (hd (ws @ rtoks ?r2 @ ts)) \<notin> {60, 62}"
      using assms(1) a(3) word_hd by (cases ws) (auto simp: rtoks_def follow_def)
    have r: "rwritable ?r1" "rwritable ?r2" using a(2) by (auto simp: rwritable_def)
    have "before line (skip_ws line ps) (rtoks ?r1 @ ws @ rtoks ?r2 @ ts)" using p(2) by (auto simp: rtoks_def)
    then obtain r1 p2 where r1: "parseredirs line (skip_ws line ps) = Inr (r1, p2)" "list_all2 (rel_prod (names line) (=)) ?r1 r1" "before line p2 (ws @ rtoks ?r2 @ ts)"
      using parseredirs_ok [OF _ r(1) f] by blast
    obtain args r2 p3 where i: "parseargs line 0 p2 = Inr (args, r2, p3)" "list_all2 (names line) ws args"
      "list_all2 (rel_prod (names line) (=)) ?r2 r2" "before line p3 ts"
      using parseargs_ok [OF r1(3) assms(1) _ r(2) a(3) [unfolded follow_def], of 0] assms(2) by auto
    have "parseexec n line ps = Inr (redircmds (EXEC args) (r1 @ r2), p3)" using Suc p(1) r1(1) i(1) by simp
    moreover have "list_all2 (rel_prod (names line) (=)) rs (r1 @ r2)" using r1(2) i(3) by (cases "ws = []") auto
    ultimately show ?thesis using rel_redircmds [of "names line" rs "r1 @ r2" "EXEC ws" "EXEC args"] i(2,4) by simp
  qed simp
qed

lemma reads_exec_block:
  assumes "reads_line c" "toks 3 c = [40] # toks 0 c @ [[41]]"
  shows "reads_exec c"
  unfolding reads_exec_def
proof (intro allI impI)
  fix line n ps rs ts assume a: "before line ps (toks 3 c @ rtoks rs @ ts)" "rwritable rs" "follow {124, 41, 38, 59} ts"
  have b: "before line ps ([40] # toks 0 c @ [41] # rtoks rs @ ts)" using a(1) assms(2) by simp
  note p = peek_Cons [OF b, of "[40]", simplified] and pp = peek_Cons [OF before_skip [OF b], of "[40]", simplified]
  show "parseexec n line ps = Inl NoFuel \<or> (\<exists>c' p. parseexec n line ps = Inr (c', p) \<and> rel_cmd (names line) (redircmds c rs) c' \<and> before line p ts)"
  proof (cases "n < 2")
    case True then have "n = 0 \<or> n = 1" by auto
    then show ?thesis using p(1) by auto
  next
    case False
    then obtain m where n: "n = Suc (Suc m)" by (metis Suc_1 less_2_cases_iff not0_implies_Suc)
    obtain q e p1 where g: "gettoken line (skip_ws line ps) = (40, q, e, p1)" "before line p1 (toks 0 c @ [41] # rtoks rs @ ts)" using gettoken_symbol [OF p(2)] by auto
    from assms(1) [unfolded reads_line_def, rule_format, OF g(2), of m] consider "parseline m line p1 = Inl NoFuel" |
      c1 p2 where "parseline m line p1 = Inr (c1, p2)" "rel_cmd (names line) c c1" "before line p2 ([41] # rtoks rs @ ts)" by (auto simp: follow_def)
    then show ?thesis
    proof cases
      case 1 then show ?thesis using n p(1) pp(1) g(1) by simp
    next
      case 2
      note p' = peek_Cons [OF 2(3), of "[41]", simplified]
      obtain q' e' p3 where g': "gettoken line (skip_ws line p2) = (41, q', e', p3)" "before line p3 (rtoks rs @ ts)" using gettoken_symbol [OF p'(2)] by auto
      obtain rs' p4 where r: "parseredirs line p3 = Inr (rs', p4)" "list_all2 (rel_prod (names line) (=)) rs rs'" "before line p4 ts"
        using parseredirs_ok [OF g'(2) a(2)] a(3) by (auto simp: follow_def)
      have "parseexec n line ps = Inr (redircmds c1 rs', p4)" using n p(1) pp(1) g(1) 2(1) p'(1) g'(1) r(1) by simp
      then show ?thesis using rel_redircmds [OF r(2) 2(2)] r(3) by blast
    qed
  qed
qed

lemma reads_exec_REDIR:
  assumes "reads_exec c" "word f" "(mode, fd) \<in> {redir_of 60, redir_of 62, redir_of 43}"
  shows "reads_exec (REDIR c f mode fd)"
  unfolding reads_exec_def
proof (intro allI impI)
  fix line n ps rs ts assume a: "before line ps (toks 3 (REDIR c f mode fd) @ rtoks rs @ ts)" "rwritable rs" "follow {124, 41, 38, 59} ts"
  have "before line ps (toks 3 c @ rtoks ((f, mode, fd) # rs) @ ts)" using a(1) by (simp add: rtoks_def)
  moreover have "rwritable ((f, mode, fd) # rs)" using a(2) assms(2,3) by (simp add: rwritable_def)
  ultimately show "parseexec n line ps = Inl NoFuel \<or>
      (\<exists>c' p. parseexec n line ps = Inr (c', p) \<and> rel_cmd (names line) (redircmds (REDIR c f mode fd) rs) c' \<and> before line p ts)"
    using assms(1) [unfolded reads_exec_def, rule_format, of line ps "(f, mode, fd) # rs" ts n] a(3) by (simp add: redircmds_def)
qed

lemma reads_execD:
  assumes "reads_exec c" "before line ps (toks 3 c @ ts)" "follow {124, 41, 38, 59} ts"
  shows "parseexec n line ps = Inl NoFuel \<or> (\<exists>c' p. parseexec n line ps = Inr (c', p) \<and> rel_cmd (names line) c c' \<and> before line p ts)"
  using assms(1) [unfolded reads_exec_def, rule_format, of line ps "[]" ts n] assms(2,3) by (simp add: rtoks_def rwritable_def redircmds_def)

lemma reads_pipe_exec:
  assumes "reads_exec c" "toks 2 c = toks 3 c"
  shows "reads_pipe c"
  unfolding reads_pipe_def
proof (intro allI impI)
  fix line n ps ts assume a: "before line ps (toks 2 c @ ts)" "follow {41, 38, 59} ts"
  show "parsepipe n line ps = Inl NoFuel \<or> (\<exists>c' p. parsepipe n line ps = Inr (c', p) \<and> rel_cmd (names line) c c' \<and> before line p ts)"
  proof (cases n)
    case (Suc m)
    from reads_execD [OF assms(1), of line ps ts m] a assms(2) consider "parseexec m line ps = Inl NoFuel"
      | c' p where "parseexec m line ps = Inr (c', p)" "rel_cmd (names line) c c'" "before line p ts" by (auto simp: follow_def)
    then show ?thesis
    proof cases
      case 2
      then show ?thesis using Suc peek_follow [OF 2(3), of "[124]"] a(2) by (auto simp: follow_def)
    qed (simp add: Suc)
  qed simp
qed

lemma reads_pipe_PIPE:
  assumes "reads_exec l" "reads_pipe r"
  shows "reads_pipe (PIPE l r)"
  unfolding reads_pipe_def
proof (intro allI impI)
  fix line n ps ts assume a: "before line ps (toks 2 (PIPE l r) @ ts)" "follow {41, 38, 59} ts"
  have b: "before line ps (toks 3 l @ [124] # toks 2 r @ ts)" using a(1) by (simp add: parens_def)
  show "parsepipe n line ps = Inl NoFuel \<or> (\<exists>c' p. parsepipe n line ps = Inr (c', p) \<and> rel_cmd (names line) (PIPE l r) c' \<and> before line p ts)"
  proof (cases n)
    case (Suc m)
    from reads_execD [OF assms(1) b, of m] consider "parseexec m line ps = Inl NoFuel"
      | c1 p1 where "parseexec m line ps = Inr (c1, p1)" "rel_cmd (names line) l c1" "before line p1 ([124] # toks 2 r @ ts)" by (auto simp: follow_def)
    then show ?thesis
    proof cases
      case 2
      note p = peek_Cons [OF 2(3), of "[124]", simplified]
      obtain q e p2 where g: "gettoken line (skip_ws line p1) = (124, q, e, p2)" "before line p2 (toks 2 r @ ts)" using gettoken_symbol [OF p(2)] by auto
      from assms(2) [unfolded reads_pipe_def, rule_format, OF g(2) a(2), of m] show ?thesis using Suc 2 p(1) g(1) by auto
    qed (simp add: Suc)
  qed simp
qed

lemma reads_back_pipe: "reads_pipe c \<Longrightarrow> toks 1 c = toks 2 c \<Longrightarrow> reads_back c"
  unfolding reads_back_def reads_pipe_def by metis

lemma reads_back_BACK:
  assumes "reads_back c"
  shows "reads_back (BACK c)"
  unfolding reads_back_def
proof (intro allI impI)
  fix line n ps ts assume a: "before line ps (toks 1 (BACK c) @ ts)" "follow {41, 38, 59} ts"
  have b: "before line ps (toks 1 c @ [38] # ts)" using a(1) by (simp add: parens_def)
  from assms [unfolded reads_back_def, rule_format, OF b, of n] consider "parsepipe n line ps = Inl NoFuel"
    | c1 p1 c' p where "parsepipe n line ps = Inr (c1, p1)" "parsebacks line c1 p1 = parsebacks line c' p" "rel_cmd (names line) c c'" "before line p ([38] # ts)"
    by (auto simp: follow_def)
  then show "parsepipe n line ps = Inl NoFuel \<or> (\<exists>c1 p1 c' p. parsepipe n line ps = Inr (c1, p1) \<and> parsebacks line c1 p1 = parsebacks line c' p \<and>
      rel_cmd (names line) (BACK c) c' \<and> before line p ts)"
  proof cases
    case 2
    obtain p2 where "parsebacks line c' p = parsebacks line (BACK c') p2" "before line p2 ts" using parsebacks_amp [OF 2(4)] by blast
    then show ?thesis using 2 by (metis cmd.rel_intros(5))
  qed simp
qed

lemma reads_backD:
  assumes "reads_back c" "before line ps (toks 1 c @ ts)" "follow {41, 59} ts"
  shows "parsepipe n line ps = Inl NoFuel \<or>
    (\<exists>c1 p1 c' p. parsepipe n line ps = Inr (c1, p1) \<and> parsebacks line c1 p1 = (c', p) \<and> rel_cmd (names line) c c' \<and> before line p ts)"
proof -
  have f: "follow {41, 38, 59} ts" "ts = [] \<or> hd (hd ts) \<noteq> 38" using assms(3) by (auto simp: follow_def)
  show ?thesis using assms(1) [unfolded reads_back_def, rule_format, OF assms(2) f(1), of n] parsebacks_end [OF _ f(2)] before_skip by metis
qed

lemma reads_line_back:
  assumes "reads_back c" "toks 0 c = toks 1 c"
  shows "reads_line c"
  unfolding reads_line_def
proof (intro allI impI)
  fix line n ps ts assume a: "before line ps (toks 0 c @ ts)" "follow {41} ts"
  show "parseline n line ps = Inl NoFuel \<or> (\<exists>c' p. parseline n line ps = Inr (c', p) \<and> rel_cmd (names line) c c' \<and> before line p ts)"
  proof (cases n)
    case (Suc m)
    from reads_backD [OF assms(1), of line ps ts m] a assms(2) consider "parsepipe m line ps = Inl NoFuel"
      | c1 p1 c' p where "parsepipe m line ps = Inr (c1, p1)" "parsebacks line c1 p1 = (c', p)" "rel_cmd (names line) c c'" "before line p ts" by (auto simp: follow_def)
    then show ?thesis
    proof cases
      case 2
      then show ?thesis using Suc peek_follow [OF 2(4), of "[59]"] a(2) by (auto simp: follow_def)
    qed (simp add: Suc)
  qed simp
qed

lemma reads_line_LIST:
  assumes "reads_back l" "reads_line r"
  shows "reads_line (LIST l r)"
  unfolding reads_line_def
proof (intro allI impI)
  fix line n ps ts assume a: "before line ps (toks 0 (LIST l r) @ ts)" "follow {41} ts"
  have b: "before line ps (toks 1 l @ [59] # toks 0 r @ ts)" using a(1) by (simp add: parens_def)
  show "parseline n line ps = Inl NoFuel \<or> (\<exists>c' p. parseline n line ps = Inr (c', p) \<and> rel_cmd (names line) (LIST l r) c' \<and> before line p ts)"
  proof (cases n)
    case (Suc m)
    from reads_backD [OF assms(1) b, of m] consider "parsepipe m line ps = Inl NoFuel"
      | c1 p1 c2 p2 where "parsepipe m line ps = Inr (c1, p1)" "parsebacks line c1 p1 = (c2, p2)" "rel_cmd (names line) l c2" "before line p2 ([59] # toks 0 r @ ts)"
      by (auto simp: follow_def)
    then show ?thesis
    proof cases
      case 2
      note p = peek_Cons [OF 2(4), of "[59]", simplified]
      obtain q e p3 where g: "gettoken line (skip_ws line p2) = (59, q, e, p3)" "before line p3 (toks 0 r @ ts)" using gettoken_symbol [OF p(2)] by auto
      from assms(2) [unfolded reads_line_def, rule_format, OF g(2) a(2), of m] show ?thesis using Suc 2 p(1) g(1) by auto
    qed (simp add: Suc)
  qed simp
qed

lemma reads_all: "writable c \<Longrightarrow> reads_exec c \<and> reads_pipe c \<and> reads_back c \<and> reads_line c"
proof (induction c)
  case (EXEC ws)
  then have "reads_exec (EXEC ws)" by (simp add: reads_exec_EXEC)
  then show ?case by (simp add: reads_pipe_exec reads_back_pipe reads_line_back)
next
  case (REDIR c f mode fd)
  then have "reads_exec (REDIR c f mode fd)" by (simp add: reads_exec_REDIR)
  then show ?case by (simp add: reads_pipe_exec reads_back_pipe reads_line_back)
next
  case (PIPE l r)
  then have "reads_pipe (PIPE l r)" by (simp add: reads_pipe_PIPE)
  then have "reads_back (PIPE l r)" "reads_line (PIPE l r)" by (simp_all add: reads_back_pipe reads_line_back parens_def)
  then show ?case using \<open>reads_pipe (PIPE l r)\<close> by (simp add: reads_exec_block parens_def)
next
  case (LIST l r)
  then have "reads_line (LIST l r)" by (simp add: reads_line_LIST)
  then have "reads_exec (LIST l r)" by (simp add: reads_exec_block parens_def)
  then show ?case using \<open>reads_line (LIST l r)\<close> by (simp add: reads_pipe_exec reads_back_pipe parens_def)
next
  case (BACK c)
  then have "reads_back (BACK c)" by (simp add: reads_back_BACK)
  then have "reads_line (BACK c)" by (simp add: reads_line_back parens_def)
  then have "reads_exec (BACK c)" by (simp add: reads_exec_block parens_def)
  then show ?case using \<open>reads_line (BACK c)\<close> \<open>reads_back (BACK c)\<close> by (simp add: reads_pipe_exec parens_def)
qed

section \<open>The words as strings\<close>

lemma nth_upd: "xs[j := x] ! i = (if i = j \<and> j < length xs then x else xs ! i)"
  by (cases "j < length xs") (simp_all add: nth_list_update list_update_beyond)

lemma in_snd: "i \<in> snd ` S \<longleftrightarrow> (\<exists>q. (q, i) \<in> S)"
  by force

lemma nul_args: "length (foldl (\<lambda>buf (q, eq). buf[eq := 0]) buf args) = length buf"
  "i < length buf \<Longrightarrow> foldl (\<lambda>buf (q, eq). buf[eq := 0]) buf args ! i = (if i \<in> snd ` set args then 0 else buf ! i)"
  by (induction args arbitrary: buf) (auto simp: nth_upd in_snd)

lemma nulterminate_length [simp]: "length (nulterminate c buf) = length buf"
  by (induction c buf rule: nulterminate.induct) (simp_all add: nul_args)

lemma nulterminate_nth: "i < length buf \<Longrightarrow> nulterminate c buf ! i = (if i \<in> snd ` set_cmd c then 0 else buf ! i)"
  by (induction c buf rule: nulterminate.induct) (auto simp: nul_args nth_upd in_snd)

text \<open>The byte behind a word is not part of any word, so the zeros that \<open>nulterminate\<close> writes do not cut another word short.\<close>

lemma names_string:
  assumes "names line w r" "r \<in> set_cmd c'" "\<forall>r'\<in>set_cmd c'. \<exists>w'. names line w' r'"
  shows "takeWhile (\<lambda>x. x \<noteq> 0) (drop (fst r) (nulterminate c' (line @ [0]))) = w"
proof -
  let ?b = "nulterminate c' (line @ [0])"
  have n: "word w" "snd r = fst r + length w" "snd r \<le> length line" "take (length w) (drop (fst r) line) = w" using assms(1) by (simp_all add: names_def)
  have l: "line ! (fst r + k) = w ! k" if "k < length w" for k
    using that n(2,3) nth_take [of k "length w" "drop (fst r) line"] unfolding n(4) by simp
  have b: "?b ! (fst r + k) = w ! k" if k: "k < length w" for k
  proof -
    have "fst r + k \<notin> snd ` set_cmd c'"
    proof
      assume "fst r + k \<in> snd ` set_cmd c'"
      then obtain w' r' where "names line w' r'" "snd r' = fst r + k" using assms(3) by force
      then have "is_ws (line ! (fst r + k))" using k n(2,3) by (auto simp: names_def char_at_def)
      then show False using l [OF k] k n(1) by (auto simp: word_def)
    qed
    then show ?thesis using nulterminate_nth [of "fst r + k" "line @ [0]" c'] l [OF k] k n(2,3) by (simp add: nth_append)
  qed
  have z: "?b ! snd r = 0" using nulterminate_nth [of "snd r" "line @ [0]" c'] assms(2) n(3) by simp
  have d: "drop (snd r) ?b = 0 # drop (Suc (snd r)) ?b" using Cons_nth_drop_Suc [of "snd r" ?b] z n(3) by simp
  have "take (length w) (drop (fst r) ?b) = w" using n(2,3) b by (intro nth_equalityI) auto
  then have "drop (fst r) ?b = w @ drop (snd r) ?b" using append_take_drop_id [of "length w" "drop (fst r) ?b"] n(2) by (simp add: add.commute)
  then show ?thesis using d n(1) by (simp add: word_def takeWhile_append)
qed

lemma rel_cmd_map: "rel_cmd R c c' \<Longrightarrow> (\<And>w r. r \<in> set_cmd c' \<Longrightarrow> R w r \<Longrightarrow> f r = w) \<Longrightarrow> map_cmd f c' = c"
proof (induction rule: cmd.rel_induct)
  case (EXEC ws rs) then show ?case by (induction ws rs rule: list_all2_induct) auto
qed auto

lemma rel_cmd_set: "rel_cmd R c c' \<Longrightarrow> \<forall>r\<in>set_cmd c'. \<exists>w. R w r"
proof (induction rule: cmd.rel_induct)
  case (EXEC ws rs) then show ?case by (induction ws rs rule: list_all2_induct) auto
qed auto

lemma toks_token: "writable c \<Longrightarrow> t \<in> set (toks l c) \<Longrightarrow> token t"
proof (induction c arbitrary: l)
  case (REDIR c f mode fd)
  then show ?case using redir_tok_of(1) [of "(mode, fd)"] by (auto simp: token_def)
qed (auto simp: parens_def token_def split: if_splits)

section \<open>Properties\<close>

text \<open>C38. The parser of the shell always returns: for every line it gives a command or stops with a message, and never exceeds the depth of recursion of the model. It
  reads back every command, with arguments, redirections, pipes, lists, background and parentheses nested in any way, exactly as it was
  written out, and after \<open>nulterminate\<close> the pointers of the command are the strings of its words.\<close>

theorem parsecmd_reads_back:
  assumes "writable c"
  shows "parsecmd line \<noteq> Inl NoFuel \<and>
    (\<exists>c' buf. parsecmd (write_cmd c) = Inr (c', buf) \<and> map_cmd (\<lambda>(q, eq). takeWhile (\<lambda>x. x \<noteq> 0) (drop q buf)) c' = c)"
proof
  have nf: "parsecmd line \<noteq> Inl NoFuel" for line
    using parse_NoFuel(1) [of line 0 "4 * length line + 4"] by (auto simp: parsecmd_def bnd_eq_Inl split: prod.splits if_splits)
  then show "parsecmd line \<noteq> Inl NoFuel" .
  let ?l = "write_cmd c"
  have "before ?l 0 (toks 0 c @ [])" using toks_token [OF assms] by (intro before_spaced) (auto simp: write_cmd_def)
  then obtain c' p where r: "parseline (4 * length ?l + 4) ?l 0 = Inr (c', p)" "rel_cmd (names ?l) c c'" "before ?l p []"
    using reads_all [OF assms] parse_NoFuel(1) [of ?l 0 "4 * length ?l + 4"] unfolding reads_line_def follow_def by fastforce
  have "parsecmd ?l = Inr (c', nulterminate c' (?l @ [0]))" using r(1) peek_Nil [OF r(3), of "[]"] before_Nil [OF r(3)] by (simp add: parsecmd_def)
  moreover have "map_cmd (\<lambda>(q, eq). takeWhile (\<lambda>x. x \<noteq> 0) (drop q (nulterminate c' (?l @ [0])))) c' = c"
    using rel_cmd_map [OF r(2)] names_string [OF _ _ rel_cmd_set [OF r(2)]] by (simp add: case_prod_beta)
  ultimately show "\<exists>c' buf. parsecmd ?l = Inr (c', buf) \<and> map_cmd (\<lambda>(q, eq). takeWhile (\<lambda>x. x \<noteq> 0) (drop q buf)) c' = c" by blast
qed

theorem parsecmd_reads_back_witness:
  "\<exists>c' buf. parsecmd (write_cmd (PIPE (EXEC [[108, 115]]) (BACK (REDIR (EXEC [[119, 99]]) [102] (O_WRONLY OR O_CREATE OR O_TRUNC) 1)))) = Inr (c', buf) \<and>
     map_cmd (\<lambda>(q, eq). takeWhile (\<lambda>x. x \<noteq> 0) (drop q buf)) c' = PIPE (EXEC [[108, 115]]) (BACK (REDIR (EXEC [[119, 99]]) [102] (O_WRONLY OR O_CREATE OR O_TRUNC) 1))"
proof -
  let ?c = "PIPE (EXEC [[108, 115]]) (BACK (REDIR (EXEC [[119, 99]]) [102] (O_WRONLY OR O_CREATE OR O_TRUNC) 1))"
  have "writable ?c" by (simp add: word_def is_ws_iff is_symbol_iff redir_of_def)
  from parsecmd_reads_back [OF this] show ?thesis by blast
qed

end
