(* ===== verification/Spec2Isabelle.thy ===== *)
theory Spec2Isabelle
  imports Sleep_Wakeup Boot Scheduling Path Printing Console_Rules Faults Directory Pipe_Rules Descriptors Grep Shell_Rules
begin

text \<open>
  A verification development of xv6 for RISC-V with copy-on-write fork: the kernel under \<open>src/kernel\<close>, and of the user programs under \<open>src/user\<close> the C
  library, grep and the parser of the shell.

  \<^bold>\<open>How the program is modelled.\<close> The kernel is a set of functions on one state. The state is a record that each component extends with its own fields, in the
  order in which the components build on each other: \<open>lockst\<close> (the spinlocks the running thread holds), \<open>procst\<close> (the process table), \<open>slst\<close> (sleep locks),
  \<open>kmst\<close> (physical memory, the free list, the reference counts of pages), \<open>vmst\<close> (the kernel's page table), \<open>dkst\<close> (the virtio queue, the device, the medium, the
  buffers), \<open>logst\<close>, \<open>fsst\<close> (super block and inode cache), \<open>consst\<close> (UART and console), \<open>filest\<close> (pipes, open files, device switch), \<open>kst\<close> (the registers of the
  hart), \<open>trapst\<close> (interrupt controller) and \<open>bootst\<close>. An operation is polymorphic in the extension, so it applies to the state of every component above it.

  A function of the kernel returns \<open>Inr\<close> of its result and the new state, or \<open>Inl\<close> of why it did not return: \<open>Panic msg\<close>, \<open>Sleep chan\<close> where it gives up the processor
  and waits, \<open>Undef\<close> where C leaves the behaviour open, and \<open>NoFuel\<close>. \<open>bnd\<close> is the sequencing of the source. Integers have the width of the source where it
  matters (\<open>u8\<close>, \<open>u16\<close>, \<open>u32\<close>, \<open>u64\<close> are words). Memory is a function from 64-bit addresses to bytes; page tables, free pages and trapframes live in it. A kernel object
  that the source reaches by a pointer into an array is the index; a pointer that may be null is an option. Disk blocks are lists of bytes.

  \<^bold>\<open>The theories.\<close>
  \<^item> \<open>Xv6_Prelude\<close>, \<open>Riscv\<close>, \<open>Bytes\<close>: types, results, little-endian words in memory and in blocks; \<open>riscv.h\<close> and \<open>memlayout.h\<close>. \<open>KString\<close>: \<open>string.c\<close>, each loop with its closed form.
  \<^item> \<open>Spinlock\<close>: \<open>spinlock.c\<close> on a machine with several harts, and the atomic steps of \<open>acquire\<close> and \<open>release\<close> as a step relation; mutual exclusion over all interleavings,
    and the nesting of \<open>push_off\<close>/\<open>pop_off\<close>. \<open>Proc_Table\<close>, \<open>Sleep_Wakeup\<close>: the table of \<open>proc.c\<close>, \<open>sleep\<close>, \<open>wakeup\<close>, \<open>kill\<close>, \<open>sched\<close>; no wakeup is lost in any interleaving.
    \<open>Sleeplock\<close>: \<open>sleeplock.c\<close>.
  \<^item> \<open>Kalloc\<close>: \<open>kalloc.c\<close> with the reference counts of pages. The locale \<open>page_allocator\<close> states what the rest of the kernel relies on and is interpreted on the allocator.
  \<^item> \<open>Page_Table\<close>, \<open>Vm\<close>, \<open>Uvm\<close>, \<open>Cow\<close>, \<open>Copyio\<close>: \<open>vm.c\<close> and the copy-on-write code of \<open>trap.c\<close>. \<open>walk\<close> is the Sv39 lookup; mapping and unmapping are exact; \<open>uvmalloc\<close>,
    \<open>uvmdealloc\<close>, \<open>freewalk\<close>; the invariant \<open>spaces_inv\<close> of address spaces that share pages, and that copy-on-write fork is indistinguishable from a fork that copies;
    \<open>copyin\<close>, \<open>copyout\<close>, \<open>copyinstr\<close>.
  \<^item> \<open>Virtio\<close>, \<open>Bio\<close>, \<open>Bcache_Rules\<close>: \<open>virtio_disk.c\<close> and \<open>bio.c\<close>. The device is a field of the state with the documented behaviour of a virtio block device as hypothesis
    \<open>virtio_blk\<close>. The linked list of buffers implements the order of use, and \<open>bview\<close>, the contents of the disk as the cache shows them, is kept.
  \<^item> \<open>Log\<close>: \<open>log.c\<close>. The history of the medium is part of the state; recovery from every medium in it gives all or nothing of a transaction.
  \<^item> \<open>Fs\<close>, \<open>Inode_Cache\<close>, \<open>Path\<close>: \<open>fs.c\<close>; one slot per cached inode; path elements. \<open>Blocks\<close> (allocation on the bitmap), \<open>File_Map\<close> (\<open>bmap\<close>) and \<open>File_Content\<close> prove it
    on the contents of the disk: a file is a sequence of bytes that \<open>readi\<close> and \<open>writei\<close> read and replace, and no other file changes. \<open>Directory\<close>: a
    directory is a list of entries that \<open>dirlookup\<close> searches and \<open>dirlink\<close> extends.
  \<^item> \<open>Uart\<close>, \<open>Printf\<close>, \<open>Console\<close>, \<open>Pipe\<close> and the proofs in \<open>Printing\<close>, \<open>Ring\<close>, \<open>Console_Rules\<close>, \<open>Pipe_Rules\<close>: \<open>uart.c\<close>, \<open>printf.c\<close>, \<open>console.c\<close>, \<open>pipe.c\<close>. The locale \<open>ring\<close> is the contract of a
    ring buffer with free-running indices, interpreted on the transmit buffer of the UART and on pipes.
  \<^item> \<open>File\<close>, \<open>Process\<close>, \<open>Exec\<close>, \<open>Sysproc\<close>, \<open>Sysfile\<close>, \<open>Trap\<close>, \<open>Boot\<close>: \<open>file.c\<close>, the life cycle of processes and the scheduler of \<open>proc.c\<close>, \<open>exec.c\<close>, \<open>syscall.c\<close>, \<open>sysproc.c\<close>,
    \<open>sysfile.c\<close>, \<open>trap.c\<close>, \<open>plic.c\<close>, \<open>start.c\<close>, \<open>main.c\<close>. Proofs: \<open>Scheduling\<close> (fairness of a round), \<open>Descriptors\<close> (typing of file descriptors), \<open>Faults\<close> (page faults of user
    programs). \<open>Examples\<close> holds concrete states.
  \<^item> \<open>Ulib\<close>, \<open>Grep\<close>, \<open>Shell\<close>, \<open>Shell_Rules\<close>: \<open>ulib.c\<close>, \<open>printf.c\<close>, \<open>grep.c\<close> and \<open>sh.c\<close> of the user programs.

  \<^bold>\<open>Concurrency.\<close> The functions are sequential: they model one thread, from its point of view, between its sleeps. Where the code's correctness is about interleavings
  (spinlocks, sleep and wakeup, a reader and a writer of a pipe) there is a step relation whose steps are the atomic steps or critical sections of the source,
  and the theorems hold in every reachable state.

  \<^bold>\<open>Bounds.\<close> \<open>freewalk\<close> recurses over a depth of at most three levels, the depth of a page table, and \<open>uvmfree\<close> starts it with three. The walks of \<open>bget\<close> through the list of buffers
  have one step more than there are buffers, and \<open>uartstart\<close> as many rounds as its ring has places, one of which is always empty; the proofs show that they end before. \<open>NoFuel\<close> also stands for a loop that does not
  end: waiting for a UART that never becomes idle, a hart that waits for the first one to boot, and the loop of a kernel that has panicked. A request to the disk sleeps until the
  device has completed it. \<open>parsecmd\<close> of the shell starts with a depth of four for each byte of the line and four more, which is proved to suffice. Every other loop has a
  termination proof. The theorems on writes to files and directories ask for room in the log, six blocks for each block of the file that a write touches and one for the inode,
  and for two free blocks on the disk for each of them: what \<open>bmap\<close> may need at most.

  \<^bold>\<open>Not modelled.\<close> The assembly files (\<open>entry.S\<close>, \<open>swtch.S\<close>, \<open>trampoline.S\<close>, \<open>kernelvec.S\<close>, \<open>initcode.S\<close>): a context switch appears as the point where an operation sleeps or is run by the
  scheduler. The TLB (\<open>sfence_vma\<close>) has no state. \<open>ramdisk.c\<close> does not compile against \<open>struct buf\<close> and is not linked. Of the user programs, the test programs and the small
  tools only issue system calls; their correctness is that of the calls. \<open>mkfs.c\<close> runs on the build host, on the host's file system. The
  allocator of \<open>umalloc.c\<close> has no user among the modelled programs: the parser of the shell builds its commands as values.
\<close>

end
